(* ===== verification/Tradr_Prelude.thy ===== *)
theory Tradr_Prelude
  imports Main "HOL-Library.Word"
begin

text \<open>
  What every other theory of the development shares: the machine integers the Rust code
  uses, its \<open>Result\<close> type, the arithmetic of the standard library whose overflow
  behaviour matters (\<open>checked_add\<close>, \<open>checked_mul\<close>, \<open>saturating_add\<close>,
  \<open>saturating_sub\<close>, \<open>div_ceil\<close>), and generic lemmas on lists. The collection
  \<open>rust_arith\<close> holds the facts that move word arithmetic to the naturals.
\<close>

named_theorems rust_arith \<open>word arithmetic of the standard library, read in the naturals\<close>
named_theorems model_defs \<open>definitions a component's proofs unfold\<close>

section \<open>Machine integers and results\<close>

type_synonym u8 = "8 word"
type_synonym u16 = "16 word"
type_synonym u32 = "32 word"
type_synonym u64 = "64 word"

text \<open>A signed 64-bit integer is the same word, read by \<open>sint\<close>.\<close>

type_synonym i64 = "64 word"
type_synonym i32 = "32 word"

datatype ('a, 'e) result = Ok 'a | Err 'e

fun is_ok :: "('a, 'e) result \<Rightarrow> bool" where
  "is_ok (Ok _) = True"
| "is_ok (Err _) = False"

fun map_err :: "('e \<Rightarrow> 'f) \<Rightarrow> ('a, 'e) result \<Rightarrow> ('a, 'f) result" where
  "map_err f (Ok x) = Ok x"
| "map_err f (Err e) = Err (f e)"

fun ok_or :: "'e \<Rightarrow> 'a option \<Rightarrow> ('a, 'e) result" where
  "ok_or e (Some x) = Ok x"
| "ok_or e None = Err e"

lemma is_ok_iff: "is_ok r \<longleftrightarrow> (\<exists>x. r = Ok x)"
  by (cases r) auto

lemma map_err_eq_Ok [simp]: "map_err f r = Ok x \<longleftrightarrow> r = Ok x"
  by (cases r) auto

lemma ok_or_eq_Ok [simp]: "ok_or e r = Ok x \<longleftrightarrow> r = Some x"
  by (cases r) auto

text \<open>The operator \<open>?\<close> between two fallible steps.\<close>

fun try_then :: "('a, 'e) result \<Rightarrow> ('a \<Rightarrow> ('b, 'e) result) \<Rightarrow> ('b, 'e) result" where
  "try_then (Ok x) f = f x"
| "try_then (Err e) f = Err e"

lemma try_then_Ok [simp]: "try_then r f = Ok y \<longleftrightarrow> (\<exists>x. r = Ok x \<and> f x = Ok y)"
  by (cases r) auto

lemma try_then_cong [fundef_cong]:
  "r = r' \<Longrightarrow> (\<And>x. r' = Ok x \<Longrightarrow> f x = g x) \<Longrightarrow> try_then r f = try_then r' g"
  by (cases r) auto

lemma try_then_assoc: "try_then (try_then r f) g = try_then r (\<lambda>x. try_then (f x) g)"
  by (cases r) simp_all

lemma try_then_id: "try_then r (\<lambda>x. Ok x) = r"
  by (cases r) simp_all

section \<open>Standard-library arithmetic\<close>

definition checked_add :: "'a::len word \<Rightarrow> 'a word \<Rightarrow> 'a word option" where
  "checked_add a b = (if unat a + unat b < 2 ^ LENGTH('a) then Some (a + b) else None)"

definition checked_mul :: "'a::len word \<Rightarrow> 'a word \<Rightarrow> 'a word option" where
  "checked_mul a b = (if unat a * unat b < 2 ^ LENGTH('a) then Some (a * b) else None)"

definition saturating_add :: "'a::len word \<Rightarrow> 'a word \<Rightarrow> 'a word" where
  "saturating_add a b = (if unat a + unat b < 2 ^ LENGTH('a) then a + b else - 1)"

definition saturating_sub :: "'a::len word \<Rightarrow> 'a word \<Rightarrow> 'a word" where
  "saturating_sub a b = (if b \<le> a then a - b else 0)"

definition div_ceil :: "'a::len word \<Rightarrow> 'a word \<Rightarrow> 'a word" where
  "div_ceil a b = (if a mod b > 0 then a div b + 1 else a div b)"

lemma unat_less: "unat a < 2 ^ LENGTH('a)" for a :: "'a::len word"
  by (rule unsigned_less)

text \<open>Widening (\<open>as\<close> to a wider type) keeps the value.\<close>

lemma unat_ucast_widen [rust_arith]:
  fixes a :: "'a::len word"
  assumes "LENGTH('a) \<le> LENGTH('b::len)"
  shows "unat (ucast a :: 'b word) = unat a"
proof -
  have "unat a < 2 ^ LENGTH('b)"
    using unat_less [of a] power_increasing [OF assms, of "2 :: nat"] by linarith
  then show ?thesis by (simp add: unsigned_ucast_eq take_bit_nat_eq_self)
qed

lemma unat_add_1:
  fixes a b :: "'a::len word"
  assumes "a < b"
  shows "unat (a + 1) = unat a + 1"
proof -
  have "unat a + 1 < 2 ^ LENGTH('a)"
    using assms unat_less [of b] unfolding word_less_nat_alt by linarith
  then show ?thesis by (simp add: unat_word_ariths)
qed

lemma unat_image_below: "unat ` {i. i < n} = {..<unat n}" for n :: "'a::len word"
proof (intro equalityI subsetI)
  fix k assume "k \<in> {..<unat n}"
  then have k: "k < unat n" by simp
  then have "unat (of_nat k :: 'a word) = k"
    using less_trans [OF k unat_less] by (simp add: unat_of_nat)
  with k show "k \<in> unat ` {i. i < n}"
    by (intro image_eqI [of _ _ "of_nat k"]) (auto simp: word_less_nat_alt)
qed (auto simp: word_less_nat_alt)

lemma card_words_below: "card {i. i < n} = unat n" for n :: "'a::len word"
proof -
  have "card (unat ` {i. i < n}) = card {i. i < n}"
    by (intro card_image inj_onI) (simp add: word_unat_eq_iff)
  then show ?thesis by (simp add: unat_image_below)
qed

lemma sum_words_below:
  "(\<Sum>i | i < n. f i) = (\<Sum>k < unat n. f (of_nat k))" for n :: "'a::len word"
proof -
  have "inj_on unat {i. i < n}" by (intro inj_onI) (simp add: word_unat_eq_iff)
  then have "(\<Sum>k \<in> unat ` {i. i < n}. f (of_nat k)) = (\<Sum>i | i < n. f (of_nat (unat i)))"
    by (simp add: sum.reindex)
  then show ?thesis by (simp add: unat_image_below)
qed

lemma checked_add_Some [rust_arith]:
  "checked_add a b = Some c \<longleftrightarrow> unat c = unat a + unat b"
  for a b c :: "'a::len word"
  by (auto simp: checked_add_def word_unat_eq_iff unat_word_ariths) (metis unat_less)

lemma checked_add_None [rust_arith]:
  "checked_add a b = None \<longleftrightarrow> 2 ^ LENGTH('a) \<le> unat a + unat b"
  for a b :: "'a::len word"
  by (auto simp: checked_add_def)

lemma checked_mul_Some [rust_arith]:
  "checked_mul a b = Some c \<longleftrightarrow> unat c = unat a * unat b"
  for a b c :: "'a::len word"
  by (auto simp: checked_mul_def word_unat_eq_iff unat_word_ariths) (metis unat_less)

lemma checked_mul_None [rust_arith]:
  "checked_mul a b = None \<longleftrightarrow> 2 ^ LENGTH('a) \<le> unat a * unat b"
  for a b :: "'a::len word"
  by (auto simp: checked_mul_def)

lemma unat_saturating_add [rust_arith]:
  "unat (saturating_add a b) = min (unat a + unat b) (2 ^ LENGTH('a) - 1)"
  for a b :: "'a::len word"
  by (auto simp: saturating_add_def unat_word_ariths unsigned_minus_1_eq_mask mask_eq_exp_minus_1)

lemma unat_saturating_sub [rust_arith]: "unat (saturating_sub a b) = unat a - unat b"
  by (auto simp: saturating_sub_def word_le_nat_alt unat_sub)

lemma unat_div_ceil [rust_arith]:
  fixes a b :: "'a::len word"
  assumes "2 \<le> unat b"
  shows "unat (div_ceil a b) = (unat a + unat b - 1) div unat b"
proof -
  define m q r where "m = unat b" and "q = unat a div m" and "r = unat a mod m"
  have m: "2 \<le> m" and a: "unat a = m * q + r" and r: "r < m"
    using assms by (auto simp: m_def q_def r_def)
  have "unat a + m - 1 = m * q + (m - 1) + r" using m by (simp add: a)
  show ?thesis
  proof (cases "r = 0")
    case True
    have "(m * q + (m - 1)) div m = q + (m - 1) div m" using m by (intro div_mult_self4) simp
    then show ?thesis using True m a
      by (simp add: div_ceil_def word_less_nat_alt unat_mod unat_div flip: m_def q_def r_def)
  next
    case False
    have "2 * q \<le> m * q" using m by simp
    then have "q + 1 < 2 ^ LENGTH('a)"
      using False unat_less [of a] a by linarith
    then have "unat (a div b + 1) = q + 1"
      by (simp add: unat_word_ariths unat_div flip: m_def q_def)
    moreover have "(m * (q + 1) + (r - 1)) div m = q + 1 + (r - 1) div m"
      using m by (intro div_mult_self4) simp
    moreover have "unat a + m - 1 = m * (q + 1) + (r - 1)"
      using False by (simp add: a)
    moreover have "(r - 1) div m = 0" using r by simp
    ultimately show ?thesis using False
      by (simp add: div_ceil_def word_less_nat_alt unat_mod flip: m_def r_def)
  qed
qed

section \<open>Vectors\<close>

text \<open>\<open>iter().position(..)\<close> and \<open>Vec::remove\<close> of a valid index.\<close>

fun position :: "('a \<Rightarrow> bool) \<Rightarrow> 'a list \<Rightarrow> nat option" where
  "position P [] = None"
| "position P (x # xs) = (if P x then Some 0 else map_option Suc (position P xs))"

definition remove_at :: "nat \<Rightarrow> 'a list \<Rightarrow> 'a list" where
  "remove_at i xs = take i xs @ drop (Suc i) xs"

lemma position_None: "position P xs = None \<longleftrightarrow> (\<forall>x \<in> set xs. \<not> P x)"
  by (induction xs) auto

lemma position_Some:
  "position P xs = Some i \<Longrightarrow> i < length xs \<and> P (xs ! i) \<and> (\<forall>j < i. \<not> P (xs ! j))"
  by (induction xs arbitrary: i) (auto split: if_splits simp: less_Suc_eq_0_disj nth_Cons')

lemma remove_at_key:
  assumes "distinct (map f xs)" and "position (\<lambda>x. f x = k) xs = Some i"
  shows "remove_at i xs = filter (\<lambda>x. f x \<noteq> k) xs"
  using assms
proof (induction xs arbitrary: i)
  case (Cons x xs)
  show ?case
  proof (cases "f x = k")
    case True
    then have "filter (\<lambda>y. f y \<noteq> k) xs = xs"
      using Cons.prems by (intro filter_True) (auto simp: image_iff)
    with True Cons.prems show ?thesis by (simp add: remove_at_def)
  next
    case False
    then show ?thesis using Cons by (auto simp: remove_at_def)
  qed
qed simp

lemma update_key:
  assumes "distinct (map f xs)" and "position (\<lambda>x. f x = k) xs = Some i"
  shows "xs[i := g (xs ! i)] = map (\<lambda>x. if f x = k then g x else x) xs"
  using assms
proof (induction xs arbitrary: i)
  case (Cons x xs)
  show ?case
  proof (cases "f x = k")
    case True
    then have "map (\<lambda>y. if f y = k then g y else y) xs = xs"
      using Cons.prems by (intro map_idI) (auto simp: image_iff)
    with True Cons.prems show ?thesis by simp
  next
    case False
    then show ?thesis using Cons by auto
  qed
qed simp

end
