(* ===== verification/Rust_Str.thy ===== *)
theory Rust_Str
  imports Tradr_Prelude
begin

text \<open>
  Rust strings. A \<open>str\<close> is a sequence of Unicode scalar values; its bytes are their
  UTF-8 encoding, and \<open>len()\<close> counts bytes while \<open>chars()\<close> iterates over scalar
  values. Both views are needed: the validators of the code bound a string in bytes and
  search it by character, and the identifier parsers index the bytes and are refused a range
  that does not fall on a character boundary. The theory also holds \<open>split\<close>, the
  character classes the validators use, and the two-digit hex forms.
\<close>

section \<open>Scalar values and UTF-8\<close>

type_synonym rchar = nat
type_synonym rstr = "rchar list"

text \<open>A string literal of the source.\<close>

definition lit :: "string \<Rightarrow> rstr" where
  "lit s = map of_char s"

lemma lit_simps [simp]: "lit [] = []" "lit (c # s) = of_char c # lit s"
  by (simp_all add: lit_def)

definition utf8_char :: "rchar \<Rightarrow> u8 list" where
  "utf8_char c =
     (if c < 128 then [of_nat c]
      else if c < 2048 then [of_nat (192 + c div 64 mod 32), of_nat (128 + c mod 64)]
      else if c < 65536 then
        [of_nat (224 + c div 4096 mod 16), of_nat (128 + c div 64 mod 64), of_nat (128 + c mod 64)]
      else
        [of_nat (240 + c div 262144 mod 8), of_nat (128 + c div 4096 mod 64),
         of_nat (128 + c div 64 mod 64), of_nat (128 + c mod 64)])"

definition str_bytes :: "rstr \<Rightarrow> u8 list" where
  "str_bytes s = concat (map utf8_char s)"

definition str_len :: "rstr \<Rightarrow> nat" where
  "str_len s = length (str_bytes s)"

lemma str_bytes_simps [simp]:
  "str_bytes [] = []" "str_bytes (c # s) = utf8_char c @ str_bytes s"
  "str_bytes (s @ t) = str_bytes s @ str_bytes t"
  by (simp_all add: str_bytes_def)

lemma str_len_simps [simp]:
  "str_len [] = 0" "str_len (c # s) = length (utf8_char c) + str_len s"
  "str_len (s @ t) = str_len s + str_len t"
  by (simp_all add: str_len_def)

lemma utf8_char_nonempty [simp]: "utf8_char c \<noteq> []"
  by (simp add: utf8_char_def)

lemma utf8_char_ascii [simp]: "c < 128 \<Longrightarrow> utf8_char c = [of_nat c]"
  by (simp add: utf8_char_def)

lemma str_len_eq_0 [simp]: "str_len s = 0 \<longleftrightarrow> s = []"
  by (cases s) auto

lemma length_le_str_len: "length s \<le> str_len s"
proof (induction s)
  case (Cons c s)
  have "1 \<le> length (utf8_char c)" by (simp add: Suc_leI)
  with Cons show ?case by simp
qed simp

text \<open>Every byte of the encoding of a non-ASCII character is at least 128.\<close>

lemma utf8_char_high: "128 \<le> c \<Longrightarrow> b \<in> set (utf8_char c) \<Longrightarrow> 128 \<le> unat b"
proof -
  have *: "128 \<le> unat (of_nat (n + m) :: u8)" if "128 \<le> n" "n + m < 256" for n m
    using that by (simp add: unat_of_nat del: of_nat_add)
  have m: "x mod 64 < 64" "x mod 32 < 32" "x mod 16 < 16" "x mod 8 < 8" for x :: nat
    by simp_all
  assume "128 \<le> c" and "b \<in> set (utf8_char c)"
  then show ?thesis
    using m [of c] m [of "c div 64"] m [of "c div 4096"] m [of "c div 262144"]
    by (auto simp: utf8_char_def simp del: of_nat_add split: if_splits intro!: *)
qed

lemma ascii_bytes_chars:
  assumes "\<forall>b \<in> set (str_bytes s). unat b < 128"
  shows "(\<forall>c \<in> set s. c < 128) \<and> s = map unat (str_bytes s)"
  using assms
proof (induction s)
  case (Cons c s)
  have "c < 128"
  proof (rule ccontr)
    assume "\<not> c < 128"
    moreover have "hd (utf8_char c) \<in> set (utf8_char c)" by simp
    ultimately have "128 \<le> unat (hd (utf8_char c))" using utf8_char_high by (meson not_le)
    moreover have "hd (utf8_char c) \<in> set (str_bytes (c # s))" by simp
    ultimately show False using Cons.prems by (meson not_le)
  qed
  then show ?case using Cons by (auto simp: unat_of_nat)
qed simp

lemma ascii_str_bytes: "\<forall>c \<in> set s. c < 128 \<Longrightarrow> str_bytes s = map of_nat s"
  by (induction s) auto

lemma ascii_str_len: "\<forall>c \<in> set s. c < 128 \<Longrightarrow> str_len s = length s"
  by (simp add: str_len_def ascii_str_bytes)

text \<open>\<open>str::get\<close> of a byte range: refused off a character boundary.\<close>

definition is_char_boundary :: "u8 list \<Rightarrow> nat \<Rightarrow> bool" where
  "is_char_boundary bs i \<longleftrightarrow>
     i = 0 \<or> i = length bs \<or> (i < length bs \<and> (unat (bs ! i) < 128 \<or> 192 \<le> unat (bs ! i)))"

definition str_get :: "u8 list \<Rightarrow> nat \<Rightarrow> nat \<Rightarrow> u8 list option" where
  "str_get bs a b =
     (if a \<le> b \<and> b \<le> length bs \<and> is_char_boundary bs a \<and> is_char_boundary bs b
      then Some (take (b - a) (drop a bs)) else None)"

section \<open>Character classes\<close>

text \<open>\<open>char::is_control\<close>: the category Cc, which is U+0000--U+001F and U+007F--U+009F.\<close>

definition is_control :: "rchar \<Rightarrow> bool" where
  "is_control c \<longleftrightarrow> c < 32 \<or> (127 \<le> c \<and> c < 160)"

definition is_ascii_alphabetic :: "rchar \<Rightarrow> bool" where
  "is_ascii_alphabetic c \<longleftrightarrow> (65 \<le> c \<and> c \<le> 90) \<or> (97 \<le> c \<and> c \<le> 122)"

definition is_ascii_lowercase :: "rchar \<Rightarrow> bool" where
  "is_ascii_lowercase c \<longleftrightarrow> 97 \<le> c \<and> c \<le> 122"

definition is_ascii_digit :: "rchar \<Rightarrow> bool" where
  "is_ascii_digit c \<longleftrightarrow> 48 \<le> c \<and> c \<le> 57"

definition to_ascii_lowercase :: "rstr \<Rightarrow> rstr" where
  "to_ascii_lowercase s = map (\<lambda>c. if 65 \<le> c \<and> c \<le> 90 then c + 32 else c) s"

lemma to_ascii_lowercase_append [simp]:
  "to_ascii_lowercase (s @ t) = to_ascii_lowercase s @ to_ascii_lowercase t"
  by (simp add: to_ascii_lowercase_def)

section \<open>Splitting\<close>

text \<open>\<open>str::split\<close> on one character: \<open>n\<close> separators give \<open>n + 1\<close> pieces.\<close>

fun split_on :: "'a \<Rightarrow> 'a list \<Rightarrow> 'a list list" where
  "split_on sep [] = [[]]"
| "split_on sep (x # xs) =
     (if x = sep then [] # split_on sep xs
      else (case split_on sep xs of [] \<Rightarrow> [[x]] | p # ps \<Rightarrow> (x # p) # ps))"

fun join_with :: "'a \<Rightarrow> 'a list list \<Rightarrow> 'a list" where
  "join_with sep [] = []"
| "join_with sep [p] = p"
| "join_with sep (p # q # ps) = p @ sep # join_with sep (q # ps)"

lemma split_on_nonempty [simp]: "split_on sep xs \<noteq> []"
  by (induction xs) (auto split: list.splits)

lemma join_split: "join_with sep (split_on sep xs) = xs"
proof (induction xs)
  case (Cons x xs)
  then show ?case
    by (cases "split_on sep xs" rule: remdups_adj.cases) (auto split: list.splits)
qed simp

lemma split_on_no_sep: "sep \<notin> set xs \<Longrightarrow> split_on sep xs = [xs]"
  by (induction xs) auto

lemma split_on_append_sep:
  "sep \<notin> set p \<Longrightarrow> split_on sep (p @ sep # xs) = p # split_on sep xs"
  by (induction p) auto

lemma split_join:
  "ps \<noteq> [] \<Longrightarrow> \<forall>p \<in> set ps. sep \<notin> set p \<Longrightarrow> split_on sep (join_with sep ps) = ps"
  by (induction sep ps rule: join_with.induct) (auto simp: split_on_no_sep split_on_append_sep)

lemma split_on_pieces: "p \<in> set (split_on sep xs) \<Longrightarrow> sep \<notin> set p"
  by (induction xs arbitrary: p) (auto split: if_splits list.splits)

lemma split_on_set: "p \<in> set (split_on sep xs) \<Longrightarrow> set p \<subseteq> set xs"
proof (induction xs arbitrary: p)
  case (Cons x xs)
  then show ?case
    by (cases "split_on sep xs") (fastforce split: if_splits)+
qed simp

section \<open>Hex\<close>

definition is_ascii_hexdigit :: "u8 \<Rightarrow> bool" where
  "is_ascii_hexdigit b \<longleftrightarrow>
     (let n = unat b in (48 \<le> n \<and> n \<le> 57) \<or> (97 \<le> n \<and> n \<le> 102) \<or> (65 \<le> n \<and> n \<le> 70))"

definition hex_val :: "u8 \<Rightarrow> nat" where
  "hex_val b =
     (let n = unat b in if n \<le> 57 then n - 48 else if n \<le> 70 then n - 55 else n - 87)"

definition hex_digit :: "nat \<Rightarrow> rchar" where
  "hex_digit d = (if d < 10 then 48 + d else 87 + d)"

text \<open>The format \<open>{:02x}\<close> of one byte.\<close>

definition hex2 :: "u8 \<Rightarrow> rstr" where
  "hex2 b = [hex_digit (unat b div 16), hex_digit (unat b mod 16)]"

lemma hex_val_less: "is_ascii_hexdigit b \<Longrightarrow> hex_val b < 16"
  by (auto simp: is_ascii_hexdigit_def hex_val_def Let_def)

lemma hex_digit_val:
  "is_ascii_hexdigit b \<Longrightarrow> [hex_digit (hex_val b)] = to_ascii_lowercase [unat b]"
  by (auto simp: is_ascii_hexdigit_def hex_val_def hex_digit_def to_ascii_lowercase_def Let_def)

lemma hex_digit_byte:
  assumes "d < 16"
  shows "is_ascii_hexdigit (of_nat (hex_digit d))" and "hex_val (of_nat (hex_digit d)) = d"
    and "hex_digit d < 128"
  using assms by (auto simp: is_ascii_hexdigit_def hex_val_def hex_digit_def Let_def unat_of_nat)

lemma hex_digit_bytes_div_mod [simp]:
  "hex_digit (unat b div 16) < 128" "hex_digit (unat b mod 16) < 128" for b :: u8
  using unat_less [of b] by (auto intro!: hex_digit_byte)

end
