(* ===== verification/Identifiers.thy ===== *)
theory Identifiers
  imports Rust_Str "HOL-Library.List_Lexorder"
begin

text \<open>
  The textual identifiers of \<open>tradr-core\<close>: \<open>DeviceId\<close>, \<open>LinkId\<close> and
  \<open>InviteId\<close> (32 hex digits), \<open>TransferId\<close> and \<open>ShareId\<close> (canonical
  UUIDv7) and \<open>ItemId\<close> (an opaque token). Each type has a parser and a rendering; the
  locale \<open>text_id\<close> states the contract they all promise, and every type is an
  interpretation of it.
\<close>

unbundle bit_operations_syntax

section \<open>The contract of a textual identifier\<close>

locale text_id =
  fixes parse :: "rstr \<Rightarrow> ('a, 'e) result"
    and disp :: "'a \<Rightarrow> rstr"
    and valid :: "'a \<Rightarrow> bool"
  assumes parse_disp: "valid x \<Longrightarrow> parse (disp x) = Ok x"
    and disp_parse: "parse s = Ok x \<Longrightarrow> valid x \<and> disp x = to_ascii_lowercase s"
begin

lemma disp_inject: "valid x \<Longrightarrow> valid y \<Longrightarrow> disp x = disp y \<longleftrightarrow> x = y"
  by (metis parse_disp result.inject(1))

lemma parse_same_iff:
  assumes "parse s = Ok x" and "parse t = Ok y"
  shows "x = y \<longleftrightarrow> to_ascii_lowercase s = to_ascii_lowercase t"
  using assms disp_inject disp_parse by metis

lemma parse_lowercase: "parse s = Ok x \<Longrightarrow> parse (to_ascii_lowercase s) = Ok x"
  using disp_parse parse_disp by metis

end

section \<open>Hex pairs\<close>

definition hex_byte :: "u8 list \<Rightarrow> u8 option" where
  "hex_byte bytes =
     (if length bytes \<noteq> 2 \<or> \<not> is_ascii_hexdigit (bytes ! 0) \<or> \<not> is_ascii_hexdigit (bytes ! 1)
      then None
      else Some (of_nat (16 * hex_val (bytes ! 0) + hex_val (bytes ! 1))))"

text \<open>The loop that fills an array, one hex pair per byte.\<close>

fun parse_pairs :: "u8 list \<Rightarrow> nat \<Rightarrow> nat \<Rightarrow> u8 list option" where
  "parse_pairs bs i 0 = Some []"
| "parse_pairs bs i (Suc k) =
     (case str_get bs (i * 2) (i * 2 + 2) of
        None \<Rightarrow> None
      | Some pair \<Rightarrow>
          (case hex_byte pair of
             None \<Rightarrow> None
           | Some b \<Rightarrow> map_option ((#) b) (parse_pairs bs (Suc i) k)))"

lemma hex_byte_Some:
  assumes "hex_byte p = Some b"
  shows "\<exists>x y. p = [x, y] \<and> is_ascii_hexdigit x \<and> is_ascii_hexdigit y \<and>
    hex2 b = to_ascii_lowercase [unat x, unat y]"
proof -
  from assms obtain x y where p: "p = [x, y]" and h: "is_ascii_hexdigit x" "is_ascii_hexdigit y"
    and b: "b = of_nat (16 * hex_val x + hex_val y)"
    by (auto simp: hex_byte_def length_Suc_conv numeral_2_eq_2 split: if_splits)
  have "unat b = 16 * hex_val x + hex_val y"
    using h [THEN hex_val_less] by (simp add: b unat_of_nat del: of_nat_add of_nat_mult)
  with h [THEN hex_val_less] have "hex2 b = [hex_digit (hex_val x)] @ [hex_digit (hex_val y)]"
    by (simp add: hex2_def)
  with h have "hex2 b = to_ascii_lowercase [unat x, unat y]"
    by (simp only: hex_digit_val) (simp add: to_ascii_lowercase_def)
  with p h show ?thesis by blast
qed

lemma hex_byte_hex2: "hex_byte (map of_nat (hex2 b)) = Some b"
proof -
  have d: "unat b div 16 < 16" "unat b mod 16 < 16"
    using unat_less [of b] by auto
  have "16 * (unat b div 16) + unat b mod 16 = unat b" by simp
  then show ?thesis
    using hex_digit_byte [OF d(1)] hex_digit_byte [OF d(2)]
    by (simp add: hex_byte_def hex2_def del: of_nat_add of_nat_mult)
qed

lemma hexdigit_ascii: "is_ascii_hexdigit b \<Longrightarrow> unat b < 128"
  by (auto simp: is_ascii_hexdigit_def Let_def)

lemma hex_bytes_ascii: "c \<in> set (concat (map hex2 bs)) \<Longrightarrow> c < 128"
  by (auto simp: hex2_def)

lemma unat_of_nat_ascii: "c < 128 \<Longrightarrow> unat (of_nat c :: u8) = c"
  by (simp add: unat_of_nat)

lemma hex_bytes_ascii_unat:
  "x \<in> set (map of_nat (concat (map hex2 bs)) :: u8 list) \<Longrightarrow> unat x < 128"
  using hex_bytes_ascii [of _ bs] by (metis (no_types, lifting) imageE list.set_map unat_of_nat_ascii)

lemma str_get_ascii:
  "\<forall>b \<in> set bs. unat b < 128 \<Longrightarrow> a \<le> b \<Longrightarrow> b \<le> length bs \<Longrightarrow>
   str_get bs a b = Some (take (b - a) (drop a bs))"
  by (auto simp: str_get_def is_char_boundary_def le_less)

lemma str_get_Some:
  "str_get bs a b = Some p \<Longrightarrow> a \<le> b \<and> b \<le> length bs \<and> p = take (b - a) (drop a bs)"
  by (auto simp: str_get_def split: if_splits)

lemma parse_pairs_Some:
  "parse_pairs bs i k = Some r \<Longrightarrow>
   length r = k \<and> concat (map hex2 r) = to_ascii_lowercase (map unat (take (2 * k) (drop (2 * i) bs)))
   \<and> (\<forall>b \<in> set (take (2 * k) (drop (2 * i) bs)). is_ascii_hexdigit b)"
proof (induction k arbitrary: i r)
  case 0
  then show ?case by (simp add: to_ascii_lowercase_def)
next
  case (Suc k)
  then obtain p b r' where p: "str_get bs (i * 2) (i * 2 + 2) = Some p"
    and b: "hex_byte p = Some b" and r': "parse_pairs bs (Suc i) k = Some r'" and r: "r = b # r'"
    by (auto split: option.splits)
  obtain x y where xy: "p = [x, y]" "is_ascii_hexdigit x" "is_ascii_hexdigit y"
    "hex2 b = to_ascii_lowercase [unat x, unat y]"
    using hex_byte_Some [OF b] by blast
  have "take 2 (drop (2 * i) bs) = [x, y]"
    using str_get_Some [OF p] xy(1) by (simp add: mult.commute)
  then have "take (2 * Suc k) (drop (2 * i) bs) = [x, y] @ take (2 * k) (drop (2 * Suc i) bs)"
    by (metis (no_types) add_mult_distrib2 drop_drop mult_2_right mult_Suc_right mult_numeral_1_right
        numeral_One take_add add.commute)
  then show ?case
    using Suc.IH [OF r'] xy by (simp add: r) (simp add: to_ascii_lowercase_def)
qed

lemma parse_pairs_hex:
  assumes "\<forall>b \<in> set pre. unat b < 128" and "length pre = 2 * i"
  shows "parse_pairs (pre @ map of_nat (concat (map hex2 r))) i (length r) = Some r"
  using assms
proof (induction r arbitrary: pre i)
  case (Cons b r)
  let ?bs = "pre @ map of_nat (concat (map hex2 (b # r))) :: u8 list"
  have "\<forall>x \<in> set ?bs. unat x < 128"
    using Cons.prems hex_bytes_ascii_unat [of _ "b # r"]
    by (metis Un_iff set_append)
  moreover have "length ?bs \<ge> i * 2 + 2" using Cons.prems by (simp add: hex2_def)
  ultimately have "str_get ?bs (i * 2) (i * 2 + 2) = Some (map of_nat (hex2 b))"
    using Cons.prems by (subst str_get_ascii) (auto simp: hex2_def)
  moreover have "parse_pairs ((pre @ map of_nat (hex2 b)) @ map of_nat (concat (map hex2 r)))
      (Suc i) (length r) = Some r"
    using Cons.prems by (intro Cons.IH) (auto simp: hex2_def unat_of_nat_ascii)
  ultimately show ?case by (simp add: hex_byte_hex2)
qed simp

text \<open>A whole string of \<open>n\<close> hex pairs.\<close>

lemma hex_string_disp_parse:
  assumes "str_len s = 2 * n" and "parse_pairs (str_bytes s) 0 n = Some r"
  shows "length r = n \<and> concat (map hex2 r) = to_ascii_lowercase s"
proof -
  have "take (2 * n) (drop (2 * 0) (str_bytes s)) = str_bytes s"
    using assms(1) by (simp add: str_len_def)
  with parse_pairs_Some [OF assms(2)]
  have r: "length r = n" "concat (map hex2 r) = to_ascii_lowercase (map unat (str_bytes s))"
    and "\<forall>b \<in> set (str_bytes s). is_ascii_hexdigit b"
    by simp_all
  then have "s = map unat (str_bytes s)"
    using ascii_bytes_chars hexdigit_ascii by blast
  with r show ?thesis by simp
qed

lemma hex_string_parse_disp:
  "str_len (concat (map hex2 r)) = 2 * length r \<and>
   parse_pairs (str_bytes (concat (map hex2 r))) 0 (length r) = Some r"
proof -
  have a: "\<forall>c \<in> set (concat (map hex2 r)). c < 128" using hex_bytes_ascii by blast
  have "length (concat (map hex2 r)) = 2 * length r" by (induction r) (auto simp: hex2_def)
  then show ?thesis
    using a parse_pairs_hex [of "[]" 0 r] by (simp add: ascii_str_len ascii_str_bytes)
qed

section \<open>DeviceId\<close>

abbreviation (input) DEVICE_ID_LEN :: nat where "DEVICE_ID_LEN \<equiv> 16"

datatype device_id = DeviceId (device_id_bytes: "u8 list")

datatype device_id_error = DeviceIdWrongLength nat | DeviceIdInvalidHex

definition device_id_from_bytes :: "u8 list \<Rightarrow> (device_id, device_id_error) result" where
  "device_id_from_bytes bytes =
     (if length bytes = DEVICE_ID_LEN then Ok (DeviceId bytes)
      else Err (DeviceIdWrongLength (length bytes)))"

text \<open>The digest is BLAKE3 over the identity point, computed above this layer.\<close>

definition device_id_from_identity_digest :: "u8 list \<Rightarrow> device_id" where
  "device_id_from_identity_digest digest = DeviceId (take DEVICE_ID_LEN digest)"

definition device_id_display :: "device_id \<Rightarrow> rstr" where
  "device_id_display d = concat (map hex2 (device_id_bytes d))"

definition device_id_from_str :: "rstr \<Rightarrow> (device_id, device_id_error) result" where
  "device_id_from_str s =
     (if str_len s \<noteq> DEVICE_ID_LEN * 2 then Err DeviceIdInvalidHex
      else (case parse_pairs (str_bytes s) 0 DEVICE_ID_LEN of
              None \<Rightarrow> Err DeviceIdInvalidHex
            | Some array \<Rightarrow> Ok (DeviceId array)))"

definition device_id_valid :: "device_id \<Rightarrow> bool" where
  "device_id_valid d \<longleftrightarrow> length (device_id_bytes d) = DEVICE_ID_LEN"

interpretation device_id_text: text_id device_id_from_str device_id_display device_id_valid
proof
  show "device_id_from_str (device_id_display x) = Ok x" if "device_id_valid x" for x
    using that hex_string_parse_disp [of "device_id_bytes x"]
    by (simp add: device_id_from_str_def device_id_display_def device_id_valid_def)
  show "device_id_valid x \<and> device_id_display x = to_ascii_lowercase s"
    if "device_id_from_str s = Ok x" for s x
    using that hex_string_disp_parse [of s DEVICE_ID_LEN]
    by (auto simp: device_id_from_str_def device_id_display_def device_id_valid_def
        split: if_splits option.splits)
qed

section \<open>LinkId and InviteId\<close>

abbreviation (input) LINK_ID_LEN :: nat where "LINK_ID_LEN \<equiv> 16"
abbreviation (input) INVITE_ID_LEN :: nat where "INVITE_ID_LEN \<equiv> 16"

datatype link_error = LinkWrongLength nat nat \<comment> \<open>expected, actual\<close> | LinkInvalidHex

definition parse_hex :: "nat \<Rightarrow> rstr \<Rightarrow> (u8 list, link_error) result" where
  "parse_hex n s =
     (if str_len s \<noteq> n * 2 then Err LinkInvalidHex
      else ok_or LinkInvalidHex (parse_pairs (str_bytes s) 0 n))"

datatype link_id = LinkId (link_id_bytes: "u8 list")
datatype invite_id = InviteId (invite_id_bytes: "u8 list")

definition link_id_from_bytes :: "u8 list \<Rightarrow> (link_id, link_error) result" where
  "link_id_from_bytes bytes =
     (if length bytes = LINK_ID_LEN then Ok (LinkId bytes)
      else Err (LinkWrongLength LINK_ID_LEN (length bytes)))"

definition link_id_from_link_secret_digest :: "u8 list \<Rightarrow> link_id" where
  "link_id_from_link_secret_digest digest = LinkId (take LINK_ID_LEN digest)"

definition link_id_display :: "link_id \<Rightarrow> rstr" where
  "link_id_display l = concat (map hex2 (link_id_bytes l))"

definition link_id_from_str :: "rstr \<Rightarrow> (link_id, link_error) result" where
  "link_id_from_str s =
     (case parse_hex LINK_ID_LEN s of Err e \<Rightarrow> Err e | Ok array \<Rightarrow> Ok (LinkId array))"

definition invite_id_from_bytes :: "u8 list \<Rightarrow> (invite_id, link_error) result" where
  "invite_id_from_bytes bytes =
     (if length bytes = INVITE_ID_LEN then Ok (InviteId bytes)
      else Err (LinkWrongLength INVITE_ID_LEN (length bytes)))"

definition invite_id_display :: "invite_id \<Rightarrow> rstr" where
  "invite_id_display i = concat (map hex2 (invite_id_bytes i))"

definition invite_id_from_str :: "rstr \<Rightarrow> (invite_id, link_error) result" where
  "invite_id_from_str s =
     (case parse_hex INVITE_ID_LEN s of Err e \<Rightarrow> Err e | Ok array \<Rightarrow> Ok (InviteId array))"

lemma parse_hex_Ok:
  "parse_hex n s = Ok r \<Longrightarrow> length r = n \<and> concat (map hex2 r) = to_ascii_lowercase s"
  using hex_string_disp_parse [of s n r] by (auto simp: parse_hex_def mult.commute split: if_splits)

lemma parse_hex_display: "length r = n \<Longrightarrow> parse_hex n (concat (map hex2 r)) = Ok r"
  using hex_string_parse_disp [of r] by (simp add: parse_hex_def)

interpretation link_id_text:
  text_id link_id_from_str link_id_display "\<lambda>l. length (link_id_bytes l) = LINK_ID_LEN"
  by unfold_locales
    (auto simp: link_id_from_str_def link_id_display_def parse_hex_display
      split: result.splits dest: parse_hex_Ok)

interpretation invite_id_text:
  text_id invite_id_from_str invite_id_display "\<lambda>i. length (invite_id_bytes i) = INVITE_ID_LEN"
  by unfold_locales
    (auto simp: invite_id_from_str_def invite_id_display_def parse_hex_display
      split: result.splits dest: parse_hex_Ok)

section \<open>TransferId and ShareId\<close>

abbreviation (input) CANONICAL_LEN :: nat where "CANONICAL_LEN \<equiv> 36"

definition HYPHEN_POSITIONS :: "nat list" where
  "HYPHEN_POSITIONS = [8, 13, 18, 23]"

text \<open>The loop of \<open>parse_canonical\<close>: \<open>out\<close> counts bytes written, \<open>cursor\<close> walks the string.\<close>

function parse_uuid_loop :: "u8 list \<Rightarrow> nat \<Rightarrow> nat \<Rightarrow> u8 list \<Rightarrow> u8 list option" where
  "parse_uuid_loop s out cursor bytes =
     (if out < 16 then
        (if cursor \<in> set HYPHEN_POSITIONS then parse_uuid_loop s out (cursor + 1) bytes
         else (case str_get s cursor (cursor + 2) of
                 None \<Rightarrow> None
               | Some hex_pair \<Rightarrow>
                   (case hex_byte hex_pair of
                      None \<Rightarrow> None
                    | Some b \<Rightarrow> parse_uuid_loop s (out + 1) (cursor + 2) (bytes[out := b]))))
      else Some bytes)"
  by pat_completeness auto
termination
  by (relation "measures [\<lambda>(s, out, cursor, bytes). 16 - out, \<lambda>(s, out, cursor, bytes). 24 - cursor]")
    (auto simp: HYPHEN_POSITIONS_def)

declare parse_uuid_loop.simps [simp del]

text \<open>The two identifier types have this parser word for word; \<open>None\<close> is \<open>InvalidFormat\<close>.\<close>

definition parse_canonical :: "rstr \<Rightarrow> u8 list option" where
  "parse_canonical s =
     (if str_len s \<noteq> CANONICAL_LEN then None
      else if \<exists>p \<in> set HYPHEN_POSITIONS. str_bytes s ! p \<noteq> 45 then None
      else parse_uuid_loop (str_bytes s) 0 0 (replicate 16 0))"

definition uuid_display :: "u8 list \<Rightarrow> rstr" where
  "uuid_display b =
     hex2 (b ! 0) @ hex2 (b ! 1) @ hex2 (b ! 2) @ hex2 (b ! 3) @ [45] @
     hex2 (b ! 4) @ hex2 (b ! 5) @ [45] @ hex2 (b ! 6) @ hex2 (b ! 7) @ [45] @
     hex2 (b ! 8) @ hex2 (b ! 9) @ [45] @ hex2 (b ! 10) @ hex2 (b ! 11) @ hex2 (b ! 12) @
     hex2 (b ! 13) @ hex2 (b ! 14) @ hex2 (b ! 15)"

definition hex_at :: "u8 list \<Rightarrow> nat \<Rightarrow> u8 option" where
  "hex_at bs c = (case str_get bs c (c + 2) of None \<Rightarrow> None | Some p \<Rightarrow> hex_byte p)"

lemma parse_uuid_loop_hex_at:
  "parse_uuid_loop s out cursor bytes =
     (if out < 16 then
        (if cursor \<in> set HYPHEN_POSITIONS then parse_uuid_loop s out (cursor + 1) bytes
         else (case hex_at s cursor of
                 None \<Rightarrow> None
               | Some b \<Rightarrow> parse_uuid_loop s (out + 1) (cursor + 2) (bytes[out := b])))
      else Some bytes)"
  by (subst parse_uuid_loop.simps) (simp add: hex_at_def split: option.splits)

lemma hex_at_Some:
  assumes "hex_at bs c = Some b"
  shows "is_ascii_hexdigit (bs ! c) \<and> is_ascii_hexdigit (bs ! Suc c) \<and>
    hex2 b = to_ascii_lowercase [unat (bs ! c), unat (bs ! Suc c)]"
proof -
  from assms obtain p where p: "str_get bs c (c + 2) = Some p" and b: "hex_byte p = Some b"
    by (auto simp: hex_at_def split: option.splits)
  then obtain x y where xy: "p = [x, y]" "is_ascii_hexdigit x" "is_ascii_hexdigit y"
    "hex2 b = to_ascii_lowercase [unat x, unat y]"
    using hex_byte_Some by blast
  moreover have "take 2 (drop c bs) = [x, y]" "c + 2 \<le> length bs"
    using str_get_Some [OF p] xy(1) by simp_all
  then have "bs ! c = x" "bs ! Suc c = y"
    by (simp_all add: take_Suc_conv_app_nth numeral_2_eq_2)
  ultimately show ?thesis by simp
qed

lemma replicate_16: "replicate 16 x = [x,x,x,x,x,x,x,x,x,x,x,x,x,x,x,x]"
  by (simp add: numeral_eq_Suc)

text \<open>The loop, unrolled: the sixteen pairs and where they stand.\<close>

lemma parse_uuid_loop_unrolled:
  "parse_uuid_loop bs 0 0 (replicate 16 0) = Some r \<longleftrightarrow>
   map Some r = map (hex_at bs) [0, 2, 4, 6, 9, 11, 14, 16, 19, 21, 24, 26, 28, 30, 32, 34]"
  by (simp add: parse_uuid_loop_hex_at HYPHEN_POSITIONS_def replicate_16 cong: option.case_cong)
     (auto simp: numeral_eq_Suc map_eq_Cons_conv split: option.splits)



lemma upt_16: "[0..<16] = [0,1,2,3,4,5,6,7,8,9,10,11,12,13,14,15]"
  by code_simp

lemma upt_36: "[0..<36] =
  [0,1,2,3,4,5,6,7,8,9,10,11,12,13,14,15,16,17,18,19,20,21,22,23,24,25,26,27,28,29,30,31,32,33,34,35]"
  by code_simp

lemma parse_canonical_Some:
  assumes "parse_canonical s = Some r"
  shows "length r = 16 \<and> uuid_display r = to_ascii_lowercase s"
proof -
  define bs where "bs = str_bytes s"
  have len: "length bs = 36" and hy: "\<forall>p \<in> set HYPHEN_POSITIONS. bs ! p = 45"
    and loop: "parse_uuid_loop bs 0 0 (replicate 16 0) = Some r"
    using assms by (auto simp: parse_canonical_def str_len_def bs_def split: if_splits)
  have hy: "bs ! 8 = 45" "bs ! 13 = 45" "bs ! 18 = 45" "bs ! 23 = 45"
    using hy by (simp_all add: HYPHEN_POSITIONS_def)
  from loop obtain r0 r1 r2 r3 r4 r5 r6 r7 r8 r9 r10 r11 r12 r13 r14 r15 where
    r: "r = [r0,r1,r2,r3,r4,r5,r6,r7,r8,r9,r10,r11,r12,r13,r14,r15]" and
    h: "hex_at bs 0 = Some r0" "hex_at bs 2 = Some r1" "hex_at bs 4 = Some r2"
       "hex_at bs 6 = Some r3" "hex_at bs 9 = Some r4" "hex_at bs 11 = Some r5"
       "hex_at bs 14 = Some r6" "hex_at bs 16 = Some r7" "hex_at bs 19 = Some r8"
       "hex_at bs 21 = Some r9" "hex_at bs 24 = Some r10" "hex_at bs 26 = Some r11"
       "hex_at bs 28 = Some r12" "hex_at bs 30 = Some r13" "hex_at bs 32 = Some r14"
       "hex_at bs 34 = Some r15"
    by (auto simp: parse_uuid_loop_unrolled map_eq_Cons_conv)
  note d = h [THEN hex_at_Some, simplified]
  have bs: "bs = map ((!) bs) [0..<36]" using len map_nth [of bs] by simp
  have "\<forall>i \<in> set [0..<36]. is_ascii_hexdigit (bs ! i) \<or> bs ! i = 45"
    unfolding upt_36 by (simp add: d hy)
  then have "\<forall>b \<in> set bs. is_ascii_hexdigit b \<or> b = 45"
    by (metis atLeastLessThan_iff in_set_conv_nth le0 len set_upt)
  then have "\<forall>b \<in> set bs. unat b < 128" using hexdigit_ascii by fastforce
  then have s: "s = map unat bs" using ascii_bytes_chars by (auto simp: bs_def)
  have "uuid_display r = to_ascii_lowercase (map unat (map ((!) bs) [0..<36]))"
    unfolding upt_36 by (simp add: uuid_display_def r d hy to_ascii_lowercase_def)
  then show ?thesis using bs s by (simp add: r)
qed

lemma parse_canonical_display:
  assumes "length r = 16"
  shows "parse_canonical (uuid_display r) = Some r"
proof -
  define bs :: "u8 list" where "bs = map of_nat (uuid_display r)"
  have asc: "\<forall>c \<in> set (uuid_display r). c < 128"
    by (simp add: uuid_display_def hex2_def)
  have len: "length bs = 36" by (simp add: bs_def uuid_display_def hex2_def)
  have pair: "hex_at bs c = Some b" if "take 2 (drop c (uuid_display r)) = hex2 b" "c + 2 \<le> 36" for c b
  proof -
    have "str_get bs c (c + 2) = Some (take 2 (drop c bs))"
      using that(2) len asc by (subst str_get_ascii) (auto simp: bs_def unat_of_nat_ascii)
    then show ?thesis
      using that(1) by (simp add: hex_at_def bs_def hex_byte_hex2 take_map drop_map)
  qed
  have "map Some (map ((!) r) [0..<16]) =
      map (hex_at bs) [0, 2, 4, 6, 9, 11, 14, 16, 19, 21, 24, 26, 28, 30, 32, 34]"
    unfolding upt_16 by (simp add: pair uuid_display_def hex2_def)
  then have "map Some r = map (hex_at bs) [0, 2, 4, 6, 9, 11, 14, 16, 19, 21, 24, 26, 28, 30, 32, 34]"
    by (metis assms map_nth)
  then have "parse_uuid_loop bs 0 0 (replicate 16 0) = Some r"
    by (simp only: parse_uuid_loop_unrolled)
  moreover have "\<forall>p \<in> set HYPHEN_POSITIONS. bs ! p = 45"
    by (simp add: HYPHEN_POSITIONS_def bs_def uuid_display_def hex2_def)
  ultimately show ?thesis
    using asc len by (simp add: parse_canonical_def ascii_str_len ascii_str_bytes bs_def)
qed


text \<open>What both types check of the sixteen bytes, and the identifiers themselves.\<close>

datatype transfer_id = TransferId (transfer_id_bytes: "u8 list")

datatype transfer_id_error =
  TransferIdInvalidFormat | TransferIdWrongVersion u8 | TransferIdWrongVariant

definition transfer_id_from_str :: "rstr \<Rightarrow> (transfer_id, transfer_id_error) result" where
  "transfer_id_from_str s =
     (case parse_canonical s of
        None \<Rightarrow> Err TransferIdInvalidFormat
      | Some bytes \<Rightarrow>
          (let version = drop_bit 4 (bytes ! 6) in
           if version \<noteq> 7 then Err (TransferIdWrongVersion version)
           else if bytes ! 8 AND 0xC0 \<noteq> 0x80 then Err TransferIdWrongVariant
           else Ok (TransferId bytes)))"

definition transfer_id_display :: "transfer_id \<Rightarrow> rstr" where
  "transfer_id_display t = uuid_display (transfer_id_bytes t)"

datatype share_id = ShareId (share_id_bytes: "u8 list")

datatype share_id_error =
  ShareIdInvalidFormat | ShareIdWrongVersion u8 | ShareIdWrongVariant

definition share_id_from_str :: "rstr \<Rightarrow> (share_id, share_id_error) result" where
  "share_id_from_str s =
     (case parse_canonical s of
        None \<Rightarrow> Err ShareIdInvalidFormat
      | Some bytes \<Rightarrow>
          (let version = drop_bit 4 (bytes ! 6) in
           if version \<noteq> 7 then Err (ShareIdWrongVersion version)
           else if bytes ! 8 AND 0xC0 \<noteq> 0x80 then Err ShareIdWrongVariant
           else Ok (ShareId bytes)))"

definition share_id_display :: "share_id \<Rightarrow> rstr" where
  "share_id_display t = uuid_display (share_id_bytes t)"

definition uuid_v7 :: "u8 list \<Rightarrow> bool" where
  "uuid_v7 b \<longleftrightarrow> length b = 16 \<and> drop_bit 4 (b ! 6) = 7 \<and> b ! 8 AND 0xC0 = 0x80"

interpretation transfer_id_text:
  text_id transfer_id_from_str transfer_id_display "\<lambda>t. uuid_v7 (transfer_id_bytes t)"
  by unfold_locales
    (auto simp: transfer_id_from_str_def transfer_id_display_def parse_canonical_display uuid_v7_def
      Let_def split: option.splits if_splits dest: parse_canonical_Some)

interpretation share_id_text:
  text_id share_id_from_str share_id_display "\<lambda>t. uuid_v7 (share_id_bytes t)"
  by unfold_locales
    (auto simp: share_id_from_str_def share_id_display_def parse_canonical_display uuid_v7_def
      Let_def split: option.splits if_splits dest: parse_canonical_Some)

section \<open>ItemId\<close>

abbreviation (input) ITEM_ID_MAX_LEN :: nat where "ITEM_ID_MAX_LEN \<equiv> 64"

record item_id =
  item_id_bytes :: "u8 list" \<comment> \<open>an array of \<open>ITEM_ID_MAX_LEN\<close>\<close>
  item_id_len :: u8

datatype item_id_error = ItemIdWrongLength nat | ItemIdInvalidCharacter rchar | ItemIdReservedName rstr

definition RESERVED_NAMES :: "rstr list" where
  "RESERVED_NAMES = map lit
     [''con'', ''prn'', ''aux'', ''nul'', ''com1'', ''com2'', ''com3'', ''com4'', ''com5'', ''com6'',
      ''com7'', ''com8'', ''com9'', ''lpt1'', ''lpt2'', ''lpt3'', ''lpt4'', ''lpt5'', ''lpt6'',
      ''lpt7'', ''lpt8'', ''lpt9'']"

definition is_permitted_char :: "rchar \<Rightarrow> bool" where
  "is_permitted_char c \<longleftrightarrow> is_ascii_lowercase c \<or> is_ascii_digit c \<or> c = 45 \<or> c = 95"

definition item_id_new :: "rstr \<Rightarrow> (item_id, item_id_error) result" where
  "item_id_new s =
     (if s = [] \<or> str_len s > ITEM_ID_MAX_LEN then Err (ItemIdWrongLength (str_len s))
      else (case find (\<lambda>c. \<not> is_permitted_char c) s of
              Some c \<Rightarrow> Err (ItemIdInvalidCharacter c)
            | None \<Rightarrow>
                if s \<in> set RESERVED_NAMES then Err (ItemIdReservedName s)
                else Ok \<lparr>item_id_bytes = str_bytes s @ replicate (ITEM_ID_MAX_LEN - str_len s) 0,
                         item_id_len = of_nat (str_len s)\<rparr>))"

definition item_id_display :: "item_id \<Rightarrow> rstr" where
  "item_id_display i = map unat (take (unat (item_id_len i)) (item_id_bytes i))"

text \<open>The values \<open>ItemId::new\<close> builds.\<close>

definition item_id_valid :: "item_id \<Rightarrow> bool" where
  "item_id_valid i \<longleftrightarrow> item_id_new (item_id_display i) = Ok i"

lemma permitted_ascii: "is_permitted_char c \<Longrightarrow> c < 128"
  by (auto simp: is_permitted_char_def is_ascii_lowercase_def is_ascii_digit_def)

lemma permitted_lowercase:
  "\<forall>c \<in> set s. is_permitted_char c \<Longrightarrow> to_ascii_lowercase s = s"
  by (induction s)
    (auto simp: to_ascii_lowercase_def is_permitted_char_def is_ascii_lowercase_def is_ascii_digit_def)

lemma item_id_new_Ok:
  assumes "item_id_new s = Ok i"
  shows "item_id_display i = s" and "\<forall>c \<in> set s. is_permitted_char c"
    and "1 \<le> length s" and "length s \<le> ITEM_ID_MAX_LEN" and "s \<notin> set RESERVED_NAMES"
    and "length (item_id_bytes i) = ITEM_ID_MAX_LEN"
proof -
  have p: "\<forall>c \<in> set s. is_permitted_char c"
    and b: "s \<noteq> []" "str_len s \<le> 64" "s \<notin> set RESERVED_NAMES"
    and i: "i = \<lparr>item_id_bytes = str_bytes s @ replicate (64 - str_len s) 0,
                 item_id_len = of_nat (str_len s)\<rparr>"
    using assms by (auto simp: item_id_new_def find_None_iff split: if_splits option.splits)
  have a: "\<forall>c \<in> set s. c < 128" using p permitted_ascii by blast
  have len: "str_len s = length s" using a by (rule ascii_str_len)
  have "map (unat \<circ> (of_nat :: nat \<Rightarrow> u8)) s = s"
    using a by (intro map_idI) (simp add: unat_of_nat_ascii)
  with i len b(2) show "item_id_display i = s"
    by (simp add: item_id_display_def ascii_str_bytes [OF a] unat_of_nat)
  show "\<forall>c \<in> set s. is_permitted_char c" by (rule p)
  show "1 \<le> length s" "length s \<le> ITEM_ID_MAX_LEN" "s \<notin> set RESERVED_NAMES"
    using b len by (auto simp: Suc_le_eq)
  show "length (item_id_bytes i) = ITEM_ID_MAX_LEN"
    using i b len by (simp add: ascii_str_bytes [OF a])
qed

interpretation item_id_text: text_id item_id_new item_id_display item_id_valid
proof
  show "item_id_new (item_id_display x) = Ok x" if "item_id_valid x" for x
    using that by (simp only: item_id_valid_def)
  show "item_id_valid x \<and> item_id_display x = to_ascii_lowercase s"
    if "item_id_new s = Ok x" for s x
    using that item_id_new_Ok(1,2) [OF that] permitted_lowercase by (metis item_id_valid_def)
qed

end
