(* ===== verification/Identity_Keys.thy ===== *)
theory Identity_Keys
  imports Identifiers "HOL-Library.Sublist"
begin

text \<open>
  Key vocabulary and time (\<open>tradr-core/src/key_store.rs\<close>, \<open>clock.rs\<close>):
  public points, the public identity of a device, wall-clock seconds, and the domain
  separation every signature goes through. The main result is that two signing requests in
  different domains never hash the same bytes, so a signature made in one domain cannot be
  presented in another, including the two external formats (an X.509 certificate body and a
  TLS 1.3 \<open>CertificateVerify\<close>) whose bytes the code cannot prefix.
\<close>

section \<open>Public keys\<close>

abbreviation (input) "PUBLIC_KEY_POINT_LEN \<equiv> (65 :: nat)"

datatype public_key_point = PublicKeyPoint (point_bytes: "u8 list")

datatype public_key_point_error = PublicKeyPoint_WrongLength nat

definition public_key_point_from_bytes ::
    "u8 list \<Rightarrow> (public_key_point, public_key_point_error) result" where
  "public_key_point_from_bytes bytes =
     (if length bytes = PUBLIC_KEY_POINT_LEN then Ok (PublicKeyPoint bytes)
      else Err (PublicKeyPoint_WrongLength (length bytes)))"

record public_identity =
  pi_identity_pub :: public_key_point
  pi_agreement_pub :: public_key_point
  pi_device_id :: device_id

datatype signature = Signature (signature_bytes: "u8 list")

section \<open>Domain separation\<close>

datatype domain_tag =
    KeyBind
  | HelloDomain
  | BrokrChallenge
  | Revoke
  | DeferredDelivery
  | CertificateTbs
  | TlsCertificateVerify

datatype separation = Prepended "u8 list" | Required "u8 list"

definition TLS_CERTIFICATE_VERIFY_PREFIX :: "u8 list" where
  "TLS_CERTIFICATE_VERIFY_PREFIX = replicate 64 0x20 @ str_bytes (lit ''TLS 1.3, '')"

fun domain_separation :: "domain_tag \<Rightarrow> separation" where
  "domain_separation KeyBind = Prepended (str_bytes (lit ''tradr-keybind-v1''))"
| "domain_separation HelloDomain = Prepended (str_bytes (lit ''tradr-hello-v1''))"
| "domain_separation BrokrChallenge = Prepended (str_bytes (lit ''tradr-brokr-v1''))"
| "domain_separation Revoke = Prepended (str_bytes (lit ''tradr-revoke-v1''))"
| "domain_separation DeferredDelivery = Prepended (str_bytes (lit ''tradr-deferred-v1''))"
| "domain_separation CertificateTbs = Required [0x30]"
| "domain_separation TlsCertificateVerify = Required TLS_CERTIFICATE_VERIFY_PREFIX"

datatype missing_separation = MissingSeparation domain_tag

definition payload :: "domain_tag \<Rightarrow> u8 list \<Rightarrow> (u8 list, missing_separation) result" where
  "payload d message =
     (case domain_separation d of
        Prepended tag \<Rightarrow> Ok (tag @ message)
      | Required required \<Rightarrow>
          if prefix required message then Ok message else Err (MissingSeparation d))"

fun separation_bytes :: "domain_tag \<Rightarrow> u8 list" where
  "separation_bytes d = (case domain_separation d of Prepended b \<Rightarrow> b | Required b \<Rightarrow> b)"

lemma payload_prefix: "payload d m = Ok p \<Longrightarrow> prefix (separation_bytes d) p"
  by (auto simp: payload_def split: separation.splits if_splits)

text \<open>
  Two separations disagree at their first byte, or both begin with \<open>tradr-\<close> and disagree
  at the byte after it.
\<close>

lemma nth_parallel:
  assumes "i < length xs" and "i < length ys" and "xs ! i \<noteq> ys ! i"
  shows "xs \<parallel> ys"
  using assms by (auto simp: parallel_def prefix_def nth_append)

definition own_tag :: "domain_tag \<Rightarrow> bool" where
  "own_tag d \<longleftrightarrow> d \<noteq> CertificateTbs \<and> d \<noteq> TlsCertificateVerify"

fun first_byte :: "domain_tag \<Rightarrow> u8" where
  "first_byte CertificateTbs = 0x30"
| "first_byte TlsCertificateVerify = 0x20"
| "first_byte _ = 0x74"

fun seventh_byte :: "domain_tag \<Rightarrow> u8" where
  "seventh_byte KeyBind = 0x6b"
| "seventh_byte HelloDomain = 0x68"
| "seventh_byte BrokrChallenge = 0x62"
| "seventh_byte Revoke = 0x72"
| "seventh_byte _ = 0x64"

lemma separation_first: "separation_bytes d ! 0 = first_byte d" "0 < length (separation_bytes d)"
  by (cases d; simp add: TLS_CERTIFICATE_VERIFY_PREFIX_def nth_append)+

lemma separation_seventh:
  "own_tag d \<Longrightarrow> separation_bytes d ! 6 = seventh_byte d \<and> 6 < length (separation_bytes d)"
  by (cases d) (simp_all add: own_tag_def)

lemma separations_parallel:
  assumes "d \<noteq> e"
  shows "separation_bytes d \<parallel> separation_bytes e"
proof (cases "own_tag d \<and> own_tag e")
  case True
  with assms have "seventh_byte d \<noteq> seventh_byte e" by (cases d; cases e) (simp_all add: own_tag_def)
  with True show ?thesis by (metis nth_parallel separation_seventh)
next
  case False
  with assms have "first_byte d \<noteq> first_byte e" by (cases d; cases e) (simp_all add: own_tag_def)
  then show ?thesis by (metis nth_parallel separation_first)
qed

text \<open>
  Property C37. Signing domains are separated. The bytes signed in two requests are the same
  only if the domain and the message are the same, for every pair of domains and all messages;
  and a request in a domain whose format carries its own prefix is refused exactly when the
  message lacks it.
\<close>

theorem domains_separated:
  "(payload d m = Ok p \<and> payload e n = Ok p \<longrightarrow> d = e \<and> m = n) \<and>
   (payload d m = Err x \<longleftrightarrow>
     x = MissingSeparation d \<and> (\<exists>req. domain_separation d = Required req \<and> \<not> prefix req m))"
proof (intro conjI [where Q = "_ \<longleftrightarrow> _"] impI)
  assume "payload d m = Ok p \<and> payload e n = Ok p"
  then have p: "payload d m = Ok p" "payload e n = Ok p" by simp_all
  have "\<not> separation_bytes d \<parallel> separation_bytes e"
    using p [THEN payload_prefix] prefix_same_cases by (auto simp: parallel_def)
  then have "d = e" using separations_parallel by blast
  with p show "d = e \<and> m = n"
    by (auto simp: payload_def split: separation.splits if_splits)
next
  show "payload d m = Err x \<longleftrightarrow>
     x = MissingSeparation d \<and> (\<exists>req. domain_separation d = Required req \<and> \<not> prefix req m)"
    by (auto simp: payload_def split: separation.splits)
qed

theorem domains_separated_witness:
  "payload KeyBind [1] = Ok (str_bytes (lit ''tradr-keybind-v1'') @ [1]) \<and>
   payload HelloDomain [1] \<noteq> Ok (str_bytes (lit ''tradr-keybind-v1'') @ [1])"
proof -
  have p: "payload KeyBind [1] = Ok (str_bytes (lit ''tradr-keybind-v1'') @ [1])"
    by (simp add: payload_def)
  show ?thesis using p domains_separated [of KeyBind "[1]" _ HelloDomain "[1]"] by blast
qed

section \<open>Time\<close>

text \<open>Seconds since the Unix epoch, an \<open>i64\<close> read by \<open>sint\<close>.\<close>

datatype unix_time = UnixTime (as_secs: i64)

datatype unix_time_error = ArgumentIsLater

definition elapsed_since :: "unix_time \<Rightarrow> unix_time \<Rightarrow> (u64, unix_time_error) result" where
  "elapsed_since t earlier =
     (if sint (as_secs earlier) > sint (as_secs t) then Err ArgumentIsLater
      else Ok (word_of_int (sint (as_secs t) - sint (as_secs earlier))))"

lemma sint_bounds: "- (2 ^ 63) \<le> sint (x :: i64)" "sint (x :: i64) < 2 ^ 63"
  using sint_greater_eq [of x] sint_less [of x] by simp_all

lemma int_unat_of_int: "d < 2 ^ 64 \<Longrightarrow> 0 \<le> d \<Longrightarrow> int (unat (word_of_int d :: u64)) = d"
  by (simp add: unsigned_of_int take_bit_int_eq_self)

text \<open>The difference of two \<open>i64\<close> always fits a \<open>u64\<close>, at both extremes.\<close>

lemma elapsed_since_Ok:
  "elapsed_since t e = Ok n \<longleftrightarrow> int (unat n) = sint (as_secs t) - sint (as_secs e)"
proof -
  let ?d = "sint (as_secs t) - sint (as_secs e)"
  have "?d < 2 ^ 64" using sint_bounds [of "as_secs t"] sint_bounds [of "as_secs e"] by simp
  then have cast: "0 \<le> ?d \<Longrightarrow> int (unat (word_of_int ?d :: u64)) = ?d"
    by (rule int_unat_of_int)
  show ?thesis
  proof (cases "sint (as_secs t) < sint (as_secs e)")
    case True
    moreover have "0 \<le> int (unat n)" by (rule of_nat_0_le_iff)
    ultimately have "int (unat n) \<noteq> sint (as_secs t) - sint (as_secs e)" by linarith
    with True show ?thesis by (simp add: elapsed_since_def)
  next
    case False
    then have "elapsed_since t e = Ok n \<longleftrightarrow> (word_of_int ?d :: u64) = n"
      by (simp add: elapsed_since_def)
    also have "\<dots> \<longleftrightarrow> int (unat (word_of_int ?d :: u64)) = int (unat n)"
      by (simp only: of_nat_eq_iff word_unat_eq_iff)
    also have "\<dots> \<longleftrightarrow> int (unat n) = ?d"
      using False by (subst cast) auto
    finally show ?thesis .
  qed
qed

lemma elapsed_since_Err:
  "elapsed_since t e = Err x \<longleftrightarrow> sint (as_secs t) < sint (as_secs e)"
  by (cases x) (auto simp: elapsed_since_def)

end
