(* ===== verification/Secret_Store.thy ===== *)
theory Secret_Store
  imports Rust_Str
begin

text \<open>
  Where secrets are kept: the file rung of the storage ladder
  (\<open>tradr-secrets/src/file.rs\<close>) and the choice of a rung
  (\<open>tradr-identity/src/storage_ladder.rs\<close>). The directory is a map from file names to
  contents, the process-wide counter of temporary names is part of its state, and every call of
  the file system can fail: a record of faults says which ones do in one operation. The locale
  \<open>slot_store\<close> is the contract the rest of the code relies on, and the file store is
  shown to meet it under every combination of faults: an operation that fails changes no slot,
  and a slot never holds part of a value.
\<close>

section \<open>The contract\<close>

locale slot_store =
  fixes load :: "'f \<Rightarrow> rstr \<Rightarrow> 's \<Rightarrow> (u8 list option, 'e) result"
    and store :: "'f \<Rightarrow> rstr \<Rightarrow> u8 list \<Rightarrow> 's \<Rightarrow> 's \<times> (unit, 'e) result"
    and remove :: "'f \<Rightarrow> rstr \<Rightarrow> 's \<Rightarrow> 's \<times> (unit, 'e) result"
    and slot_of :: "'s \<Rightarrow> rstr \<Rightarrow> u8 list option"
  assumes load_reads: "load f k s = Ok v \<Longrightarrow> v = slot_of s k"
    and store_writes: "store f k b s = (s', Ok ()) \<Longrightarrow> slot_of s' = (slot_of s)(k \<mapsto> b)"
    and store_fails: "store f k b s = (s', Err e) \<Longrightarrow> slot_of s' = slot_of s"
    and remove_clears: "remove f k s = (s', Ok ()) \<Longrightarrow> slot_of s' = (slot_of s)(k := None)"
    and remove_fails: "remove f k s = (s', Err e) \<Longrightarrow> slot_of s' = slot_of s"
begin

text \<open>A value stored and read back before anything else touches its slot is the same value.\<close>

lemma store_load:
  "store f k b s = (s', Ok ()) \<Longrightarrow> load g k s' = Ok v \<Longrightarrow> v = Some b"
  by (drule store_writes, drule load_reads) simp

text \<open>Storing into an empty slot is undone by removing it: the rollback of a two-part write.\<close>

lemma store_rollback:
  assumes "slot_of s k = None" and "store f k b s = (s', Ok ())" and "remove g k s' = (s'', Ok ())"
  shows "slot_of s'' = slot_of s"
  using assms(1) store_writes [OF assms(2)] remove_clears [OF assms(3)] by (auto simp: fun_eq_iff)

text \<open>Restoring what a slot held before is undone the same way.\<close>

lemma store_restore:
  assumes "slot_of s k = Some old" and "store f k b s = (s', Ok ())" and "store g k old s' = (s'', Ok ())"
  shows "slot_of s'' = slot_of s"
  using assms(1) store_writes [OF assms(2)] store_writes [OF assms(3)] by (auto simp: fun_eq_iff)

lemma other_slots:
  "store f k b s = (s', r) \<Longrightarrow> j \<noteq> k \<Longrightarrow> slot_of s' j = slot_of s j"
  "remove f k s = (s', r) \<Longrightarrow> j \<noteq> k \<Longrightarrow> slot_of s' j = slot_of s j"
  by (cases r; use store_writes store_fails remove_clears remove_fails in fastforce)+

end

section \<open>The file store\<close>

abbreviation (input) "MAX_TEMP_ATTEMPTS \<equiv> (8 :: nat)"

record file_dir =
  files :: "rstr \<rightharpoonup> u8 list"
  next_temp :: nat

text \<open>Which calls of the file system fail during one operation.\<close>

record io_faults =
  mkdir_fails :: bool
  chmod_fails :: bool
  create_fails :: bool
  write_fails :: bool
  rename_fails :: bool
  cleanup_fails :: bool
  read_fails :: bool
  unlink_fails :: bool

definition no_faults :: io_faults where
  "no_faults = \<lparr>mkdir_fails = False, chmod_fails = False, create_fails = False, write_fails = False,
     rename_fails = False, cleanup_fails = False, read_fails = False, unlink_fails = False\<rparr>"

datatype secret_store_error = InvalidSlot rstr | Backend | CleanupFailed | NoFreshTemp

text \<open>Decimal digits, as \<open>{}\<close> formats them.\<close>

fun dec_str :: "nat \<Rightarrow> rstr" where
  "dec_str n = (if n < 10 then [48 + n] else dec_str (n div 10) @ [48 + n mod 10])"

declare dec_str.simps [simp del]

definition temp_name :: "rstr \<Rightarrow> nat \<Rightarrow> rstr" where
  "temp_name pid n = lit ''.tmp-'' @ pid @ lit ''-'' @ dec_str n"

definition bare_byte :: "u8 \<Rightarrow> bool" where
  "bare_byte b \<longleftrightarrow> is_ascii_lowercase (unat b) \<or> is_ascii_digit (unat b) \<or> b = 45"

definition validate_slot :: "rstr \<Rightarrow> (unit, secret_store_error) result" where
  "validate_slot slot =
     (if slot \<noteq> [] \<and> list_all bare_byte (str_bytes slot) then Ok () else Err (InvalidSlot slot))"

text \<open>The loop over fresh names; \<open>attempts\<close> counts down from \<open>MAX_TEMP_ATTEMPTS\<close>.\<close>

fun create_fresh_temp_file ::
    "rstr \<Rightarrow> io_faults \<Rightarrow> nat \<Rightarrow> file_dir \<Rightarrow> file_dir \<times> (rstr, secret_store_error) result" where
  "create_fresh_temp_file pid F 0 d = (d, Err NoFreshTemp)"
| "create_fresh_temp_file pid F (Suc n) d =
     (let candidate = temp_name pid (next_temp d); d' = d\<lparr>next_temp := next_temp d + 1\<rparr> in
      if files d candidate \<noteq> None then create_fresh_temp_file pid F n d'
      else if create_fails F then (d', Err Backend)
      else (d'\<lparr>files := (files d)(candidate \<mapsto> [])\<rparr>, Ok candidate))"

definition fail_and_cleanup ::
    "io_faults \<Rightarrow> rstr \<Rightarrow> file_dir \<Rightarrow> file_dir \<times> (unit, secret_store_error) result" where
  "fail_and_cleanup F temp d =
     (if cleanup_fails F then (d, Err CleanupFailed)
      else (d\<lparr>files := (files d)(temp := None)\<rparr>, Err Backend))"

definition file_store_store ::
    "rstr \<Rightarrow> io_faults \<Rightarrow> rstr \<Rightarrow> u8 list \<Rightarrow> file_dir \<Rightarrow> file_dir \<times> (unit, secret_store_error) result" where
  "file_store_store pid F slot secret d =
     (case validate_slot slot of
        Err e \<Rightarrow> (d, Err e)
      | Ok _ \<Rightarrow>
        if mkdir_fails F \<or> chmod_fails F then (d, Err Backend)
        else (case create_fresh_temp_file pid F MAX_TEMP_ATTEMPTS d of
           (d', Err e) \<Rightarrow> (d', Err e)
         | (d', Ok temp) \<Rightarrow>
             if write_fails F then fail_and_cleanup F temp d'
             else
               let written = d'\<lparr>files := (files d')(temp \<mapsto> secret)\<rparr> in
               if rename_fails F then fail_and_cleanup F temp written
               else (written\<lparr>files := (files written)(temp := None, slot \<mapsto> secret)\<rparr>, Ok ())))"

definition file_store_load ::
    "io_faults \<Rightarrow> rstr \<Rightarrow> file_dir \<Rightarrow> (u8 list option, secret_store_error) result" where
  "file_store_load F slot d =
     (case validate_slot slot of
        Err e \<Rightarrow> Err e
      | Ok _ \<Rightarrow> if read_fails F then Err Backend else Ok (files d slot))"

definition file_store_remove ::
    "io_faults \<Rightarrow> rstr \<Rightarrow> file_dir \<Rightarrow> file_dir \<times> (unit, secret_store_error) result" where
  "file_store_remove F slot d =
     (case validate_slot slot of
        Err e \<Rightarrow> (d, Err e)
      | Ok _ \<Rightarrow>
        if unlink_fails F then (d, Err Backend)
        else (d\<lparr>files := (files d)(slot := None)\<rparr>, Ok ()))"

text \<open>The slots a directory holds: its files with a bare name. Temporary files are none.\<close>

definition dir_slot :: "file_dir \<Rightarrow> rstr \<Rightarrow> u8 list option" where
  "dir_slot d k = (if validate_slot k = Ok () then files d k else None)"

lemma temp_not_slot: "validate_slot (temp_name pid n) \<noteq> Ok ()"
  by (simp add: validate_slot_def temp_name_def bare_byte_def is_ascii_lowercase_def is_ascii_digit_def)

lemma dir_slot_temp [simp]:
  "dir_slot (d\<lparr>files := (files d)(temp_name pid n := v)\<rparr>) = dir_slot d"
  using temp_not_slot by (auto simp: dir_slot_def fun_eq_iff)

lemma create_fresh_slots:
  "create_fresh_temp_file pid F n d = (d', r) \<Longrightarrow>
     dir_slot d' = dir_slot d \<and> (\<forall>t. r = Ok t \<longrightarrow> (\<exists>m. t = temp_name pid m \<and> files d t = None \<and> files d' t = Some []))"
proof (induction pid F n d arbitrary: d' r rule: create_fresh_temp_file.induct)
  case (2 pid F n d)
  let ?c = "temp_name pid (next_temp d)"
  have next_slot: "dir_slot (d\<lparr>next_temp := m\<rparr>) = dir_slot d" for m by (simp add: dir_slot_def fun_eq_iff)
  show ?case
  proof (cases "files d ?c")
    case None
    then show ?thesis using 2(2) next_slot temp_not_slot
      by (auto simp: Let_def dir_slot_def fun_eq_iff split: if_splits)
  next
    case (Some x)
    then show ?thesis
      using 2(1) [OF refl refl, of "d'" r] 2(2) next_slot by (auto simp: Let_def)
  qed
qed simp

lemma cleanup_slots:
  "fail_and_cleanup F (temp_name pid m) d = (d', r) \<Longrightarrow> dir_slot d' = dir_slot d \<and> (\<exists>e. r = Err e)"
  by (auto simp: fail_and_cleanup_def split: if_splits)

lemma validate_slot_Err: "validate_slot k = Err e \<longleftrightarrow> validate_slot k \<noteq> Ok () \<and> e = InvalidSlot k"
  by (auto simp: validate_slot_def)

lemma file_store_store_slots:
  assumes "file_store_store pid F k b d = (d', r)"
  shows "r = Ok () \<Longrightarrow> dir_slot d' = (dir_slot d)(k \<mapsto> b)" and "r = Err e \<Longrightarrow> dir_slot d' = dir_slot d"
proof -
  consider "dir_slot d' = dir_slot d" "\<exists>e. r = Err e"
    | "dir_slot d' = (dir_slot d)(k \<mapsto> b)" "r = Ok ()"
  proof (cases "validate_slot k = Ok () \<and> \<not> mkdir_fails F \<and> \<not> chmod_fails F")
    case False
    then have "dir_slot d' = dir_slot d \<and> (\<exists>e. r = Err e)"
      using assms by (auto simp: file_store_store_def validate_slot_def split: if_splits)
    then show ?thesis using that by blast
  next
    case True
    obtain c q where cq: "create_fresh_temp_file pid F 8 d = (c, q)" by force
    note fresh = create_fresh_slots [OF cq]
    show ?thesis
    proof (cases q)
      case (Err e)
      then show ?thesis using that assms cq True fresh by (auto simp: file_store_store_def)
    next
      case (Ok t)
      then obtain m where t: "t = temp_name pid m" using fresh by blast
      have neq: "k \<noteq> t" using True t temp_not_slot by metis
      let ?w = "c\<lparr>files := (files c)(t \<mapsto> b)\<rparr>"
      have w: "dir_slot ?w = dir_slot d" using fresh by (simp add: t)
      show ?thesis
      proof (cases "write_fails F \<or> rename_fails F")
        case fail: True
        then have "fail_and_cleanup F t (if write_fails F then c else ?w) = (d', r)"
          using assms cq Ok True by (auto simp: file_store_store_def Let_def split: if_splits)
        moreover have "dir_slot (if write_fails F then c else ?w) = dir_slot d" using fresh w by simp
        ultimately show ?thesis using that cleanup_slots unfolding t by metis
      next
        case False
        then have r: "r = Ok ()" "d' = ?w\<lparr>files := (files ?w)(t := None, k \<mapsto> b)\<rparr>"
          using assms cq Ok True by (auto simp: file_store_store_def Let_def)
        have "dir_slot d' = (dir_slot d)(k \<mapsto> b)"
          using True neq w temp_not_slot [of pid m]
          by (auto simp: r t dir_slot_def fun_eq_iff split: if_splits)
        then show ?thesis using that r by blast
      qed
    qed
  qed
  then show "r = Ok () \<Longrightarrow> dir_slot d' = (dir_slot d)(k \<mapsto> b)"
    and "r = Err e \<Longrightarrow> dir_slot d' = dir_slot d" by (cases, auto)+
qed

interpretation fs: slot_store file_store_load "file_store_store pid" file_store_remove dir_slot for pid
proof
  show "file_store_load f k s = Ok v \<Longrightarrow> v = dir_slot s k" for f k s v
    by (auto simp: file_store_load_def dir_slot_def split: result.splits if_splits)
  show "file_store_remove f k s = (s', Ok ()) \<Longrightarrow> dir_slot s' = (dir_slot s)(k := None)" for f k s s'
    by (auto simp: file_store_remove_def dir_slot_def fun_eq_iff split: result.splits if_splits)
  show "file_store_remove f k s = (s', Err e) \<Longrightarrow> dir_slot s' = dir_slot s" for f k s s' e
    by (auto simp: file_store_remove_def split: result.splits if_splits)
qed (use file_store_store_slots in blast)+

text \<open>
  Property C12. The file store keeps whole secrets through failures. Whichever calls of the
  file system fail, storing either sets the slot to the whole new value and touches no other
  slot, or fails and leaves every slot as it was; removing clears the slot or changes nothing; a
  load that succeeds reports exactly what the slot holds; and a name that is not a bare
  lowercase name never reaches the file system.
\<close>

theorem file_store_atomic:
  "(case file_store_store pid F k b d of
     (d', Ok _) \<Rightarrow> dir_slot d' = (dir_slot d)(k \<mapsto> b)
   | (d', Err _) \<Rightarrow> dir_slot d' = dir_slot d) \<and>
   (case file_store_remove F k d of
     (d', Ok _) \<Rightarrow> dir_slot d' = (dir_slot d)(k := None)
   | (d', Err _) \<Rightarrow> dir_slot d' = dir_slot d) \<and>
   (case file_store_load F k d of Ok v \<Rightarrow> v = dir_slot d k | Err _ \<Rightarrow> True) \<and>
   (validate_slot k \<noteq> Ok () \<longrightarrow>
     file_store_store pid F k b d = (d, Err (InvalidSlot k)) \<and>
     file_store_remove F k d = (d, Err (InvalidSlot k)) \<and> file_store_load F k d = Err (InvalidSlot k))"
proof -
  have "case file_store_store pid F k b d of
     (d', Ok _) \<Rightarrow> dir_slot d' = (dir_slot d)(k \<mapsto> b) | (d', Err _) \<Rightarrow> dir_slot d' = dir_slot d"
    using fs.store_writes [of pid F k b d] fs.store_fails [of pid F k b d] by (auto split: result.split)
  moreover have "case file_store_remove F k d of
     (d', Ok _) \<Rightarrow> dir_slot d' = (dir_slot d)(k := None) | (d', Err _) \<Rightarrow> dir_slot d' = dir_slot d"
    using fs.remove_clears [of F k d] fs.remove_fails [of F k d] by (auto split: result.split)
  moreover have "case file_store_load F k d of Ok v \<Rightarrow> v = dir_slot d k | Err _ \<Rightarrow> True"
    using fs.load_reads [of F k d] by (auto split: result.split)
  moreover have "file_store_store pid F k b d = (d, Err (InvalidSlot k)) \<and>
     file_store_remove F k d = (d, Err (InvalidSlot k)) \<and> file_store_load F k d = Err (InvalidSlot k)"
    if "validate_slot k \<noteq> Ok ()"
  proof -
    have "validate_slot k = Err (InvalidSlot k)" using that by (auto simp: validate_slot_def)
    then show ?thesis by (simp add: file_store_store_def file_store_remove_def file_store_load_def)
  qed
  ultimately show ?thesis by blast
qed

theorem file_store_atomic_witness:
  "validate_slot (lit ''../x'') \<noteq> Ok () \<and>
   file_store_load no_faults (lit ''../x'') \<lparr>files = Map.empty, next_temp = 0\<rparr>
     = Err (InvalidSlot (lit ''../x''))"
proof -
  have bad: "validate_slot (lit ''../x'') \<noteq> Ok ()"
    by (simp add: validate_slot_def bare_byte_def is_ascii_lowercase_def is_ascii_digit_def)
  show ?thesis using bad file_store_atomic [where k = "lit ''../x''" and F = no_faults] by blast
qed

section \<open>The storage ladder\<close>

datatype storage_level = SecretService | FileLevel

datatype ladder_error = NoRungs | RungFailed storage_level

text \<open>
  A rung as the ladder sees it: its level, and what its \<open>load\<close> of the slot answers now
  (\<open>None\<close> when it fails).
\<close>

type_synonym rung = "storage_level \<times> u8 list option option"

fun walk_ladder :: "rung list \<Rightarrow> nat \<Rightarrow> storage_level option \<Rightarrow> (nat, ladder_error) result" where
  "walk_ladder [] i first_failure =
     (case first_failure of Some lv \<Rightarrow> Err (RungFailed lv) | None \<Rightarrow> Ok 0)"
| "walk_ladder ((lv, answer) # rungs) i first_failure =
     (case answer of
        Some (Some _) \<Rightarrow> Ok i
      | Some None \<Rightarrow> walk_ladder rungs (i + 1) first_failure
      | None \<Rightarrow> walk_ladder rungs (i + 1) (if first_failure = None then Some lv else first_failure))"

definition select_rung_index :: "rung list \<Rightarrow> (nat, ladder_error) result" where
  "select_rung_index ladder = (if ladder = [] then Err NoRungs else walk_ladder ladder 0 None)"

fun holds_key :: "rung \<Rightarrow> bool" where
  "holds_key (lv, Some (Some b)) = True"
| "holds_key (lv, Some None) = False"
| "holds_key (lv, None) = False"

fun unreadable :: "rung \<Rightarrow> bool" where
  "unreadable (lv, answer) = (answer = None)"

lemma walk_ladder_spec:
  "walk_ladder rungs i ff =
     (if \<exists>r \<in> set rungs. holds_key r then Ok (i + length (takeWhile (\<lambda>r. \<not> holds_key r) rungs))
      else case (case ff of Some lv \<Rightarrow> Some lv
                 | None \<Rightarrow> map_option fst (List.find unreadable rungs)) of
        Some lv \<Rightarrow> Err (RungFailed lv) | None \<Rightarrow> Ok 0)"
  by (induction rungs i ff rule: walk_ladder.induct)
    (auto split: option.splits)

text \<open>
  Property C35. A hidden key is never minted over. If some rung holds a key the highest such
  rung is selected; if none does and a rung could not be read, the choice is refused naming the
  highest unreadable rung; only when every rung answered that it is empty is the highest rung
  chosen for a new key.
\<close>

theorem ladder_never_hides_a_key:
  "case select_rung_index ladder of
     Ok n \<Rightarrow> n < length ladder \<and> (\<forall>m < n. \<not> holds_key (ladder ! m)) \<and>
       (holds_key (ladder ! n) \<or> n = 0 \<and> (\<forall>r \<in> set ladder. \<not> holds_key r \<and> \<not> unreadable r))
   | Err NoRungs \<Rightarrow> ladder = []
   | Err (RungFailed lv) \<Rightarrow> (\<forall>r \<in> set ladder. \<not> holds_key r) \<and>
       map_option fst (List.find unreadable ladder) = Some lv"
proof (cases "ladder = []")
  case False
  let ?n = "length (takeWhile (\<lambda>r. \<not> holds_key r) ladder)"
  show ?thesis
  proof (cases "\<exists>r \<in> set ladder. holds_key r")
    case True
    then have "takeWhile (\<lambda>r. \<not> holds_key r) ladder \<noteq> ladder" by (simp add: takeWhile_eq_all_conv)
    then have n: "?n < length ladder"
      by (metis length_takeWhile_le nat_less_le order_refl takeWhile_eq_take take_all)
    then have h: "holds_key (ladder ! ?n)"
      using nth_length_takeWhile [of "\<lambda>r. \<not> holds_key r" ladder] by blast
    have "\<not> holds_key (ladder ! m)" if "m < ?n" for m
      using that nth_mem [OF that] takeWhile_nth [OF that] by (metis set_takeWhileD)
    with n h True False show ?thesis by (simp add: select_rung_index_def walk_ladder_spec)
  next
    case none: False
    show ?thesis
    proof (cases "List.find unreadable ladder")
      case None
      then have "\<forall>r \<in> set ladder. \<not> unreadable r"
        unfolding find_None_iff by blast
      with None none False show ?thesis by (simp add: select_rung_index_def walk_ladder_spec)
    qed (use none False in \<open>simp add: select_rung_index_def walk_ladder_spec\<close>)
  qed
qed (simp add: select_rung_index_def)

theorem ladder_never_hides_a_key_witness:
  "select_rung_index [(SecretService, None), (FileLevel, Some None)] = Err (RungFailed SecretService) \<and>
   \<not> holds_key (FileLevel, Some None) \<and>
   List.find unreadable [(SecretService, None), (FileLevel, Some None)] \<noteq> None"
proof -
  have e: "select_rung_index [(SecretService, None), (FileLevel, Some None)] = Err (RungFailed SecretService)"
    by (simp add: select_rung_index_def)
  show ?thesis
    using e ladder_never_hides_a_key [of "[(SecretService, None), (FileLevel, Some None)]"] by simp
qed

end
