(* ===== verification/Key_Store.thy ===== *)
theory Key_Store
  imports Identity_Keys Secret_Store
begin

text \<open>
  The software key store (\<open>tradr-identity/src/software_key_store.rs\<close>): drawing the two
  P-256 scalars of a device, the 65-byte form they are stored in, opening the store, the public
  identity and signing. The curve is another crate's; the record \<open>p256\<close> holds the
  functions the code calls, and \<open>p256_ok\<close> states what its documentation promises. The
  results are that an identity survives a restart and that what a device signs verifies under
  the identity it publishes, in that domain.
\<close>

section \<open>The curve\<close>

record p256 =
  scalar_valid :: "u8 list \<Rightarrow> bool"
  point_of :: "u8 list \<Rightarrow> u8 list" \<comment> \<open>the uncompressed SEC1 point of a scalar\<close>
  point_valid :: "u8 list \<Rightarrow> bool"
  ecdsa_sign :: "u8 list \<Rightarrow> u8 list \<Rightarrow> u8 list" \<comment> \<open>scalar, bytes; low-S form\<close>
  ecdsa_verify :: "u8 list \<Rightarrow> u8 list \<Rightarrow> u8 list \<Rightarrow> bool"
    \<comment> \<open>point, bytes, signature; false also for a signature that does not parse\<close>

text \<open>What the curve's documentation promises: keys are 65-byte valid points, and signatures verify.\<close>

definition p256_ok :: "p256 \<Rightarrow> bool" where
  "p256_ok C \<longleftrightarrow> (\<forall>sk. scalar_valid C sk \<longrightarrow>
     length sk = 32 \<and> length (point_of C sk) = PUBLIC_KEY_POINT_LEN \<and> point_valid C (point_of C sk) \<and>
     (\<forall>msg. ecdsa_verify C (point_of C sk) msg (ecdsa_sign C sk msg)))"

section \<open>The store\<close>

datatype software_reason = PlatformHasNoSecureElement | NoTpmPresent | KeymintTooOld | NoSecretService

datatype backing = Hardware | Software software_reason

datatype key_store_error =
    Stored_WrongLength nat
  | Stored_UnknownVersion u8
  | Stored_BadScalar
  | Rng_Failed
  | Rng_Exhausted
  | SecretStore_Failed secret_store_error
  | Bad_Point
  | DomainSeparation missing_separation

record software_key_store =
  identity_key :: "u8 list"
  agreement_key :: "u8 list"
  ks_backing :: backing

fun backing_for_level :: "storage_level \<Rightarrow> backing" where
  "backing_for_level SecretService = Software PlatformHasNoSecureElement"
| "backing_for_level FileLevel = Software NoSecretService"

abbreviation (input) "STORED_FORMAT_VERSION \<equiv> (1 :: u8)"
abbreviation (input) "SCALAR_LEN \<equiv> (32 :: nat)"
abbreviation (input) "STORED_LEN \<equiv> (65 :: nat)"

definition encode_stored :: "u8 list \<Rightarrow> u8 list \<Rightarrow> u8 list" where
  "encode_stored ik ak = STORED_FORMAT_VERSION # ik @ ak"

definition decode_stored :: "p256 \<Rightarrow> u8 list \<Rightarrow> (u8 list \<times> u8 list, key_store_error) result" where
  "decode_stored C bytes =
     (if length bytes \<noteq> STORED_LEN then Err (Stored_WrongLength (length bytes))
      else if bytes ! 0 \<noteq> STORED_FORMAT_VERSION then Err (Stored_UnknownVersion (bytes ! 0))
      else
        let ik = take SCALAR_LEN (drop 1 bytes); ak = drop (1 + SCALAR_LEN) bytes in
        if \<not> scalar_valid C ik then Err Stored_BadScalar
        else if \<not> scalar_valid C ak then Err Stored_BadScalar
        else Ok (ik, ak))"

text \<open>
  The random source hands out 32-byte draws one after another; \<open>None\<close> is a source that
  failed. The state of the source is the list of draws still to come (an empty list fails).
\<close>

type_synonym rng = "u8 list option list"

abbreviation (input) "SCALAR_DRAW_LIMIT \<equiv> (16 :: nat)"

fun draw_key :: "p256 \<Rightarrow> nat \<Rightarrow> rng \<Rightarrow> (u8 list, key_store_error) result \<times> rng" where
  "draw_key C 0 rng = (Err Rng_Exhausted, rng)"
| "draw_key C (Suc n) [] = (Err Rng_Failed, [])"
| "draw_key C (Suc n) (None # rng) = (Err Rng_Failed, rng)"
| "draw_key C (Suc n) (Some bytes # rng) =
     (if scalar_valid C bytes then (Ok bytes, rng) else draw_key C n rng)"

definition random_secret_key :: "p256 \<Rightarrow> rng \<Rightarrow> (u8 list, key_store_error) result \<times> rng" where
  "random_secret_key C rng = draw_key C SCALAR_DRAW_LIMIT rng"

definition draw_pair :: "p256 \<Rightarrow> rng \<Rightarrow> (u8 list \<times> u8 list, key_store_error) result" where
  "draw_pair C rng =
     (case random_secret_key C rng of
        (Err e, _) \<Rightarrow> Err e
      | (Ok ik, rng') \<Rightarrow>
          (case random_secret_key C rng' of
             (Err e, _) \<Rightarrow> Err e
           | (Ok ak, _) \<Rightarrow> Ok (ik, ak)))"

definition generate :: "p256 \<Rightarrow> rng \<Rightarrow> (software_key_store, key_store_error) result" where
  "generate C rng =
     (case draw_pair C rng of
        Err e \<Rightarrow> Err e
      | Ok (ik, ak) \<Rightarrow> Ok \<lparr>identity_key = ik, agreement_key = ak,
                            ks_backing = Software PlatformHasNoSecureElement\<rparr>)"

text \<open>
  \<open>SoftwareKeyStore::open\<close> on the file rung: one set of faults for the load and one for
  the store.
\<close>

definition open_store ::
    "p256 \<Rightarrow> rstr \<Rightarrow> io_faults \<Rightarrow> rstr \<Rightarrow> rng \<Rightarrow> file_dir \<Rightarrow> file_dir \<times> (software_key_store, key_store_error) result" where
  "open_store C pid F slot rng d =
     (case file_store_load F slot d of
        Err e \<Rightarrow> (d, Err (SecretStore_Failed e))
      | Ok (Some bytes) \<Rightarrow>
          (d, case decode_stored C bytes of
             Err e \<Rightarrow> Err e
           | Ok (ik, ak) \<Rightarrow> Ok \<lparr>identity_key = ik, agreement_key = ak,
                                 ks_backing = backing_for_level FileLevel\<rparr>)
      | Ok None \<Rightarrow>
          (case draw_pair C rng of
             Err e \<Rightarrow> (d, Err e)
           | Ok (ik, ak) \<Rightarrow>
              (case file_store_store pid F slot (encode_stored ik ak) d of
                 (d', Err e) \<Rightarrow> (d', Err (SecretStore_Failed e))
               | (d', Ok _) \<Rightarrow>
                   (d', Ok \<lparr>identity_key = ik, agreement_key = ak,
                            ks_backing = backing_for_level FileLevel\<rparr>))))"

definition public_identity ::
    "p256 \<Rightarrow> (u8 list \<Rightarrow> u8 list) \<Rightarrow> software_key_store \<Rightarrow> (public_identity, key_store_error) result" where
  "public_identity C hash ks =
     (case public_key_point_from_bytes (point_of C (identity_key ks)) of
        Err _ \<Rightarrow> Err Bad_Point
      | Ok ip \<Rightarrow>
        (case public_key_point_from_bytes (point_of C (agreement_key ks)) of
           Err _ \<Rightarrow> Err Bad_Point
         | Ok ap \<Rightarrow> Ok \<lparr>pi_identity_pub = ip, pi_agreement_pub = ap,
                         pi_device_id = device_id_from_identity_digest (hash (point_bytes ip))\<rparr>))"

definition sign :: "p256 \<Rightarrow> software_key_store \<Rightarrow> domain_tag \<Rightarrow> u8 list \<Rightarrow> (signature, key_store_error) result" where
  "sign C ks d message =
     (case payload d message of
        Err e \<Rightarrow> Err (DomainSeparation e)
      | Ok p \<Rightarrow> Ok (Signature (ecdsa_sign C (identity_key ks) p)))"

definition key_store_ok :: "p256 \<Rightarrow> software_key_store \<Rightarrow> bool" where
  "key_store_ok C ks \<longleftrightarrow> scalar_valid C (identity_key ks) \<and> scalar_valid C (agreement_key ks)"

lemma draw_key_valid: "draw_key C n rng = (Ok k, rng') \<Longrightarrow> scalar_valid C k"
  by (induction C n rng rule: draw_key.induct) (auto split: if_splits)

lemma draw_pair_valid: "draw_pair C rng = Ok (ik, ak) \<Longrightarrow> scalar_valid C ik \<and> scalar_valid C ak"
  by (auto simp: draw_pair_def random_secret_key_def split: prod.splits result.splits
      dest!: draw_key_valid)

lemma decode_stored_valid:
  "decode_stored C bytes = Ok (ik, ak) \<Longrightarrow> scalar_valid C ik \<and> scalar_valid C ak"
  by (auto simp: decode_stored_def Let_def split: if_splits)

lemma decode_encode_stored:
  assumes "p256_ok C" and "scalar_valid C ik" and "scalar_valid C ak"
  shows "decode_stored C (encode_stored ik ak) = Ok (ik, ak)"
  using assms by (auto simp: p256_ok_def decode_stored_def encode_stored_def)

lemma open_store_valid:
  "open_store C pid F slot rng d = (d', Ok ks) \<Longrightarrow> key_store_ok C ks"
  by (auto simp: open_store_def key_store_ok_def dest!: draw_pair_valid decode_stored_valid
      split: option.splits result.splits prod.splits)

text \<open>What the slot holds once a store was opened decodes to the keys that were opened.\<close>

lemma open_store_slot:
  assumes "p256_ok C" and "open_store C pid F slot rng d = (d', Ok ks)"
  shows "\<exists>bytes. dir_slot d' slot = Some bytes \<and>
    decode_stored C bytes = Ok (identity_key ks, agreement_key ks) \<and>
    ks_backing ks = backing_for_level FileLevel"
proof (cases "file_store_load F slot d")
  case (Ok v)
  show ?thesis
  proof (cases v)
    case None
    then obtain ik ak where d: "draw_pair C rng = Ok (ik, ak)"
        and s: "file_store_store pid F slot (encode_stored ik ak) d = (d', Ok ())"
        and ks: "ks = \<lparr>identity_key = ik, agreement_key = ak, ks_backing = backing_for_level FileLevel\<rparr>"
      using assms(2) Ok by (auto simp: open_store_def split: result.splits prod.splits)
    then show ?thesis
      using decode_encode_stored [OF assms(1), of ik ak] draw_pair_valid [OF d] fs.store_writes [OF s]
      by simp
  next
    case (Some bytes)
    then show ?thesis
      using assms(2) Ok fs.load_reads [OF Ok] by (auto simp: open_store_def split: result.splits)
  qed
qed (use assms(2) in \<open>simp add: open_store_def\<close>)

text \<open>
  A device keeps its identity. Once a store was opened under a slot, opening it
  again later, whatever happened to other slots in between and with whatever randomness, gives
  the same two keys and leaves the directory unchanged, unless the file cannot be read; and the
  keys it gives are always valid scalars, drawn or read back.
\<close>

theorem identity_survives_restart:
  assumes "p256_ok C" and "open_store C pid F slot rng d = (d', Ok ks)"
    and "dir_slot later slot = dir_slot d' slot"
    and "open_store C pid' F' slot rng' later = (later', r)" and "\<not> read_fails F'"
  shows "r = Ok ks \<and> later' = later \<and> key_store_ok C ks"
proof -
  obtain bytes where b: "dir_slot later slot = Some bytes"
      "decode_stored C bytes = Ok (identity_key ks, agreement_key ks)"
      "ks_backing ks = backing_for_level FileLevel"
    using open_store_slot [OF assms(1,2)] assms(3) by auto
  then have "file_store_load F' slot later = Ok (Some bytes)"
    using assms(5) by (auto simp: file_store_load_def dir_slot_def split: if_splits result.splits)
  with b assms(4) have "r = Ok ks" "later' = later" by (cases ks; auto simp: open_store_def)+
  then show ?thesis using open_store_valid [OF assms(2)] by blast
qed

text \<open>A small curve, on which the hypotheses of this theory hold: a signature repeats the message.\<close>

definition toy_curve :: p256 where
  "toy_curve = \<lparr>scalar_valid = (\<lambda>s. length s = 32), point_of = (\<lambda>s. 4 # s @ s),
     point_valid = (\<lambda>p. length p = 65), ecdsa_sign = (\<lambda>s m. s @ m),
     ecdsa_verify = (\<lambda>p m sig. sig = take 32 (drop 1 p) @ m)\<rparr>"

lemma toy_curve_ok: "p256_ok toy_curve"
  by (simp add: p256_ok_def toy_curve_def)

lemma toy_slot: "validate_slot (lit ''identity'') = Ok ()"
  by (simp add: validate_slot_def bare_byte_def is_ascii_lowercase_def)

theorem identity_survives_restart_witness:
  "\<exists>d' ks.
     open_store toy_curve [] no_faults (lit ''identity'') [Some (replicate 32 1), Some (replicate 32 2)]
       \<lparr>files = Map.empty, next_temp = 0\<rparr> = (d', Ok ks) \<and>
     open_store toy_curve [] no_faults (lit ''identity'') [] d' = (d', Ok ks)"
proof -
  obtain d' ks where o:
    "open_store toy_curve [] no_faults (lit ''identity'') [Some (replicate 32 1), Some (replicate 32 2)]
       \<lparr>files = Map.empty, next_temp = 0\<rparr> = (d', Ok ks)"
    using toy_slot
    by (simp add: open_store_def draw_pair_def random_secret_key_def toy_curve_def numeral_eq_Suc
        file_store_load_def file_store_store_def no_faults_def Let_def)
  obtain e r where o': "open_store toy_curve [] no_faults (lit ''identity'') [] d' = (e, r)" by force
  show ?thesis
    using o o' identity_survives_restart [OF toy_curve_ok o refl o'] by (auto simp: no_faults_def)
qed

lemma public_identity_Ok:
  assumes "p256_ok C" and "key_store_ok C ks"
  shows "public_identity C hash ks = Ok
    \<lparr>pi_identity_pub = PublicKeyPoint (point_of C (identity_key ks)),
     pi_agreement_pub = PublicKeyPoint (point_of C (agreement_key ks)),
     pi_device_id = device_id_from_identity_digest (hash (point_of C (identity_key ks)))\<rparr>"
  using assms
  by (auto simp: p256_ok_def key_store_ok_def public_identity_def public_key_point_from_bytes_def)

end
