(* ===== verification/Rel_Path.thy ===== *)
theory Rel_Path
  imports Rust_Str
begin

text \<open>
  Relative paths named by a peer (\<open>tradr-core/src/rel_path.rs\<close>). A path that reaches the
  file system has passed \<open>RelPath::new\<close>; the theory models that validator rule by rule
  and shows what it buys: walking the components of an accepted path from a share root never
  leaves the root, whatever \<open>..\<close> or empty components would have done, and the path has
  exactly one reading, on a platform where a backslash separates too.
\<close>

section \<open>The validator\<close>

abbreviation (input) "REL_PATH_COMPONENT_MAX_LEN \<equiv> (255 :: nat)"

abbreviation (input) "SLASH \<equiv> (47 :: rchar)"
abbreviation (input) "BACKSLASH \<equiv> (92 :: rchar)"
abbreviation (input) "COLON \<equiv> (58 :: rchar)"

record rel_path =
  rel_path_value :: rstr

datatype rel_path_error =
    RelPath_Empty
  | RelPath_Absolute
  | RelPath_Backslash
  | RelPath_DriveLetter
  | RelPath_ControlCharacter rchar
  | RelPath_MisleadingDisplay rchar
  | RelPath_EmptyComponent
  | RelPath_DotComponent rstr
  | RelPath_ComponentTooLong nat

fun has_drive_letter_prefix :: "rstr \<Rightarrow> bool" where
  "has_drive_letter_prefix (first # second # _) = (second = COLON \<and> is_ascii_alphabetic first)"
| "has_drive_letter_prefix _ = False"

definition is_misleading_display_character :: "rchar \<Rightarrow> bool" where
  "is_misleading_display_character c \<longleftrightarrow>
     (0x202a \<le> c \<and> c \<le> 0x202e) \<or> (0x2066 \<le> c \<and> c \<le> 0x2069) \<or> c = 0x2028 \<or> c = 0x2029"

fun check_components :: "rstr list \<Rightarrow> (unit, rel_path_error) result" where
  "check_components [] = Ok ()"
| "check_components (component # rest) =
     (if component = [] then Err RelPath_EmptyComponent
      else if component = lit ''.'' \<or> component = lit ''..'' then Err (RelPath_DotComponent component)
      else if str_len component > REL_PATH_COMPONENT_MAX_LEN
      then Err (RelPath_ComponentTooLong (str_len component))
      else check_components rest)"

definition rel_path_new :: "rstr \<Rightarrow> (rel_path, rel_path_error) result" where
  "rel_path_new s =
     (if s = [] then Err RelPath_Empty
      else if hd s = SLASH then Err RelPath_Absolute
      else if BACKSLASH \<in> set s then Err RelPath_Backslash
      else if has_drive_letter_prefix s then Err RelPath_DriveLetter
      else case List.find is_control s of
        Some c \<Rightarrow> Err (RelPath_ControlCharacter c)
      | None \<Rightarrow>
        (case List.find is_misleading_display_character s of
           Some c \<Rightarrow> Err (RelPath_MisleadingDisplay c)
         | None \<Rightarrow>
           (case check_components (split_on SLASH s) of
              Err e \<Rightarrow> Err e
            | Ok _ \<Rightarrow> Ok \<lparr>rel_path_value = s\<rparr>)))"

definition rel_path_root :: rel_path where
  "rel_path_root = \<lparr>rel_path_value = []\<rparr>"

definition components :: "rel_path \<Rightarrow> rstr list" where
  "components p = filter (\<lambda>c. c \<noteq> []) (split_on SLASH (rel_path_value p))"

definition rel_path_display :: "rel_path \<Rightarrow> rstr" where
  "rel_path_display p = rel_path_value p"

section \<open>What the validator accepts\<close>

definition good_component :: "rstr \<Rightarrow> bool" where
  "good_component c \<longleftrightarrow>
     c \<noteq> [] \<and> c \<noteq> lit ''.'' \<and> c \<noteq> lit ''..'' \<and> str_len c \<le> REL_PATH_COMPONENT_MAX_LEN"

definition good_path :: "rstr \<Rightarrow> bool" where
  "good_path s \<longleftrightarrow>
     BACKSLASH \<notin> set s \<and> \<not> has_drive_letter_prefix s \<and>
     (\<forall>c \<in> set s. \<not> is_control c \<and> \<not> is_misleading_display_character c) \<and>
     (\<forall>c \<in> set (split_on SLASH s). good_component c)"

lemma check_components_Ok [simp]:
  "check_components cs = Ok () \<longleftrightarrow> (\<forall>c \<in> set cs. good_component c)"
  by (induction cs rule: check_components.induct) (auto simp: good_component_def not_less)

lemma good_path_head:
  assumes "\<forall>c \<in> set (split_on SLASH s). good_component c"
  shows "s \<noteq> []" and "hd s \<noteq> SLASH"
  using assms by (cases s; auto simp: good_component_def split: if_splits)+

lemma rel_path_new_Ok_iff:
  "rel_path_new s = Ok p \<longleftrightarrow> p = \<lparr>rel_path_value = s\<rparr> \<and> good_path s"
  using good_path_head [of s]
  by (auto simp: rel_path_new_def good_path_def find_None_iff find_Some_iff
      simp flip: check_components_Ok split: option.splits result.splits)

lemma components_of_new:
  assumes "rel_path_new s = Ok p"
  shows "components p = split_on SLASH s"
  using assms by (auto simp: rel_path_new_Ok_iff good_path_def good_component_def components_def
      intro!: filter_True)

section \<open>Walking a path from a root\<close>

text \<open>
  How a path is resolved lexically: an empty component or \<open>.\<close> stays, \<open>..\<close> goes to
  the parent, and any other component descends. The current place is the list of names
  below the file system's root.
\<close>

fun walk :: "rstr list \<Rightarrow> rstr list \<Rightarrow> rstr list" where
  "walk here [] = here"
| "walk here (c # cs) =
     (if c = [] \<or> c = lit ''.'' then walk here cs
      else if c = lit ''..'' then walk (butlast here) cs
      else walk (here @ [c]) cs)"

lemma walk_good: "\<forall>c \<in> set cs. good_component c \<Longrightarrow> walk here cs = here @ cs"
  by (induction here cs rule: walk.induct) (auto simp: good_component_def)

text \<open>
  Property C11. A relative path that \<open>RelPath::new\<close> accepts stays below the place it
  is joined to: resolving its slash-separated components from any root visits the root, then one
  named directory per component, and every prefix of the walk is at or below the root. The
  components are non-empty, at most 255 bytes, and contain neither separator, no control and
  no display-reordering character; \<open>Display\<close> reproduces the text that was accepted.
\<close>

theorem rel_path_confined:
  assumes "rel_path_new s = Ok p"
  shows "walk root (split_on SLASH s) = root @ components p \<and>
    (\<forall>n. walk root (take n (split_on SLASH s)) = root @ take n (components p)) \<and>
    (\<forall>c \<in> set (components p).
       c \<noteq> [] \<and> str_len c \<le> REL_PATH_COMPONENT_MAX_LEN \<and> SLASH \<notin> set c \<and> BACKSLASH \<notin> set c \<and>
       (\<forall>x \<in> set c. \<not> is_control x \<and> \<not> is_misleading_display_character x)) \<and>
    join_with SLASH (components p) = rel_path_display p \<and> rel_path_display p = s"
proof -
  have p: "p = \<lparr>rel_path_value = s\<rparr>" and good: "good_path s"
    using assms by (auto simp: rel_path_new_Ok_iff)
  note cs = components_of_new [OF assms]
  have whole: "walk root (split_on SLASH s) = root @ components p"
    using good by (simp add: cs good_path_def walk_good)
  have prefixes: "walk root (take n (split_on SLASH s)) = root @ take n (components p)" for n
    unfolding cs using good by (intro walk_good) (auto simp: good_path_def dest: in_set_takeD)
  have "join_with SLASH (components p) = rel_path_display p" "rel_path_display p = s"
    by (simp_all only: cs) (simp_all add: p rel_path_display_def join_split)
  moreover have "c \<noteq> [] \<and> str_len c \<le> REL_PATH_COMPONENT_MAX_LEN \<and> SLASH \<notin> set c \<and> BACKSLASH \<notin> set c \<and>
      (\<forall>x \<in> set c. \<not> is_control x \<and> \<not> is_misleading_display_character x)"
    if "c \<in> set (components p)" for c
    using that good split_on_pieces [of c SLASH s] split_on_set [of c SLASH s]
    by (auto simp: cs good_path_def good_component_def)
  ultimately show ?thesis using whole prefixes by blast
qed

theorem rel_path_confined_witness:
  "rel_path_new (lit ''a/b'') = Ok \<lparr>rel_path_value = lit ''a/b''\<rparr> \<and>
   walk [lit ''srv''] (split_on SLASH (lit ''a/b'')) =
     [lit ''srv''] @ components \<lparr>rel_path_value = lit ''a/b''\<rparr>"
proof -
  have ok: "rel_path_new (lit ''a/b'') = Ok \<lparr>rel_path_value = lit ''a/b''\<rparr>"
    by code_simp
  show ?thesis using ok rel_path_confined [OF ok, of "[lit ''srv'']"] by blast
qed

lemma check_components_no_chars [simp]:
  "check_components cs \<noteq> Err (RelPath_ControlCharacter c)"
  "check_components cs \<noteq> Err (RelPath_MisleadingDisplay c)"
  by (induction cs rule: check_components.induct) auto

text \<open>The first offending character is the one the error names.\<close>

lemma rel_path_control_character:
  assumes "rel_path_new s = Err (RelPath_ControlCharacter c)"
  shows "is_control c" and "c \<in> set s"
  using assms
  by (auto simp: rel_path_new_def find_Some_iff check_components_no_chars
      split: if_splits option.splits result.splits)

lemma components_root [simp]: "components rel_path_root = []"
  by (simp add: components_def rel_path_root_def)

text \<open>No accepted text names the root: the empty path is only built by \<open>RelPath::root\<close>.\<close>

lemma rel_path_new_not_root: "rel_path_new s \<noteq> Ok rel_path_root"
  by (auto simp: rel_path_new_Ok_iff rel_path_root_def good_path_def good_component_def)

end
