(* ===== verification/Rust_BTreeMap.thy ===== *)
theory Rust_BTreeMap
  imports Tradr_Prelude
begin

text \<open>
  The standard library's \<open>BTreeMap\<close>, as far as the code uses it: \<open>get\<close>,
  \<open>insert\<close>, \<open>remove\<close>, \<open>len\<close> and iteration in ascending key order. The locale
  \<open>ordered_map\<close> states what a client relies on and proves, once, what the clients
  need of iteration: the entries are determined by the lookups, and a sum over the entries
  is a sum over the keys. The model of the map is an association list kept in key order,
  and the interpretation \<open>bt\<close> discharges the laws for it.
\<close>

section \<open>The interface\<close>

locale ordered_map =
  fixes empty :: "'m"
    and get :: "'m \<Rightarrow> 'k::linorder \<Rightarrow> 'v option"
    and ins :: "'k \<Rightarrow> 'v \<Rightarrow> 'm \<Rightarrow> 'm"
    and rem :: "'k \<Rightarrow> 'm \<Rightarrow> 'm"
    and entries :: "'m \<Rightarrow> ('k \<times> 'v) list"
    and invar :: "'m \<Rightarrow> bool"
  assumes entries_sorted: "invar m \<Longrightarrow> sorted_wrt (<) (map fst (entries m))"
    and get_entries: "invar m \<Longrightarrow> get m k = map_of (entries m) k"
    and get_empty: "get empty k = None"
    and get_ins: "invar m \<Longrightarrow> get (ins k v m) j = (if j = k then Some v else get m j)"
    and get_rem: "invar m \<Longrightarrow> get (rem k m) j = (if j = k then None else get m j)"
    and invar_empty: "invar empty"
    and invar_ins: "invar m \<Longrightarrow> invar (ins k v m)"
    and invar_rem: "invar m \<Longrightarrow> invar (rem k m)"
begin

lemmas map_laws = get_empty get_ins get_rem invar_empty invar_ins invar_rem

lemma distinct_keys: "invar m \<Longrightarrow> distinct (map fst (entries m))"
  by (drule entries_sorted) (simp add: strict_sorted_iff)

lemma in_entries_iff: "invar m \<Longrightarrow> (k, v) \<in> set (entries m) \<longleftrightarrow> get m k = Some v"
  by (simp add: get_entries distinct_keys map_of_eq_Some_iff)

lemma dom_get: "invar m \<Longrightarrow> dom (get m) = fst ` set (entries m)"
  by (simp add: get_entries fun_eq_iff dom_def flip: dom_map_of_conv_image_fst)

lemma finite_dom: "invar m \<Longrightarrow> finite (dom (get m))"
  by (simp add: dom_get)

lemma entries_ext:
  assumes "invar m" and "invar m'" and "get m = get m'"
  shows "entries m = entries m'"
proof -
  have "set (map fst (entries m)) = set (map fst (entries m'))"
    using assms dom_get by (metis list.set_map)
  then have keys: "map fst (entries m) = map fst (entries m')"
    using assms(1,2) by (intro strict_sorted_equal entries_sorted) auto
  have "map_of (entries m) = map_of (entries m')"
    using assms by (simp add: fun_eq_iff flip: get_entries)
  with keys distinct_keys [OF assms(1)] distinct_keys [OF assms(2)] show ?thesis
    by (auto intro: nth_equalityI simp: list_eq_iff_nth_eq prod_eq_iff)
       (metis length_map map_of_eq_Some_iff nth_map nth_mem option.inject prod.collapse)
qed

lemma sum_entries:
  fixes f :: "'k \<Rightarrow> 'v \<Rightarrow> nat"
  assumes "invar m"
  shows "(\<Sum>(k, v) \<leftarrow> entries m. f k v) = (\<Sum>k \<in> dom (get m). f k (the (get m k)))"
proof -
  have "(\<Sum>(k, v) \<leftarrow> entries m. f k v) = (\<Sum>p \<in> set (entries m). f (fst p) (snd p))"
    using distinct_keys [OF assms]
    by (simp add: sum_list_distinct_conv_sum_set distinct_map case_prod_unfold)
  also have "\<dots> = (\<Sum>p \<in> set (entries m). f (fst p) (the (get m (fst p))))"
    by (intro sum.cong refl) (metis assms in_entries_iff option.sel prod.collapse)
  also have "\<dots> = (\<Sum>k \<in> fst ` set (entries m). f k (the (get m k)))"
    using distinct_keys [OF assms] by (simp add: sum.reindex distinct_map)
  finally show ?thesis by (simp add: dom_get assms)
qed

lemma dom_ins: "invar m \<Longrightarrow> dom (get (ins k v m)) = insert k (dom (get m))"
  by (auto simp: dom_def get_ins)

lemma sum_ins:
  fixes f :: "'k \<Rightarrow> 'v \<Rightarrow> nat"
  assumes "invar m"
  shows "(\<Sum>(j, w) \<leftarrow> entries (ins k v m). f j w) + (case get m k of None \<Rightarrow> 0 | Some w \<Rightarrow> f k w)
    = (\<Sum>(j, w) \<leftarrow> entries m. f j w) + f k v"
proof -
  have rest: "(\<Sum>j \<in> dom (get m) - {k}. f j (the (get (ins k v m) j))) =
      (\<Sum>j \<in> dom (get m) - {k}. f j (the (get m j)))"
    by (intro sum.cong) (auto simp: get_ins assms)
  have "(\<Sum>(j, w) \<leftarrow> entries (ins k v m). f j w) =
      f k v + (\<Sum>j \<in> dom (get m) - {k}. f j (the (get m j)))"
    using finite_dom [OF assms]
    by (simp add: sum_entries invar_ins assms dom_ins sum.insert_remove get_ins rest)
  moreover have "(\<Sum>(j, w) \<leftarrow> entries m. f j w) =
      (case get m k of None \<Rightarrow> 0 | Some w \<Rightarrow> f k w) + (\<Sum>j \<in> dom (get m) - {k}. f j (the (get m j)))"
    using finite_dom [OF assms]
    by (auto simp: sum_entries assms sum.remove [of _ k] domIff split: option.splits)
  ultimately show ?thesis by simp
qed

end

section \<open>The map the models use\<close>

type_synonym ('k, 'v) btree_map = "('k \<times> 'v) list"

definition bt_empty :: "('k::linorder, 'v) btree_map" where
  "bt_empty = []"

definition bt_get :: "('k::linorder, 'v) btree_map \<Rightarrow> 'k \<Rightarrow> 'v option" where
  "bt_get m = map_of m"

fun bt_insert :: "'k::linorder \<Rightarrow> 'v \<Rightarrow> ('k, 'v) btree_map \<Rightarrow> ('k, 'v) btree_map" where
  "bt_insert k v [] = [(k, v)]"
| "bt_insert k v ((j, w) # m) =
     (if k < j then (k, v) # (j, w) # m
      else if k = j then (k, v) # m
      else (j, w) # bt_insert k v m)"

definition bt_remove :: "'k::linorder \<Rightarrow> ('k, 'v) btree_map \<Rightarrow> ('k, 'v) btree_map" where
  "bt_remove k m = filter (\<lambda>(j, _). j \<noteq> k) m"

definition bt_values :: "('k::linorder, 'v) btree_map \<Rightarrow> 'v list" where
  "bt_values m = map snd m"

definition bt_invar :: "('k::linorder, 'v) btree_map \<Rightarrow> bool" where
  "bt_invar m \<longleftrightarrow> sorted_wrt (<) (map fst m)"

lemma bt_insert_keys: "fst ` set (bt_insert k v m) = insert k (fst ` set m)"
  by (induction k v m rule: bt_insert.induct) auto

lemma bt_insert_sorted:
  "sorted_wrt (<) (map fst m) \<Longrightarrow> sorted_wrt (<) (map fst (bt_insert k v m))"
proof (induction k v m rule: bt_insert.induct)
  case (2 k v j w m)
  have "x \<in> fst ` set (bt_insert k v m) \<Longrightarrow> k \<noteq> j \<Longrightarrow> \<not> k < j \<Longrightarrow> j < x" for x
    using 2 by (auto simp: bt_insert_keys)
  with 2 show ?case by (auto simp: image_iff)
qed simp

lemma bt_insert_map_of: "map_of (bt_insert k v m) = (map_of m)(k \<mapsto> v)"
  by (induction k v m rule: bt_insert.induct) (auto simp: fun_eq_iff)

lemma bt_remove_map_of: "map_of (bt_remove k m) = (map_of m)(k := None)"
  by (induction m) (auto simp: bt_remove_def fun_eq_iff)

interpretation bt: ordered_map bt_empty bt_get bt_insert bt_remove "\<lambda>m. m" bt_invar
proof unfold_locales
  show "bt_invar (bt_remove k m)" if "bt_invar m" for k and m :: "('a, 'b) btree_map"
    using that by (auto simp: bt_invar_def bt_remove_def sorted_wrt_map sorted_wrt_filter)
qed (auto simp: bt_invar_def bt_get_def bt_empty_def bt_insert_map_of bt_remove_map_of
    bt_insert_sorted)

lemmas bt_simps [simp] =
  bt.get_empty bt.get_ins bt.get_rem bt.invar_empty bt.invar_ins bt.invar_rem

lemma bt_values_sum:
  fixes f :: "'v \<Rightarrow> nat"
  assumes "bt_invar m"
  shows "(\<Sum>v \<leftarrow> bt_values m. f v) = (\<Sum>k \<in> dom (bt_get m). f (the (bt_get m k)))"
  using bt.sum_entries [OF assms, of "\<lambda>_. f"]
  by (simp add: bt_values_def case_prod_unfold comp_def)

end
