(* ===== verification/Peer_Discovery.thy ===== *)
theory Peer_Discovery
  imports Rel_Path Identifiers Rust_BTreeMap "HOL-Library.Product_Lexorder"
begin

text \<open>
  Discovery (\<open>tradr-core/src/discovery.rs\<close> and the \<open>Candidate\<close> of
  \<open>transport.rs\<close>): the validated strings a source reports, the capability bits, the
  observation of one peer with its candidate addresses in canonical order, and the
  \<open>PeerList\<close> that merges what four independent sources report. The lemmas show that a
  source can only ever change its own observations, and that \<open>peers()\<close> groups the
  observations of one device and loses none. Rust orders strings by their bytes; UTF-8 keeps
  the order of code points, so the model orders the lists of code points.
\<close>

section \<open>Validated strings\<close>

abbreviation (input) "OBSERVATION_KEY_MAX_LEN \<equiv> (128 :: nat)"
abbreviation (input) "DISPLAY_NAME_MAX_LEN \<equiv> (32 :: nat)"

datatype bounded_string_error =
    BoundedString_Empty
  | BoundedString_TooLong nat
  | BoundedString_ControlCharacter rchar
  | BoundedString_MisleadingDisplay rchar

definition validate_bounded_string :: "rstr \<Rightarrow> nat \<Rightarrow> (unit, bounded_string_error) result" where
  "validate_bounded_string s max_len =
     (if s = [] then Err BoundedString_Empty
      else if str_len s > max_len then Err (BoundedString_TooLong (str_len s))
      else case List.find is_control s of
        Some c \<Rightarrow> Err (BoundedString_ControlCharacter c)
      | None \<Rightarrow>
        (case List.find is_misleading_display_character s of
           Some c \<Rightarrow> Err (BoundedString_MisleadingDisplay c)
         | None \<Rightarrow> Ok ()))"

definition printable :: "rstr \<Rightarrow> bool" where
  "printable s \<longleftrightarrow> s \<noteq> [] \<and> (\<forall>c \<in> set s. \<not> is_control c \<and> \<not> is_misleading_display_character c)"

lemma validate_bounded_string_Ok [simp]:
  "validate_bounded_string s n = Ok () \<longleftrightarrow> printable s \<and> str_len s \<le> n"
  by (auto simp: validate_bounded_string_def printable_def find_None_iff find_Some_iff
      split: option.splits)

type_synonym source_id = rstr
type_synonym transport_id = rstr

datatype observation_key = ObservationKey (observation_key_str: rstr)

datatype observation_key_error =
    ObservationKey_Empty
  | ObservationKey_TooLong nat
  | ObservationKey_ControlCharacter rchar
  | ObservationKey_MisleadingDisplay rchar

definition observation_key_new :: "rstr \<Rightarrow> (observation_key, observation_key_error) result" where
  "observation_key_new s =
     (case map_err (\<lambda>e. case e of
          BoundedString_Empty \<Rightarrow> ObservationKey_Empty
        | BoundedString_TooLong n \<Rightarrow> ObservationKey_TooLong n
        | BoundedString_ControlCharacter c \<Rightarrow> ObservationKey_ControlCharacter c
        | BoundedString_MisleadingDisplay c \<Rightarrow> ObservationKey_MisleadingDisplay c)
        (validate_bounded_string s OBSERVATION_KEY_MAX_LEN) of
        Err e \<Rightarrow> Err e
      | Ok _ \<Rightarrow> Ok (ObservationKey s))"

datatype display_name = DisplayName (display_name_str: rstr)

datatype display_name_error =
    DisplayName_Empty
  | DisplayName_TooLong nat
  | DisplayName_ControlCharacter rchar
  | DisplayName_MisleadingDisplay rchar

definition display_name_new :: "rstr \<Rightarrow> (display_name, display_name_error) result" where
  "display_name_new s =
     (case map_err (\<lambda>e. case e of
          BoundedString_Empty \<Rightarrow> DisplayName_Empty
        | BoundedString_TooLong n \<Rightarrow> DisplayName_TooLong n
        | BoundedString_ControlCharacter c \<Rightarrow> DisplayName_ControlCharacter c
        | BoundedString_MisleadingDisplay c \<Rightarrow> DisplayName_MisleadingDisplay c)
        (validate_bounded_string s DISPLAY_NAME_MAX_LEN) of
        Err e \<Rightarrow> Err e
      | Ok _ \<Rightarrow> Ok (DisplayName s))"

datatype candidate = Candidate (cand_transport: transport_id) (cand_address: rstr)

datatype candidate_error =
    Candidate_Empty
  | Candidate_ControlCharacter rchar
  | Candidate_MisleadingDisplay rchar

definition candidate_new :: "transport_id \<Rightarrow> rstr \<Rightarrow> (candidate, candidate_error) result" where
  "candidate_new transport address =
     (if address = [] then Err Candidate_Empty
      else case List.find is_control address of
        Some c \<Rightarrow> Err (Candidate_ControlCharacter c)
      | None \<Rightarrow>
        (case List.find is_misleading_display_character address of
           Some c \<Rightarrow> Err (Candidate_MisleadingDisplay c)
         | None \<Rightarrow> Ok (Candidate transport address)))"

lemma observation_key_new_Ok:
  "observation_key_new s = Ok k \<longleftrightarrow>
     k = ObservationKey s \<and> printable s \<and> str_len s \<le> OBSERVATION_KEY_MAX_LEN"
  by (auto simp: observation_key_new_def split: result.splits)
    (metis (full_types) map_err.simps(1) old.unit.exhaust result.distinct(1) validate_bounded_string_Ok)+

lemma display_name_new_Ok:
  "display_name_new s = Ok k \<longleftrightarrow>
     k = DisplayName s \<and> printable s \<and> str_len s \<le> DISPLAY_NAME_MAX_LEN"
  by (auto simp: display_name_new_def split: result.splits)
    (metis (full_types) map_err.simps(1) old.unit.exhaust result.distinct(1) validate_bounded_string_Ok)+

lemma candidate_new_Ok:
  "candidate_new t a = Ok c \<longleftrightarrow> c = Candidate t a \<and> printable a"
  by (auto simp: candidate_new_def printable_def find_None_iff find_Some_iff split: option.splits)

section \<open>Capabilities\<close>

unbundle bit_operations_syntax

datatype capabilities = Capabilities (capability_bits: u16)

definition DIRECT_QUIC :: capabilities where "DIRECT_QUIC = Capabilities (push_bit 0 1)"
definition WIFI_DIRECT :: capabilities where "WIFI_DIRECT = Capabilities (push_bit 1 1)"
definition BLE_GATT :: capabilities where "BLE_GATT = Capabilities (push_bit 2 1)"
definition RELAY :: capabilities where "RELAY = Capabilities (push_bit 3 1)"
definition ACCEPTS_BROWSING :: capabilities where "ACCEPTS_BROWSING = Capabilities (push_bit 4 1)"
definition WRITABLE_SHARE :: capabilities where "WRITABLE_SHARE = Capabilities (push_bit 5 1)"
definition METERED :: capabilities where "METERED = Capabilities (push_bit 6 1)"

definition capabilities_contains :: "capabilities \<Rightarrow> capabilities \<Rightarrow> bool" where
  "capabilities_contains a b \<longleftrightarrow> capability_bits a AND capability_bits b = capability_bits b"

definition capabilities_empty :: capabilities where
  "capabilities_empty = Capabilities 0"

lemma capabilities_contains_iff:
  "capabilities_contains a b \<longleftrightarrow> (\<forall>n. bit (capability_bits b) n \<longrightarrow> bit (capability_bits a) n)"
  unfolding capabilities_contains_def by (metis bit_and_iff bit_word_eqI)

lemma capabilities_contains_order:
  "capabilities_contains a a"
  "capabilities_contains a capabilities_empty"
  "capabilities_contains a b \<Longrightarrow> capabilities_contains b c \<Longrightarrow> capabilities_contains a c"
  "capabilities_contains a b \<Longrightarrow> capabilities_contains b a \<Longrightarrow> a = b"
  by (auto simp: capabilities_contains_iff capabilities_empty_def capabilities.expand
      intro!: capabilities.expand bit_word_eqI)

section \<open>Orders\<close>

instantiation device_id :: linorder
begin

definition less_eq_device_id :: "device_id \<Rightarrow> device_id \<Rightarrow> bool" where
  "less_eq_device_id a b \<longleftrightarrow> device_id_bytes a \<le> device_id_bytes b"

definition less_device_id :: "device_id \<Rightarrow> device_id \<Rightarrow> bool" where
  "less_device_id a b \<longleftrightarrow> device_id_bytes a < device_id_bytes b"

instance
  by standard (auto simp: less_eq_device_id_def less_device_id_def device_id.expand)

end

datatype observation_id = ObservationId (observation_source: source_id) (observation_key: observation_key)

definition observation_rank :: "observation_id \<Rightarrow> rstr \<times> rstr" where
  "observation_rank i = (observation_source i, observation_key_str (observation_key i))"

lemma observation_rank_inject: "observation_rank i = observation_rank j \<longleftrightarrow> i = j"
  by (cases i; cases j) (auto simp: observation_rank_def observation_key.expand)

instantiation observation_id :: linorder
begin

definition less_eq_observation_id :: "observation_id \<Rightarrow> observation_id \<Rightarrow> bool" where
  "less_eq_observation_id a b \<longleftrightarrow> observation_rank a \<le> observation_rank b"

definition less_observation_id :: "observation_id \<Rightarrow> observation_id \<Rightarrow> bool" where
  "less_observation_id a b \<longleftrightarrow> observation_rank a < observation_rank b"

instance
proof
  show "a = b" if "a \<le> b" "b \<le> a" for a b :: observation_id
    using that by (simp add: less_eq_observation_id_def flip: observation_rank_inject)
qed (auto simp: less_eq_observation_id_def less_observation_id_def)

end

section \<open>Observations\<close>

definition cand_rank :: "candidate \<Rightarrow> transport_id \<times> rstr" where
  "cand_rank c = (cand_transport c, cand_address c)"

text \<open>\<open>sort_by\<close> on \<open>(transport, address)\<close>, then \<open>dedup\<close>.\<close>

definition canonical_candidates :: "candidate list \<Rightarrow> candidate list" where
  "canonical_candidates cs = remdups_adj (sort_key cand_rank cs)"

record peer_observation =
  obs_id :: observation_id
  obs_device_id :: "device_id option"
  obs_candidates :: "candidate list"
  obs_display_name :: "display_name option"
  obs_capabilities :: capabilities

definition peer_observation_new :: "observation_id \<Rightarrow> candidate list \<Rightarrow> peer_observation" where
  "peer_observation_new i cs =
     \<lparr>obs_id = i, obs_device_id = None, obs_candidates = canonical_candidates cs,
      obs_display_name = None, obs_capabilities = capabilities_empty\<rparr>"

definition with_device_id :: "device_id \<Rightarrow> peer_observation \<Rightarrow> peer_observation" where
  "with_device_id d ob = ob\<lparr>obs_device_id := Some d\<rparr>"

definition with_display_name :: "display_name \<Rightarrow> peer_observation \<Rightarrow> peer_observation" where
  "with_display_name n ob = ob\<lparr>obs_display_name := Some n\<rparr>"

definition with_capabilities :: "capabilities \<Rightarrow> peer_observation \<Rightarrow> peer_observation" where
  "with_capabilities c ob = ob\<lparr>obs_capabilities := c\<rparr>"

lemma cand_rank_inject [simp]: "cand_rank a = cand_rank b \<longleftrightarrow> a = b"
  by (cases a; cases b) (auto simp: cand_rank_def)

lemma strict_sorted_remdups_adj: "sorted xs \<Longrightarrow> sorted_wrt (<) (remdups_adj xs)"
  by (induction xs rule: remdups_adj.induct) auto

lemma canonical_candidates_sorted:
  "sorted_wrt (<) (map cand_rank (canonical_candidates cs))"
proof -
  have "map cand_rank (canonical_candidates cs) = remdups_adj (map cand_rank (sort_key cand_rank cs))"
    by (simp add: canonical_candidates_def remdups_adj_map_injective inj_def)
  then show ?thesis by (simp add: strict_sorted_remdups_adj)
qed

lemma set_canonical_candidates [simp]: "set (canonical_candidates cs) = set cs"
  by (simp add: canonical_candidates_def)

text \<open>Equal sets of candidates have the same canonical list.\<close>

lemma canonical_candidates_cong:
  assumes "set cs = set ds"
  shows "canonical_candidates cs = canonical_candidates ds"
proof -
  have "map cand_rank (canonical_candidates cs) = map cand_rank (canonical_candidates ds)"
    by (intro strict_sorted_equal canonical_candidates_sorted) (simp add: assms)
  then show ?thesis by (simp add: inj_map_eq_map inj_def)
qed

lemma canonical_candidates_idem [simp]:
  "canonical_candidates (canonical_candidates cs) = canonical_candidates cs"
  by (intro canonical_candidates_cong) simp

section \<open>The peer list\<close>

datatype discovery_event = Observed peer_observation | Lost observation_id

datatype peer_list_error = SourceMismatch source_id source_id \<comment> \<open>claimed, actual\<close>

record peer_list =
  observations :: "(observation_id, peer_observation) btree_map"

record peer =
  peer_device_id :: "device_id option"
  peer_observations :: "peer_observation list"

definition peer_list_new :: peer_list where
  "peer_list_new = \<lparr>observations = bt_empty\<rparr>"

fun claimed_source :: "discovery_event \<Rightarrow> source_id" where
  "claimed_source (Observed ob) = observation_source (obs_id ob)"
| "claimed_source (Lost i) = observation_source i"

definition peer_list_apply ::
    "source_id \<Rightarrow> discovery_event \<Rightarrow> peer_list \<Rightarrow> (peer_list, peer_list_error) result" where
  "peer_list_apply source event pl =
     (if claimed_source event \<noteq> source then Err (SourceMismatch (claimed_source event) source)
      else Ok (case event of
          Observed ob \<Rightarrow> pl\<lparr>observations := bt_insert (obs_id ob) ob (observations pl)\<rparr>
        | Lost i \<Rightarrow> pl\<lparr>observations := bt_remove i (observations pl)\<rparr>))"

text \<open>One turn of the loop of \<open>peers()\<close>: \<open>entry(d).or_default().push(..)\<close>, or a new unidentified peer.\<close>

fun group_step ::
    "peer_observation \<Rightarrow> (device_id, peer_observation list) btree_map \<times> peer list
      \<Rightarrow> (device_id, peer_observation list) btree_map \<times> peer list" where
  "group_step ob (identified, unidentified) =
     (case obs_device_id ob of
        Some d \<Rightarrow>
          (bt_insert d ((case bt_get identified d of None \<Rightarrow> [] | Some obs \<Rightarrow> obs) @ [ob]) identified,
           unidentified)
      | None \<Rightarrow>
          (identified, unidentified @ [\<lparr>peer_device_id = None, peer_observations = [ob]\<rparr>]))"

definition peers :: "peer_list \<Rightarrow> peer list" where
  "peers pl =
     (let (identified, unidentified) = fold group_step (bt_values (observations pl)) (bt_empty, [])
      in map (\<lambda>(d, obs). \<lparr>peer_device_id = Some d, peer_observations = obs\<rparr>) identified
         @ unidentified)"

definition peer_lookup :: "device_id \<Rightarrow> peer_list \<Rightarrow> peer option" where
  "peer_lookup device pl =
     (let obs = filter (\<lambda>ob. obs_device_id ob = Some device) (bt_values (observations pl))
      in if obs = [] then None
         else Some \<lparr>peer_device_id = Some device, peer_observations = obs\<rparr>)"

definition observation_count :: "peer_list \<Rightarrow> nat" where
  "observation_count pl = length (observations pl)"

definition peer_candidates :: "peer \<Rightarrow> candidate list" where
  "peer_candidates p = canonical_candidates (concat (map obs_candidates (peer_observations p)))"

subsection \<open>The invariant\<close>

definition peer_list_ok :: "peer_list \<Rightarrow> bool" where
  "peer_list_ok pl \<longleftrightarrow>
     bt_invar (observations pl) \<and> (\<forall>(i, ob) \<in> set (observations pl). obs_id ob = i)"

lemma peer_list_ok_new [simp]: "peer_list_ok peer_list_new"
  by (simp add: peer_list_ok_def peer_list_new_def bt.invar_empty bt_empty_def)
    (simp add: bt_invar_def)

lemma peer_list_ok_alt:
  "peer_list_ok pl \<longleftrightarrow> bt_invar (observations pl) \<and>
     (\<forall>i ob. bt_get (observations pl) i = Some ob \<longrightarrow> obs_id ob = i)"
  by (auto simp: peer_list_ok_def simp flip: bt.in_entries_iff)

lemma peer_list_ok_apply:
  assumes "peer_list_ok pl" and "peer_list_apply source event pl = Ok pl'"
  shows "peer_list_ok pl'"
  using assms by (auto simp: peer_list_apply_def peer_list_ok_alt split: if_splits discovery_event.splits)

text \<open>Every list the program can reach: refused events leave it as it was.\<close>

definition peer_list_step :: "source_id \<times> discovery_event \<Rightarrow> peer_list \<Rightarrow> peer_list" where
  "peer_list_step se pl =
     (case peer_list_apply (fst se) (snd se) pl of Ok pl' \<Rightarrow> pl' | Err _ \<Rightarrow> pl)"

definition peer_list_run :: "(source_id \<times> discovery_event) list \<Rightarrow> peer_list" where
  "peer_list_run ses = fold peer_list_step ses peer_list_new"

lemma peer_list_ok_step: "peer_list_ok pl \<Longrightarrow> peer_list_ok (peer_list_step se pl)"
  by (auto simp: peer_list_step_def peer_list_ok_apply split: result.splits)

lemma peer_list_ok_run [simp]: "peer_list_ok (peer_list_run ses)"
  unfolding peer_list_run_def
  by (induction ses rule: rev_induct) (auto simp: peer_list_ok_step)

lemma peer_list_step_lookup:
  assumes "peer_list_ok pl"
  shows "bt_get (observations (peer_list_step (s, e) pl)) i =
    (if observation_source i = s \<and> claimed_source e = s then
       (case e of Observed ob \<Rightarrow> if i = obs_id ob then Some ob else bt_get (observations pl) i
                | Lost j \<Rightarrow> if i = j then None else bt_get (observations pl) i)
     else bt_get (observations pl) i)"
  using assms
  by (auto simp: peer_list_step_def peer_list_apply_def peer_list_ok_def split: discovery_event.splits)

lemma peer_list_run_snoc: "peer_list_run (ses @ [se]) = peer_list_step se (peer_list_run ses)"
  by (simp add: peer_list_run_def)

text \<open>
  Sources are isolated. Whatever events arrive and in whatever order, what the
  peer list stores under a source is exactly what it would store had only the events that this
  source itself produced arrived: no other source can add, replace or remove an observation
  under its name.
\<close>

theorem sources_isolated:
  assumes "observation_source i = s"
  shows "bt_get (observations (peer_list_run ses)) i =
    bt_get (observations (peer_list_run (filter (\<lambda>(s', _). s' = s) ses))) i"
proof (induction ses rule: rev_induct)
  case (snoc se ses)
  obtain s' e where se: "se = (s', e)" by force
  show ?case
    using assms snoc.IH
    by (cases "s' = s") (auto simp: se peer_list_run_snoc peer_list_step_lookup
        split: discovery_event.splits)
qed simp

theorem sources_isolated_witness:
  "observation_source (ObservationId (lit ''mdns'') (ObservationKey (lit ''k''))) = lit ''mdns'' \<and>
   bt_get (observations (peer_list_run
       [(lit ''brokr'', Lost (ObservationId (lit ''mdns'') (ObservationKey (lit ''k''))))]))
     (ObservationId (lit ''mdns'') (ObservationKey (lit ''k''))) =
   bt_get (observations (peer_list_run
       (filter (\<lambda>(s', _). s' = lit ''mdns'')
         [(lit ''brokr'', Lost (ObservationId (lit ''mdns'') (ObservationKey (lit ''k''))))])))
     (ObservationId (lit ''mdns'') (ObservationKey (lit ''k'')))"
proof -
  have src: "observation_source (ObservationId (lit ''mdns'') (ObservationKey (lit ''k''))) = lit ''mdns''"
    by simp
  show ?thesis using src sources_isolated [OF src] by blast
qed

text \<open>
  An event is refused exactly when it names a source other than the one that
  produced it, with both sources in the error; an observation stored is the one looked up
  under its id afterwards, replacing any earlier one, a lost id is looked up no more, and
  every other observation stays.
\<close>

theorem peer_list_apply_spec:
  "case peer_list_apply s e (peer_list_run ses) of
     Err err \<Rightarrow> claimed_source e \<noteq> s \<and> err = SourceMismatch (claimed_source e) s
   | Ok pl \<Rightarrow> claimed_source e = s \<and> bt_get (observations pl) =
       (case e of
          Observed ob \<Rightarrow> (bt_get (observations (peer_list_run ses))) (obs_id ob \<mapsto> ob)
        | Lost i \<Rightarrow> (bt_get (observations (peer_list_run ses))) (i := None))"
proof -
  have "bt_invar (observations (peer_list_run ses))"
    using peer_list_ok_run [of ses] by (simp add: peer_list_ok_def)
  then show ?thesis
    by (auto simp: peer_list_apply_def fun_eq_iff split: discovery_event.splits)
qed

subsection \<open>Grouping\<close>

lemma bt_invar_sorted_keys: "peer_list_ok pl \<Longrightarrow> sorted_wrt (<) (map obs_id (bt_values (observations pl)))"
proof -
  assume ok: "peer_list_ok pl"
  then have "map obs_id (bt_values (observations pl)) = map fst (observations pl)"
    by (auto simp: peer_list_ok_def bt_values_def)
  with ok show ?thesis by (simp add: peer_list_ok_def bt_invar_def)
qed

abbreviation seen_as :: "peer_observation list \<Rightarrow> device_id option \<Rightarrow> peer_observation list" where
  "seen_as obs d \<equiv> filter (\<lambda>ob. obs_device_id ob = d) obs"

lemma fold_group_step:
  "fold group_step obs (bt_empty, []) = (m, u) \<Longrightarrow>
     bt_invar m \<and>
     (\<forall>d. bt_get m d = (if Some d \<in> obs_device_id ` set obs then Some (seen_as obs (Some d)) else None)) \<and>
     u = map (\<lambda>ob. \<lparr>peer_device_id = None, peer_observations = [ob]\<rparr>) (seen_as obs None)"
proof (induction obs arbitrary: m u rule: rev_induct)
  case (snoc ob obs)
  obtain m' u' where mu: "fold group_step obs (bt_empty, []) = (m', u')" by force
  have none: "Some d \<notin> obs_device_id ` set obs \<Longrightarrow> seen_as obs (Some d) = []" for d
    by (auto simp: filter_empty_conv image_iff)
  from snoc.IH [OF mu] snoc.prems mu show ?case
    by (cases "obs_device_id ob") (auto simp: none)
qed simp

text \<open>The shape of \<open>peers()\<close>: the identified devices in ascending order, then the others.\<close>

lemma peers_shape:
  obtains ds where "sorted_wrt (<) ds"
    and "set ds = {d. Some d \<in> obs_device_id ` set (bt_values (observations pl))}"
    and "peers pl =
      map (\<lambda>d. \<lparr>peer_device_id = Some d,
                peer_observations = seen_as (bt_values (observations pl)) (Some d)\<rparr>) ds @
      map (\<lambda>ob. \<lparr>peer_device_id = None, peer_observations = [ob]\<rparr>)
        (seen_as (bt_values (observations pl)) None)"
proof -
  let ?obs = "bt_values (observations pl)"
  obtain m u where mu: "fold group_step ?obs (bt_empty, []) = (m, u)" by force
  note g = fold_group_step [OF mu]
  then have get: "bt_get m d = (if Some d \<in> obs_device_id ` set ?obs
      then Some (seen_as ?obs (Some d)) else None)" and inv: "bt_invar m" for d
    by blast+
  have entry: "xs = seen_as ?obs (Some d)" if "(d, xs) \<in> set m" for d xs
    using that by (auto simp: bt.in_entries_iff [OF inv] get split: if_splits)
  have "dom (bt_get m) = {d. Some d \<in> obs_device_id ` set ?obs}"
    by (auto simp: dom_def get split: if_splits)
  then have "set (map fst m) = {d. Some d \<in> obs_device_id ` set ?obs}"
    by (simp add: bt.dom_get [OF inv])
  moreover have "sorted_wrt (<) (map fst m)" using inv by (simp add: bt_invar_def)
  moreover have "peers pl =
      map (\<lambda>d. \<lparr>peer_device_id = Some d, peer_observations = seen_as ?obs (Some d)\<rparr>) (map fst m) @
      map (\<lambda>ob. \<lparr>peer_device_id = None, peer_observations = [ob]\<rparr>) (seen_as ?obs None)"
    using g entry by (auto simp: peers_def mu)
  ultimately show ?thesis using that by blast
qed

lemma find_peer_map:
  "List.find (\<lambda>p. peer_device_id p = Some d)
     (map (\<lambda>d. \<lparr>peer_device_id = Some d, peer_observations = f d\<rparr>) ds @
      map (\<lambda>ob. \<lparr>peer_device_id = None, peer_observations = g ob\<rparr>) obs) =
   (if d \<in> set ds then Some \<lparr>peer_device_id = Some d, peer_observations = f d\<rparr> else None)"
  by (induction ds; induction obs) auto

text \<open>
  \<open>peers()\<close> groups the observations of one device and loses none. On
  every reachable list, each stored observation belongs to exactly one peer, every peer holds at
  least one observation and all of them carry the peer's device id (or none, and then it is the
  only one), no two peers share a device id, the observations of a peer are in ascending id
  order, and \<open>peer(d)\<close> finds exactly the identified peer of \<open>d\<close>.
\<close>

theorem peers_group_observations:
  fixes ses :: "(source_id \<times> discovery_event) list"
  defines "pl \<equiv> peer_list_run ses"
  shows "(ob \<in> set (bt_values (observations pl)) \<longleftrightarrow>
      (\<exists>!p. p \<in> set (peers pl) \<and> ob \<in> set (peer_observations p))) \<and>
    (\<forall>p \<in> set (peers pl).
      peer_observations p \<noteq> [] \<and> obs_device_id ` set (peer_observations p) = {peer_device_id p} \<and>
      (peer_device_id p = None \<longrightarrow> length (peer_observations p) = 1) \<and>
      sorted_wrt (<) (map obs_id (peer_observations p))) \<and>
    sorted_wrt (<) (map the (filter (\<lambda>d. d \<noteq> None) (map peer_device_id (peers pl)))) \<and>
    peer_lookup d pl = List.find (\<lambda>p. peer_device_id p = Some d) (peers pl)"
proof (intro conjI [where P = "_ \<longleftrightarrow> _"] conjI [where P = "Ball _ _"] conjI [where P = "sorted_wrt _ _"] ballI)
  let ?obs = "bt_values (observations pl)"
  obtain ds where ds: "sorted_wrt (<) ds" "set ds = {d. Some d \<in> obs_device_id ` set ?obs}"
    and ps: "peers pl =
      map (\<lambda>d. \<lparr>peer_device_id = Some d, peer_observations = seen_as ?obs (Some d)\<rparr>) ds @
      map (\<lambda>ob. \<lparr>peer_device_id = None, peer_observations = [ob]\<rparr>) (seen_as ?obs None)"
    by (rule peers_shape)
  have sorted: "sorted_wrt (<) (map obs_id ?obs)"
    unfolding pl_def by (intro bt_invar_sorted_keys) simp
  define holder where "holder = (case obs_device_id ob of
      Some d \<Rightarrow> \<lparr>peer_device_id = Some d, peer_observations = seen_as ?obs (Some d)\<rparr>
    | None \<Rightarrow> \<lparr>peer_device_id = None, peer_observations = [ob]\<rparr>)"
  have "p \<in> set (peers pl) \<and> ob \<in> set (peer_observations p) \<longleftrightarrow> ob \<in> set ?obs \<and> p = holder" for p
  proof
    show "ob \<in> set ?obs \<and> p = holder" if "p \<in> set (peers pl) \<and> ob \<in> set (peer_observations p)"
      using that by (auto simp: ps holder_def)
    have "a \<in> set ds" if "ob \<in> set ?obs" "obs_device_id ob = Some a" for a
      using that by (auto simp: ds image_iff intro: bexI [of _ ob])
    then show "p \<in> set (peers pl) \<and> ob \<in> set (peer_observations p)" if "ob \<in> set ?obs \<and> p = holder"
      using that by (auto simp: ps holder_def split: option.splits)
  qed
  then show "ob \<in> set ?obs \<longleftrightarrow> (\<exists>!p. p \<in> set (peers pl) \<and> ob \<in> set (peer_observations p))"
    by auto
  show "sorted_wrt (<) (map the (filter (\<lambda>d. d \<noteq> None) (map peer_device_id (peers pl))))"
    using ds by (simp add: ps comp_def filter_map)
  show "peer_lookup d pl = List.find (\<lambda>p. peer_device_id p = Some d) (peers pl)"
    by (force simp: peer_lookup_def ps ds find_peer_map image_iff filter_empty_conv Let_def)
  fix p assume "p \<in> set (peers pl)"
  then show "peer_observations p \<noteq> [] \<and>
      obs_device_id ` set (peer_observations p) = {peer_device_id p} \<and>
      (peer_device_id p = None \<longrightarrow> length (peer_observations p) = 1) \<and>
      sorted_wrt (<) (map obs_id (peer_observations p))"
    using sorted
    by (auto simp: ps ds image_iff filter_empty_conv sorted_wrt_map sorted_wrt_filter)
qed

definition sample_observation :: peer_observation where
  "sample_observation = with_device_id (DeviceId [7])
     (peer_observation_new (ObservationId (lit ''mdns'') (ObservationKey (lit ''k''))) [])"

theorem peers_group_observations_witness:
  "\<lparr>peer_device_id = Some (DeviceId [7]), peer_observations = [sample_observation]\<rparr>
     \<in> set (peers (peer_list_run [(lit ''mdns'', Observed sample_observation)])) \<and>
   obs_device_id ` set [sample_observation] = {Some (DeviceId [7])}"
proof -
  have run: "peers (peer_list_run [(lit ''mdns'', Observed sample_observation)]) =
      [\<lparr>peer_device_id = Some (DeviceId [7]), peer_observations = [sample_observation]\<rparr>]"
    by (simp add: peers_def peer_list_run_def peer_list_step_def peer_list_apply_def
        peer_list_new_def sample_observation_def peer_observation_new_def with_device_id_def
        bt_empty_def bt_values_def bt_get_def)
  have mem: "\<lparr>peer_device_id = Some (DeviceId [7]), peer_observations = [sample_observation]\<rparr>
      \<in> set (peers (peer_list_run [(lit ''mdns'', Observed sample_observation)]))"
    by (simp only: run) simp
  show ?thesis using mem peers_group_observations [of sample_observation
      "[(lit ''mdns'', Observed sample_observation)]"] by fastforce
qed

text \<open>
  Candidate lists are canonical. Whatever order and multiplicity the addresses
  come in, an observation holds each once, in ascending \<open>(transport, address)\<close> order, so
  observations built from the same addresses are equal; the candidates of a peer are the
  union of those of its observations, again each once and in order.
\<close>

theorem candidates_canonical:
  "(peer_observation_new i cs = peer_observation_new i ds \<longleftrightarrow> set cs = set ds) \<and>
   set (obs_candidates (peer_observation_new i cs)) = set cs \<and>
   sorted_wrt (<) (map (\<lambda>c. (cand_transport c, cand_address c)) (obs_candidates (peer_observation_new i cs))) \<and>
   set (peer_candidates p) = (\<Union>ob \<in> set (peer_observations p). set (obs_candidates ob)) \<and>
   sorted_wrt (<) (map (\<lambda>c. (cand_transport c, cand_address c)) (peer_candidates p))"
proof (intro conjI)
  have "set cs = set ds" if "canonical_candidates cs = canonical_candidates ds"
    using that set_canonical_candidates by metis
  then show "peer_observation_new i cs = peer_observation_new i ds \<longleftrightarrow> set cs = set ds"
    using canonical_candidates_cong [of cs ds] by (auto simp: peer_observation_new_def)
qed (use canonical_candidates_sorted in
    \<open>auto simp: peer_observation_new_def peer_candidates_def cand_rank_def [abs_def]\<close>)

end
