(* ===== verification/Chunk_Resumption.thy ===== *)
theory Chunk_Resumption
  imports Rust_BTreeMap Identifiers
begin

text \<open>
  The transfer-resumption tracker of \<open>tradr-core\<close> (\<open>chunk_index.rs\<close>,
  \<open>resumption.rs\<close>): an item is cut into reference chunks of 1 MiB, the pieces of a
  chunk that have arrived are kept as byte ranges, and a chunk becomes verified or is
  reset after a failed verification. The abstraction of a chunk's state is the set of its
  byte positions that have been received; the operations are shown to act on that set.
\<close>

section \<open>Chunk indices\<close>

abbreviation (input) REFERENCE_CHUNK_SIZE_BYTES :: u64 where
  "REFERENCE_CHUNK_SIZE_BYTES \<equiv> 1048576"

datatype chunk_index = ChunkIndex (chunk_value: u64)

datatype chunk_index_error = OffsetOverflow

definition byte_offset :: "chunk_index \<Rightarrow> (u64, chunk_index_error) result" where
  "byte_offset i = ok_or OffsetOverflow (checked_mul (chunk_value i) REFERENCE_CHUNK_SIZE_BYTES)"

section \<open>The tracker\<close>

datatype resumption_error =
    ChunkOutOfBounds chunk_index u64 \<comment> \<open>index, total chunks\<close>
  | PieceOutOfBounds chunk_index u32 u32 u32 \<comment> \<open>index, offset, payload length, chunk size\<close>

record chunk_state =
  verified :: bool
  failed_attempts :: u32
  ranges :: "(u32 \<times> u32) list"

definition chunk_state_default :: chunk_state where
  "chunk_state_default = \<lparr>verified = False, failed_attempts = 0, ranges = []\<rparr>"

record item_resumption =
  ir_item_id :: item_id
  total_bytes :: u64
  total_chunks :: u64
  chunks :: "(u64, chunk_state) btree_map"
  verified_chunks_count :: u64

definition resumption_new :: "item_id \<Rightarrow> u64 \<Rightarrow> item_resumption" where
  "resumption_new item bytes =
     \<lparr>ir_item_id = item, total_bytes = bytes,
      total_chunks = (if bytes = 0 then 0 else div_ceil bytes REFERENCE_CHUNK_SIZE_BYTES),
      chunks = bt_empty, verified_chunks_count = 0\<rparr>"

definition chunk_size :: "item_resumption \<Rightarrow> chunk_index \<Rightarrow> (u32, resumption_error) result" where
  "chunk_size r index =
     (if chunk_value index \<ge> total_chunks r then Err (ChunkOutOfBounds index (total_chunks r))
      else if chunk_value index + 1 = total_chunks r then
        (let remainder = total_bytes r mod REFERENCE_CHUNK_SIZE_BYTES in
         if remainder = 0 then Ok (ucast REFERENCE_CHUNK_SIZE_BYTES) else Ok (ucast remainder))
      else Ok (ucast REFERENCE_CHUNK_SIZE_BYTES))"

text \<open>\<open>entry(..).or_default()\<close>, read.\<close>

definition chunk_entry :: "item_resumption \<Rightarrow> chunk_index \<Rightarrow> chunk_state" where
  "chunk_entry r index =
     (case bt_get (chunks r) (chunk_value index) of None \<Rightarrow> chunk_state_default | Some s \<Rightarrow> s)"

definition set_chunk :: "item_resumption \<Rightarrow> chunk_index \<Rightarrow> chunk_state \<Rightarrow> item_resumption" where
  "set_chunk r index s = r\<lparr>chunks := bt_insert (chunk_value index) s (chunks r)\<rparr>"

text \<open>The loop of \<open>record_piece\<close> over the ranges already held.\<close>

fun merge_ranges ::
  "(u32 \<times> u32) list \<Rightarrow> u32 \<Rightarrow> u32 \<Rightarrow> bool \<Rightarrow> (u32 \<times> u32) list \<Rightarrow> (u32 \<times> u32) list" where
  "merge_ranges [] cur_start cur_end inserted merged =
     (if \<not> inserted then merged @ [(cur_start, cur_end)] else merged)"
| "merge_ranges ((r_start, r_end) # rest) cur_start cur_end inserted merged =
     (if r_end < cur_start then
        merge_ranges rest cur_start cur_end inserted (merged @ [(r_start, r_end)])
      else if r_start > cur_end then
        merge_ranges rest cur_start cur_end True
          ((if \<not> inserted then merged @ [(cur_start, cur_end)] else merged) @ [(r_start, r_end)])
      else
        merge_ranges rest (min cur_start r_start) (max cur_end r_end) inserted merged)"

definition record_piece ::
  "item_resumption \<Rightarrow> chunk_index \<Rightarrow> u32 \<Rightarrow> u32 \<Rightarrow>
   item_resumption \<times> (bool, resumption_error) result" where
  "record_piece r index offset_in_chunk payload_len =
     (if chunk_value index \<ge> total_chunks r then
        (r, Err (ChunkOutOfBounds index (total_chunks r)))
      else
       (case chunk_size r index of
          Err e \<Rightarrow> (r, Err e)
        | Ok chunk_sz \<Rightarrow>
          (case checked_add offset_in_chunk payload_len of
             None \<Rightarrow> (r, Err (PieceOutOfBounds index offset_in_chunk payload_len chunk_sz))
           | Some end_offset \<Rightarrow>
              if \<not> end_offset \<le> chunk_sz then
                (r, Err (PieceOutOfBounds index offset_in_chunk payload_len chunk_sz))
              else
               (let state = chunk_entry r index in
                if verified state then (set_chunk r index state, Ok True)
                else
                 (let state' =
                    (if payload_len > 0 then
                       state\<lparr>ranges := merge_ranges (ranges state) offset_in_chunk end_offset False []\<rparr>
                     else state)
                  in (set_chunk r index state',
                      Ok (length (ranges state') = 1 \<and> ranges state' ! 0 = (0, chunk_sz))))))))"

definition mark_verified ::
  "item_resumption \<Rightarrow> chunk_index \<Rightarrow> item_resumption \<times> (unit, resumption_error) result" where
  "mark_verified r index =
     (if chunk_value index \<ge> total_chunks r then
        (r, Err (ChunkOutOfBounds index (total_chunks r)))
      else
       (case chunk_size r index of
          Err e \<Rightarrow> (r, Err e)
        | Ok chunk_sz \<Rightarrow>
          (let state = chunk_entry r index in
           if \<not> verified state then
             ((set_chunk r index (state\<lparr>verified := True, ranges := [(0, chunk_sz)]\<rparr>))
                \<lparr>verified_chunks_count := verified_chunks_count r + 1\<rparr>, Ok ())
           else (set_chunk r index state, Ok ()))))"

definition mark_failed ::
  "item_resumption \<Rightarrow> chunk_index \<Rightarrow> item_resumption \<times> (u32, resumption_error) result" where
  "mark_failed r index =
     (if chunk_value index \<ge> total_chunks r then
        (r, Err (ChunkOutOfBounds index (total_chunks r)))
      else
       (let state = chunk_entry r index;
            count = (if verified state then saturating_sub (verified_chunks_count r) 1
                     else verified_chunks_count r);
            state' = state\<lparr>verified := False, ranges := [],
                           failed_attempts := saturating_add (failed_attempts state) 1\<rparr>
        in ((set_chunk r index state')\<lparr>verified_chunks_count := count\<rparr>,
            Ok (failed_attempts state'))))"

definition is_chunk_complete :: "item_resumption \<Rightarrow> chunk_index \<Rightarrow> (bool, resumption_error) result" where
  "is_chunk_complete r index =
     (if chunk_value index \<ge> total_chunks r then Err (ChunkOutOfBounds index (total_chunks r))
      else (case chunk_size r index of
              Err e \<Rightarrow> Err e
            | Ok chunk_sz \<Rightarrow>
                (case bt_get (chunks r) (chunk_value index) of
                   Some state \<Rightarrow>
                     Ok (verified state \<or> (length (ranges state) = 1 \<and> ranges state ! 0 = (0, chunk_sz)))
                 | None \<Rightarrow> Ok False)))"

definition is_chunk_verified :: "item_resumption \<Rightarrow> chunk_index \<Rightarrow> (bool, resumption_error) result" where
  "is_chunk_verified r index =
     (if chunk_value index \<ge> total_chunks r then Err (ChunkOutOfBounds index (total_chunks r))
      else (case bt_get (chunks r) (chunk_value index) of
              Some state \<Rightarrow> Ok (verified state) | None \<Rightarrow> Ok False))"

definition is_item_complete :: "item_resumption \<Rightarrow> bool" where
  "is_item_complete r \<longleftrightarrow> total_bytes r = 0 \<or> verified_chunks_count r = total_chunks r"

definition bytes_received :: "item_resumption \<Rightarrow> u64" where
  "bytes_received r =
     foldl (\<lambda>total state.
        foldl (\<lambda>t (start, end). saturating_add t (ucast (end - start))) total (ranges state))
       0 (bt_values (chunks r))"

definition is_chunk_requestable :: "item_resumption \<Rightarrow> u64 \<Rightarrow> bool" where
  "is_chunk_requestable r idx =
     (case bt_get (chunks r) idx of
        Some s \<Rightarrow> \<not> verified s \<and> failed_attempts s < 3
      | None \<Rightarrow> True)"

text \<open>The search for the first requestable chunk at or after \<open>idx\<close>.\<close>

function first_requestable :: "item_resumption \<Rightarrow> u64 \<Rightarrow> u64 option" where
  "first_requestable r idx =
     (if idx < total_chunks r then
        (if is_chunk_requestable r idx then Some idx else first_requestable r (idx + 1))
      else None)"
  by pat_completeness auto
termination
  by (relation "measure (\<lambda>(r, idx). unat (total_chunks r) - unat idx)")
    (auto simp: unat_add_1 word_less_nat_alt)

declare first_requestable.simps [simp del]

text \<open>How many chunks from \<open>from_chunk\<close> on are requestable, at most \<open>max_count\<close>.\<close>

function count_requestable :: "item_resumption \<Rightarrow> u64 \<Rightarrow> u32 \<Rightarrow> u32 \<Rightarrow> u32" where
  "count_requestable r from_chunk max_count count =
     (if count < max_count \<and> from_chunk + ucast count < total_chunks r then
        (if \<not> is_chunk_requestable r (from_chunk + ucast count) then count
         else count_requestable r from_chunk max_count (count + 1))
      else count)"
  by pat_completeness auto
termination
  by (relation "measure (\<lambda>(r, from_chunk, max_count, count). unat max_count - unat count)")
    (auto simp: unat_add_1 word_less_nat_alt)

declare count_requestable.simps [simp del]

definition next_chunk_request :: "item_resumption \<Rightarrow> u32 \<Rightarrow> (chunk_index \<times> u32) option" where
  "next_chunk_request r max_count =
     (if max_count = 0 \<or> total_chunks r = 0 \<or> is_item_complete r then None
      else (case first_requestable r 0 of
              None \<Rightarrow> None
            | Some from_chunk \<Rightarrow>
                (let count = count_requestable r from_chunk max_count 0 in
                 if count = 0 then None else Some (ChunkIndex from_chunk, count))))"

definition missing_chunks :: "item_resumption \<Rightarrow> chunk_index list" where
  "missing_chunks r =
     (if total_chunks r = 0 \<or> is_item_complete r then []
      else map ChunkIndex
             (filter (is_chunk_requestable r) (map of_nat [0..<unat (total_chunks r)])))"

section \<open>The received bytes of a chunk\<close>

definition range_bytes :: "(u32 \<times> u32) list \<Rightarrow> nat set" where
  "range_bytes rs = (\<Union>(a, b) \<in> set rs. {unat a..<unat b})"

text \<open>Ranges as the tracker keeps them: non-empty, ascending, with a gap between neighbours.\<close>

definition ranges_wf :: "nat \<Rightarrow> (u32 \<times> u32) list \<Rightarrow> bool" where
  "ranges_wf sz rs \<longleftrightarrow>
     sorted_wrt (\<lambda>(a, b) (c, d). b < c) rs \<and> (\<forall>(a, b) \<in> set rs. a < b \<and> unat b \<le> sz)"

lemma range_bytes_simps [simp]:
  "range_bytes [] = {}" "range_bytes ((a, b) # rs) = {unat a..<unat b} \<union> range_bytes rs"
  "range_bytes (rs @ ss) = range_bytes rs \<union> range_bytes ss"
  by (auto simp: range_bytes_def)

lemma ranges_wf_simps [simp]:
  "ranges_wf sz []"
  "ranges_wf sz ((a, b) # rs) \<longleftrightarrow>
     (\<forall>(c, d) \<in> set rs. b < c) \<and> a < b \<and> unat b \<le> sz \<and> ranges_wf sz rs"
  "ranges_wf sz (rs @ ss) \<longleftrightarrow>
     ranges_wf sz rs \<and> ranges_wf sz ss \<and> (\<forall>(a, b) \<in> set rs. \<forall>(c, d) \<in> set ss. b < c)"
  by (auto simp: ranges_wf_def sorted_wrt_append case_prod_unfold)

text \<open>
  The merge loop, with its invariant: what is merged lies before the current range, and once
  the current range is emitted every remaining range lies after it.
\<close>

lemma merge_ranges_inserted:
  "(\<forall>(a, b) \<in> set rs. ce < a) \<Longrightarrow> \<forall>(a, b) \<in> set rs. a < b \<Longrightarrow> cs < ce \<Longrightarrow>
   merge_ranges rs cs ce True merged = merged @ rs"
  by (induction rs arbitrary: merged) (auto simp: not_less)

lemma merge_ranges_correct:
  assumes "ranges_wf sz (merged @ rs)" and "cs < ce" and "unat ce \<le> sz"
    and "\<forall>(a, b) \<in> set merged. b < cs"
  shows "ranges_wf sz (merge_ranges rs cs ce False merged) \<and>
    range_bytes (merge_ranges rs cs ce False merged) =
      range_bytes merged \<union> {unat cs..<unat ce} \<union> range_bytes rs"
  using assms
proof (induction rs arbitrary: merged cs ce)
  case Nil
  then show ?case by auto
next
  case (Cons p rs)
  obtain a b where p: "p = (a, b)" by fastforce
  consider "b < cs" | "\<not> b < cs" "ce < a" | "\<not> b < cs" "\<not> ce < a" by blast
  then show ?case
  proof cases
    case 1
    then show ?thesis using Cons.IH [of "merged @ [p]" cs ce] Cons.prems by (auto simp: p)
  next
    case 2
    have "\<forall>(x, y) \<in> set rs. ce < x"
      using Cons.prems(1) 2(2) by (fastforce simp: p)
    then have "merge_ranges rs cs ce True ((merged @ [(cs, ce)]) @ [(a, b)]) =
        ((merged @ [(cs, ce)]) @ [(a, b)]) @ rs"
      using Cons.prems by (intro merge_ranges_inserted) (auto simp: p ranges_wf_def)
    then show ?thesis using Cons.prems 2 by (fastforce simp: p)
  next
    case 3
    have "{unat (min cs a)..<unat (max ce b)} = {unat cs..<unat ce} \<union> {unat a..<unat b}"
      using 3 Cons.prems by (auto simp: p min_def max_def word_less_nat_alt word_le_nat_alt)
    moreover have "ranges_wf sz (merged @ rs)" and "min cs a < max ce b"
      and "unat (max ce b) \<le> sz" and "\<forall>(x, y) \<in> set merged. y < min cs a"
      using Cons.prems by (auto simp: p min_def max_def)
    ultimately show ?thesis
      using Cons.IH [of merged "min cs a" "max ce b"] 3 by (auto simp: p)
  qed
qed

lemma card_range_bytes:
  "ranges_wf sz rs \<Longrightarrow>
   card (range_bytes rs) = (\<Sum>(a, b) \<leftarrow> rs. unat b - unat a) \<and> range_bytes rs \<subseteq> {0..<sz}"
proof (induction rs)
  case (Cons p rs)
  obtain a b where p: "p = (a, b)" by fastforce
  have "{unat a..<unat b} \<inter> range_bytes rs = {}"
    using Cons.prems by (fastforce simp: p range_bytes_def word_less_nat_alt)
  moreover have "finite (range_bytes rs)" by (auto simp: range_bytes_def)
  ultimately show ?case using Cons by (auto simp: p card_Un_disjoint)
qed simp

text \<open>A chunk's ranges are the whole chunk exactly when every byte has arrived.\<close>

lemma ranges_complete_iff:
  assumes "ranges_wf (unat sz) rs" and "0 < sz"
  shows "length rs = 1 \<and> rs ! 0 = (0, sz) \<longleftrightarrow> range_bytes rs = {0..<unat sz}"
proof
  assume "length rs = 1 \<and> rs ! 0 = (0, sz)"
  then show "range_bytes rs = {0..<unat sz}" by (auto simp: length_Suc_conv)
next
  assume R: "range_bytes rs = {0..<unat sz}"
  then obtain a b rest where rs: "rs = (a, b) # rest"
    using assms(2) by (cases rs) (auto simp: word_less_nat_alt)
  have nb: "unat b \<notin> range_bytes rs"
    using assms(1) by (fastforce simp: rs range_bytes_def word_less_nat_alt)
  have "0 \<in> range_bytes rs" using R assms(2) by (simp add: word_less_nat_alt)
  then have a: "a = 0"
    using assms(1) by (fastforce simp: rs range_bytes_def word_less_nat_alt unat_eq_0)
  have b: "b = sz"
    using nb R assms(1) by (auto simp: rs word_unat_eq_iff)
  have "rest = []"
  proof (rule ccontr)
    assume "rest \<noteq> []"
    then obtain c d where "(c, d) \<in> set rest" by (cases rest) auto
    moreover from this have "c < d" "unat d \<le> unat sz"
      using assms(1) by (auto simp: rs ranges_wf_def)
    ultimately show False using assms(1) by (fastforce simp: rs b word_less_nat_alt)
  qed
  then show "length rs = 1 \<and> rs ! 0 = (0, sz)" by (simp add: rs a b)
qed

section \<open>Chunks partition the item\<close>

text \<open>A tracker's two totals, as \<open>ItemResumption::new\<close> sets them.\<close>

definition totals_wf :: "item_resumption \<Rightarrow> bool" where
  "totals_wf r \<longleftrightarrow> unat (total_chunks r) = (unat (total_bytes r) + 1048575) div 1048576"

definition chunk_len :: "item_resumption \<Rightarrow> u64 \<Rightarrow> nat" where
  "chunk_len r i = (case chunk_size r (ChunkIndex i) of Ok n \<Rightarrow> unat n | Err _ \<Rightarrow> 0)"

lemma totals_wf_new: "totals_wf (resumption_new item bytes)"
  by (auto simp: totals_wf_def resumption_new_def unat_div_ceil)

lemma ceil_div_mod: "(T + 1048575) div 1048576 = T div 1048576 + (if T mod 1048576 = 0 then 0 else 1)"
  for T :: nat
proof -
  define q m where "q = T div 1048576" and "m = T mod 1048576"
  have T: "T = m + q * 1048576" and m: "m < 1048576" by (simp_all add: q_def m_def)
  have "(T + 1048575) div 1048576 = (m + 1048575 + q * 1048576) div 1048576"
    by (simp add: T)
  also have "\<dots> = q + (m + 1048575) div 1048576" by (rule div_mult_self1) simp
  also have "(m + 1048575) div 1048576 = (if m = 0 then 0 else 1)"
    using m by (simp add: div_nat_eqI)
  finally show ?thesis by (simp only: q_def m_def)
qed

lemma ceil_chunk_size:
  fixes T i :: nat
  assumes "i < (T + 1048575) div 1048576"
  shows "min 1048576 (T - i * 1048576) =
    (if Suc i = (T + 1048575) div 1048576 \<and> T mod 1048576 \<noteq> 0 then T mod 1048576 else 1048576)"
    and "i * 1048576 < T"
proof -
  define q m where "q = T div 1048576" and "m = T mod 1048576"
  have T: "T = q * 1048576 + m" and m: "m < 1048576" by (simp_all add: q_def m_def)
  have N: "(T + 1048575) div 1048576 = q + (if m = 0 then 0 else 1)"
    by (simp only: ceil_div_mod q_def m_def)
  show "i * 1048576 < T" using assms m by (auto simp: N T split: if_splits)
  show "min 1048576 (T - i * 1048576) =
    (if Suc i = (T + 1048575) div 1048576 \<and> T mod 1048576 \<noteq> 0 then T mod 1048576 else 1048576)"
    using assms m unfolding N m_def [symmetric] by (auto simp: T min_def split: if_splits)
qed

lemma chunk_size_Ok:
  assumes "totals_wf r" and "i < total_chunks r"
  shows "\<exists>n. chunk_size r (ChunkIndex i) = Ok n \<and> 0 < n \<and>
    unat n = min 1048576 (unat (total_bytes r) - unat i * 1048576)"
proof -
  let ?T = "unat (total_bytes r)"
  have i: "unat i < (?T + 1048575) div 1048576"
    using assms by (simp add: totals_wf_def word_less_nat_alt)
  have last: "i + 1 = total_chunks r \<longleftrightarrow> Suc (unat i) = (?T + 1048575) div 1048576"
    using assms unat_add_1 [OF assms(2)] by (auto simp: totals_wf_def word_unat_eq_iff)
  define n :: u32 where "n = (if i + 1 = total_chunks r \<and> total_bytes r mod 1048576 \<noteq> 0
      then ucast (total_bytes r mod 1048576) else 1048576)"
  have rem: "unat (total_bytes r mod 1048576) = ?T mod 1048576" by (simp add: unat_mod)
  have "?T mod 1048576 < 2 ^ 32" by (rule less_trans [of _ 1048576]) simp_all
  then have "unat (ucast (total_bytes r mod 1048576) :: u32) = ?T mod 1048576"
    by (simp add: unsigned_ucast_eq take_bit_eq_mod rem)
  then have "unat n = min 1048576 (?T - unat i * 1048576)"
    unfolding ceil_chunk_size(1) [OF i] n_def last by (simp add: word_unat_eq_iff rem)
  moreover have "chunk_size r (ChunkIndex i) = Ok n"
    using assms(2) by (simp add: chunk_size_def n_def Let_def not_le)
  ultimately show ?thesis
    using ceil_chunk_size(2) [OF i] by (simp add: word_less_nat_alt)
qed

lemma chunk_len_eq:
  "totals_wf r \<Longrightarrow> i < total_chunks r \<Longrightarrow>
   chunk_len r i = min 1048576 (unat (total_bytes r) - unat i * 1048576) \<and> 0 < chunk_len r i"
  using chunk_size_Ok [of r i] by (auto simp: chunk_len_def word_less_nat_alt)

lemma chunk_size_Ok_iff:
  "chunk_size r (ChunkIndex i) = Ok n \<Longrightarrow> unat n = chunk_len r i \<and> i < total_chunks r"
  by (auto simp: chunk_len_def chunk_size_def split: if_splits)

lemma sum_chunk_len_nat:
  "(\<Sum>i < n. min 1048576 (T - i * 1048576)) = min T (n * 1048576)" for T n :: nat
  by (induction n) auto

lemma sum_chunk_len:
  assumes "totals_wf r"
  shows "(\<Sum>i < unat (total_chunks r). chunk_len r (of_nat i)) = unat (total_bytes r)"
proof -
  have "(\<Sum>i < unat (total_chunks r). chunk_len r (of_nat i)) =
      (\<Sum>i < unat (total_chunks r). min 1048576 (unat (total_bytes r) - i * 1048576))"
  proof (rule sum.cong)
    fix i assume "i \<in> {..<unat (total_chunks r)}"
    then have i: "i < unat (total_chunks r)" by simp
    then have "unat (of_nat i :: u64) = i"
      using unat_less [of "total_chunks r"] by (simp add: unat_of_nat)
    with chunk_len_eq [OF assms, of "of_nat i"] i
    show "chunk_len r (of_nat i) = min 1048576 (unat (total_bytes r) - i * 1048576)"
      by (simp add: word_less_nat_alt)
  qed simp
  also have "\<dots> = min (unat (total_bytes r)) (unat (total_chunks r) * 1048576)"
    by (rule sum_chunk_len_nat)
  also have "\<dots> = unat (total_bytes r)"
    using assms div_mult_mod_eq [of "unat (total_bytes r)" 1048576]
      mod_less_divisor [of 1048576 "unat (total_bytes r)"]
    unfolding totals_wf_def ceil_div_mod by (auto simp: min_def split: if_splits)
  finally show ?thesis .
qed

section \<open>The invariant\<close>

definition chunk_wf :: "item_resumption \<Rightarrow> u64 \<Rightarrow> chunk_state \<Rightarrow> bool" where
  "chunk_wf r i st \<longleftrightarrow>
     i < total_chunks r \<and> ranges_wf (chunk_len r i) (ranges st) \<and>
     (verified st \<longrightarrow> ranges st = [(0, of_nat (chunk_len r i))])"

definition verified_count :: "item_resumption \<Rightarrow> nat" where
  "verified_count r = (\<Sum>(i, st) \<leftarrow> chunks r. if verified st then 1 else 0)"

definition resumption_inv :: "item_resumption \<Rightarrow> bool" where
  "resumption_inv r \<longleftrightarrow>
     totals_wf r \<and> bt_invar (chunks r) \<and> (\<forall>(i, st) \<in> set (chunks r). chunk_wf r i st) \<and>
     unat (verified_chunks_count r) = verified_count r"

lemma resumption_inv_iff:
  "resumption_inv r \<longleftrightarrow>
     totals_wf r \<and> bt_invar (chunks r) \<and>
     (\<forall>i st. bt_get (chunks r) i = Some st \<longrightarrow> chunk_wf r i st) \<and>
     unat (verified_chunks_count r) = verified_count r"
  unfolding resumption_inv_def using bt.in_entries_iff by fastforce

lemma totals_same [simp]:
  "totals_wf (set_chunk r i st) = totals_wf r" "chunk_len (set_chunk r i st) = chunk_len r"
  "chunk_size (set_chunk r i st) = chunk_size r"
  "totals_wf (r\<lparr>verified_chunks_count := n\<rparr>) = totals_wf r"
  "chunk_len (r\<lparr>verified_chunks_count := n\<rparr>) = chunk_len r"
  "total_chunks (set_chunk r i st) = total_chunks r" "total_bytes (set_chunk r i st) = total_bytes r"
  by (auto simp: totals_wf_def chunk_len_def chunk_size_def set_chunk_def fun_eq_iff
      split: result.splits)

lemma chunk_wf_same [simp]:
  "chunk_wf (set_chunk r i st) = chunk_wf r" "chunk_wf (r\<lparr>verified_chunks_count := n\<rparr>) = chunk_wf r"
  by (auto simp: chunk_wf_def fun_eq_iff)

lemma chunk_entry_wf:
  "resumption_inv r \<Longrightarrow> chunk_value i < total_chunks r \<Longrightarrow> chunk_wf r (chunk_value i) (chunk_entry r i)"
  by (auto simp: resumption_inv_iff chunk_entry_def chunk_wf_def chunk_state_default_def
      split: option.splits)

lemma verified_count_set_chunk:
  assumes "bt_invar (chunks r)"
  shows "verified_count (set_chunk r i st) + (if verified (chunk_entry r i) then 1 else 0) =
    verified_count r + (if verified st then 1 else 0)"
  using bt.sum_ins [OF assms, where f = "\<lambda>_ s. if verified s then 1 else 0"
      and k = "chunk_value i" and v = st]
  by (auto simp: verified_count_def set_chunk_def chunk_entry_def chunk_state_default_def
      split: option.splits)

text \<open>One update of one chunk keeps the invariant, given the count it should leave.\<close>

lemma set_chunk_inv:
  assumes "resumption_inv r" and "chunk_wf r (chunk_value i) st"
    and "unat n + (if verified (chunk_entry r i) then 1 else 0) =
      unat (verified_chunks_count r) + (if verified st then 1 else 0)"
  shows "resumption_inv ((set_chunk r i st)\<lparr>verified_chunks_count := n\<rparr>)"
proof -
  have inv: "bt_invar (chunks r)" using assms(1) by (simp add: resumption_inv_def)
  have "unat n = verified_count (set_chunk r i st)"
    using verified_count_set_chunk [OF inv, of i st] assms(1,3)
    by (simp add: resumption_inv_def split: if_splits)
  then show ?thesis
    using assms(1,2) inv
    by (auto simp: resumption_inv_iff verified_count_def) (auto simp: set_chunk_def split: if_splits)
qed

text \<open>The count is the number of verified chunks.\<close>

lemma verified_count_card:
  assumes "resumption_inv r"
  shows "verified_count r =
    card {i. i < total_chunks r \<and> verified (chunk_entry r (ChunkIndex i))}"
proof -
  have inv: "bt_invar (chunks r)" using assms by (simp add: resumption_inv_def)
  have "verified_count r =
      (\<Sum>i \<in> dom (bt_get (chunks r)). if verified (the (bt_get (chunks r) i)) then 1 else 0)"
    by (simp add: verified_count_def bt.sum_entries [OF inv, of "\<lambda>_ s. if verified s then 1 else 0"])
  also have "\<dots> = card {i \<in> dom (bt_get (chunks r)). verified (the (bt_get (chunks r) i))}"
    by (simp add: sum.If_cases Int_def)
  also have "{i \<in> dom (bt_get (chunks r)). verified (the (bt_get (chunks r) i))} =
      {i. i < total_chunks r \<and> verified (chunk_entry r (ChunkIndex i))}"
    using assms
    by (auto simp: resumption_inv_iff chunk_wf_def chunk_entry_def chunk_state_default_def
        split: option.splits)
  finally show ?thesis .
qed

lemma verified_count_eq_total:
  assumes "resumption_inv r"
  shows "verified_count r = unat (total_chunks r) \<longleftrightarrow>
      (\<forall>i < total_chunks r. verified (chunk_entry r (ChunkIndex i)))"
    and "verified_count r \<le> unat (total_chunks r)"
proof -
  let ?V = "{i. i < total_chunks r \<and> verified (chunk_entry r (ChunkIndex i))}"
  have c: "verified_count r = card ?V" by (rule verified_count_card [OF assms])
  have sub: "?V \<subseteq> {i. i < total_chunks r}" by auto
  show "verified_count r \<le> unat (total_chunks r)"
    using card_mono [OF _ sub] by (simp add: c card_words_below)
  have "?V = {i. i < total_chunks r}" if "card ?V = unat (total_chunks r)"
    using that by (intro card_subset_eq [OF finite sub]) (simp only: card_words_below)
  moreover have "card ?V = unat (total_chunks r)" if "?V = {i. i < total_chunks r}"
    using that by (simp only: card_words_below)
  ultimately show "verified_count r = unat (total_chunks r) \<longleftrightarrow>
      (\<forall>i < total_chunks r. verified (chunk_entry r (ChunkIndex i)))"
    unfolding c by blast
qed

section \<open>The operations\<close>

text \<open>The bytes received of chunk \<open>i\<close>.\<close>

definition received :: "item_resumption \<Rightarrow> u64 \<Rightarrow> nat set" where
  "received r i = (case bt_get (chunks r) i of None \<Rightarrow> {} | Some st \<Rightarrow> range_bytes (ranges st))"

lemma received_entry: "received r i = range_bytes (ranges (chunk_entry r (ChunkIndex i)))"
  by (simp add: received_def chunk_entry_def chunk_state_default_def split: option.splits)

lemma received_set_chunk:
  "bt_invar (chunks r) \<Longrightarrow>
   received (set_chunk r i st) j = (if j = chunk_value i then range_bytes (ranges st) else received r j)"
  by (simp add: received_def set_chunk_def)

lemma resumption_inv_new: "resumption_inv (resumption_new item bytes)"
  using totals_wf_new [of item bytes]
  by (simp add: resumption_inv_def verified_count_def) (simp add: resumption_new_def bt_empty_def bt_invar_def)

text \<open>The outcome of \<open>record_piece\<close>, as one case distinction.\<close>

lemma record_piece_cases:
  assumes "totals_wf r"
  shows
    "total_chunks r \<le> chunk_value i \<Longrightarrow>
      record_piece r i off len = (r, Err (ChunkOutOfBounds i (total_chunks r)))"
    "chunk_value i < total_chunks r \<Longrightarrow> chunk_len r (chunk_value i) < unat off + unat len \<Longrightarrow>
      record_piece r i off len =
        (r, Err (PieceOutOfBounds i off len (of_nat (chunk_len r (chunk_value i)))))"
    "chunk_value i < total_chunks r \<Longrightarrow> unat off + unat len \<le> chunk_len r (chunk_value i) \<Longrightarrow>
      \<exists>st. record_piece r i off len =
        (set_chunk r i st, Ok (verified st \<or>
           (length (ranges st) = 1 \<and> ranges st ! 0 = (0, of_nat (chunk_len r (chunk_value i)))))) \<and>
        st = (if verified (chunk_entry r i) \<or> len = 0 then chunk_entry r i
              else chunk_entry r i
                \<lparr>ranges := merge_ranges (ranges (chunk_entry r i)) off (off + len) False []\<rparr>)"
proof -
  show "total_chunks r \<le> chunk_value i \<Longrightarrow>
      record_piece r i off len = (r, Err (ChunkOutOfBounds i (total_chunks r)))"
    by (simp add: record_piece_def)
  assume i: "chunk_value i < total_chunks r"
  obtain n where n: "chunk_size r i = Ok n" "unat n = chunk_len r (chunk_value i)"
    using chunk_size_Ok [OF assms i] by (auto simp: chunk_len_def)
  then have n': "of_nat (chunk_len r (chunk_value i)) = n" by (metis of_nat_unat ucast_id)
  show "chunk_len r (chunk_value i) < unat off + unat len \<Longrightarrow>
      record_piece r i off len =
        (r, Err (PieceOutOfBounds i off len (of_nat (chunk_len r (chunk_value i)))))"
    using i n
    by (auto simp: record_piece_def n' not_le word_less_nat_alt rust_arith split: option.splits)
  assume "unat off + unat len \<le> chunk_len r (chunk_value i)"
  then have "checked_add off len = Some (off + len)" "off + len \<le> n"
    using n unat_less [of n] by (auto simp: checked_add_def word_le_nat_alt unat_word_ariths)
  then show "\<exists>st. record_piece r i off len =
        (set_chunk r i st, Ok (verified st \<or>
           (length (ranges st) = 1 \<and> ranges st ! 0 = (0, of_nat (chunk_len r (chunk_value i)))))) \<and>
        st = (if verified (chunk_entry r i) \<or> len = 0 then chunk_entry r i
              else chunk_entry r i
                \<lparr>ranges := merge_ranges (ranges (chunk_entry r i)) off (off + len) False []\<rparr>)"
    using i n by (auto simp: record_piece_def n' not_le Let_def word_neq_0_conv)
qed

lemma merge_entry_wf:
  assumes "resumption_inv r" and "chunk_value i < total_chunks r" and "len \<noteq> 0"
    and "unat off + unat len \<le> chunk_len r (chunk_value i)"
  shows "ranges_wf (chunk_len r (chunk_value i))
      (merge_ranges (ranges (chunk_entry r i)) off (off + len) False []) \<and>
    range_bytes (merge_ranges (ranges (chunk_entry r i)) off (off + len) False []) =
      {unat off..<unat off + unat len} \<union> received r (chunk_value i)"
proof -
  have n: "chunk_len r (chunk_value i) \<le> 1048576"
    using assms(1,2) chunk_len_eq by (simp add: resumption_inv_def)
  then have e: "unat (off + len) = unat off + unat len"
    using assms(4) by (simp add: unat_word_ariths)
  moreover have "off < off + len"
    using assms(3) by (simp add: word_less_nat_alt e unat_gt_0)
  ultimately show ?thesis
    using merge_ranges_correct [of "chunk_len r (chunk_value i)" "[]" "ranges (chunk_entry r i)"
        off "off + len"] assms chunk_entry_wf [OF assms(1,2)]
    by (simp add: chunk_wf_def received_entry)
qed

lemma record_piece_inv:
  assumes "resumption_inv r"
  shows "resumption_inv (fst (record_piece r i off len))"
proof -
  have tw: "totals_wf r" using assms by (simp add: resumption_inv_def)
  consider "total_chunks r \<le> chunk_value i"
    | "chunk_value i < total_chunks r" "chunk_len r (chunk_value i) < unat off + unat len"
    | "chunk_value i < total_chunks r" "unat off + unat len \<le> chunk_len r (chunk_value i)"
    by force
  then show ?thesis
  proof cases
    case 3
    obtain st where st: "fst (record_piece r i off len) = set_chunk r i st"
      "st = (if verified (chunk_entry r i) \<or> len = 0 then chunk_entry r i
        else chunk_entry r i
          \<lparr>ranges := merge_ranges (ranges (chunk_entry r i)) off (off + len) False []\<rparr>)"
      using record_piece_cases(3) [OF tw 3] by auto
    have "chunk_wf r (chunk_value i) st"
      using chunk_entry_wf [OF assms 3(1)] merge_entry_wf [OF assms 3(1) _ 3(2)]
      by (auto simp: st(2) chunk_wf_def)
    then have "resumption_inv ((set_chunk r i st)\<lparr>verified_chunks_count := verified_chunks_count r\<rparr>)"
      using assms by (intro set_chunk_inv) (auto simp: st(2))
    then show ?thesis by (simp add: st(1) set_chunk_def)
  qed (use assms record_piece_cases(1,2) [OF tw] in auto)
qed

lemma mark_verified_inv:
  assumes "resumption_inv r"
  shows "resumption_inv (fst (mark_verified r i))"
proof (cases "chunk_value i < total_chunks r")
  case True
  obtain n where n: "chunk_size r i = Ok n" "unat n = chunk_len r (chunk_value i)" "0 < n"
    using chunk_size_Ok [of r "chunk_value i"] assms True
    by (auto simp: chunk_len_def resumption_inv_def)
  have n': "of_nat (chunk_len r (chunk_value i)) = n" by (metis n(2) of_nat_unat ucast_id)
  show ?thesis
  proof (cases "verified (chunk_entry r i)")
    case False
    have "verified_chunks_count r < total_chunks r"
      using verified_count_eq_total [OF assms] True False assms
      by (auto simp: resumption_inv_def word_less_nat_alt le_less)
    then have "resumption_inv ((set_chunk r i (chunk_entry r i\<lparr>verified := True, ranges := [(0, n)]\<rparr>))
        \<lparr>verified_chunks_count := verified_chunks_count r + 1\<rparr>)"
      using assms True False n n'
      by (intro set_chunk_inv) (auto simp: chunk_wf_def unat_add_1 word_less_nat_alt)
    then show ?thesis using True False n by (auto simp: mark_verified_def Let_def)
  next
    case v: True
    have "resumption_inv ((set_chunk r i (chunk_entry r i))\<lparr>verified_chunks_count := verified_chunks_count r\<rparr>)"
      using chunk_entry_wf [OF assms True] assms by (intro set_chunk_inv) auto
    then show ?thesis using True v n by (auto simp: mark_verified_def Let_def set_chunk_def)
  qed
qed (use assms in \<open>auto simp: mark_verified_def not_less\<close>)

lemma mark_failed_inv:
  assumes "resumption_inv r"
  shows "resumption_inv (fst (mark_failed r i))"
proof (cases "chunk_value i < total_chunks r")
  case True
  have "0 < unat (verified_chunks_count r)" if "verified (chunk_entry r i)"
    using verified_count_set_chunk [of r i "chunk_entry r i\<lparr>verified := False\<rparr>"] that assms
    by (simp add: resumption_inv_def)
  then have "resumption_inv ((set_chunk r i (chunk_entry r i\<lparr>verified := False, ranges := [],
        failed_attempts := saturating_add (failed_attempts (chunk_entry r i)) 1\<rparr>))
      \<lparr>verified_chunks_count := (if verified (chunk_entry r i)
         then saturating_sub (verified_chunks_count r) 1 else verified_chunks_count r)\<rparr>)"
    using assms True by (intro set_chunk_inv) (auto simp: chunk_wf_def rust_arith)
  then show ?thesis using True by (auto simp: mark_failed_def Let_def)
qed (use assms in \<open>auto simp: mark_failed_def not_less\<close>)

section \<open>Reachable trackers\<close>

text \<open>
  What a receiving task does with the tracker: any sequence of pieces, successful and failed
  verifications. An operation that is refused leaves the tracker as it is.
\<close>

inductive resumption_step :: "item_resumption \<Rightarrow> item_resumption \<Rightarrow> bool" where
  step_piece: "resumption_step r (fst (record_piece r i off len))"
| step_verified: "resumption_step r (fst (mark_verified r i))"
| step_failed: "resumption_step r (fst (mark_failed r i))"

inductive resumption_reachable :: "item_resumption \<Rightarrow> bool" where
  reach_new: "resumption_reachable (resumption_new item bytes)"
| reach_step: "resumption_reachable r \<Longrightarrow> resumption_step r r' \<Longrightarrow> resumption_reachable r'"

inductive_simps resumption_step_iff: "resumption_step r r'"

lemma reachable_inv: "resumption_reachable r \<Longrightarrow> resumption_inv r"
proof (induction rule: resumption_reachable.induct)
  case (reach_step r r')
  then show ?case
    by (auto simp: resumption_step_iff record_piece_inv mark_verified_inv mark_failed_inv)
qed (rule resumption_inv_new)

text \<open>A verified chunk, in a tracker that satisfies the invariant.\<close>

lemma verified_full:
  assumes "resumption_inv r" and "i < total_chunks r" and "verified (chunk_entry r (ChunkIndex i))"
  shows "received r i = {0..<chunk_len r i}"
proof -
  have "chunk_len r i \<le> 1048576"
    using assms(1,2) chunk_len_eq by (simp add: resumption_inv_def)
  then show ?thesis
    using chunk_entry_wf [of r "ChunkIndex i"] assms
    by (simp add: received_entry chunk_wf_def unat_of_nat)
qed

lemma is_chunk_verified_entry:
  "i < total_chunks r \<Longrightarrow>
   is_chunk_verified r (ChunkIndex i) = Ok (verified (chunk_entry r (ChunkIndex i)))"
  by (auto simp: is_chunk_verified_def chunk_entry_def chunk_state_default_def split: option.splits)

lemma is_item_complete_iff:
  assumes "resumption_inv r"
  shows "is_item_complete r \<longleftrightarrow>
    (\<forall>i < total_chunks r. is_chunk_verified r (ChunkIndex i) = Ok True)"
proof -
  have z: "total_bytes r = 0 \<Longrightarrow> total_chunks r = 0"
    using assms by (simp add: resumption_inv_def totals_wf_def unat_eq_0)
  have cnt: "verified_chunks_count r = total_chunks r \<longleftrightarrow> verified_count r = unat (total_chunks r)"
    using assms by (simp add: resumption_inv_def word_unat_eq_iff)
  show ?thesis
    unfolding is_item_complete_def using z cnt verified_count_eq_total(1) [OF assms]
    by (auto simp: not_less is_chunk_verified_entry)
qed

section \<open>Progress in bytes\<close>

lemma foldl_ranges:
  fixes a :: u64
  assumes "ranges_wf sz rs"
  shows "unat (foldl (\<lambda>t (start, end). saturating_add t (ucast (end - start))) a rs) =
    min (unat a + card (range_bytes rs)) (2 ^ 64 - 1)"
proof -
  have "unat (foldl (\<lambda>t (start, end). saturating_add t (ucast (end - start))) a rs) =
      min (unat a + (\<Sum>(s, e) \<leftarrow> rs. unat e - unat s)) (2 ^ 64 - 1)"
    using assms
  proof (induction rs arbitrary: a)
    case (Cons p rs)
    obtain s e where p: "p = (s, e)" by fastforce
    have "s < e" using Cons.prems by (simp add: p)
    then have "unat (ucast (e - s) :: u64) = unat e - unat s"
      using unat_less [of e]
      by (simp add: unsigned_ucast_eq take_bit_eq_mod unat_sub word_less_nat_alt word_le_nat_alt)
    then show ?case using Cons.IH Cons.prems by (simp add: p rust_arith)
  next
    case Nil
    show ?case using unat_less [of a] by (simp add: min_def)
  qed
  then show ?thesis using card_range_bytes [OF assms] by simp
qed

lemma foldl_chunks:
  fixes a :: u64
  assumes "\<forall>st \<in> set sts. \<exists>sz. ranges_wf sz (ranges st)"
  shows "unat (foldl (\<lambda>total state.
        foldl (\<lambda>t (start, end). saturating_add t (ucast (end - start))) total (ranges state)) a sts) =
    min (unat a + (\<Sum>st \<leftarrow> sts. card (range_bytes (ranges st)))) (2 ^ 64 - 1)"
  using assms
proof (induction sts arbitrary: a)
  case (Cons st sts)
  then obtain sz where "ranges_wf sz (ranges st)" by auto
  from foldl_ranges [OF this] Cons show ?case by simp
next
  case Nil
  show ?case using unat_less [of a] by (simp add: min_def)
qed

lemma received_subset:
  assumes "resumption_inv r" and "i < total_chunks r"
  shows "received r i \<subseteq> {0..<chunk_len r i}" and "card (received r i) \<le> chunk_len r i"
    and "finite (received r i)"
proof -
  show sub: "received r i \<subseteq> {0..<chunk_len r i}"
    using chunk_entry_wf [of r "ChunkIndex i"] assms card_range_bytes
    by (auto simp: received_entry chunk_wf_def)
  then show "card (received r i) \<le> chunk_len r i"
    using card_mono [of "{0..<chunk_len r i}"] by simp
  show "finite (received r i)" using sub by (rule finite_subset) simp
qed

lemma bytes_received_sum:
  assumes "resumption_inv r"
  shows "unat (bytes_received r) = (\<Sum>i | i < total_chunks r. card (received r i))"
    and "(\<Sum>i | i < total_chunks r. card (received r i)) \<le> unat (total_bytes r)"
proof -
  have inv: "bt_invar (chunks r)" and tw: "totals_wf r"
    using assms by (simp_all add: resumption_inv_def)
  have wf: "\<forall>st \<in> set (bt_values (chunks r)). \<exists>sz. ranges_wf sz (ranges st)"
    using assms by (force simp: resumption_inv_def chunk_wf_def bt_values_def)
  have "(\<Sum>st \<leftarrow> bt_values (chunks r). card (range_bytes (ranges st))) =
      (\<Sum>i \<in> dom (bt_get (chunks r)). card (received r i))"
    by (simp add: bt_values_sum [OF inv]) (intro sum.cong, auto simp: received_def)
  also have "\<dots> = (\<Sum>i | i < total_chunks r. card (received r i))"
    using assms by (intro sum.mono_neutral_left)
      (auto simp: resumption_inv_iff chunk_wf_def received_def split: option.splits)
  finally have s: "(\<Sum>st \<leftarrow> bt_values (chunks r). card (range_bytes (ranges st))) =
      (\<Sum>i | i < total_chunks r. card (received r i))" .
  have "(\<Sum>i | i < total_chunks r. card (received r i)) \<le> (\<Sum>i | i < total_chunks r. chunk_len r i)"
    using received_subset(2) [OF assms] by (intro sum_mono) auto
  also have "\<dots> = unat (total_bytes r)"
    by (simp add: sum_words_below sum_chunk_len [OF tw])
  finally show le: "(\<Sum>i | i < total_chunks r. card (received r i)) \<le> unat (total_bytes r)" .
  then show "unat (bytes_received r) = (\<Sum>i | i < total_chunks r. card (received r i))"
    using foldl_chunks [OF wf, of 0] unat_less [of "total_bytes r"]
    by (simp add: bytes_received_def s)
qed

section \<open>Requests\<close>

lemma first_requestable_Some:
  "first_requestable r idx = Some f \<Longrightarrow>
   idx \<le> f \<and> f < total_chunks r \<and> is_chunk_requestable r f \<and>
   (\<forall>j. idx \<le> j \<longrightarrow> j < f \<longrightarrow> \<not> is_chunk_requestable r j)"
proof (induction r idx rule: first_requestable.induct)
  case (1 r idx)
  show ?case
  proof (cases "idx < total_chunks r \<and> \<not> is_chunk_requestable r idx")
    case True
    then have "first_requestable r (idx + 1) = Some f"
      using "1.prems" by (subst (asm) first_requestable.simps) simp
    with "1.IH" True have IH: "idx + 1 \<le> f \<and> f < total_chunks r \<and> is_chunk_requestable r f \<and>
      (\<forall>j. idx + 1 \<le> j \<longrightarrow> j < f \<longrightarrow> \<not> is_chunk_requestable r j)" by simp
    have nx: "unat (idx + 1) = unat idx + 1" using True unat_add_1 by blast
    then have "idx + 1 \<le> j" if "idx \<le> j" "j \<noteq> idx" for j
      using that by (simp add: word_le_nat_alt word_unat_eq_iff)
    with IH True nx show ?thesis by (auto simp: word_le_nat_alt)
  next
    case False
    with "1.prems" have "f = idx" "idx < total_chunks r" "is_chunk_requestable r idx"
      by (auto simp: first_requestable.simps [of r idx] split: if_splits)
    then show ?thesis by (auto simp: not_less)
  qed
qed

lemma first_requestable_None:
  "first_requestable r idx = None \<Longrightarrow> idx \<le> j \<Longrightarrow> j < total_chunks r \<Longrightarrow> \<not> is_chunk_requestable r j"
proof (induction r idx rule: first_requestable.induct)
  case (1 r idx)
  then have i: "idx < total_chunks r" by (meson order.strict_trans1)
  with "1.prems"(1) have n: "\<not> is_chunk_requestable r idx" "first_requestable r (idx + 1) = None"
    by (auto simp: first_requestable.simps [of r idx] split: if_splits)
  show ?case
  proof (cases "j = idx")
    case False
    then have "idx + 1 \<le> j"
      using "1.prems"(2) unat_add_1 [OF i] by (simp add: word_le_nat_alt word_unat_eq_iff)
    with "1.IH" i n "1.prems"(3) show ?thesis by blast
  qed (use n in simp)
qed

lemma total_chunks_bound: "totals_wf r \<Longrightarrow> unat (total_chunks r) \<le> 2 ^ 44"
  using unat_less [of "total_bytes r"] unfolding totals_wf_def ceil_div_mod
  by (auto simp: div_le_mono less_mult_imp_div_less Suc_le_eq split: if_splits
      intro: less_imp_le_nat)

lemma chunk_plus:
  assumes "totals_wf r" and "f < total_chunks r"
  shows "unat (f + ucast (c :: u32)) = unat f + unat c"
proof -
  have "unat f < 2 ^ 44"
    using assms(2) total_chunks_bound [OF assms(1)] by (simp add: word_less_nat_alt)
  moreover have "unat (ucast c :: u64) = unat c" using unat_less [of c]
    by (simp add: unsigned_ucast_eq take_bit_eq_mod)
  ultimately show ?thesis using unat_less [of c] by (simp add: unat_word_ariths)
qed

text \<open>
  What a batch is: \<open>n\<close> consecutive requestable chunks from \<open>f\<close>, and no longer run
  exists within \<open>m\<close> chunks and the end of the item.
\<close>

definition request_prefix :: "item_resumption \<Rightarrow> u64 \<Rightarrow> u32 \<Rightarrow> bool" where
  "request_prefix r f n \<longleftrightarrow>
     (\<forall>k < unat n. unat f + k < unat (total_chunks r) \<and> is_chunk_requestable r (of_nat (unat f + k)))"

definition request_run :: "item_resumption \<Rightarrow> u64 \<Rightarrow> u32 \<Rightarrow> u32 \<Rightarrow> bool" where
  "request_run r f m n \<longleftrightarrow>
     n \<le> m \<and> request_prefix r f n \<and>
     (n = m \<or> unat f + unat n = unat (total_chunks r) \<or>
      \<not> is_chunk_requestable r (of_nat (unat f + unat n)))"

lemma count_requestable_run:
  assumes "totals_wf r" and "f < total_chunks r" and "c \<le> m" and "request_prefix r f c"
  shows "c \<le> count_requestable r f m c \<and> request_run r f m (count_requestable r f m c)"
  using assms
proof (induction r f m c rule: count_requestable.induct)
  case (1 r f m c)
  have fc: "f + ucast c = of_nat (unat f + unat c)"
    using chunk_plus [OF "1.prems"(1,2), of c] by (metis of_nat_unat ucast_id)
  have lt: "f + ucast c < total_chunks r \<longleftrightarrow> unat f + unat c < unat (total_chunks r)"
    using chunk_plus [OF "1.prems"(1,2), of c] by (simp add: word_less_nat_alt)
  show ?case
  proof (cases "c < m \<and> f + ucast c < total_chunks r \<and> is_chunk_requestable r (f + ucast c)")
    case True
    have c1: "unat (c + 1) = unat c + 1" using True unat_add_1 by blast
    have "request_prefix r f (c + 1)"
    proof -
      have "unat f + unat c < unat (total_chunks r) \<and> is_chunk_requestable r (of_nat (unat f + unat c))"
        using True lt fc by metis
      then show ?thesis
        using "1.prems"(4) by (auto simp: request_prefix_def c1 less_Suc_eq simp del: of_nat_add)
    qed
    moreover have "c + 1 \<le> m" using True c1 by (simp add: word_less_nat_alt word_le_nat_alt)
    ultimately have "c + 1 \<le> count_requestable r f m (c + 1) \<and>
        request_run r f m (count_requestable r f m (c + 1))"
      using True "1.prems"(1,2) by (intro "1.IH") auto
    moreover have "count_requestable r f m c = count_requestable r f m (c + 1)"
      using True by (subst count_requestable.simps) simp
    moreover have "c \<le> c + 1" using c1 by (simp add: word_le_nat_alt)
    ultimately show ?thesis by (metis order.trans)
  next
    case False
    have "count_requestable r f m c = c"
      using False by (simp add: count_requestable.simps [of r f m c])
    moreover have "unat f + unat c \<le> unat (total_chunks r)"
    proof (cases "unat c")
      case (Suc k)
      then show ?thesis using "1.prems"(4) by (auto simp: request_prefix_def)
    qed (use "1.prems"(2) in \<open>simp add: word_less_nat_alt\<close>)
    then have "c = m \<or> unat f + unat c = unat (total_chunks r) \<or>
        \<not> is_chunk_requestable r (of_nat (unat f + unat c))"
      using False lt fc "1.prems"(3) by (metis le_neq_implies_less order.not_eq_order_implies_strict)
    ultimately show ?thesis using "1.prems"(3,4) by (simp add: request_run_def)
  qed
qed

section \<open>Properties of the tracker\<close>

lemma chunk_len_bounds:
  "resumption_inv r \<Longrightarrow> i < total_chunks r \<Longrightarrow> chunk_len r i \<le> 1048576 \<and> 0 < chunk_len r i"
  using chunk_len_eq [of r i] by (auto simp: resumption_inv_def)

lemma received_cases:
  assumes "resumption_inv r" and "chunk_value i < total_chunks r"
    and "unat off + unat len \<le> chunk_len r (chunk_value i)"
    and st: "st = (if verified (chunk_entry r i) \<or> len = 0 then chunk_entry r i
      else chunk_entry r i\<lparr>ranges := merge_ranges (ranges (chunk_entry r i)) off (off + len) False []\<rparr>)"
  shows "range_bytes (ranges st) = received r (chunk_value i) \<union> {unat off..<unat off + unat len}"
    and "verified st \<or> (length (ranges st) = 1 \<and> ranges st ! 0 = (0, of_nat (chunk_len r (chunk_value i))))
      \<longleftrightarrow> range_bytes (ranges st) = {0..<chunk_len r (chunk_value i)}"
proof -
  let ?n = "chunk_len r (chunk_value i)"
  have n: "?n \<le> 1048576" "0 < ?n"
    using chunk_len_bounds [OF assms(1,2)] by simp_all
  have wf: "chunk_wf r (chunk_value i) st"
    using chunk_entry_wf [OF assms(1,2)] merge_entry_wf [OF assms(1,2) _ assms(3)]
    by (auto simp: st chunk_wf_def)
  show "range_bytes (ranges st) = received r (chunk_value i) \<union> {unat off..<unat off + unat len}"
    using verified_full [OF assms(1,2)] merge_entry_wf [OF assms(1,2) _ assms(3)] assms(3)
    by (auto simp: st received_entry)
  have u: "unat (of_nat ?n :: u32) = ?n" using n by (simp add: unat_of_nat)
  moreover have "0 < (of_nat ?n :: u32)" using n(2) u by (simp add: word_less_nat_alt)
  ultimately show "verified st \<or> (length (ranges st) = 1 \<and> ranges st ! 0 = (0, of_nat ?n))
      \<longleftrightarrow> range_bytes (ranges st) = {0..<?n}"
    using ranges_complete_iff [of "of_nat ?n" "ranges st"] wf by (auto simp: chunk_wf_def)
qed

text \<open>
  Property C8. On every reachable tracker, \<open>record_piece\<close> is refused exactly when the
  chunk does not exist or the piece leaves the chunk (a sum that overflows 32 bits included),
  and then the tracker is unchanged; otherwise it adds exactly the piece's bytes to the bytes
  received of that chunk, touches no other chunk, and reports completion exactly when
  every byte of the chunk has arrived.
\<close>

theorem record_piece_spec:
  assumes "resumption_reachable r"
  shows "let i = chunk_value index; n = chunk_len r i; p = {unat off..<unat off + unat len};
             (r', res) = record_piece r index off len
         in if total_chunks r \<le> i then r' = r \<and> res = Err (ChunkOutOfBounds index (total_chunks r))
            else if n < unat off + unat len
              then r' = r \<and> res = Err (PieceOutOfBounds index off len (of_nat n))
            else received r' = (received r)(i := received r i \<union> p) \<and>
                 res = Ok (received r i \<union> p = {0..<n})"
proof -
  have inv: "resumption_inv r" using assms by (rule reachable_inv)
  then have tw: "totals_wf r" and bi: "bt_invar (chunks r)" by (simp_all add: resumption_inv_def)
  consider "total_chunks r \<le> chunk_value index"
    | "chunk_value index < total_chunks r" "chunk_len r (chunk_value index) < unat off + unat len"
    | "chunk_value index < total_chunks r" "unat off + unat len \<le> chunk_len r (chunk_value index)"
    by force
  then show ?thesis
  proof cases
    case 3
    from record_piece_cases(3) [OF tw 3] obtain st where rp:
      "record_piece r index off len = (set_chunk r index st, Ok (verified st \<or> (length (ranges st) = 1
         \<and> ranges st ! 0 = (0, of_nat (chunk_len r (chunk_value index))))))"
      and st: "st = (if verified (chunk_entry r index) \<or> len = 0 then chunk_entry r index
        else chunk_entry r index
          \<lparr>ranges := merge_ranges (ranges (chunk_entry r index)) off (off + len) False []\<rparr>)"
      by blast
    have "\<not> total_chunks r \<le> chunk_value index"
      "\<not> chunk_len r (chunk_value index) < unat off + unat len"
      using 3 by auto
    then show ?thesis
      using received_cases [OF inv 3 st]
      by (simp add: rp Let_def fun_eq_iff received_set_chunk [OF bi])
  qed (use record_piece_cases(1,2) [OF tw] in \<open>auto simp: Let_def\<close>)
qed

abbreviation (input) example_item :: item_id where
  "example_item \<equiv> \<lparr>item_id_bytes = replicate 64 97, item_id_len = 1\<rparr>"

theorem record_piece_spec_witness:
  "received (fst (record_piece (resumption_new example_item 3) (ChunkIndex 0) 1 2)) 0 = {1..<3}"
proof -
  have n: "chunk_len (resumption_new example_item 3) 0 = 3"
    by (simp add: chunk_len_def chunk_size_def resumption_new_def div_ceil_def)
  have t: "total_chunks (resumption_new example_item 3) = 1"
    by (simp add: resumption_new_def div_ceil_def)
  have "received (resumption_new example_item 3) 0 = {}"
    by (simp add: received_def resumption_new_def)
  then show ?thesis
    using record_piece_spec [OF reach_new [of example_item 3], of "ChunkIndex 0" 1 2] n t
    by (simp add: Let_def split: prod.splits) (simp add: numeral_3_eq_3)
qed

text \<open>
  Property C22. On every reachable tracker the item is reported complete exactly when every one
  of its chunks is reported verified, and then all of the item's bytes have been counted as
  received.
\<close>

theorem item_complete_iff_all_verified:
  assumes "resumption_reachable r"
  shows "(is_item_complete r \<longleftrightarrow>
      (\<forall>i < total_chunks r. is_chunk_verified r (ChunkIndex i) = Ok True)) \<and>
    (is_item_complete r \<longrightarrow> bytes_received r = total_bytes r)"
proof -
  have inv: "resumption_inv r" using assms by (rule reachable_inv)
  have "bytes_received r = total_bytes r" if "is_item_complete r"
  proof -
    have "received r i = {0..<chunk_len r i}" if i: "i < total_chunks r" for i
      using \<open>is_item_complete r\<close> is_chunk_verified_entry [OF i] i
      by (intro verified_full [OF inv i]) (simp add: is_item_complete_iff [OF inv])
    then have "unat (bytes_received r) = (\<Sum>i | i < total_chunks r. chunk_len r i)"
      by (simp add: bytes_received_sum(1) [OF inv])
    also have "\<dots> = unat (total_bytes r)"
      using inv by (simp add: sum_words_below sum_chunk_len resumption_inv_def)
    finally show ?thesis by (simp only: word_unat_eq_iff)
  qed
  then show ?thesis using is_item_complete_iff [OF inv] by blast
qed

theorem item_complete_iff_all_verified_witness:
  "is_item_complete (fst (mark_verified (resumption_new example_item 3) (ChunkIndex 0))) \<and>
   bytes_received (fst (mark_verified (resumption_new example_item 3) (ChunkIndex 0))) = 3"
proof -
  let ?r = "fst (mark_verified (resumption_new example_item 3) (ChunkIndex 0))"
  have "resumption_reachable ?r" by (rule reach_step [OF reach_new step_verified])
  note * = item_complete_iff_all_verified [OF this]
  have "is_item_complete ?r \<and> total_bytes ?r = 3"
    by (simp add: mark_verified_def chunk_size_def chunk_entry_def chunk_state_default_def
        resumption_new_def div_ceil_def is_item_complete_def set_chunk_def)
  then show ?thesis using * by simp
qed

text \<open>
  On every reachable tracker the received-byte counter is exact: it is the number
  of byte positions received over all chunks, without double counting of overlapping pieces
  and without saturation, and never exceeds the item's size.
\<close>

theorem bytes_received_exact:
  assumes "resumption_reachable r"
  shows "unat (bytes_received r) = (\<Sum>i | i < total_chunks r. card (received r i)) \<and>
    bytes_received r \<le> total_bytes r"
  using bytes_received_sum [OF reachable_inv [OF assms]] by (simp add: word_le_nat_alt)

theorem bytes_received_exact_witness:
  "bytes_received (fst (record_piece (resumption_new example_item 3) (ChunkIndex 0) 1 2)) \<le> 3"
proof -
  let ?r = "fst (record_piece (resumption_new example_item 3) (ChunkIndex 0) 1 2)"
  have "resumption_reachable ?r" by (rule reach_step [OF reach_new step_piece])
  moreover have "total_bytes ?r = 3"
    by (simp add: record_piece_def chunk_size_def chunk_entry_def chunk_state_default_def
        resumption_new_def div_ceil_def set_chunk_def checked_add_def)
  ultimately show ?thesis using bytes_received_exact [of ?r] by simp
qed

text \<open>
  The chunks of a tracker partition the item: every chunk index below the total has
  a size between one byte and the reference size, the sizes add up to the item's size,
  and the byte range of each chunk is computed without overflow and ends inside the item.
\<close>

theorem chunks_partition_item:
  assumes "resumption_reachable r"
  shows "(\<Sum>i | i < total_chunks r. chunk_len r i) = unat (total_bytes r) \<and>
    (\<forall>i < total_chunks r. 1 \<le> chunk_len r i \<and> chunk_len r i \<le> 1048576 \<and>
       byte_offset (ChunkIndex i) = Ok (i * 1048576) \<and>
       unat (i * 1048576) + chunk_len r i \<le> unat (total_bytes r))"
proof -
  have inv: "resumption_inv r" using assms by (rule reachable_inv)
  then have tw: "totals_wf r" by (simp add: resumption_inv_def)
  have "byte_offset (ChunkIndex i) = Ok (i * 1048576) \<and>
      unat (i * 1048576) + chunk_len r i \<le> unat (total_bytes r)" if i: "i < total_chunks r" for i
  proof -
    have lt: "unat i * 1048576 < unat (total_bytes r)"
      using chunk_len_eq [OF tw i] by linarith
    then have "unat i * 1048576 < 2 ^ 64" using unat_less [of "total_bytes r"] by simp
    with lt show ?thesis using chunk_len_eq [OF tw i]
      by (simp add: byte_offset_def checked_mul_def unat_word_ariths)
  qed
  then show ?thesis
    using chunk_len_bounds [OF inv] sum_chunk_len [OF tw] by (auto simp: sum_words_below Suc_le_eq)
qed

theorem chunks_partition_item_witness:
  "(\<Sum>i | i < total_chunks (resumption_new example_item 3).
      chunk_len (resumption_new example_item 3) i) = 3"
  using chunks_partition_item [OF reach_new [of example_item 3]]
  by (simp add: resumption_new_def)

text \<open>
  On every reachable tracker, \<open>next_chunk_request\<close> asks for the first
  requestable chunk and the longest run of requestable chunks from it that the limit and
  the item allow; it asks for nothing only when the limit is zero or no chunk is
  requestable, and it never asks for a verified chunk.
\<close>

theorem next_chunk_request_spec:
  assumes "resumption_reachable r"
  shows "case next_chunk_request r max_count of
      None \<Rightarrow> max_count = 0 \<or> (\<forall>i < total_chunks r. \<not> is_chunk_requestable r i)
    | Some (ChunkIndex f, n) \<Rightarrow>
        1 \<le> n \<and> request_run r f max_count n \<and>
        (\<forall>j < f. \<not> is_chunk_requestable r j) \<and>
        (\<forall>k < unat n. is_chunk_verified r (ChunkIndex (of_nat (unat f + k))) = Ok False)"
proof -
  have inv: "resumption_inv r" using assms by (rule reachable_inv)
  then have tw: "totals_wf r" by (simp add: resumption_inv_def)
  have fin: "\<not> is_chunk_requestable r i" if "is_item_complete r" "i < total_chunks r" for i
    using that is_item_complete_iff [OF inv]
    by (auto simp: is_chunk_requestable_def is_chunk_verified_def split: option.splits if_splits)
  show ?thesis
  proof (cases "max_count = 0 \<or> total_chunks r = 0 \<or> is_item_complete r")
    case True
    then show ?thesis using fin by (auto simp: next_chunk_request_def)
  next
    case go: False
    show ?thesis
    proof (cases "first_requestable r 0")
      case None
      then show ?thesis
        using go first_requestable_None [OF None] by (auto simp: next_chunk_request_def)
    next
      case (Some f)
      note f = first_requestable_Some [OF Some]
      define n where "n = count_requestable r f max_count 0"
      have run: "request_run r f max_count n"
        using count_requestable_run [OF tw, of f 0 max_count] f
        by (simp add: n_def request_prefix_def)
      have "n \<noteq> 0" using run f go by (auto simp: request_run_def word_less_nat_alt)
      then have "next_chunk_request r max_count = Some (ChunkIndex f, n)"
        using go Some by (simp add: next_chunk_request_def n_def Let_def)
      moreover have "is_chunk_verified r (ChunkIndex (of_nat (unat f + k))) = Ok False"
        if "k < unat n" for k
      proof -
        have "unat f + k < unat (total_chunks r)" "is_chunk_requestable r (of_nat (unat f + k))"
          using run that by (auto simp: request_run_def request_prefix_def)
        moreover from this have "of_nat (unat f + k) < total_chunks r"
          using unat_less [of "total_chunks r"]
          by (simp add: word_less_nat_alt unat_of_nat del: of_nat_add)
        ultimately show ?thesis
          by (auto simp: is_chunk_verified_def is_chunk_requestable_def simp del: of_nat_add
              split: option.splits)
      qed
      ultimately show ?thesis
        using run f \<open>n \<noteq> 0\<close> by (auto simp: word_le_nat_alt Suc_le_eq unat_gt_0 simp del: of_nat_add)
    qed
  qed
qed

theorem next_chunk_request_spec_witness:
  "case next_chunk_request (resumption_new example_item 3) 8 of
      None \<Rightarrow> False | Some (ChunkIndex f, n) \<Rightarrow> 1 \<le> n \<and> request_run (resumption_new example_item 3) f 8 n"
  using next_chunk_request_spec [OF reach_new [of example_item 3], of 8]
  by (auto simp: resumption_new_def is_chunk_requestable_def div_ceil_def split: option.splits prod.splits
      chunk_index.splits)

lemma mark_verified_entry:
  assumes "resumption_inv r"
  shows "verified (chunk_entry (fst (mark_verified r (ChunkIndex i))) (ChunkIndex j)) \<longleftrightarrow>
      verified (chunk_entry r (ChunkIndex j)) \<or> (j = i \<and> i < total_chunks r)"
    and "total_chunks (fst (mark_verified r (ChunkIndex i))) = total_chunks r"
proof -
  have bi: "bt_invar (chunks r)" and tw: "totals_wf r"
    using assms by (simp_all add: resumption_inv_def)
  have "verified (chunk_entry (fst (mark_verified r (ChunkIndex i))) (ChunkIndex j)) \<longleftrightarrow>
      verified (chunk_entry r (ChunkIndex j)) \<or> (j = i \<and> i < total_chunks r) \<and>
      total_chunks (fst (mark_verified r (ChunkIndex i))) = total_chunks r"
  proof (cases "i < total_chunks r")
    case True
    then obtain n where "chunk_size r (ChunkIndex i) = Ok n"
      using chunk_size_Ok [OF tw] by blast
    with True bi show ?thesis
      by (auto simp: mark_verified_def Let_def set_chunk_def chunk_entry_def split: option.splits)
  qed (auto simp: mark_verified_def not_less)
  moreover show "total_chunks (fst (mark_verified r (ChunkIndex i))) = total_chunks r"
    by (simp add: mark_verified_def Let_def split: result.splits)
  ultimately show "verified (chunk_entry (fst (mark_verified r (ChunkIndex i))) (ChunkIndex j)) \<longleftrightarrow>
      verified (chunk_entry r (ChunkIndex j)) \<or> (j = i \<and> i < total_chunks r)"
    by simp
qed

lemma foldl_mark_verified:
  "resumption_inv r \<Longrightarrow>
   let r' = foldl (\<lambda>r i. fst (mark_verified r (ChunkIndex i))) r is in
   resumption_inv r' \<and> total_chunks r' = total_chunks r \<and>
   (\<forall>j < total_chunks r. verified (chunk_entry r' (ChunkIndex j)) \<longleftrightarrow>
      verified (chunk_entry r (ChunkIndex j)) \<or> j \<in> set is)"
proof (induction "is" arbitrary: r)
  case (Cons i "is")
  show ?case
    using Cons.IH [OF mark_verified_inv [OF Cons.prems]] mark_verified_entry [OF Cons.prems]
    by (auto simp: Let_def)
qed (simp add: Let_def)

text \<open>
  Progress: from any reachable tracker, verifying every chunk, in any order and
  with any repetitions, makes the item complete.
\<close>

theorem verifying_every_chunk_completes:
  assumes "resumption_reachable r" and "{i. i < total_chunks r} \<subseteq> set is"
  shows "is_item_complete (foldl (\<lambda>r i. fst (mark_verified r (ChunkIndex i))) r is)"
  using foldl_mark_verified [OF reachable_inv [OF assms(1)], of "is"] assms(2)
  by (auto simp: Let_def is_item_complete_iff is_chunk_verified_entry)

theorem verifying_every_chunk_completes_witness:
  "is_item_complete (foldl (\<lambda>r i. fst (mark_verified r (ChunkIndex i)))
     (resumption_new example_item 3) [0])"
proof (rule verifying_every_chunk_completes [OF reach_new])
  have "total_chunks (resumption_new example_item 3) = 1"
    by (simp add: resumption_new_def div_ceil_def)
  then show "{i. i < total_chunks (resumption_new example_item 3)} \<subseteq> set [0]"
    by (auto simp: word_less_nat_alt unat_eq_0)
qed

text \<open>
  A failed verification discards every byte of the chunk, clears its verified
  mark and counts one more attempt (stopping at the largest 32-bit value), and leaves
  the other chunks alone.
\<close>

theorem mark_failed_resets:
  assumes "resumption_reachable r" and "i < total_chunks r"
  shows "let r' = fst (mark_failed r (ChunkIndex i));
             a = failed_attempts (chunk_entry r (ChunkIndex i))
         in received r' = (received r)(i := {}) \<and>
            is_chunk_verified r' (ChunkIndex i) = Ok False \<and>
            snd (mark_failed r (ChunkIndex i)) = Ok (saturating_add a 1) \<and>
            (\<forall>j. j \<noteq> i \<longrightarrow> bt_get (chunks r') j = bt_get (chunks r) j)"
proof -
  have bi: "bt_invar (chunks r)" using reachable_inv [OF assms(1)] by (simp add: resumption_inv_def)
  have "\<not> total_chunks r \<le> i" using assms(2) by simp
  then show ?thesis
    using bi by (simp add: mark_failed_def Let_def fun_eq_iff received_def set_chunk_def
        is_chunk_verified_def)
qed

theorem mark_failed_resets_witness:
  "received (fst (mark_failed (fst (record_piece (resumption_new example_item 3) (ChunkIndex 0) 0 3))
     (ChunkIndex 0))) 0 = {}"
proof -
  let ?r = "fst (record_piece (resumption_new example_item 3) (ChunkIndex 0) 0 3)"
  have "resumption_reachable ?r" by (rule reach_step [OF reach_new step_piece])
  moreover have "0 < total_chunks ?r"
    by (simp add: record_piece_def chunk_size_def chunk_entry_def chunk_state_default_def
        resumption_new_def div_ceil_def set_chunk_def checked_add_def)
  ultimately show ?thesis using mark_failed_resets [of ?r 0] by (simp add: Let_def)
qed

text \<open>The calls a session makes on a tracker, and how many of them reported a chunk as failed.\<close>

datatype tracker_call = Call_Piece chunk_index u32 u32 | Call_Verified chunk_index | Call_Failed chunk_index

fun tracker_step :: "tracker_call \<Rightarrow> item_resumption \<Rightarrow> item_resumption" where
  "tracker_step (Call_Piece i off len) r = fst (record_piece r i off len)"
| "tracker_step (Call_Verified i) r = fst (mark_verified r i)"
| "tracker_step (Call_Failed i) r = fst (mark_failed r i)"

abbreviation tracker_run :: "tracker_call list \<Rightarrow> item_resumption \<Rightarrow> item_resumption" where
  "tracker_run calls r \<equiv> fold tracker_step calls r"

definition failures :: "u64 \<Rightarrow> tracker_call list \<Rightarrow> nat" where
  "failures i calls = count_list calls (Call_Failed (ChunkIndex i))"

lemma tracker_run_reachable: "resumption_reachable r \<Longrightarrow> resumption_reachable (tracker_run calls r)"
proof (induction calls arbitrary: r)
  case (Cons c calls)
  then have "resumption_reachable (tracker_step c r)"
    by (cases c) (auto intro: reach_step step_piece step_verified step_failed)
  then show ?case using Cons.IH by simp
qed simp

lemma record_piece_attempts:
  assumes "resumption_inv r"
  shows "failed_attempts (chunk_entry (fst (record_piece r i off len)) j) = failed_attempts (chunk_entry r j)"
    and "total_chunks (fst (record_piece r i off len)) = total_chunks r"
  using assms by (auto simp: record_piece_def Let_def set_chunk_def chunk_entry_def resumption_inv_def split: result.splits option.splits)

lemma mark_verified_attempts:
  assumes "resumption_inv r"
  shows "failed_attempts (chunk_entry (fst (mark_verified r i)) j) = failed_attempts (chunk_entry r j)"
    and "total_chunks (fst (mark_verified r i)) = total_chunks r"
  using assms by (auto simp: mark_verified_def Let_def set_chunk_def chunk_entry_def resumption_inv_def split: result.splits option.splits)

lemma mark_failed_attempts:
  assumes "resumption_inv r" and "j < total_chunks r"
  shows "failed_attempts (chunk_entry (fst (mark_failed r i)) (ChunkIndex j)) =
      (if i = ChunkIndex j then saturating_add (failed_attempts (chunk_entry r (ChunkIndex j))) 1 else failed_attempts (chunk_entry r (ChunkIndex j)))"
  using assms by (cases i; auto simp: mark_failed_def Let_def set_chunk_def chunk_entry_def resumption_inv_def split: option.splits)+

lemma tracker_step_total: "resumption_inv r \<Longrightarrow> total_chunks (tracker_step c r) = total_chunks r"
  by (cases c) (simp_all add: record_piece_attempts mark_verified_attempts mark_failed_def Let_def set_chunk_def)

lemma tracker_run_total: "resumption_reachable r \<Longrightarrow> total_chunks (tracker_run calls r) = total_chunks r"
proof (induction calls arbitrary: r)
  case (Cons c calls)
  then show ?case
    using tracker_run_reachable [of r "[c]"] tracker_step_total [OF reachable_inv] by simp
qed simp

lemma attempts_counted:
  assumes "resumption_reachable r" and "i < total_chunks r"
  shows "unat (failed_attempts (chunk_entry (tracker_run calls r) (ChunkIndex i))) =
      min (unat (failed_attempts (chunk_entry r (ChunkIndex i))) + failures i calls) (2 ^ 32 - 1)"
  using assms
proof (induction calls arbitrary: r)
  case Nil
  then show ?case using unat_less [of "failed_attempts (chunk_entry r (ChunkIndex i))"] by (simp add: failures_def)
next
  case (Cons c calls)
  note inv = reachable_inv [OF Cons.prems(1)]
  have reach: "resumption_reachable (tracker_step c r)" using tracker_run_reachable [OF Cons.prems(1), of "[c]"] by simp
  note tot = tracker_step_total [OF inv, of c]
  have one: "unat (failed_attempts (chunk_entry (tracker_step c r) (ChunkIndex i))) =
      min (unat (failed_attempts (chunk_entry r (ChunkIndex i))) + failures i [c]) (2 ^ 32 - 1)"
    using record_piece_attempts(1) [OF inv] mark_verified_attempts(1) [OF inv] mark_failed_attempts [OF inv Cons.prems(2)]
      unat_less [of "failed_attempts (chunk_entry r (ChunkIndex i))"]
    by (cases c) (auto simp: failures_def rust_arith)
  have "failures i (c # calls) = failures i [c] + failures i calls" by (simp add: failures_def)
  then show ?case using Cons.IH [OF reach] Cons.prems(2) tot one by simp
qed

lemma requestable_iff:
  assumes "i < total_chunks r"
  shows "is_chunk_requestable r i \<longleftrightarrow>
    is_chunk_verified r (ChunkIndex i) = Ok False \<and> unat (failed_attempts (chunk_entry r (ChunkIndex i))) < 3"
proof -
  have "\<not> total_chunks r \<le> i" using assms by simp
  moreover have "n < 3 \<longleftrightarrow> unat n < 3" for n :: u32 by (simp add: word_less_nat_alt)
  ultimately show ?thesis
    by (auto simp: is_chunk_requestable_def is_chunk_verified_def chunk_entry_def chunk_state_default_def split: option.splits)
qed

lemma missing_iff:
  assumes "resumption_inv r" and "i < total_chunks r"
  shows "ChunkIndex i \<in> set (missing_chunks r) \<longleftrightarrow> is_chunk_requestable r i"
proof -
  have "i \<in> of_nat ` {0..<unat (total_chunks r)}"
    using assms(2) by (intro image_eqI [of _ _ "unat i"]) (simp_all add: word_less_nat_alt)
  moreover have "\<not> is_chunk_requestable r i" if "is_item_complete r"
    using that assms is_item_complete_iff [OF assms(1)] requestable_iff [OF assms(2)] by auto
  moreover have "total_chunks r \<noteq> 0" using assms(2) by auto
  ultimately show ?thesis by (auto simp: missing_chunks_def)
qed

text \<open>
  Property C36. A chunk is given up after its third failure, and not before. After any sequence of
  calls on a new tracker, a chunk is listed as missing exactly when it is unverified and fewer than
  three of the calls reported it as failed; a chunk reported three times or more is in no request,
  whatever the limit, although as long as it is unverified the item is not complete; and when every
  unverified chunk was reported that often, nothing is requested any more.
\<close>

theorem three_failures_stall_item:
  assumes "r = tracker_run calls (resumption_new item bytes)" and "i < total_chunks r"
  shows "(ChunkIndex i \<in> set (missing_chunks r) \<longleftrightarrow> is_chunk_verified r (ChunkIndex i) = Ok False \<and> failures i calls < 3) \<and>
    (case next_chunk_request r m of
       None \<Rightarrow> True
     | Some (ChunkIndex f, n) \<Rightarrow> 3 \<le> failures i calls \<longrightarrow> unat i \<notin> {unat f..<unat f + unat n}) \<and>
    (is_chunk_verified r (ChunkIndex i) = Ok False \<longrightarrow> \<not> is_item_complete r) \<and>
    ((\<forall>j < total_chunks r. is_chunk_verified r (ChunkIndex j) = Ok True \<or> 3 \<le> failures j calls) \<longrightarrow> next_chunk_request r m = None)"
proof -
  have reach: "resumption_reachable r" unfolding assms(1) by (rule tracker_run_reachable) (rule reach_new)
  note inv = reachable_inv [OF reach]
  have total: "total_chunks r = total_chunks (resumption_new item bytes)"
    unfolding assms(1) by (rule tracker_run_total [OF reach_new])
  have req: "is_chunk_requestable r j \<longleftrightarrow> is_chunk_verified r (ChunkIndex j) = Ok False \<and> failures j calls < 3" if "j < total_chunks r" for j
    using requestable_iff [OF that] attempts_counted [OF reach_new [of item bytes], of j calls] that total assms(1)
    by (simp add: resumption_new_def chunk_entry_def chunk_state_default_def min_less_iff_disj)
  have run: "\<forall>k < unat n. unat f + k < unat (total_chunks r) \<and> is_chunk_requestable r (of_nat (unat f + k))" "0 < unat n"
    if "next_chunk_request r m = Some (ChunkIndex f, n)" for f n
    using next_chunk_request_spec [OF reach, of m] that by (auto simp: request_run_def request_prefix_def word_le_nat_alt)
  have out: "unat i \<notin> {unat f..<unat f + unat n}"
    if q: "next_chunk_request r m = Some (ChunkIndex f, n)" and "3 \<le> failures i calls" for f n
  proof
    assume "unat i \<in> {unat f..<unat f + unat n}"
    then have "unat i - unat f < unat n" and at: "unat f + (unat i - unat f) = unat i" by auto
    then have "is_chunk_requestable r (of_nat (unat f + (unat i - unat f)))" using run(1) [OF q] by blast
    then show False unfolding at using req [OF assms(2)] that(2) by simp
  qed
  have none: "next_chunk_request r m = None" if "\<forall>j < total_chunks r. is_chunk_verified r (ChunkIndex j) = Ok True \<or> 3 \<le> failures j calls"
  proof (rule ccontr)
    assume "next_chunk_request r m \<noteq> None"
    then obtain f n where q: "next_chunk_request r m = Some (ChunkIndex f, n)" by (metis chunk_index.exhaust option.exhaust surj_pair)
    from run [OF q] have "unat f < unat (total_chunks r)" "is_chunk_requestable r f" by auto
    then show False using req [of f] that by (auto simp: word_less_nat_alt)
  qed
  have "\<not> is_item_complete r" if "is_chunk_verified r (ChunkIndex i) = Ok False"
    using that is_item_complete_iff [OF inv] assms(2) by auto
  then show ?thesis
    using missing_iff [OF inv assms(2)] req [OF assms(2)] out none by (auto split: option.split chunk_index.split)
qed

theorem three_failures_stall_item_witness:
  "let calls = replicate 3 (Call_Failed (ChunkIndex 0)); r = tracker_run calls (resumption_new example_item 3) in
   is_chunk_verified r (ChunkIndex 0) = Ok False \<and> ChunkIndex 0 \<notin> set (missing_chunks r) \<and>
   \<not> is_item_complete r \<and> next_chunk_request r 8 = None"
proof -
  let ?calls = "replicate 3 (Call_Failed (ChunkIndex 0))"
  define r where "r = tracker_run ?calls (resumption_new example_item 3)"
  have f: "failures 0 ?calls = 3" by (simp add: failures_def numeral_3_eq_3)
  have v: "total_chunks r = 1" "is_chunk_verified r (ChunkIndex 0) = Ok False"
    by (simp_all add: r_def numeral_3_eq_3 mark_failed_def chunk_entry_def chunk_state_default_def resumption_new_def
        div_ceil_def set_chunk_def bt_get_def bt_empty_def saturating_add_def is_chunk_verified_def)
  then have "j = 0" if "j < total_chunks r" for j :: u64 using that by (simp add: word_less_nat_alt unat_eq_0)
  then have "is_chunk_verified r (ChunkIndex 0) = Ok False \<and> ChunkIndex 0 \<notin> set (missing_chunks r) \<and>
      \<not> is_item_complete r \<and> next_chunk_request r 8 = None"
    using three_failures_stall_item [OF r_def, of 0 8] v f by auto
  then show ?thesis unfolding Let_def r_def .
qed

section \<open>What a client relies on\<close>

text \<open>The effect of the operations a session calls, on any tracker in the invariant.\<close>

lemma record_piece_effect:
  assumes "resumption_inv r" and "record_piece r i off len = (r', Ok complete)"
  shows "resumption_inv r'" and "total_bytes r' = total_bytes r" and "total_chunks r' = total_chunks r"
    and "chunk_value i < total_chunks r" and "unat off + unat len \<le> chunk_len r (chunk_value i)"
    and "received r' = (received r)(chunk_value i := received r (chunk_value i) \<union> {unat off..<unat off + unat len})"
    and "complete \<longleftrightarrow> received r' (chunk_value i) = {0..<chunk_len r (chunk_value i)}"
proof -
  have tw: "totals_wf r" and bi: "bt_invar (chunks r)" using assms(1) by (simp_all add: resumption_inv_def)
  show inv: "resumption_inv r'" using record_piece_inv [OF assms(1), of i off len] assms(2) by simp
  show i: "chunk_value i < total_chunks r" and len: "unat off + unat len \<le> chunk_len r (chunk_value i)"
    using record_piece_cases(1,2) [OF tw, of i off len] assms(2) by fastforce+
  from record_piece_cases(3) [OF tw i len] obtain st where rp:
    "record_piece r i off len = (set_chunk r i st, Ok (verified st \<or> (length (ranges st) = 1
       \<and> ranges st ! 0 = (0, of_nat (chunk_len r (chunk_value i))))))"
    and st: "st = (if verified (chunk_entry r i) \<or> len = 0 then chunk_entry r i
      else chunk_entry r i\<lparr>ranges := merge_ranges (ranges (chunk_entry r i)) off (off + len) False []\<rparr>)"
    by blast
  have r': "r' = set_chunk r i st" using rp assms(2) by simp
  show "total_bytes r' = total_bytes r" "total_chunks r' = total_chunks r" by (simp_all add: r' set_chunk_def)
  show "received r' = (received r)(chunk_value i := received r (chunk_value i) \<union> {unat off..<unat off + unat len})"
    and "complete \<longleftrightarrow> received r' (chunk_value i) = {0..<chunk_len r (chunk_value i)}"
    using received_cases [OF assms(1) i len st] rp assms(2)
    by (auto simp: r' fun_eq_iff received_set_chunk [OF bi])
qed

lemma mark_verified_effect:
  assumes "resumption_inv r" and "mark_verified r i = (r', Ok u)"
  shows "resumption_inv r'" and "total_bytes r' = total_bytes r" and "total_chunks r' = total_chunks r"
    and "chunk_value i < total_chunks r"
    and "received r' = (received r)(chunk_value i := {0..<chunk_len r (chunk_value i)})"
proof -
  have bi: "bt_invar (chunks r)" using assms(1) by (simp add: resumption_inv_def)
  show inv: "resumption_inv r'" using mark_verified_inv [OF assms(1), of i] assms(2) by simp
  show i: "chunk_value i < total_chunks r"
    using assms(2) by (auto simp: mark_verified_def not_le split: if_splits)
  obtain n where n: "chunk_size r i = Ok n" "unat n = chunk_len r (chunk_value i)"
    using chunk_size_Ok [of r "chunk_value i"] assms(1) i by (auto simp: chunk_len_def resumption_inv_def)
  have ni: "\<not> total_chunks r \<le> chunk_value i" using i by simp
  show "total_bytes r' = total_bytes r" "total_chunks r' = total_chunks r"
    using assms(2) ni n by (auto simp: mark_verified_def Let_def set_chunk_def split: if_splits)
  show "received r' = (received r)(chunk_value i := {0..<chunk_len r (chunk_value i)})"
  proof (cases "verified (chunk_entry r i)")
    case True
    then have "r' = set_chunk r i (chunk_entry r i)"
      using assms(2) ni n by (auto simp: mark_verified_def Let_def)
    moreover have "range_bytes (ranges (chunk_entry r i)) = {0..<chunk_len r (chunk_value i)}"
      using verified_full [OF assms(1) i] True received_entry [of r "chunk_value i"] by simp
    ultimately show ?thesis by (simp add: fun_eq_iff received_set_chunk [OF bi])
  next
    case False
    then have r': "r' = (set_chunk r i (chunk_entry r i\<lparr>verified := True, ranges := [(0, n)]\<rparr>))
        \<lparr>verified_chunks_count := verified_chunks_count r + 1\<rparr>"
      using assms(2) ni n by (auto simp: mark_verified_def Let_def)
    have "received r' = received (set_chunk r i (chunk_entry r i\<lparr>verified := True, ranges := [(0, n)]\<rparr>))"
      by (simp add: r' fun_eq_iff received_def)
    then show ?thesis by (simp add: fun_eq_iff received_set_chunk [OF bi] n)
  qed
qed

end
