(* ===== verification/Transfer_Control.thy ===== *)
theory Transfer_Control
  imports Peer_Discovery Chunk_Resumption
begin

text \<open>
  The offer exchange (\<open>tradr-core/src/control.rs\<close>), the trust tiers
  (\<open>trust_tier.rs\<close>), the content hash (\<open>content.rs\<close>) and the data-plane
  messages (\<open>data.rs\<close>). Each of these values comes from a peer, and the constructors
  are the only way to build one; the lemmas show what a value that was built guarantees. The
  enumerations that travel as a number share one interface, the locale \<open>wire_enum\<close>:
  0 and unknown numbers grant nothing, and encoding is undone by decoding.
\<close>

section \<open>Enumerations on the wire\<close>

locale wire_enum =
  fixes enc :: "'a \<Rightarrow> i32"
    and dec :: "i32 \<Rightarrow> ('a, 'e) result"
    and unknown :: "i32 \<Rightarrow> 'e"
    and unspecified :: 'e
  assumes dec_enc: "dec (enc x) = Ok x"
    and enc_dec: "dec v = Ok x \<Longrightarrow> enc x = v"
    and dec_0: "dec 0 = Err unspecified"
    and dec_unknown: "v \<noteq> 0 \<Longrightarrow> \<not> is_ok (dec v) \<Longrightarrow> dec v = Err (unknown v)"
begin

lemma enc_inject: "enc x = enc y \<longleftrightarrow> x = y"
  by (metis dec_enc result.inject(1))

lemma dec_Ok_iff: "dec v = Ok x \<longleftrightarrow> enc x = v"
  using dec_enc enc_dec by blast

lemma enc_nonzero: "enc x \<noteq> 0"
  by (metis dec_0 dec_enc result.distinct(1))

text \<open>Every number decodes to the one value it encodes, or to an error that names it.\<close>

lemma dec_total:
  "(\<exists>x. enc x = v \<and> dec v = Ok x) \<or> v = 0 \<and> dec v = Err unspecified \<or>
   v \<notin> range enc \<and> dec v = Err (unknown v)"
proof (cases "dec v")
  case (Err e)
  then have "v \<notin> range enc" using dec_enc by auto
  moreover have "\<not> is_ok (dec v)" using Err by simp
  ultimately show ?thesis using dec_0 dec_unknown by (cases "v = 0") auto
qed (use enc_dec in blast)

lemma dec_Err_iff:
  "dec v = Err e \<longleftrightarrow> (if v = 0 then e = unspecified else v \<notin> range enc \<and> e = unknown v)"
proof (cases "v = 0")
  case False
  then show ?thesis using dec_total [of v] by (metis dec_enc rangeE rangeI result.distinct(1) result.inject(2))
qed (auto simp: dec_0)

end

datatype offer_origin = DragDrop | ShareSheet | ShareBrowse | Clipboard

datatype offer_origin_error = OfferOrigin_Unspecified | OfferOrigin_Unknown i32

definition offer_origin_try_from :: "i32 \<Rightarrow> (offer_origin, offer_origin_error) result" where
  "offer_origin_try_from v =
     (if v = 0 then Err OfferOrigin_Unspecified
      else if v = 1 then Ok DragDrop
      else if v = 2 then Ok ShareSheet
      else if v = 3 then Ok ShareBrowse
      else if v = 4 then Ok Clipboard
      else Err (OfferOrigin_Unknown v))"

fun offer_origin_into :: "offer_origin \<Rightarrow> i32" where
  "offer_origin_into DragDrop = 1"
| "offer_origin_into ShareSheet = 2"
| "offer_origin_into ShareBrowse = 3"
| "offer_origin_into Clipboard = 4"

datatype reject_reason = UserDeclined | NoSpace | TooLarge | NotTrusted | Busy

datatype reject_reason_error = RejectReason_Unspecified | RejectReason_Unknown i32

definition reject_reason_try_from :: "i32 \<Rightarrow> (reject_reason, reject_reason_error) result" where
  "reject_reason_try_from v =
     (if v = 0 then Err RejectReason_Unspecified
      else if v = 1 then Ok UserDeclined
      else if v = 2 then Ok NoSpace
      else if v = 3 then Ok TooLarge
      else if v = 4 then Ok NotTrusted
      else if v = 5 then Ok Busy
      else Err (RejectReason_Unknown v))"

fun reject_reason_into :: "reject_reason \<Rightarrow> i32" where
  "reject_reason_into UserDeclined = 1"
| "reject_reason_into NoSpace = 2"
| "reject_reason_into TooLarge = 3"
| "reject_reason_into NotTrusted = 4"
| "reject_reason_into Busy = 5"

datatype trust_tier = Rejected | NearbyEphemeral | Linked | SameAccount

datatype trust_tier_error = TrustTier_Unspecified | TrustTier_Unknown i32

definition trust_tier_try_from :: "i32 \<Rightarrow> (trust_tier, trust_tier_error) result" where
  "trust_tier_try_from v =
     (if v = 0 then Err TrustTier_Unspecified
      else if v = 1 then Ok Rejected
      else if v = 2 then Ok NearbyEphemeral
      else if v = 3 then Ok Linked
      else if v = 4 then Ok SameAccount
      else Err (TrustTier_Unknown v))"

fun trust_tier_into :: "trust_tier \<Rightarrow> i32" where
  "trust_tier_into Rejected = 1"
| "trust_tier_into NearbyEphemeral = 2"
| "trust_tier_into Linked = 3"
| "trust_tier_into SameAccount = 4"

interpretation origin_wire: wire_enum offer_origin_into offer_origin_try_from
    OfferOrigin_Unknown OfferOrigin_Unspecified
proof
  show "offer_origin_try_from (offer_origin_into x) = Ok x" for x
    by (cases x) (simp_all add: offer_origin_try_from_def)
qed (auto simp: offer_origin_try_from_def split: if_splits)

interpretation reject_wire: wire_enum reject_reason_into reject_reason_try_from
    RejectReason_Unknown RejectReason_Unspecified
proof
  show "reject_reason_try_from (reject_reason_into x) = Ok x" for x
    by (cases x) (simp_all add: reject_reason_try_from_def)
qed (auto simp: reject_reason_try_from_def split: if_splits)

interpretation tier_wire: wire_enum trust_tier_into trust_tier_try_from
    TrustTier_Unknown TrustTier_Unspecified
proof
  show "trust_tier_try_from (trust_tier_into x) = Ok x" for x
    by (cases x) (simp_all add: trust_tier_try_from_def)
qed (auto simp: trust_tier_try_from_def split: if_splits)

text \<open>The derived order of the tiers: the order of the variants, which is that of the wire numbers.\<close>

instantiation trust_tier :: linorder
begin

fun trust_rank :: "trust_tier \<Rightarrow> nat" where
  "trust_rank Rejected = 0"
| "trust_rank NearbyEphemeral = 1"
| "trust_rank Linked = 2"
| "trust_rank SameAccount = 3"

definition less_eq_trust_tier :: "trust_tier \<Rightarrow> trust_tier \<Rightarrow> bool" where
  "less_eq_trust_tier a b \<longleftrightarrow> trust_rank a \<le> trust_rank b"

definition less_trust_tier :: "trust_tier \<Rightarrow> trust_tier \<Rightarrow> bool" where
  "less_trust_tier a b \<longleftrightarrow> trust_rank a < trust_rank b"

instance
proof
  show "a = b" if "a \<le> b" "b \<le> a" for a b :: trust_tier
    using that by (cases a; cases b) (auto simp: less_eq_trust_tier_def)
qed (auto simp: less_eq_trust_tier_def less_trust_tier_def)

end

text \<open>
  A trust tier read from the wire is never granted by accident: 0 and every
  number no tier uses are errors that carry the number, a tier is read from its own number
  only, writing and reading are inverse, and a numerically larger wire value is a more
  trusted tier.
\<close>

theorem trust_tier_wire:
  "(trust_tier_try_from v = Ok t \<longleftrightarrow> trust_tier_into t = v) \<and>
   (trust_tier_try_from v = Err e \<longleftrightarrow>
     (if v = 0 then e = TrustTier_Unspecified else v \<notin> range trust_tier_into \<and> e = TrustTier_Unknown v)) \<and>
   (a \<le> b \<longleftrightarrow> trust_tier_into a \<le> trust_tier_into b)"
proof (intro conjI)
  show "trust_tier_try_from v = Ok t \<longleftrightarrow> trust_tier_into t = v" by (rule tier_wire.dec_Ok_iff)
  show "trust_tier_try_from v = Err e \<longleftrightarrow>
     (if v = 0 then e = TrustTier_Unspecified else v \<notin> range trust_tier_into \<and> e = TrustTier_Unknown v)"
    by (rule tier_wire.dec_Err_iff)
  show "a \<le> b \<longleftrightarrow> trust_tier_into a \<le> trust_tier_into b"
    by (cases a; cases b) (simp_all add: less_eq_trust_tier_def word_le_nat_alt)
qed

section \<open>Offers\<close>

text \<open>The 32 bytes of a BLAKE3 root hash.\<close>

datatype content_hash = ContentHash (content_hash_bytes: "u8 list")

datatype offer_item_error = OfferItem_EmptySize

record offer_item =
  oi_item_id :: item_id
  oi_rel_path :: rel_path
  oi_size :: u64
  oi_content_hash :: content_hash

definition offer_item_new ::
    "item_id \<Rightarrow> rel_path \<Rightarrow> u64 \<Rightarrow> content_hash \<Rightarrow> (offer_item, offer_item_error) result" where
  "offer_item_new i p sz h =
     (if sz = 0 then Err OfferItem_EmptySize
      else Ok \<lparr>oi_item_id = i, oi_rel_path = p, oi_size = sz, oi_content_hash = h\<rparr>)"

definition oi_chunk_count :: "offer_item \<Rightarrow> u64" where
  "oi_chunk_count it = div_ceil (oi_size it) REFERENCE_CHUNK_SIZE_BYTES"

datatype transfer_offer_error =
    Offer_NoItems
  | Offer_DuplicateItemId item_id
  | Offer_TotalBytesMismatch u64 u64 \<comment> \<open>declared, summed\<close>

record transfer_offer =
  to_transfer_id :: transfer_id
  to_items :: "offer_item list"
  to_total_bytes :: u64
  to_sender_label :: "display_name option"
  to_origin :: "offer_origin option"

text \<open>The loop of \<open>TransferOffer::new\<close>: the ids seen, the running sum, and whether it overflowed.\<close>

fun offer_loop ::
    "offer_item list \<Rightarrow> item_id set \<Rightarrow> u64 \<Rightarrow> bool \<Rightarrow> (u64 \<times> bool, transfer_offer_error) result" where
  "offer_loop [] seen s overflow = Ok (s, overflow)"
| "offer_loop (it # its) seen s overflow =
     (if oi_item_id it \<in> seen then Err (Offer_DuplicateItemId (oi_item_id it))
      else case checked_add s (oi_size it) of
        Some nxt \<Rightarrow> offer_loop its (insert (oi_item_id it) seen) nxt overflow
      | None \<Rightarrow> offer_loop its (insert (oi_item_id it) seen) s True)"

definition transfer_offer_new ::
    "transfer_id \<Rightarrow> offer_item list \<Rightarrow> u64 \<Rightarrow> display_name option \<Rightarrow> offer_origin option
      \<Rightarrow> (transfer_offer, transfer_offer_error) result" where
  "transfer_offer_new t its declared label origin =
     (if its = [] then Err Offer_NoItems
      else case offer_loop its {} 0 False of
        Err e \<Rightarrow> Err e
      | Ok (s, overflow) \<Rightarrow>
          if overflow \<or> s \<noteq> declared then Err (Offer_TotalBytesMismatch declared s)
          else Ok \<lparr>to_transfer_id = t, to_items = its, to_total_bytes = declared,
                   to_sender_label = label, to_origin = origin\<rparr>)"

lemma offer_loop_spec:
  "case offer_loop its seen s ov of
     Ok (s', ov') \<Rightarrow>
       distinct (map oi_item_id its) \<and> oi_item_id ` set its \<inter> seen = {} \<and>
       (ov' \<longleftrightarrow> ov \<or> 2 ^ 64 \<le> unat s + (\<Sum>it \<leftarrow> its. unat (oi_size it))) \<and>
       (\<not> ov' \<longrightarrow> unat s' = unat s + (\<Sum>it \<leftarrow> its. unat (oi_size it)))
   | Err e \<Rightarrow> \<exists>i. e = Offer_DuplicateItemId i \<and> i \<in> oi_item_id ` set its \<and>
       (i \<in> seen \<or> \<not> distinct (map oi_item_id its))"
proof (induction its seen s ov rule: offer_loop.induct)
  case (1 seen s ov)
  then show ?case using unat_less [of s] by auto
next
  case (2 it its seen s ov)
  show ?case
  proof (cases "oi_item_id it \<in> seen")
    case False
    show ?thesis
    proof (cases "checked_add s (oi_size it)")
      case None
      note big = this [unfolded checked_add_None]
      with 2(1) [OF False None] False None show ?thesis
        by (auto split: result.splits) (metis image_eqI)
    next
      case (Some nxt)
      note fits = this [unfolded checked_add_Some]
      with 2(2) [OF False Some] False Some show ?thesis
        by (auto split: result.splits simp: add.assoc) (metis image_eqI)
    qed
  qed simp
qed

text \<open>
  An offer is built exactly when it has items, no two of them share an id, and the
  declared total is the true sum of the sizes: the sum is taken in the naturals, so no
  overflow of the 64-bit accumulation can make a wrong total pass.
\<close>

theorem transfer_offer_new_exact:
  "is_ok (transfer_offer_new t its declared label origin) \<longleftrightarrow>
     its \<noteq> [] \<and> distinct (map oi_item_id its) \<and> unat declared = (\<Sum>it \<leftarrow> its. unat (oi_size it))"
  using offer_loop_spec [where its = its and seen = "{}" and s = 0 and ov = False] unat_less [of declared]
  by (auto simp: transfer_offer_new_def word_unat_eq_iff split: result.splits prod.splits)

lemma transfer_offer_new_Ok:
  assumes "transfer_offer_new t its declared label origin = Ok offer"
  shows "offer = \<lparr>to_transfer_id = t, to_items = its, to_total_bytes = declared,
                   to_sender_label = label, to_origin = origin\<rparr>"
    and "distinct (map oi_item_id its)"
  using assms offer_loop_spec [where its = its and seen = "{}" and s = 0 and ov = False]
  by (auto simp: transfer_offer_new_def split: result.splits prod.splits if_splits)

section \<open>Acceptances\<close>

datatype item_acceptance_error = Acceptance_DeclinedWithProgress | Acceptance_DuplicateHaveChunk u64

record item_acceptance =
  ia_item_id :: item_id
  ia_accepted :: bool
  ia_resume_chunk :: u64
  ia_have_chunks :: "u64 list"

text \<open>The first element that a \<open>HashSet\<close> refuses to insert because it holds it already.\<close>

fun first_duplicate :: "'a list \<Rightarrow> 'a set \<Rightarrow> 'a option" where
  "first_duplicate [] seen = None"
| "first_duplicate (x # xs) seen = (if x \<in> seen then Some x else first_duplicate xs (insert x seen))"

lemma first_duplicate_None: "first_duplicate xs seen = None \<longleftrightarrow> distinct xs \<and> set xs \<inter> seen = {}"
  by (induction xs seen rule: first_duplicate.induct) auto

definition item_acceptance_new ::
    "item_id \<Rightarrow> bool \<Rightarrow> u64 \<Rightarrow> u64 list \<Rightarrow> (item_acceptance, item_acceptance_error) result" where
  "item_acceptance_new i accepted resume_chunk have_chunks =
     (if \<not> accepted \<and> (resume_chunk \<noteq> 0 \<or> have_chunks \<noteq> []) then Err Acceptance_DeclinedWithProgress
      else case first_duplicate have_chunks {} of
        Some c \<Rightarrow> Err (Acceptance_DuplicateHaveChunk c)
      | None \<Rightarrow> Ok \<lparr>ia_item_id = i, ia_accepted = accepted, ia_resume_chunk = resume_chunk,
                     ia_have_chunks = have_chunks\<rparr>)"

datatype transfer_accept_error =
    Accept_NoItems
  | Accept_DuplicateItemId item_id
  | Accept_TransferIdMismatch
  | Accept_UnknownItemId item_id
  | Accept_ResumeChunkOutOfRange item_id u64 u64 \<comment> \<open>item, resume chunk, chunk count\<close>
  | Accept_HaveChunkOutOfRange item_id u64 u64 \<comment> \<open>item, chunk, chunk count\<close>

record transfer_accept =
  ta_transfer_id :: transfer_id
  ta_items :: "item_acceptance list"
  ta_destination_label :: "display_name option"

definition transfer_accept_new ::
    "transfer_id \<Rightarrow> item_acceptance list \<Rightarrow> display_name option
      \<Rightarrow> (transfer_accept, transfer_accept_error) result" where
  "transfer_accept_new t its label =
     (if its = [] then Err Accept_NoItems
      else case first_duplicate (map ia_item_id its) {} of
        Some i \<Rightarrow> Err (Accept_DuplicateItemId i)
      | None \<Rightarrow> Ok \<lparr>ta_transfer_id = t, ta_items = its, ta_destination_label = label\<rparr>)"

text \<open>One turn of the loop of \<open>for_offer\<close>.\<close>

definition check_acceptance ::
    "transfer_offer \<Rightarrow> item_acceptance \<Rightarrow> (unit, transfer_accept_error) result" where
  "check_acceptance offer acc =
     (case List.find (\<lambda>it. oi_item_id it = ia_item_id acc) (to_items offer) of
        None \<Rightarrow> Err (Accept_UnknownItemId (ia_item_id acc))
      | Some it \<Rightarrow>
        (let chunk_count = oi_chunk_count it in
         if ia_accepted acc \<and> ia_resume_chunk acc \<ge> chunk_count
         then Err (Accept_ResumeChunkOutOfRange (ia_item_id acc) (ia_resume_chunk acc) chunk_count)
         else case List.find (\<lambda>c. c \<ge> chunk_count) (ia_have_chunks acc) of
           Some c \<Rightarrow> Err (Accept_HaveChunkOutOfRange (ia_item_id acc) c chunk_count)
         | None \<Rightarrow> Ok ()))"

fun check_acceptances ::
    "transfer_offer \<Rightarrow> item_acceptance list \<Rightarrow> (unit, transfer_accept_error) result" where
  "check_acceptances offer [] = Ok ()"
| "check_acceptances offer (acc # accs) =
     (case check_acceptance offer acc of Err e \<Rightarrow> Err e | Ok _ \<Rightarrow> check_acceptances offer accs)"

definition for_offer ::
    "transfer_accept \<Rightarrow> transfer_offer \<Rightarrow> (unit, transfer_accept_error) result" where
  "for_offer a offer =
     (if ta_transfer_id a \<noteq> to_transfer_id offer then Err Accept_TransferIdMismatch
      else check_acceptances offer (ta_items a))"

record transfer_reject =
  tr_transfer_id :: transfer_id
  tr_reason :: "reject_reason option"
  tr_note :: "display_name option"

lemma check_acceptances_Ok:
  "check_acceptances offer accs = Ok () \<longleftrightarrow> (\<forall>acc \<in> set accs. check_acceptance offer acc = Ok ())"
  by (induction offer accs rule: check_acceptances.induct) (auto split: result.splits)

lemma find_distinct_key:
  assumes "distinct (map f xs)"
  shows "List.find (\<lambda>x. f x = k) xs = Some x \<longleftrightarrow> x \<in> set xs \<and> f x = k"
  using assms by (induction xs) (auto simp: rev_image_eqI)

lemma find_below_None:
  "List.find (\<lambda>c. n \<le> c) cs = None \<longleftrightarrow> (\<forall>c \<in> set cs. \<not> n \<le> c)" for n :: u64
  by (auto simp: find_None_iff)

lemma check_acceptance_Ok:
  assumes "distinct (map oi_item_id (to_items offer))"
  shows "check_acceptance offer acc = Ok () \<longleftrightarrow>
    (\<exists>it \<in> set (to_items offer). oi_item_id it = ia_item_id acc \<and>
       (ia_accepted acc \<longrightarrow> ia_resume_chunk acc < oi_chunk_count it) \<and>
       (\<forall>c \<in> set (ia_have_chunks acc). c < oi_chunk_count it))"
proof (cases "List.find (\<lambda>it. oi_item_id it = ia_item_id acc) (to_items offer)")
  case None
  then have "oi_item_id it \<noteq> ia_item_id acc" if "it \<in> set (to_items offer)" for it
    using that by (simp add: find_None_iff)
  with None show ?thesis by (auto simp: check_acceptance_def)
next
  case (Some it)
  note it = Some [unfolded find_distinct_key [OF assms]]
  have only: "it' = it" if "it' \<in> set (to_items offer)" "oi_item_id it' = ia_item_id acc" for it'
    using it that assms by (metis distinct_map inj_onD)
  have "check_acceptance offer acc = Ok () \<longleftrightarrow>
      (ia_accepted acc \<longrightarrow> ia_resume_chunk acc < oi_chunk_count it) \<and>
      (\<forall>c \<in> set (ia_have_chunks acc). c < oi_chunk_count it)"
    using find_below_None [of "oi_chunk_count it" "ia_have_chunks acc"]
    by (cases "List.find (\<lambda>c. c \<ge> oi_chunk_count it) (ia_have_chunks acc)")
      (auto simp: check_acceptance_def Some Let_def not_le [symmetric])
  with it only show ?thesis by blast
qed

text \<open>
  \<open>for_offer\<close> accepts an answer to a well-formed offer exactly when it
  carries the offer's transfer id and, for every item it mentions, the offer has an item of
  that id with the resume chunk (if the item is accepted) and every chunk already held below
  the number of 1 MiB chunks of that very item.
\<close>

theorem for_offer_exact:
  assumes "transfer_offer_new t its declared label origin = Ok offer"
  shows "for_offer a offer = Ok () \<longleftrightarrow>
    ta_transfer_id a = t \<and>
    (\<forall>acc \<in> set (ta_items a). \<exists>it \<in> set its. oi_item_id it = ia_item_id acc \<and>
       (ia_accepted acc \<longrightarrow> ia_resume_chunk acc < oi_chunk_count it) \<and>
       (\<forall>c \<in> set (ia_have_chunks acc). c < oi_chunk_count it))"
  using transfer_offer_new_Ok [OF assms]
  by (simp add: for_offer_def check_acceptances_Ok check_acceptance_Ok)

definition sample_item :: offer_item where
  "sample_item = \<lparr>oi_item_id = \<lparr>item_id_bytes = [97], item_id_len = 1\<rparr>,
     oi_rel_path = \<lparr>rel_path_value = lit ''a''\<rparr>, oi_size = 2097153, oi_content_hash = ContentHash []\<rparr>"

definition sample_offer :: transfer_offer where
  "sample_offer = \<lparr>to_transfer_id = TransferId [], to_items = [sample_item],
     to_total_bytes = 2097153, to_sender_label = None, to_origin = None\<rparr>"

definition sample_accept :: "u64 \<Rightarrow> transfer_accept" where
  "sample_accept c = \<lparr>ta_transfer_id = TransferId [],
     ta_items = [\<lparr>ia_item_id = oi_item_id sample_item, ia_accepted = True, ia_resume_chunk = c,
                  ia_have_chunks = [2]\<rparr>], ta_destination_label = None\<rparr>"

lemma sample_offer_new:
  "transfer_offer_new (TransferId []) [sample_item] 2097153 None None = Ok sample_offer"
  by (simp add: transfer_offer_new_def sample_offer_def sample_item_def checked_add_def)

theorem for_offer_exact_witness:
  "for_offer (sample_accept 2) sample_offer = Ok () \<and> for_offer (sample_accept 3) sample_offer \<noteq> Ok ()"
  unfolding for_offer_exact [OF sample_offer_new]
  by (simp add: sample_accept_def oi_chunk_count_def sample_item_def div_ceil_def)

text \<open>What the constructors of the answers guarantee.\<close>

lemma item_acceptance_new_Ok:
  "item_acceptance_new i ok r hs = Ok acc \<longleftrightarrow>
     acc = \<lparr>ia_item_id = i, ia_accepted = ok, ia_resume_chunk = r, ia_have_chunks = hs\<rparr> \<and>
     distinct hs \<and> (ok \<or> r = 0 \<and> hs = [])"
  using first_duplicate_None [of hs "{}"]
  by (auto simp: item_acceptance_new_def split: option.splits)

lemma transfer_accept_new_Ok:
  "transfer_accept_new t its label = Ok a \<longleftrightarrow>
     a = \<lparr>ta_transfer_id = t, ta_items = its, ta_destination_label = label\<rparr> \<and>
     its \<noteq> [] \<and> distinct (map ia_item_id its)"
  using first_duplicate_None [of "map ia_item_id its" "{}"]
  by (auto simp: transfer_accept_new_def split: option.splits)

text \<open>
  Offer and tracker agree. For an item an offer can carry, the chunk count that
  \<open>for_offer\<close> checks against is the number of chunks of the resumption tracker of that
  item, so a chunk index that passed \<open>for_offer\<close> is one the tracker knows: its size is
  defined, its byte offset is computed without overflow, and it starts inside the item.
\<close>

theorem accepted_chunk_known_to_tracker:
  assumes "offer_item_new i p sz h = Ok it" and "c < oi_chunk_count it"
  shows "total_chunks (resumption_new i (oi_size it)) = oi_chunk_count it \<and>
    is_ok (chunk_size (resumption_new i (oi_size it)) (ChunkIndex c)) \<and>
    (\<exists>off. byte_offset (ChunkIndex c) = Ok off \<and> off < sz)"
proof (intro conjI)
  have it: "oi_size it = sz" "sz \<noteq> 0" using assms(1) by (auto simp: offer_item_new_def split: if_splits)
  then show tc: "total_chunks (resumption_new i (oi_size it)) = oi_chunk_count it"
    by (simp add: resumption_new_def oi_chunk_count_def)
  from assms(2) show "is_ok (chunk_size (resumption_new i (oi_size it)) (ChunkIndex c))"
    by (auto simp: chunk_size_def tc Let_def not_le [symmetric])
  let ?r = "resumption_new i (oi_size it)"
  have "unat c * 1048576 < unat sz"
    using chunk_len_eq [OF totals_wf_new [of i "oi_size it"], of c] assms(2) tc it
    by (auto simp: resumption_new_def)
  then show "\<exists>off. byte_offset (ChunkIndex c) = Ok off \<and> off < sz"
    using unat_less [of sz]
    by (simp add: byte_offset_def checked_mul_def word_less_nat_alt unat_word_ariths)
qed

theorem accepted_chunk_known_to_tracker_witness:
  "total_chunks (resumption_new (oi_item_id sample_item) (oi_size sample_item)) = oi_chunk_count sample_item \<and>
   (\<exists>off. byte_offset (ChunkIndex 2) = Ok off \<and> off < 2097153)"
proof -
  have it: "offer_item_new (oi_item_id sample_item) (oi_rel_path sample_item) 2097153
      (oi_content_hash sample_item) = Ok sample_item"
    by (simp add: offer_item_new_def sample_item_def)
  have c: "2 < oi_chunk_count sample_item"
    by (simp add: oi_chunk_count_def sample_item_def div_ceil_def word_less_nat_alt)
  show ?thesis using accepted_chunk_known_to_tracker [OF it c] by blast
qed

section \<open>The data plane\<close>

record chunk_request =
  cr_transfer_id :: transfer_id
  cr_item_id :: item_id
  cr_from_chunk :: chunk_index
  cr_count :: u32

record chunk_rerequest =
  crr_transfer_id :: transfer_id
  crr_item_id :: item_id
  crr_chunks :: "chunk_index list"

datatype chunk_data_error = OffsetOutsideReferenceChunk | EmptyPayload | ChunkIndexOverflow

record chunk_data_header =
  cd_transfer_id :: transfer_id
  cd_item_id :: item_id
  cd_chunk_index :: chunk_index
  cd_payload_len :: u32
  cd_last :: bool
  cd_offset_in_chunk :: u32

definition chunk_data_header_new ::
    "transfer_id \<Rightarrow> item_id \<Rightarrow> chunk_index \<Rightarrow> u32 \<Rightarrow> bool \<Rightarrow> u32
      \<Rightarrow> (chunk_data_header, chunk_data_error) result" where
  "chunk_data_header_new t i chunk_index payload_len is_last offset_in_chunk =
     (if ucast offset_in_chunk \<ge> REFERENCE_CHUNK_SIZE_BYTES then Err OffsetOutsideReferenceChunk
      else if payload_len = 0 then Err EmptyPayload
      else case map_err (\<lambda>_. ChunkIndexOverflow) (byte_offset chunk_index) of
        Err e \<Rightarrow> Err e
      | Ok _ \<Rightarrow> Ok \<lparr>cd_transfer_id = t, cd_item_id = i, cd_chunk_index = chunk_index,
                     cd_payload_len = payload_len, cd_last = is_last,
                     cd_offset_in_chunk = offset_in_chunk\<rparr>)"

record item_complete =
  ic_transfer_id :: transfer_id
  ic_item_id :: item_id
  ic_verified :: bool
  ic_final_path :: "rel_path option"

record flow_control =
  fc_transfer_id :: transfer_id
  fc_max_inflight_chunks :: u32
  fc_reason :: "rstr option"

text \<open>
  A data header is built exactly when its offset lies inside the reference chunk,
  its payload is not empty and the chunk's byte offset fits 64 bits; then the absolute offset
  of the piece, chunk offset plus offset in the chunk, is computed without overflow.
\<close>

theorem chunk_data_header_offset:
  "(is_ok (chunk_data_header_new t i (ChunkIndex c) n l off) \<longleftrightarrow>
     unat off < 1048576 \<and> n \<noteq> 0 \<and> unat c * 1048576 < 2 ^ 64) \<and>
   (chunk_data_header_new t i (ChunkIndex c) n l off = Ok h \<longrightarrow>
     (\<exists>base. byte_offset (cd_chunk_index h) = Ok base \<and>
       checked_add base (ucast (cd_offset_in_chunk h)) = Some (c * 1048576 + ucast off) \<and>
       unat (c * 1048576 + ucast off :: u64) = unat c * 1048576 + unat off))"
proof (intro conjI impI)
  have cast: "(ucast off :: u64) \<ge> 1048576 \<longleftrightarrow> \<not> unat off < 1048576"
    by (simp add: word_le_nat_alt unat_ucast_widen not_less)
  show ok: "is_ok (chunk_data_header_new t i (ChunkIndex c) n l off) \<longleftrightarrow>
     unat off < 1048576 \<and> n \<noteq> 0 \<and> unat c * 1048576 < 2 ^ 64"
    by (auto simp: chunk_data_header_new_def cast byte_offset_def checked_mul_def)
  assume h: "chunk_data_header_new t i (ChunkIndex c) n l off = Ok h"
  then have *: "unat off < 1048576" "unat c * 1048576 < 2 ^ 64" using ok by auto
  have hf: "cd_chunk_index h = ChunkIndex c" "cd_offset_in_chunk h = off"
    using h by (auto simp: chunk_data_header_new_def split: if_splits result.splits)
  have room: "unat c * 1048576 + unat off < 2 ^ 64"
    using * by simp
  show "\<exists>base. byte_offset (cd_chunk_index h) = Ok base \<and>
       checked_add base (ucast (cd_offset_in_chunk h)) = Some (c * 1048576 + ucast off) \<and>
       unat (c * 1048576 + ucast off :: u64) = unat c * 1048576 + unat off"
    using * room
    by (simp add: hf byte_offset_def checked_mul_def checked_add_def unat_word_ariths unat_ucast_widen)
qed

theorem chunk_data_header_offset_witness:
  "\<exists>h. chunk_data_header_new (TransferId []) (oi_item_id sample_item) (ChunkIndex 3) 8 False 5 = Ok h \<and>
     (\<exists>base. byte_offset (cd_chunk_index h) = Ok base \<and>
       checked_add base (ucast (cd_offset_in_chunk h)) = Some (3 * 1048576 + ucast (5 :: u32)))"
proof -
  have "is_ok (chunk_data_header_new (TransferId []) (oi_item_id sample_item) (ChunkIndex 3) 8 False 5)"
    using chunk_data_header_offset [of "TransferId []" "oi_item_id sample_item" 3 8 False 5] by simp
  then obtain h where h:
    "chunk_data_header_new (TransferId []) (oi_item_id sample_item) (ChunkIndex 3) 8 False 5 = Ok h"
    by (auto simp: is_ok_iff)
  then show ?thesis using chunk_data_header_offset [of "TransferId []" "oi_item_id sample_item" 3 8 False 5 h] by blast
qed

end
