(* ===== verification/Attestation.thy ===== *)
theory Attestation
  imports Identity_Keys Transfer_Control
begin

text \<open>
  Attestation (\<open>tradr-identity\<close>: \<open>id_token.rs\<close>, \<open>jwks.rs\<close>,
  \<open>jwks_cache.rs\<close>, \<open>attestation.rs\<close>, \<open>verify.rs\<close>): how a peer's
  provider-signed token becomes a trust tier. The hash functions, the base64url codec, the JSON
  parser and the RSA verification come from other crates; they are the fields of the record
  \<open>primitives\<close>, an argument of every definition that calls them. The lemmas show that a
  tier is only ever earned by a token whose signature was checked with a key of the one
  provider its issuer names, whose nonce binds the peer's keys and whose age is in bounds, and
  that an unknown key id cannot be turned into unbounded fetching.
\<close>

section \<open>What the code calls outside the repository\<close>

text \<open>The parsed form of a JSON document, \<open>serde_json::Value\<close>; a number is kept when it is an integer.\<close>

datatype json =
    JNull
  | JBool bool
  | JInt int
  | JOtherNumber
  | JString rstr
  | JArray "json list"
  | JObject "(rstr \<times> json) list"

record primitives =
  blake3 :: "u8 list \<Rightarrow> u8 list"
  sha256 :: "u8 list \<Rightarrow> u8 list"
  b64url_encode :: "u8 list \<Rightarrow> rstr"
  b64url_decode :: "rstr \<Rightarrow> u8 list option"
  json_parse :: "u8 list \<Rightarrow> json option"
  rsa_verify :: "u8 list \<Rightarrow> u8 list \<Rightarrow> u8 list \<Rightarrow> u8 list \<Rightarrow> bool"
    \<comment> \<open>modulus, exponent, signed bytes, signature\<close>

fun json_get :: "json \<Rightarrow> rstr \<Rightarrow> json option" where
  "json_get (JObject members) name = map_of members name"
| "json_get _ name = None"

fun as_str :: "json \<Rightarrow> rstr option" where
  "as_str (JString s) = Some s"
| "as_str _ = None"

definition fits_i64 :: "int \<Rightarrow> bool" where
  "fits_i64 n \<longleftrightarrow> - (2 ^ 63) \<le> n \<and> n < 2 ^ 63"

fun as_i64 :: "json \<Rightarrow> i64 option" where
  "as_i64 (JInt n) = (if fits_i64 n then Some (word_of_int n) else None)"
| "as_i64 _ = None"

section \<open>The id token\<close>

datatype signature_algorithm = Rs256

record jwk =
  jwk_kid :: rstr
  jwk_algorithm :: signature_algorithm
  jwk_modulus :: "u8 list"
  jwk_exponent :: "u8 list"

datatype nonce_binding = Verbatim | Hashed

record provider_profile =
  client_id :: rstr
  client_secret :: "rstr option"
  authorization_uri :: rstr
  token_uri :: rstr
  issuer :: rstr
  client_ids :: "rstr list"
  nonce_binding :: nonce_binding
  algorithms :: "signature_algorithm list"
  profile_jwks_uri :: rstr

record verified_claims =
  vc_iss :: rstr
  vc_sub :: rstr
  vc_aud :: rstr
  vc_iat :: unix_time
  vc_nonce :: rstr

text \<open>The reason texts of \<open>Malformed\<close> are not modelled.\<close>

datatype token_error =
    Token_Malformed
  | Token_AlgorithmNotPermitted rstr
  | Token_UnknownKeyId rstr
  | Token_KeyAlgorithmMismatch rstr
  | Token_SignatureInvalid

definition split_segments :: "rstr \<Rightarrow> (rstr \<times> rstr \<times> rstr, token_error) result" where
  "split_segments token =
     (case split_on 46 token of
        [header, body, sig] \<Rightarrow> Ok (header, body, sig)
      | _ \<Rightarrow> Err Token_Malformed)"

definition decode_segment :: "primitives \<Rightarrow> rstr \<Rightarrow> (u8 list, token_error) result" where
  "decode_segment P segment = ok_or Token_Malformed (b64url_decode P segment)"

definition parse_json :: "primitives \<Rightarrow> u8 list \<Rightarrow> (json, token_error) result" where
  "parse_json P bytes = ok_or Token_Malformed (json_parse P bytes)"

definition permitted_algorithm ::
    "provider_profile \<Rightarrow> rstr \<Rightarrow> (signature_algorithm, token_error) result" where
  "permitted_algorithm profile alg =
     (case (if alg = lit ''RS256'' then Some Rs256 else None) of
        Some algorithm \<Rightarrow>
          if algorithm \<in> set (algorithms profile) then Ok algorithm
          else Err (Token_AlgorithmNotPermitted alg)
      | None \<Rightarrow> Err (Token_AlgorithmNotPermitted alg))"

definition verify_rs256 ::
    "primitives \<Rightarrow> jwk \<Rightarrow> u8 list \<Rightarrow> u8 list \<Rightarrow> (unit, token_error) result" where
  "verify_rs256 P key signing_input sig =
     (if rsa_verify P (jwk_modulus key) (jwk_exponent key) signing_input sig then Ok ()
      else Err Token_SignatureInvalid)"

fun verify_signature ::
    "primitives \<Rightarrow> signature_algorithm \<Rightarrow> jwk \<Rightarrow> u8 list \<Rightarrow> u8 list \<Rightarrow> (unit, token_error) result" where
  "verify_signature P Rs256 key signing_input sig = verify_rs256 P key signing_input sig"

definition require_str :: "json \<Rightarrow> rstr \<Rightarrow> (rstr, token_error) result" where
  "require_str body name = ok_or Token_Malformed (Option.bind (json_get body name) as_str)"

definition require_i64 :: "json \<Rightarrow> rstr \<Rightarrow> (i64, token_error) result" where
  "require_i64 body name = ok_or Token_Malformed (Option.bind (json_get body name) as_i64)"

definition parse_claims :: "json \<Rightarrow> (verified_claims, token_error) result" where
  "parse_claims body =
     try_then (require_str body (lit ''iss'')) (\<lambda>iss.
     try_then (require_str body (lit ''sub'')) (\<lambda>sub.
     try_then (require_str body (lit ''aud'')) (\<lambda>aud.
     try_then (require_i64 body (lit ''iat'')) (\<lambda>iat.
     try_then (require_str body (lit ''nonce'')) (\<lambda>nonce.
     Ok \<lparr>vc_iss = iss, vc_sub = sub, vc_aud = aud, vc_iat = UnixTime iat, vc_nonce = nonce\<rparr>)))))"

definition header_str :: "json \<Rightarrow> rstr \<Rightarrow> (rstr, token_error) result" where
  "header_str header name = ok_or Token_Malformed (Option.bind (json_get header name) as_str)"

definition verify_id_token ::
    "primitives \<Rightarrow> provider_profile \<Rightarrow> jwk list \<Rightarrow> rstr \<Rightarrow> (verified_claims, token_error) result" where
  "verify_id_token P profile keys token =
     try_then (split_segments token) (\<lambda>(header_b64, payload_b64, signature_b64).
     try_then (decode_segment P header_b64) (\<lambda>header_bytes.
     try_then (decode_segment P payload_b64) (\<lambda>payload_bytes.
     try_then (decode_segment P signature_b64) (\<lambda>sig.
     try_then (parse_json P header_bytes) (\<lambda>header.
     try_then (header_str header (lit ''alg'')) (\<lambda>alg.
     try_then (permitted_algorithm profile alg) (\<lambda>algorithm.
     try_then (header_str header (lit ''kid'')) (\<lambda>kid.
     try_then (ok_or (Token_UnknownKeyId kid) (List.find (\<lambda>k. jwk_kid k = kid) keys)) (\<lambda>key.
     if jwk_algorithm key \<noteq> algorithm then Err (Token_KeyAlgorithmMismatch kid)
     else try_then (verify_signature P algorithm key (str_bytes (header_b64 @ 46 # payload_b64)) sig) (\<lambda>_.
     try_then (parse_json P payload_bytes) parse_claims))))))))))"

definition peek_issuer :: "primitives \<Rightarrow> rstr \<Rightarrow> (rstr, token_error) result" where
  "peek_issuer P token =
     try_then (split_segments token) (\<lambda>(_, payload_b64, _).
     try_then (decode_segment P payload_b64) (\<lambda>payload_bytes.
     try_then (parse_json P payload_bytes) (\<lambda>body.
     require_str body (lit ''iss''))))"

lemma split_segments_Ok:
  "split_segments token = Ok (h, b, s) \<longleftrightarrow> split_on 46 token = [h, b, s]"
  by (auto simp: split_segments_def split: list.splits)

text \<open>What a token that verified carries.\<close>

lemma verify_id_token_Ok:
  assumes "verify_id_token P profile keys token = Ok claims"
  obtains h b s sig key body where "split_on 46 token = [h, b, s]"
    and "b64url_decode P s = Some sig" and "key \<in> set keys"
    and "jwk_algorithm key \<in> set (algorithms profile)"
    and "rsa_verify P (jwk_modulus key) (jwk_exponent key) (str_bytes (h @ 46 # b)) sig"
    and "Option.bind (b64url_decode P b) (json_parse P) = Some body"
    and "parse_claims body = Ok claims"
proof -
  from assms obtain h b s pb sig alg algorithm kid key body where *:
      "split_segments token = Ok (h, b, s)" "decode_segment P b = Ok pb" "decode_segment P s = Ok sig"
      "permitted_algorithm profile alg = Ok algorithm"
      "List.find (\<lambda>k. jwk_kid k = kid) keys = Some key" "jwk_algorithm key = algorithm"
      "verify_signature P algorithm key (str_bytes (h @ 46 # b)) sig = Ok ()"
      "parse_json P pb = Ok body" "parse_claims body = Ok claims"
    by (auto simp: verify_id_token_def split: if_splits)
  have "key \<in> set keys" using *(5) by (auto simp: find_Some_iff)
  moreover have "jwk_algorithm key \<in> set (algorithms profile)"
    using *(4,6) by (auto simp: permitted_algorithm_def split: if_splits)
  moreover have "rsa_verify P (jwk_modulus key) (jwk_exponent key) (str_bytes (h @ 46 # b)) sig"
    using *(7) by (cases algorithm) (auto simp: verify_rs256_def split: if_splits)
  ultimately show ?thesis
    using that [of h b s sig key body] * by (simp add: split_segments_Ok decode_segment_def parse_json_def)
qed

text \<open>The issuer read before verification is the issuer the signature covers.\<close>

lemma peek_issuer_verified:
  assumes "verify_id_token P profile keys token = Ok claims"
  shows "peek_issuer P token = Ok (vc_iss claims)"
proof -
  obtain h b s body where b: "split_on 46 token = [h, b, s]"
      "Option.bind (b64url_decode P b) (json_parse P) = Some body" "parse_claims body = Ok claims"
    using assms by (rule verify_id_token_Ok)
  then obtain bytes where "b64url_decode P b = Some bytes" "json_parse P bytes = Some body"
    by (auto simp: bind_eq_Some_conv)
  moreover have "split_segments token = Ok (h, b, s)" using b by (simp add: split_segments_Ok)
  moreover have "require_str body (lit ''iss'') = Ok (vc_iss claims)"
    using b(3) by (auto simp: parse_claims_def)
  ultimately show ?thesis by (simp add: peek_issuer_def decode_segment_def parse_json_def)
qed

section \<open>The key set of a provider\<close>

abbreviation (input) "MIN_MODULUS_BYTES \<equiv> (256 :: nat)"

datatype jwks_error =
    Jwks_Malformed
  | Jwks_DuplicateKeyId rstr
  | Jwks_WeakKey rstr nat
  | Jwks_NoUsableKeys

fun as_array :: "json \<Rightarrow> json list option" where
  "as_array (JArray xs) = Some xs"
| "as_array _ = None"

fun is_object :: "json \<Rightarrow> bool" where
  "is_object (JObject _) = True"
| "is_object _ = False"

definition str_field :: "json \<Rightarrow> rstr \<Rightarrow> rstr option" where
  "str_field obj name = Option.bind (json_get obj name) as_str"

definition usable_entry :: "json \<Rightarrow> (rstr \<times> signature_algorithm) option" where
  "usable_entry obj =
     (if str_field obj (lit ''kty'') \<noteq> Some (lit ''RSA'') then None
      else if str_field obj (lit ''alg'') \<noteq> Some (lit ''RS256'') then None
      else if (case json_get obj (lit ''use'') of None \<Rightarrow> False | Some u \<Rightarrow> as_str u \<noteq> Some (lit ''sig''))
      then None
      else map_option (\<lambda>kid. (kid, Rs256)) (str_field obj (lit ''kid'')))"

definition decode_key_material :: "primitives \<Rightarrow> json \<Rightarrow> rstr \<Rightarrow> (u8 list, jwks_error) result" where
  "decode_key_material P obj field =
     try_then (ok_or Jwks_Malformed (str_field obj field)) (\<lambda>raw.
     try_then (ok_or Jwks_Malformed (b64url_decode P raw)) (\<lambda>bytes.
     if bytes = [] then Err Jwks_Malformed else Ok bytes))"

definition modulus_bytes :: "u8 list \<Rightarrow> nat" where
  "modulus_bytes m = length (dropWhile (\<lambda>b. b = 0) m)"

fun jwks_loop :: "primitives \<Rightarrow> json list \<Rightarrow> jwk list \<Rightarrow> (jwk list, jwks_error) result" where
  "jwks_loop P [] keys = Ok keys"
| "jwks_loop P (entry # entries) keys =
     (if \<not> is_object entry then Err Jwks_Malformed
      else case usable_entry entry of
        None \<Rightarrow> jwks_loop P entries keys
      | Some (kid, algorithm) \<Rightarrow>
          try_then (decode_key_material P entry (lit ''n'')) (\<lambda>modulus.
          try_then (decode_key_material P entry (lit ''e'')) (\<lambda>exponent.
          if modulus_bytes modulus < MIN_MODULUS_BYTES
          then Err (Jwks_WeakKey kid (modulus_bytes modulus))
          else if kid \<in> jwk_kid ` set keys then Err (Jwks_DuplicateKeyId kid)
          else jwks_loop P entries (keys @ [\<lparr>jwk_kid = kid, jwk_algorithm = algorithm,
            jwk_modulus = modulus, jwk_exponent = exponent\<rparr>]))))"

definition parse_jwks :: "primitives \<Rightarrow> u8 list \<Rightarrow> (jwk list, jwks_error) result" where
  "parse_jwks P document =
     try_then (ok_or Jwks_Malformed (json_parse P document)) (\<lambda>root.
     try_then (ok_or Jwks_Malformed (json_get root (lit ''keys''))) (\<lambda>member.
     try_then (ok_or Jwks_Malformed (as_array member)) (\<lambda>entries.
     try_then (jwks_loop P entries []) (\<lambda>keys.
     if keys = [] then Err Jwks_NoUsableKeys else Ok keys))))"

definition good_keys :: "jwk list \<Rightarrow> bool" where
  "good_keys keys \<longleftrightarrow>
     distinct (map jwk_kid keys) \<and> (\<forall>k \<in> set keys. MIN_MODULUS_BYTES \<le> modulus_bytes (jwk_modulus k))"

lemma jwks_loop_good: "good_keys keys \<Longrightarrow> jwks_loop P entries keys = Ok keys' \<Longrightarrow> good_keys keys'"
proof (induction P entries keys rule: jwks_loop.induct)
  case (2 P entry entries keys)
  then show ?case
    by (auto split: if_splits option.splits simp: good_keys_def)
qed simp

lemma parse_jwks_good: "parse_jwks P document = Ok keys \<Longrightarrow> keys \<noteq> [] \<and> good_keys keys"
  by (auto simp: parse_jwks_def good_keys_def dest!: jwks_loop_good [rotated] split: if_splits)

subsection \<open>The cache\<close>

text \<open>A monotonic reading is a number of nanoseconds; \<open>duration_since\<close> saturates at zero.\<close>

type_synonym monotonic = nat

abbreviation (input) "REFETCH_FLOOR \<equiv> (300000000000 :: nat)"

definition duration_since :: "monotonic \<Rightarrow> monotonic \<Rightarrow> nat" where
  "duration_since t earlier = t - earlier"

record jwks_cache =
  cache_jwks_uri :: rstr
  cache_keys :: "jwk list"
  last_claim :: "monotonic option"

definition jwks_cache_new :: "rstr \<Rightarrow> jwks_cache" where
  "jwks_cache_new uri = \<lparr>cache_jwks_uri = uri, cache_keys = [], last_claim = None\<rparr>"

definition jwks_install :: "primitives \<Rightarrow> u8 list \<Rightarrow> jwks_cache \<Rightarrow> jwks_cache \<times> (unit, jwks_error) result" where
  "jwks_install P document cache =
     (case parse_jwks P document of
        Err e \<Rightarrow> (cache, Err e)
      | Ok parsed \<Rightarrow> (cache\<lparr>cache_keys := parsed\<rparr>, Ok ()))"

definition claim_refetch_for :: "rstr \<Rightarrow> monotonic \<Rightarrow> jwks_cache \<Rightarrow> jwks_cache \<times> bool" where
  "claim_refetch_for kid now cache =
     (if kid \<in> jwk_kid ` set (cache_keys cache) then (cache, False)
      else if (case last_claim cache of None \<Rightarrow> False | Some l \<Rightarrow> duration_since now l < REFETCH_FLOOR)
      then (cache, False)
      else (cache\<lparr>last_claim := Some now\<rparr>, True))"

text \<open>Everything that happens to a cache: documents installed and refetches asked for.\<close>

datatype cache_event = Install "u8 list" | Claim rstr monotonic

fun cache_step :: "primitives \<Rightarrow> cache_event \<Rightarrow> jwks_cache \<Rightarrow> jwks_cache" where
  "cache_step P (Install d) c = fst (jwks_install P d c)"
| "cache_step P (Claim kid now) c = fst (claim_refetch_for kid now c)"

text \<open>The readings at which a refetch was granted, in order.\<close>

fun grants :: "primitives \<Rightarrow> cache_event list \<Rightarrow> jwks_cache \<Rightarrow> monotonic list" where
  "grants P [] c = []"
| "grants P (e # es) c =
     (case e of
        Install d \<Rightarrow> grants P es (cache_step P e c)
      | Claim kid now \<Rightarrow>
          if snd (claim_refetch_for kid now c) then now # grants P es (cache_step P e c)
          else grants P es (cache_step P e c))"

lemma install_last_claim [simp]: "last_claim (fst (jwks_install P d c)) = last_claim c"
  by (simp add: jwks_install_def split: result.splits)

lemma grants_spaced:
  "sorted_wrt (\<lambda>a b. a + REFETCH_FLOOR \<le> b)
     ((case last_claim c of None \<Rightarrow> [] | Some l \<Rightarrow> [l]) @ grants P es c)"
proof (induction es arbitrary: c)
  case Nil
  then show ?case by (simp split: option.splits)
next
  case (Cons e es)
  show ?case
  proof (cases e)
    case (Install d)
    then show ?thesis using Cons [of "fst (jwks_install P d c)"] by simp
  next
    case (Claim kid now)
    show ?thesis
    proof (cases "snd (claim_refetch_for kid now c)")
      case False
      then have "fst (claim_refetch_for kid now c) = c"
        by (auto simp: claim_refetch_for_def split: if_splits)
      with False Claim Cons [of c] show ?thesis by simp
    next
      case True
      then have c': "last_claim (fst (claim_refetch_for kid now c)) = Some now"
        and l: "last_claim c = Some l \<Longrightarrow> l + REFETCH_FLOOR \<le> now" for l
        by (auto simp: claim_refetch_for_def duration_since_def split: if_splits)
      from Cons [of "fst (claim_refetch_for kid now c)"] True Claim c' show ?thesis
        by (cases "last_claim c") (auto dest!: l)
    qed
  qed
qed

text \<open>
  Refetching is rate-limited whatever peers send. From a fresh cache, through any
  sequence of installed documents and claims for any key ids at any readings of the clock, the
  granted refetches are at least five minutes apart, so the number granted up to a reading is
  bounded by the elapsed time and not by the number of tokens seen.
\<close>

theorem refetch_rate_limited:
  "sorted_wrt (\<lambda>a b. a + REFETCH_FLOOR \<le> b) (grants P es (jwks_cache_new uri)) \<and>
   length (filter (\<lambda>t. a \<le> t \<and> t < a + n * REFETCH_FLOOR) (grants P es (jwks_cache_new uri))) \<le> n"
proof (intro conjI)
  show spaced: "sorted_wrt (\<lambda>a b. a + REFETCH_FLOOR \<le> b) (grants P es (jwks_cache_new uri))"
    using grants_spaced [of "jwks_cache_new uri" P es] by (simp add: jwks_cache_new_def)
  have count: "length ts \<le> n"
    if "sorted_wrt (\<lambda>a b. a + REFETCH_FLOOR \<le> b) ts" "\<forall>t \<in> set ts. a \<le> t \<and> t < a + n * REFETCH_FLOOR"
    for ts :: "nat list" and a n
    using that
  proof (induction ts arbitrary: a n)
    case (Cons t ts)
    then obtain k where n: "n = Suc k" by (cases n) auto
    have "length ts \<le> k" using Cons.prems by (intro Cons.IH [of "a + REFETCH_FLOOR"]) (auto simp: n)
    then show ?case by (simp add: n)
  qed simp
  show "length (filter (\<lambda>t. a \<le> t \<and> t < a + n * REFETCH_FLOOR) (grants P es (jwks_cache_new uri))) \<le> n"
    using spaced by (intro count) (auto intro: sorted_wrt_filter)
qed

text \<open>
  Every key a cache ever verifies with is usable: through any sequence of
  installed documents and claims, the cached keys have distinct ids, so an id selects one key,
  and every modulus has at least 2048 bits after its leading zero bytes; the cache stays bound
  to the address it was built for.
\<close>

theorem cached_keys_strong:
  "good_keys (cache_keys (fold (cache_step P) es (jwks_cache_new uri))) \<and>
   cache_jwks_uri (fold (cache_step P) es (jwks_cache_new uri)) = uri"
proof (induction es rule: rev_induct)
  case Nil
  show ?case by (simp add: jwks_cache_new_def good_keys_def)
next
  case (snoc e es)
  then show ?case
    by (cases e) (auto simp: jwks_install_def claim_refetch_for_def
        dest: parse_jwks_good split: result.splits)
qed

text \<open>The key id a token's header names.\<close>

definition token_kid :: "primitives \<Rightarrow> rstr \<Rightarrow> (rstr, token_error) result" where
  "token_kid P token =
     try_then (split_segments token) (\<lambda>(header_b64, _, _).
     try_then (decode_segment P header_b64) (\<lambda>header_bytes.
     try_then (parse_json P header_bytes) (\<lambda>header.
     header_str header (lit ''kid''))))"

lemma verify_unknown_kid:
  assumes "verify_id_token P profile keys token = Ok claims" and "token_kid P token = Ok kid"
    and "kid \<notin> jwk_kid ` set keys'"
  shows "verify_id_token P profile keys' token = Err (Token_UnknownKeyId kid)"
proof -
  have "List.find (\<lambda>k. jwk_kid k = kid) keys' = None" using assms(3) by (auto simp: find_None_iff)
  with assms(1,2) show ?thesis
    by (auto simp: verify_id_token_def token_kid_def split: if_splits)
qed

text \<open>
  A successful install replaces the whole key set, so it can take away what a
  device could verify: a token that verified before the install is refused after it as naming
  an unknown key id, when the new document does not publish the key the token names.
\<close>

theorem install_replaces_keys:
  assumes "verify_id_token P profile (cache_keys cache) token = Ok claims"
    and "token_kid P token = Ok kid"
    and "parse_jwks P document = Ok keys" and "kid \<notin> jwk_kid ` set keys"
  shows "verify_id_token P profile (cache_keys (fst (jwks_install P document cache))) token
    = Err (Token_UnknownKeyId kid)"
  using verify_unknown_kid [OF assms(1,2,4)] assms(3) by (simp add: jwks_install_def)

text \<open>A small instance of the primitives, on which the hypotheses of this theory hold.\<close>

definition toy :: primitives where
  "toy = \<lparr>blake3 = (\<lambda>b. b), sha256 = (\<lambda>b. b), b64url_encode = (\<lambda>b. map unat b),
     b64url_decode = (\<lambda>s. if s = lit ''m'' then Some (replicate 256 1) else Some (str_bytes s)),
     json_parse = (\<lambda>b.
       if b = str_bytes (lit ''h'')
       then Some (JObject [(lit ''alg'', JString (lit ''RS256'')), (lit ''kid'', JString (lit ''k''))])
       else if b = str_bytes (lit ''d'')
       then Some (JObject [(lit ''keys'', JArray [JObject [(lit ''kty'', JString (lit ''RSA'')),
         (lit ''alg'', JString (lit ''RS256'')), (lit ''kid'', JString (lit ''j'')),
         (lit ''n'', JString (lit ''m'')), (lit ''e'', JString (lit ''x''))]])])
       else Some (JObject [(lit ''iss'', JString (lit ''i'')), (lit ''sub'', JString (lit ''s'')),
         (lit ''aud'', JString (lit ''a'')), (lit ''iat'', JInt 10), (lit ''nonce'', JString (lit ''i''))])),
     rsa_verify = (\<lambda>n e msg sig. True)\<rparr>"

definition toy_profile :: provider_profile where
  "toy_profile = \<lparr>client_id = lit ''a'', client_secret = None, authorization_uri = [], token_uri = [],
     issuer = lit ''i'', client_ids = [lit ''a''], nonce_binding = Verbatim, algorithms = [Rs256],
     profile_jwks_uri = lit ''u''\<rparr>"

definition toy_key :: jwk where
  "toy_key = \<lparr>jwk_kid = lit ''k'', jwk_algorithm = Rs256, jwk_modulus = replicate 256 1, jwk_exponent = [3]\<rparr>"

definition toy_cache :: jwks_cache where
  "toy_cache = \<lparr>cache_jwks_uri = lit ''u'', cache_keys = [toy_key], last_claim = None\<rparr>"

definition toy_claims :: verified_claims where
  "toy_claims = \<lparr>vc_iss = lit ''i'', vc_sub = lit ''s'', vc_aud = lit ''a'', vc_iat = UnixTime 10,
     vc_nonce = lit ''i''\<rparr>"

lemma toy_verifies: "verify_id_token toy toy_profile [toy_key] (lit ''h.p.s'') = Ok toy_claims"
  by (simp add: verify_id_token_def split_segments_def decode_segment_def parse_json_def
      header_str_def permitted_algorithm_def verify_rs256_def parse_claims_def require_str_def
      require_i64_def toy_def toy_profile_def toy_key_def toy_claims_def fits_i64_def)

theorem install_replaces_keys_witness:
  "verify_id_token toy toy_profile (cache_keys toy_cache) (lit ''h.p.s'') = Ok toy_claims \<and>
   verify_id_token toy toy_profile
     (cache_keys (fst (jwks_install toy (str_bytes (lit ''d'')) toy_cache))) (lit ''h.p.s'')
     = Err (Token_UnknownKeyId (lit ''k''))"
proof
  show v: "verify_id_token toy toy_profile (cache_keys toy_cache) (lit ''h.p.s'') = Ok toy_claims"
    using toy_verifies by (simp add: toy_cache_def)
  have kid: "token_kid toy (lit ''h.p.s'') = Ok (lit ''k'')"
    by (simp add: token_kid_def split_segments_def decode_segment_def parse_json_def header_str_def toy_def)
  have doc: "parse_jwks toy (str_bytes (lit ''d'')) =
      Ok [\<lparr>jwk_kid = lit ''j'', jwk_algorithm = Rs256, jwk_modulus = replicate 256 1,
           jwk_exponent = str_bytes (lit ''x'')\<rparr>]"
    by (simp add: parse_jwks_def usable_entry_def str_field_def decode_key_material_def
        modulus_bytes_def toy_def)
  show "verify_id_token toy toy_profile
     (cache_keys (fst (jwks_install toy (str_bytes (lit ''d'')) toy_cache))) (lit ''h.p.s'')
     = Err (Token_UnknownKeyId (lit ''k''))"
    by (rule install_replaces_keys [OF v kid doc]) simp
qed

section \<open>The policy\<close>

record account_id =
  account_iss :: rstr
  account_sub :: rstr

definition account_id_to_bytes :: "account_id \<Rightarrow> u8 list" where
  "account_id_to_bytes a = str_bytes (account_iss a) @ [0] @ str_bytes (account_sub a)"

record attestation_policy =
  profiles :: "provider_profile list"
  own_account :: account_id
  linked_accounts :: "account_id list"
  staleness_limit_secs :: u64
  future_skew_limit_secs :: u64
  ephemeral_receive :: bool

record link_policy =
  lp_profiles :: "provider_profile list"
  lp_staleness_limit_secs :: u64
  lp_future_skew_limit_secs :: u64

datatype attestation_error =
    UnknownIssuer
  | AudienceNotRecognised
  | NonceMismatch
  | Stale
  | ClockSkew
  | UntrustedAccount

definition expected_nonce ::
    "primitives \<Rightarrow> nonce_binding \<Rightarrow> public_key_point \<Rightarrow> public_key_point \<Rightarrow> rstr" where
  "expected_nonce P binding identity_pub agreement_pub =
     (let verbatim = b64url_encode P (blake3 P (point_bytes identity_pub @ point_bytes agreement_pub))
      in case binding of
           Verbatim \<Rightarrow> verbatim
         | Hashed \<Rightarrow> b64url_encode P (sha256 P (str_bytes verbatim)))"

definition attestation_nonce :: "primitives \<Rightarrow> nonce_binding \<Rightarrow> public_identity \<Rightarrow> rstr" where
  "attestation_nonce P binding identity =
     expected_nonce P binding (pi_identity_pub identity) (pi_agreement_pub identity)"

definition check_claims ::
    "primitives \<Rightarrow> provider_profile \<Rightarrow> verified_claims \<Rightarrow> public_key_point \<Rightarrow> public_key_point
      \<Rightarrow> u64 \<Rightarrow> u64 \<Rightarrow> unix_time \<Rightarrow> (unit, attestation_error) result" where
  "check_claims P profile claims identity_pub agreement_pub staleness skew_limit now =
     (if vc_aud claims \<notin> set (client_ids profile) then Err AudienceNotRecognised
      else if vc_nonce claims \<noteq> expected_nonce P (nonce_binding profile) identity_pub agreement_pub
      then Err NonceMismatch
      else case elapsed_since now (vc_iat claims) of
        Ok age \<Rightarrow> if age > staleness then Err Stale else Ok ()
      | Err _ \<Rightarrow>
          (case map_err (\<lambda>_. ClockSkew) (elapsed_since (vc_iat claims) now) of
             Err e \<Rightarrow> Err e
           | Ok skew \<Rightarrow> if skew > skew_limit then Err ClockSkew else Ok ()))"

definition classify_with_profile ::
    "primitives \<Rightarrow> provider_profile \<Rightarrow> attestation_policy \<Rightarrow> verified_claims \<Rightarrow> public_key_point
      \<Rightarrow> public_key_point \<Rightarrow> unix_time \<Rightarrow> (trust_tier, attestation_error) result" where
  "classify_with_profile P profile policy claims identity_pub agreement_pub now =
     try_then (check_claims P profile claims identity_pub agreement_pub
        (staleness_limit_secs policy) (future_skew_limit_secs policy) now) (\<lambda>_.
     let account = \<lparr>account_iss = vc_iss claims, account_sub = vc_sub claims\<rparr> in
     if account = own_account policy then Ok SameAccount
     else if account \<in> set (linked_accounts policy) then Ok Linked
     else if ephemeral_receive policy then Ok NearbyEphemeral
     else Err UntrustedAccount)"

definition classify ::
    "primitives \<Rightarrow> attestation_policy \<Rightarrow> verified_claims \<Rightarrow> public_key_point \<Rightarrow> public_key_point
      \<Rightarrow> unix_time \<Rightarrow> (trust_tier, attestation_error) result" where
  "classify P policy claims identity_pub agreement_pub now =
     try_then (ok_or UnknownIssuer (List.find (\<lambda>p. issuer p = vc_iss claims) (profiles policy)))
       (\<lambda>profile. classify_with_profile P profile policy claims identity_pub agreement_pub now)"

text \<open>Freshness, read in the integers: at most the limits away from now, on either side.\<close>

definition fresh :: "u64 \<Rightarrow> u64 \<Rightarrow> unix_time \<Rightarrow> unix_time \<Rightarrow> bool" where
  "fresh staleness skew_limit iat now \<longleftrightarrow>
     sint (as_secs now) - sint (as_secs iat) \<le> int (unat staleness) \<and>
     sint (as_secs iat) - sint (as_secs now) \<le> int (unat skew_limit)"

lemma check_claims_Ok:
  "check_claims P profile claims ip ap stale skew now = Ok () \<longleftrightarrow>
     vc_aud claims \<in> set (client_ids profile) \<and>
     vc_nonce claims = expected_nonce P (nonce_binding profile) ip ap \<and>
     fresh stale skew (vc_iat claims) now"
proof (cases "elapsed_since now (vc_iat claims)")
  case (Ok age)
  then have "int (unat age) = sint (as_secs now) - sint (as_secs (vc_iat claims))"
    by (simp only: elapsed_since_Ok)
  moreover have "0 \<le> int (unat skew)" by (rule of_nat_0_le_iff)
  ultimately have "fresh stale skew (vc_iat claims) now \<longleftrightarrow> unat age \<le> unat stale"
    unfolding fresh_def by linarith
  then show ?thesis using Ok by (auto simp: check_claims_def word_le_nat_alt not_le word_less_nat_alt)
next
  case (Err x)
  then have later: "sint (as_secs now) < sint (as_secs (vc_iat claims))"
    by (simp only: elapsed_since_Err)
  then obtain d where d: "elapsed_since (vc_iat claims) now = Ok d"
    using elapsed_since_Err [of "vc_iat claims" now] by (cases "elapsed_since (vc_iat claims) now") auto
  then have "int (unat d) = sint (as_secs (vc_iat claims)) - sint (as_secs now)"
    by (simp only: elapsed_since_Ok)
  moreover have "0 \<le> int (unat stale)" by (rule of_nat_0_le_iff)
  ultimately have "fresh stale skew (vc_iat claims) now \<longleftrightarrow> unat d \<le> unat skew"
    using later unfolding fresh_def by linarith
  then show ?thesis using Err d by (auto simp: check_claims_def word_le_nat_alt not_le word_less_nat_alt)
qed

lemma classify_with_profile_Ok:
  "classify_with_profile P profile policy claims ip ap now = Ok tier \<longleftrightarrow>
     vc_aud claims \<in> set (client_ids profile) \<and>
     vc_nonce claims = expected_nonce P (nonce_binding profile) ip ap \<and>
     fresh (staleness_limit_secs policy) (future_skew_limit_secs policy) (vc_iat claims) now \<and>
     (let account = \<lparr>account_iss = vc_iss claims, account_sub = vc_sub claims\<rparr> in
      tier = (if account = own_account policy then SameAccount
              else if account \<in> set (linked_accounts policy) then Linked else NearbyEphemeral) \<and>
      (account = own_account policy \<or> account \<in> set (linked_accounts policy) \<or> ephemeral_receive policy))"
  using check_claims_Ok [of P profile claims ip ap] by (auto simp: classify_with_profile_def Let_def)

section \<open>Verification\<close>

datatype verification = Verified trust_tier | JwksNeeded rstr

datatype verify_error =
    Verify_Token token_error
  | Verify_Attestation attestation_error
  | CacheIsForAnotherProvider rstr rstr \<comment> \<open>expected, held\<close>

datatype early_outcome = EarlyClaims provider_profile verified_claims | EarlyJwksNeeded rstr

definition verify_steps_one_and_two ::
    "primitives \<Rightarrow> provider_profile list \<Rightarrow> jwks_cache \<Rightarrow> rstr \<Rightarrow> monotonic
      \<Rightarrow> jwks_cache \<times> (early_outcome, verify_error) result" where
  "verify_steps_one_and_two P ps cache token tick =
     (case peek_issuer P token of
        Err e \<Rightarrow> (cache, Err (Verify_Token e))
      | Ok iss \<Rightarrow>
        (case List.find (\<lambda>p. issuer p = iss) ps of
           None \<Rightarrow> (cache, Err (Verify_Attestation UnknownIssuer))
         | Some profile \<Rightarrow>
           if cache_jwks_uri cache \<noteq> profile_jwks_uri profile
           then (cache, Err (CacheIsForAnotherProvider (profile_jwks_uri profile) (cache_jwks_uri cache)))
           else (case verify_id_token P profile (cache_keys cache) token of
              Ok claims \<Rightarrow> (cache, Ok (EarlyClaims profile claims))
            | Err (Token_UnknownKeyId kid) \<Rightarrow>
                (case claim_refetch_for kid tick cache of
                   (cache', granted) \<Rightarrow>
                     (cache', if granted then Ok (EarlyJwksNeeded (profile_jwks_uri profile))
                              else Err (Verify_Token (Token_UnknownKeyId kid))))
            | Err e \<Rightarrow> (cache, Err (Verify_Token e)))))"

definition verify_attestation ::
    "primitives \<Rightarrow> attestation_policy \<Rightarrow> jwks_cache \<Rightarrow> rstr \<Rightarrow> public_key_point \<Rightarrow> public_key_point
      \<Rightarrow> unix_time \<Rightarrow> monotonic \<Rightarrow> jwks_cache \<times> (verification, verify_error) result" where
  "verify_attestation P policy cache token identity_pub agreement_pub now tick =
     (case verify_steps_one_and_two P (profiles policy) cache token tick of
        (cache', Err e) \<Rightarrow> (cache', Err e)
      | (cache', Ok (EarlyJwksNeeded uri)) \<Rightarrow> (cache', Ok (JwksNeeded uri))
      | (cache', Ok (EarlyClaims profile claims)) \<Rightarrow>
          (cache', case classify_with_profile P profile policy claims identity_pub agreement_pub now of
             Ok tier \<Rightarrow> Ok (Verified tier)
           | Err e \<Rightarrow> Err (Verify_Attestation e)))"

datatype link_verification = Link_Verified account_id | Link_JwksNeeded rstr

datatype link_verify_error =
    LinkVerify_Attestation verify_error
  | LinkVerify_KeyDoesNotMatchChannel device_id device_id \<comment> \<open>authenticated, claimed\<close>

definition verify_link_attestation ::
    "primitives \<Rightarrow> link_policy \<Rightarrow> jwks_cache \<Rightarrow> rstr \<Rightarrow> public_key_point \<Rightarrow> public_key_point \<Rightarrow> device_id
      \<Rightarrow> unix_time \<Rightarrow> monotonic \<Rightarrow> jwks_cache \<times> (link_verification, link_verify_error) result" where
  "verify_link_attestation P policy cache token identity_pub agreement_pub authenticated now tick =
     (let claimed = device_id_from_identity_digest (blake3 P (point_bytes identity_pub)) in
      if claimed \<noteq> authenticated
      then (cache, Err (LinkVerify_KeyDoesNotMatchChannel authenticated claimed))
      else case verify_steps_one_and_two P (lp_profiles policy) cache token tick of
        (cache', Err e) \<Rightarrow> (cache', Err (LinkVerify_Attestation e))
      | (cache', Ok (EarlyJwksNeeded uri)) \<Rightarrow> (cache', Ok (Link_JwksNeeded uri))
      | (cache', Ok (EarlyClaims profile claims)) \<Rightarrow>
          (cache', case check_claims P profile claims identity_pub agreement_pub
                     (lp_staleness_limit_secs policy) (lp_future_skew_limit_secs policy) now of
             Err e \<Rightarrow> Err (LinkVerify_Attestation (Verify_Attestation e))
           | Ok _ \<Rightarrow> Ok (Link_Verified \<lparr>account_iss = vc_iss claims, account_sub = vc_sub claims\<rparr>)))"

text \<open>The three ways steps 1 and 2 can end.\<close>

lemma steps_outcome:
  assumes "verify_steps_one_and_two P ps cache token tick = (cache', r)"
  shows "((\<exists>e. r = Err e) \<and> cache' = cache) \<or>
    (\<exists>iss profile claims. peek_issuer P token = Ok iss \<and>
       List.find (\<lambda>p. issuer p = iss) ps = Some profile \<and>
       profile_jwks_uri profile = cache_jwks_uri cache \<and>
       verify_id_token P profile (cache_keys cache) token = Ok claims \<and>
       r = Ok (EarlyClaims profile claims) \<and> cache' = cache) \<or>
    (\<exists>profile \<in> set ps. profile_jwks_uri profile = cache_jwks_uri cache \<and>
       r = Ok (EarlyJwksNeeded (cache_jwks_uri cache)) \<and> cache' = cache\<lparr>last_claim := Some tick\<rparr>)"
proof (cases "peek_issuer P token")
  case (Ok iss)
  show ?thesis
  proof (cases "List.find (\<lambda>p. issuer p = iss) ps")
    case None
    then show ?thesis using assms Ok by (simp add: verify_steps_one_and_two_def) blast
  next
    case (Some profile)
    then have mem: "profile \<in> set ps" by (auto simp: find_Some_iff)
    show ?thesis
    proof (cases "profile_jwks_uri profile = cache_jwks_uri cache")
      case False
      then show ?thesis using assms Ok Some by (simp add: verify_steps_one_and_two_def) blast
    next
      case True
      show ?thesis
      proof (cases "verify_id_token P profile (cache_keys cache) token")
        case v: (Ok claims)
        then show ?thesis using assms Ok Some True by (simp add: verify_steps_one_and_two_def)
      next
        case (Err e)
        show ?thesis
        proof (cases "\<exists>kid. e = Token_UnknownKeyId kid \<and> snd (claim_refetch_for kid tick cache)")
          case granted: True
          then have "r = Ok (EarlyJwksNeeded (cache_jwks_uri cache)) \<and> cache' = cache\<lparr>last_claim := Some tick\<rparr>"
            using assms Ok Some True Err
            by (auto simp: verify_steps_one_and_two_def claim_refetch_for_def split: if_splits)
          then show ?thesis using mem True by blast
        next
          case False
          then have "(\<exists>e. r = Err e) \<and> cache' = cache"
            using assms Ok Some True Err
            by (cases e) (auto simp: verify_steps_one_and_two_def claim_refetch_for_def split: if_splits)
          then show ?thesis by blast
        qed
      qed
    qed
  qed
next
  case (Err e)
  then show ?thesis using assms by (simp add: verify_steps_one_and_two_def) blast
qed

lemma early_claims:
  assumes "verify_steps_one_and_two P ps cache token tick = (cache', Ok (EarlyClaims profile claims))"
  shows "cache' = cache" and "profile \<in> set ps" and "issuer profile = vc_iss claims"
    and "profile_jwks_uri profile = cache_jwks_uri cache"
    and "verify_id_token P profile (cache_keys cache) token = Ok claims"
proof -
  obtain iss where iss: "peek_issuer P token = Ok iss"
      and fnd: "List.find (\<lambda>p. issuer p = iss) ps = Some profile"
      and v: "verify_id_token P profile (cache_keys cache) token = Ok claims"
      and c: "cache' = cache" "profile_jwks_uri profile = cache_jwks_uri cache"
    using steps_outcome [OF assms] by auto
  from v c show "verify_id_token P profile (cache_keys cache) token = Ok claims" "cache' = cache"
    "profile_jwks_uri profile = cache_jwks_uri cache" by simp_all
  from fnd show "profile \<in> set ps" by (auto simp: find_Some_iff)
  from fnd iss peek_issuer_verified [OF v] show "issuer profile = vc_iss claims"
    by (auto simp: find_Some_iff)
qed

definition signed_by :: "primitives \<Rightarrow> jwk list \<Rightarrow> signature_algorithm list \<Rightarrow> rstr \<Rightarrow> bool" where
  "signed_by P keys algs token \<longleftrightarrow>
     (\<exists>h b s sig key. split_on 46 token = [h, b, s] \<and> b64url_decode P s = Some sig \<and>
        key \<in> set keys \<and> jwk_algorithm key \<in> set algs \<and>
        rsa_verify P (jwk_modulus key) (jwk_exponent key) (str_bytes (h @ 46 # b)) sig)"

lemma verified_signed_by:
  "verify_id_token P profile keys token = Ok claims \<Longrightarrow> signed_by P keys (algorithms profile) token"
  unfolding signed_by_def by (erule verify_id_token_Ok) blast

text \<open>What a granted tier rests on.\<close>

lemma granted_tier:
  assumes "verify_attestation P policy cache token ip ap now tick = (cache', Ok (Verified tier))"
  shows "\<exists>profile claims. profile \<in> set (profiles policy) \<and> issuer profile = vc_iss claims \<and>
    profile_jwks_uri profile = cache_jwks_uri cache \<and>
    verify_id_token P profile (cache_keys cache) token = Ok claims \<and>
    signed_by P (cache_keys cache) (algorithms profile) token \<and>
    vc_aud claims \<in> set (client_ids profile) \<and>
    vc_nonce claims = expected_nonce P (nonce_binding profile) ip ap \<and>
    fresh (staleness_limit_secs policy) (future_skew_limit_secs policy) (vc_iat claims) now \<and>
    (let account = \<lparr>account_iss = vc_iss claims, account_sub = vc_sub claims\<rparr> in
       (tier = SameAccount \<longleftrightarrow> account = own_account policy) \<and>
       (tier = Linked \<longleftrightarrow> account \<noteq> own_account policy \<and> account \<in> set (linked_accounts policy)) \<and>
       (tier = NearbyEphemeral \<longrightarrow> ephemeral_receive policy) \<and> tier \<noteq> Rejected)"
proof -
  obtain profile claims where e:
      "verify_steps_one_and_two P (profiles policy) cache token tick = (cache', Ok (EarlyClaims profile claims))"
      and cl: "classify_with_profile P profile policy claims ip ap now = Ok tier"
    using assms
    by (auto simp: verify_attestation_def split: prod.splits result.splits early_outcome.splits)
  note f = early_claims [OF e] and k = cl [unfolded classify_with_profile_Ok]
  show ?thesis
    using f(2-) k verified_signed_by [OF f(5)]
    by (intro exI [of _ profile] exI [of _ claims]) (auto simp: Let_def split: if_splits)
qed

text \<open>
  Property C2. A trust tier is earned, never assumed. When \<open>verify_attestation\<close> grants a
  tier, one profile of the policy is the token's issuer's, the cache used is that provider's,
  the token's header and body were signed under a key of the cache with an algorithm the profile
  permits, the audience is one of the profile's clients, the nonce binds exactly the two keys
  presented, the issue time is within the limits on both sides of now, and the tier is the one
  the account earns: own account, linked account, or unknown only in ephemeral receive mode.
\<close>

theorem tier_is_earned:
  assumes "verify_attestation P policy cache token ip ap now tick = (cache', Ok (Verified tier))"
  shows "\<exists>profile claims. profile \<in> set (profiles policy) \<and> issuer profile = vc_iss claims \<and>
    profile_jwks_uri profile = cache_jwks_uri cache \<and>
    verify_id_token P profile (cache_keys cache) token = Ok claims \<and>
    signed_by P (cache_keys cache) (algorithms profile) token \<and>
    vc_aud claims \<in> set (client_ids profile) \<and>
    vc_nonce claims = expected_nonce P (nonce_binding profile) ip ap \<and>
    fresh (staleness_limit_secs policy) (future_skew_limit_secs policy) (vc_iat claims) now \<and>
    (let account = \<lparr>account_iss = vc_iss claims, account_sub = vc_sub claims\<rparr> in
       (tier = SameAccount \<longleftrightarrow> account = own_account policy) \<and>
       (tier = Linked \<longleftrightarrow> account \<noteq> own_account policy \<and> account \<in> set (linked_accounts policy)) \<and>
       (tier = NearbyEphemeral \<longrightarrow> ephemeral_receive policy) \<and> tier \<noteq> Rejected)"
  using granted_tier [OF assms] .

definition toy_policy :: attestation_policy where
  "toy_policy = \<lparr>profiles = [toy_profile], own_account = \<lparr>account_iss = lit ''i'', account_sub = lit ''s''\<rparr>,
     linked_accounts = [], staleness_limit_secs = 100, future_skew_limit_secs = 5,
     ephemeral_receive = False\<rparr>"

lemma toy_early:
  "verify_steps_one_and_two toy [toy_profile] toy_cache (lit ''h.p.s'') 0
    = (toy_cache, Ok (EarlyClaims toy_profile toy_claims))"
  using peek_issuer_verified [OF toy_verifies] toy_verifies
  by (simp add: verify_steps_one_and_two_def toy_cache_def toy_profile_def toy_claims_def)

theorem tier_is_earned_witness:
  "verify_attestation toy toy_policy toy_cache (lit ''h.p.s'')
     (PublicKeyPoint (str_bytes (lit ''i''))) (PublicKeyPoint []) (UnixTime 50) 0
     = (toy_cache, Ok (Verified SameAccount)) \<and>
   signed_by toy (cache_keys toy_cache) [Rs256] (lit ''h.p.s'')"
proof -
  have v: "verify_attestation toy toy_policy toy_cache (lit ''h.p.s'')
      (PublicKeyPoint (str_bytes (lit ''i''))) (PublicKeyPoint []) (UnixTime 50) 0
      = (toy_cache, Ok (Verified SameAccount))"
    using toy_early
    by (simp add: verify_attestation_def toy_policy_def classify_with_profile_def check_claims_def
        toy_claims_def toy_profile_def expected_nonce_def elapsed_since_def toy_def)
  show ?thesis using v tier_is_earned [OF v] by (auto simp: toy_policy_def toy_profile_def)
qed

text \<open>
  A token can make a device fetch only from where its own profiles say: a
  \<open>JwksNeeded\<close> names the address of a profile of the policy, the cache is bound to that
  address, the budget was spent on it, and no key is added; every other outcome leaves the
  cache, and with it the budget, as it was.
\<close>

theorem fetch_only_from_profiles:
  assumes "verify_attestation P policy cache token ip ap now tick = (cache', r)"
  shows "case r of
      Ok (JwksNeeded uri) \<Rightarrow> uri = cache_jwks_uri cache \<and>
        uri \<in> profile_jwks_uri ` set (profiles policy) \<and> cache' = cache\<lparr>last_claim := Some tick\<rparr>
    | _ \<Rightarrow> cache' = cache"
proof -
  obtain c s where s: "verify_steps_one_and_two P (profiles policy) cache token tick = (c, s)" by force
  note out = steps_outcome [OF s]
  then show ?thesis using assms s
    by (auto simp: verify_attestation_def split: result.splits early_outcome.splits) (metis image_eqI)
qed

theorem fetch_only_from_profiles_witness:
  "verify_attestation toy toy_policy (toy_cache\<lparr>cache_keys := []\<rparr>) (lit ''h.p.s'')
     (PublicKeyPoint []) (PublicKeyPoint []) (UnixTime 50) 7
     = (toy_cache\<lparr>cache_keys := [], last_claim := Some 7\<rparr>, Ok (JwksNeeded (lit ''u''))) \<and>
   lit ''u'' \<in> profile_jwks_uri ` set (profiles toy_policy)"
proof -
  have kid: "token_kid toy (lit ''h.p.s'') = Ok (lit ''k'')"
    by (simp add: token_kid_def split_segments_def decode_segment_def parse_json_def header_str_def toy_def)
  have v: "verify_id_token toy toy_profile [] (lit ''h.p.s'') = Err (Token_UnknownKeyId (lit ''k''))"
    by (rule verify_unknown_kid [OF toy_verifies kid]) simp
  have r: "verify_attestation toy toy_policy (toy_cache\<lparr>cache_keys := []\<rparr>) (lit ''h.p.s'')
     (PublicKeyPoint []) (PublicKeyPoint []) (UnixTime 50) 7
     = (toy_cache\<lparr>cache_keys := [], last_claim := Some 7\<rparr>, Ok (JwksNeeded (lit ''u'')))"
    using v peek_issuer_verified [OF toy_verifies]
    by (simp add: verify_attestation_def verify_steps_one_and_two_def claim_refetch_for_def
        toy_policy_def toy_profile_def toy_cache_def toy_claims_def)
  show ?thesis using r fetch_only_from_profiles [OF r]
    by (metis (no_types, lifting) result.case(1) verification.case(2))
qed

text \<open>
  Property C26. An account is linked only to the device that holds its keys: when
  \<open>verify_link_attestation\<close> names an account, the identity key presented hashes to the
  device the channel authenticated, and the token that names the account was signed under the
  provider's keys, binds both keys in its nonce and is fresh.
\<close>

theorem link_account_is_proven:
  assumes "verify_link_attestation P policy cache token ip ap authenticated now tick
    = (cache', Ok (Link_Verified account))"
  shows "device_id_from_identity_digest (blake3 P (point_bytes ip)) = authenticated \<and>
    (\<exists>profile claims. profile \<in> set (lp_profiles policy) \<and> issuer profile = account_iss account \<and>
       verify_id_token P profile (cache_keys cache) token = Ok claims \<and>
       signed_by P (cache_keys cache) (algorithms profile) token \<and>
       account = \<lparr>account_iss = vc_iss claims, account_sub = vc_sub claims\<rparr> \<and>
       vc_nonce claims = expected_nonce P (nonce_binding profile) ip ap \<and>
       fresh (lp_staleness_limit_secs policy) (lp_future_skew_limit_secs policy) (vc_iat claims) now)"
proof -
  have join: "device_id_from_identity_digest (blake3 P (point_bytes ip)) = authenticated"
    using assms by (auto simp: verify_link_attestation_def Let_def split: if_splits)
  obtain profile claims where e:
      "verify_steps_one_and_two P (lp_profiles policy) cache token tick = (cache', Ok (EarlyClaims profile claims))"
      and cc: "check_claims P profile claims ip ap (lp_staleness_limit_secs policy)
        (lp_future_skew_limit_secs policy) now = Ok ()"
      and acc: "account = \<lparr>account_iss = vc_iss claims, account_sub = vc_sub claims\<rparr>"
    using assms
    by (auto simp: verify_link_attestation_def Let_def split: prod.splits result.splits
        early_outcome.splits if_splits)
  note f = early_claims [OF e] and k = cc [unfolded check_claims_Ok]
  show ?thesis using join f(2-) k acc verified_signed_by [OF f(5)] by auto
qed

theorem link_account_is_proven_witness:
  "verify_link_attestation toy \<lparr>lp_profiles = [toy_profile], lp_staleness_limit_secs = 100,
       lp_future_skew_limit_secs = 5\<rparr> toy_cache (lit ''h.p.s'')
     (PublicKeyPoint (str_bytes (lit ''i''))) (PublicKeyPoint [])
     (DeviceId (str_bytes (lit ''i''))) (UnixTime 50) 0
     = (toy_cache, Ok (Link_Verified \<lparr>account_iss = lit ''i'', account_sub = lit ''s''\<rparr>)) \<and>
   device_id_from_identity_digest (blake3 toy (str_bytes (lit ''i''))) = DeviceId (str_bytes (lit ''i''))"
proof -
  have v: "verify_link_attestation toy \<lparr>lp_profiles = [toy_profile], lp_staleness_limit_secs = 100,
       lp_future_skew_limit_secs = 5\<rparr> toy_cache (lit ''h.p.s'')
     (PublicKeyPoint (str_bytes (lit ''i''))) (PublicKeyPoint [])
     (DeviceId (str_bytes (lit ''i''))) (UnixTime 50) 0
     = (toy_cache, Ok (Link_Verified \<lparr>account_iss = lit ''i'', account_sub = lit ''s''\<rparr>))"
    using toy_early
    by (simp add: verify_link_attestation_def check_claims_def device_id_from_identity_digest_def
        toy_claims_def toy_profile_def expected_nonce_def elapsed_since_def toy_def)
  show ?thesis using v link_account_is_proven [OF v] by simp
qed

end
