(* ===== verification/Hello_Exchange.thy ===== *)
theory Hello_Exchange
  imports Key_Store Attestation
begin

text \<open>
  The Hello exchange (\<open>tradr-core/src/hello.rs\<close>, \<open>key_binding.rs\<close>,
  \<open>tradr-identity/src/hello.rs\<close> and \<open>key_binding.rs\<close>): version negotiation, the
  binding of an agreement key to an identity key, and the four typed states a connection goes
  through before it has a session. Lemmas say exactly what each step lets through, and two honest
  devices are shown to end in sessions that agree; \<open>Handshake\<close> drives these steps over a
  connection and shows what a session proves.
\<close>

section \<open>Version negotiation\<close>

record version_range =
  vmin :: u32
  vmax :: u32

datatype version_range_error = Inverted u32 u32 | ZeroIsNotAVersion

definition version_range_new :: "u32 \<Rightarrow> u32 \<Rightarrow> (version_range, version_range_error) result" where
  "version_range_new mn mx =
     (if mn = 0 then Err ZeroIsNotAVersion
      else if mn > mx then Err (Inverted mn mx)
      else Ok \<lparr>vmin = mn, vmax = mx\<rparr>)"

datatype no_common_version = NoCommonVersion version_range version_range \<comment> \<open>ours, theirs\<close>

definition negotiate_version ::
    "version_range \<Rightarrow> version_range \<Rightarrow> (u32, no_common_version) result" where
  "negotiate_version ours theirs =
     (let negotiated = min (vmax ours) (vmax theirs); floor = max (vmin ours) (vmin theirs) in
      if negotiated < floor then Err (NoCommonVersion ours theirs) else Ok negotiated)"

definition supports :: "version_range \<Rightarrow> u32 \<Rightarrow> bool" where
  "supports r v \<longleftrightarrow> vmin r \<le> v \<and> v \<le> vmax r"

text \<open>
  Negotiation finds the best common version: between two valid ranges it answers
  the largest version both support, or an error exactly when no version is common; both sides
  reach the same verdict, and the version is never 0.
\<close>

theorem negotiation_best_common:
  assumes "version_range_new a b = Ok ours" and "version_range_new c d = Ok theirs"
  shows "(negotiate_version ours theirs = Ok v \<longleftrightarrow>
      supports ours v \<and> supports theirs v \<and> (\<forall>w. supports ours w \<and> supports theirs w \<longrightarrow> w \<le> v)) \<and>
    (negotiate_version ours theirs = Err e \<longleftrightarrow>
      e = NoCommonVersion ours theirs \<and> (\<nexists>w. supports ours w \<and> supports theirs w)) \<and>
    (negotiate_version theirs ours = Ok v \<longleftrightarrow> negotiate_version ours theirs = Ok v) \<and>
    (negotiate_version ours theirs = Ok v \<longrightarrow> v \<noteq> 0)"
proof (intro conjI [where P = "_ \<longleftrightarrow> _"] impI)
  have r: "ours = \<lparr>vmin = a, vmax = b\<rparr>" "theirs = \<lparr>vmin = c, vmax = d\<rparr>" "a \<noteq> 0" "a \<le> b" "c \<le> d"
    using assms by (auto simp: version_range_new_def split: if_splits)
  let ?n = "min b d" and ?f = "max a c"
  have common: "supports ours w \<and> supports theirs w \<longleftrightarrow> ?f \<le> w \<and> w \<le> ?n" for w
    by (auto simp: supports_def r)
  have neg: "negotiate_version ours theirs = (if ?f \<le> ?n then Ok ?n else Err (NoCommonVersion ours theirs))"
  proof (cases "?n < ?f")
    case True
    then have "\<not> ?f \<le> ?n" by (simp only: not_le)
    with True show ?thesis by (simp only: negotiate_version_def r Let_def version_range.simps if_True if_False)
  next
    case False
    then have "?f \<le> ?n" by (simp only: not_less)
    with False show ?thesis by (simp only: negotiate_version_def r Let_def version_range.simps if_True if_False)
  qed
  show "negotiate_version ours theirs = Ok v \<longleftrightarrow>
      supports ours v \<and> supports theirs v \<and> (\<forall>w. supports ours w \<and> supports theirs w \<longrightarrow> w \<le> v)"
  proof
    assume "negotiate_version ours theirs = Ok v"
    then have "?f \<le> ?n" "v = ?n" by (simp_all only: neg split: if_splits) auto
    then show "supports ours v \<and> supports theirs v \<and> (\<forall>w. supports ours w \<and> supports theirs w \<longrightarrow> w \<le> v)"
      using common by blast
  next
    assume best: "supports ours v \<and> supports theirs v \<and> (\<forall>w. supports ours w \<and> supports theirs w \<longrightarrow> w \<le> v)"
    then have fn: "?f \<le> ?n" using common [of v] order.trans by blast
    then have "?n \<le> v" using best common [of ?n] by blast
    then have "?n = v" using best common [of v] antisym by blast
    with fn show "negotiate_version ours theirs = Ok v" by (simp only: neg if_True)
  qed
  show "negotiate_version ours theirs = Err e \<longleftrightarrow>
      e = NoCommonVersion ours theirs \<and> (\<nexists>w. supports ours w \<and> supports theirs w)"
  proof (cases "?f \<le> ?n")
    case True
    then have "negotiate_version ours theirs = Ok ?n" by (simp only: neg if_True)
    moreover have "supports ours ?n \<and> supports theirs ?n" using True common by blast
    ultimately show ?thesis by auto
  next
    case False
    then have "negotiate_version ours theirs = Err (NoCommonVersion ours theirs)" by (simp only: neg if_False)
    moreover have "\<nexists>w. supports ours w \<and> supports theirs w" using False common order.trans by blast
    ultimately show ?thesis by auto
  qed
  show "negotiate_version theirs ours = Ok v \<longleftrightarrow> negotiate_version ours theirs = Ok v"
    by (simp add: negotiate_version_def Let_def min.commute max.commute)
  show "v \<noteq> 0" if "negotiate_version ours theirs = Ok v"
  proof -
    have "?f \<le> v" using that by (simp only: neg split: if_splits) auto
    then have "a \<le> v" by simp
    then show ?thesis using r(3) by auto
  qed
qed

theorem negotiation_best_common_witness:
  "negotiate_version \<lparr>vmin = 1, vmax = 3\<rparr> \<lparr>vmin = 2, vmax = 5\<rparr> = Ok 3 \<and>
   supports \<lparr>vmin = 1, vmax = 3\<rparr> 3 \<and> supports \<lparr>vmin = 2, vmax = 5\<rparr> 3 \<and>
   \<not> (supports \<lparr>vmin = 1, vmax = 3\<rparr> 4 \<and> supports \<lparr>vmin = 2, vmax = 5\<rparr> 4)"
proof -
  have a: "version_range_new 1 3 = Ok \<lparr>vmin = 1, vmax = 3\<rparr>"
    and b: "version_range_new 2 5 = Ok \<lparr>vmin = 2, vmax = 5\<rparr>"
    by (simp_all add: version_range_new_def)
  have n: "negotiate_version \<lparr>vmin = 1, vmax = 3\<rparr> \<lparr>vmin = 2, vmax = 5\<rparr> = Ok 3"
    by (simp add: negotiate_version_def)
  moreover have "\<not> (4 :: u32) \<le> 3" by simp
  ultimately show ?thesis using negotiation_best_common [OF a b, of 3] by blast
qed

section \<open>Messages\<close>

abbreviation (input) "HELLO_NONCE_LEN \<equiv> (16 :: nat)"

datatype hello_nonce = HelloNonce (nonce_bytes: "u8 list")

record key_binding =
  kb_agreement_pub :: public_key_point
  kb_signature :: signature
  kb_not_after :: unix_time

record peer_hello =
  ph_versions :: version_range
  ph_identity_pub :: public_key_point
  ph_agreement_pub :: public_key_point
  ph_attestation_token :: rstr
  ph_key_binding :: key_binding
  ph_nonce :: hello_nonce
  ph_capabilities :: capabilities
  ph_display_name :: "display_name option"

record peer_hello_ack =
  pa_negotiated_version :: u32
  pa_max_frame_size :: u32
  pa_nonce_signature :: signature
  pa_assigned_tier :: trust_tier

section \<open>Key binding\<close>

datatype key_binding_refused =
    NotForThisAgreementKey
  | SignatureInvalid
  | Expired unix_time unix_time \<comment> \<open>not after, now\<close>
  | MalformedIdentityKey

definition parse_verifying_key :: "p256 \<Rightarrow> public_key_point \<Rightarrow> (u8 list, key_binding_refused) result" where
  "parse_verifying_key C point =
     (if point_valid C (point_bytes point) then Ok (point_bytes point) else Err MalformedIdentityKey)"

definition signature_verifies :: "p256 \<Rightarrow> u8 list \<Rightarrow> domain_tag \<Rightarrow> u8 list \<Rightarrow> signature \<Rightarrow> bool" where
  "signature_verifies C key d message sig =
     (case payload d message of
        Err _ \<Rightarrow> False
      | Ok p \<Rightarrow> ecdsa_verify C key p (signature_bytes sig))"

definition verify_key_binding ::
    "p256 \<Rightarrow> (u8 list \<Rightarrow> u8 list) \<Rightarrow> public_key_point \<Rightarrow> key_binding \<Rightarrow> public_key_point \<Rightarrow> unix_time
      \<Rightarrow> (device_id, key_binding_refused) result" where
  "verify_key_binding C hash identity_pub binding authenticated_agreement_pub now =
     (if kb_agreement_pub binding \<noteq> authenticated_agreement_pub then Err NotForThisAgreementKey
      else try_then (parse_verifying_key C identity_pub) (\<lambda>key.
        if \<not> signature_verifies C key KeyBind (point_bytes (kb_agreement_pub binding)) (kb_signature binding)
        then Err SignatureInvalid
        else if sint (as_secs (kb_not_after binding)) < sint (as_secs now)
        then Err (Expired (kb_not_after binding) now)
        else Ok (device_id_from_identity_digest (hash (point_bytes identity_pub)))))"

lemma verify_key_binding_Ok:
  "verify_key_binding C hash ip kb ap now = Ok d \<longleftrightarrow>
     kb_agreement_pub kb = ap \<and> point_valid C (point_bytes ip) \<and>
     signature_verifies C (point_bytes ip) KeyBind (point_bytes ap) (kb_signature kb) \<and>
     sint (as_secs now) \<le> sint (as_secs (kb_not_after kb)) \<and>
     d = device_id_from_identity_digest (hash (point_bytes ip))"
  by (auto simp: verify_key_binding_def parse_verifying_key_def not_less)

section \<open>The four steps\<close>

abbreviation (input) "MIN_NEGOTIABLE_FRAME_SIZE \<equiv> (512 :: u32)"

record awaiting_peer_hello =
  aph_our_versions :: version_range
  aph_our_nonce :: hello_nonce

record awaiting_verification =
  av_peer_identity :: public_identity
  av_peer_nonce :: hello_nonce
  av_our_nonce :: hello_nonce
  av_negotiated_version :: u32

record attestation_request =
  ar_token :: rstr
  ar_identity_pub :: public_key_point
  ar_agreement_pub :: public_key_point

record awaiting_peer_ack =
  ak_peer_identity :: public_identity
  ak_our_nonce :: hello_nonce
  ak_negotiated_version :: u32
  ak_tier :: trust_tier

record session =
  s_peer :: device_id
  s_peer_identity :: public_identity
  s_tier :: trust_tier
  s_negotiated_version :: u32
  s_peer_max_frame_size :: u32

datatype hello_refused =
    Hello_NoCommonVersion no_common_version
  | Hello_KeyDoesNotMatchChannel device_id device_id \<comment> \<open>authenticated, claimed\<close>
  | Hello_KeyBindingNotForThisAgreementKey
  | Hello_KeyBindingSignatureInvalid
  | Hello_KeyBindingExpired unix_time unix_time
  | Hello_MalformedIdentityKey
  | Hello_NonceSignatureInvalid
  | Hello_VersionDisagreement u32 u32 \<comment> \<open>ours, theirs\<close>
  | Hello_FrameSizeTooSmall u32 u32 \<comment> \<open>advertised, minimum\<close>

text \<open>\<open>open\<close>, with the nonce the random source filled in (\<open>None\<close> when it failed).\<close>

definition hello_open ::
    "u8 list option \<Rightarrow> version_range \<Rightarrow> public_identity \<Rightarrow> rstr \<Rightarrow> key_binding \<Rightarrow> capabilities
      \<Rightarrow> (awaiting_peer_hello \<times> peer_hello) option" where
  "hello_open draw versions identity token binding caps =
     (case draw of
        None \<Rightarrow> None
      | Some bytes \<Rightarrow>
          let nonce = HelloNonce bytes in
          Some (\<lparr>aph_our_versions = versions, aph_our_nonce = nonce\<rparr>,
                \<lparr>ph_versions = versions, ph_identity_pub = pi_identity_pub identity,
                 ph_agreement_pub = pi_agreement_pub identity, ph_attestation_token = token,
                 ph_key_binding = binding, ph_nonce = nonce, ph_capabilities = caps,
                 ph_display_name = None\<rparr>))"

fun refuse_binding :: "key_binding_refused \<Rightarrow> hello_refused" where
  "refuse_binding NotForThisAgreementKey = Hello_KeyBindingNotForThisAgreementKey"
| "refuse_binding SignatureInvalid = Hello_KeyBindingSignatureInvalid"
| "refuse_binding MalformedIdentityKey = Hello_KeyBindingSignatureInvalid"
| "refuse_binding (Expired a b) = Hello_KeyBindingExpired a b"

definition on_peer_hello ::
    "p256 \<Rightarrow> (u8 list \<Rightarrow> u8 list) \<Rightarrow> awaiting_peer_hello \<Rightarrow> peer_hello \<Rightarrow> device_id \<Rightarrow> unix_time
      \<Rightarrow> (awaiting_verification \<times> attestation_request, hello_refused) result" where
  "on_peer_hello C hash st peer authenticated now =
     try_then (map_err Hello_NoCommonVersion (negotiate_version (aph_our_versions st) (ph_versions peer)))
       (\<lambda>negotiated.
        let claimed = device_id_from_identity_digest (hash (point_bytes (ph_identity_pub peer))) in
        if claimed \<noteq> authenticated then Err (Hello_KeyDoesNotMatchChannel authenticated claimed)
        else try_then (map_err refuse_binding
            (verify_key_binding C hash (ph_identity_pub peer) (ph_key_binding peer) (ph_agreement_pub peer) now))
          (\<lambda>_. Ok (\<lparr>av_peer_identity = \<lparr>pi_identity_pub = ph_identity_pub peer,
                      pi_agreement_pub = ph_agreement_pub peer, pi_device_id = claimed\<rparr>,
                    av_peer_nonce = ph_nonce peer, av_our_nonce = aph_our_nonce st,
                    av_negotiated_version = negotiated\<rparr>,
                   \<lparr>ar_token = ph_attestation_token peer, ar_identity_pub = ph_identity_pub peer,
                    ar_agreement_pub = ph_agreement_pub peer\<rparr>)))"

definition on_verified ::
    "p256 \<Rightarrow> awaiting_verification \<Rightarrow> trust_tier \<Rightarrow> software_key_store \<Rightarrow> u32
      \<Rightarrow> (awaiting_peer_ack \<times> peer_hello_ack, key_store_error) result" where
  "on_verified C st tier ks max_frame_size =
     try_then (sign C ks HelloDomain (nonce_bytes (av_peer_nonce st))) (\<lambda>sig.
     Ok (\<lparr>ak_peer_identity = av_peer_identity st, ak_our_nonce = av_our_nonce st,
          ak_negotiated_version = av_negotiated_version st, ak_tier = tier\<rparr>,
         \<lparr>pa_negotiated_version = av_negotiated_version st, pa_max_frame_size = max_frame_size,
          pa_nonce_signature = sig, pa_assigned_tier = tier\<rparr>))"

definition on_peer_hello_ack ::
    "p256 \<Rightarrow> awaiting_peer_ack \<Rightarrow> peer_hello_ack \<Rightarrow> (session, hello_refused) result" where
  "on_peer_hello_ack C st ack =
     try_then (map_err (\<lambda>_. Hello_MalformedIdentityKey)
        (parse_verifying_key C (pi_identity_pub (ak_peer_identity st)))) (\<lambda>key.
     if \<not> signature_verifies C key HelloDomain (nonce_bytes (ak_our_nonce st)) (pa_nonce_signature ack)
     then Err Hello_NonceSignatureInvalid
     else if pa_negotiated_version ack \<noteq> ak_negotiated_version st
     then Err (Hello_VersionDisagreement (ak_negotiated_version st) (pa_negotiated_version ack))
     else if pa_max_frame_size ack < MIN_NEGOTIABLE_FRAME_SIZE
     then Err (Hello_FrameSizeTooSmall (pa_max_frame_size ack) MIN_NEGOTIABLE_FRAME_SIZE)
     else Ok \<lparr>s_peer = pi_device_id (ak_peer_identity st), s_peer_identity = ak_peer_identity st,
              s_tier = ak_tier st, s_negotiated_version = ak_negotiated_version st,
              s_peer_max_frame_size = pa_max_frame_size ack\<rparr>)"

section \<open>What each step lets through\<close>

lemma on_peer_hello_Ok:
  "on_peer_hello C hash st peer authenticated now = Ok (av, req) \<longleftrightarrow>
     negotiate_version (aph_our_versions st) (ph_versions peer) = Ok (av_negotiated_version av) \<and>
     device_id_from_identity_digest (hash (point_bytes (ph_identity_pub peer))) = authenticated \<and>
     verify_key_binding C hash (ph_identity_pub peer) (ph_key_binding peer) (ph_agreement_pub peer) now
       = Ok authenticated \<and>
     av_peer_identity av = \<lparr>pi_identity_pub = ph_identity_pub peer,
        pi_agreement_pub = ph_agreement_pub peer, pi_device_id = authenticated\<rparr> \<and>
     av_peer_nonce av = ph_nonce peer \<and> av_our_nonce av = aph_our_nonce st \<and>
     req = \<lparr>ar_token = ph_attestation_token peer, ar_identity_pub = ph_identity_pub peer,
        ar_agreement_pub = ph_agreement_pub peer\<rparr>"
  by (cases av) (auto simp: on_peer_hello_def Let_def verify_key_binding_Ok)

lemma on_verified_Ok:
  "on_verified C st tier ks frame = Ok (ak, ack) \<longleftrightarrow>
     (\<exists>sig. sign C ks HelloDomain (nonce_bytes (av_peer_nonce st)) = Ok sig \<and>
       ak = \<lparr>ak_peer_identity = av_peer_identity st, ak_our_nonce = av_our_nonce st,
             ak_negotiated_version = av_negotiated_version st, ak_tier = tier\<rparr> \<and>
       ack = \<lparr>pa_negotiated_version = av_negotiated_version st, pa_max_frame_size = frame,
             pa_nonce_signature = sig, pa_assigned_tier = tier\<rparr>)"
  by (auto simp: on_verified_def)

lemma on_peer_hello_ack_Ok:
  "on_peer_hello_ack C ak ack = Ok s \<longleftrightarrow>
     point_valid C (point_bytes (pi_identity_pub (ak_peer_identity ak))) \<and>
     signature_verifies C (point_bytes (pi_identity_pub (ak_peer_identity ak))) HelloDomain
       (nonce_bytes (ak_our_nonce ak)) (pa_nonce_signature ack) \<and>
     pa_negotiated_version ack = ak_negotiated_version ak \<and>
     \<not> pa_max_frame_size ack < MIN_NEGOTIABLE_FRAME_SIZE \<and>
     s = \<lparr>s_peer = pi_device_id (ak_peer_identity ak), s_peer_identity = ak_peer_identity ak,
          s_tier = ak_tier ak, s_negotiated_version = ak_negotiated_version ak,
          s_peer_max_frame_size = pa_max_frame_size ack\<rparr>"
  by (auto simp: on_peer_hello_ack_def parse_verifying_key_def)

section \<open>Two honest devices\<close>

text \<open>A device as the exchange sees it: its key store, and the binding it signed for its agreement key.\<close>

definition own_binding :: "p256 \<Rightarrow> software_key_store \<Rightarrow> unix_time \<Rightarrow> key_binding" where
  "own_binding C ks not_after =
     \<lparr>kb_agreement_pub = PublicKeyPoint (point_of C (agreement_key ks)),
      kb_signature = Signature (ecdsa_sign C (identity_key ks)
        (str_bytes (lit ''tradr-keybind-v1'') @ point_of C (agreement_key ks))),
      kb_not_after = not_after\<rparr>"

lemma sign_verifies:
  assumes "p256_ok C" and "key_store_ok C ks" and "sign C ks d m = Ok sig"
  shows "signature_verifies C (point_of C (identity_key ks)) d m sig"
  using assms
  by (auto simp: p256_ok_def key_store_ok_def sign_def signature_verifies_def split: result.splits)

lemma own_binding_signed:
  "sign C ks KeyBind (point_of C (agreement_key ks)) = Ok (kb_signature (own_binding C ks t))"
  by (simp add: sign_def payload_def own_binding_def)

lemma own_binding_verifies:
  assumes "p256_ok C" and "key_store_ok C ks" and "sint (as_secs now) \<le> sint (as_secs t)"
  shows "verify_key_binding C hash (PublicKeyPoint (point_of C (identity_key ks))) (own_binding C ks t)
    (PublicKeyPoint (point_of C (agreement_key ks))) now
    = Ok (device_id_from_identity_digest (hash (point_of C (identity_key ks))))"
  using assms sign_verifies [OF assms(1,2) own_binding_signed [of C ks t]]
  by (auto simp: verify_key_binding_Ok own_binding_def p256_ok_def key_store_ok_def)

text \<open>One honest side, from its own opening to the acknowledgement it sends.\<close>

lemma honest_side:
  assumes C: "p256_ok C" "key_store_ok C kb"
    and ib: "public_identity C hash kb = Ok ib"
    and a: "hello_open (Some na) ra ia ta binding_a ca = Some (sta, ha)"
    and b: "hello_open (Some nb) rb ib tb (own_binding C kb eb) cb = Some (stb, hb)"
    and v: "negotiate_version ra rb = Ok v" and now: "sint (as_secs now) \<le> sint (as_secs eb)"
  shows "\<exists>req. on_peer_hello C hash sta hb (pi_device_id ib) now =
      Ok (\<lparr>av_peer_identity = ib, av_peer_nonce = HelloNonce nb, av_our_nonce = HelloNonce na,
           av_negotiated_version = v\<rparr>, req)"
proof -
  note i = public_identity_Ok [OF C, of hash, unfolded ib result.inject(1)]
  note hf = a [unfolded hello_open_def Let_def option.case option.inject prod.inject]
    b [unfolded hello_open_def Let_def option.case option.inject prod.inject]
  have "verify_key_binding C hash (ph_identity_pub hb) (ph_key_binding hb) (ph_agreement_pub hb) now
      = Ok (pi_device_id ib)"
    using own_binding_verifies [OF C now, of hash] hf i by auto
  with hf i v show ?thesis by (auto simp: on_peer_hello_Ok)
qed

lemma sign_hello: "\<exists>sig. sign C ks HelloDomain m = Ok sig"
  by (simp add: sign_def payload_def)

lemma honest_ack:
  assumes C: "p256_ok C" "key_store_ok C kb" and ib: "public_identity C hash kb = Ok ib"
    and sig: "sign C kb HelloDomain na = Ok sig" and frame: "\<not> frame < MIN_NEGOTIABLE_FRAME_SIZE"
  shows "on_peer_hello_ack C
      \<lparr>ak_peer_identity = ib, ak_our_nonce = HelloNonce na, ak_negotiated_version = v, ak_tier = tier\<rparr>
      \<lparr>pa_negotiated_version = v, pa_max_frame_size = frame, pa_nonce_signature = sig,
       pa_assigned_tier = tier'\<rparr>
    = Ok \<lparr>s_peer = pi_device_id ib, s_peer_identity = ib, s_tier = tier, s_negotiated_version = v,
          s_peer_max_frame_size = frame\<rparr>"
proof -
  note i = public_identity_Ok [OF C, of hash, unfolded ib result.inject(1)]
  have "point_valid C (point_of C (identity_key kb))"
    using C by (auto simp: p256_ok_def key_store_ok_def)
  then show ?thesis
    using sign_verifies [OF C sig] frame i by (simp add: on_peer_hello_ack_Ok)
qed

text \<open>
  Property C34. Two honest devices always get their session. If their version ranges overlap,
  neither binding has expired on the other's clock, the channel authenticated each to the other
  and both advertise a legal frame size, then the exchange completes on both sides; both
  sessions have the same version, each names the other device and its keys, and each holds the
  frame bound the other advertised and the tier its own side decided.
\<close>

theorem honest_exchange_completes:
  assumes C: "p256_ok C" and ka: "key_store_ok C ka" and kb: "key_store_ok C kb"
    and ia: "public_identity C hash ka = Ok ia" and ib: "public_identity C hash kb = Ok ib"
    and a: "hello_open (Some na) ra ia ta (own_binding C ka ea) ca = Some (sta, ha)"
    and b: "hello_open (Some nb) rb ib tb (own_binding C kb eb) cb = Some (stb, hb)"
    and v: "negotiate_version ra rb = Ok v"
    and na: "sint (as_secs now_a) \<le> sint (as_secs eb)" and nb: "sint (as_secs now_b) \<le> sint (as_secs ea)"
    and fa: "\<not> fa < MIN_NEGOTIABLE_FRAME_SIZE" and fb: "\<not> fb < MIN_NEGOTIABLE_FRAME_SIZE"
  shows "\<exists>ava rqa aka acka avb rqb akb ackb.
    on_peer_hello C hash sta hb (pi_device_id ib) now_a = Ok (ava, rqa) \<and>
    on_verified C ava tier_a ka fa = Ok (aka, acka) \<and>
    on_peer_hello C hash stb ha (pi_device_id ia) now_b = Ok (avb, rqb) \<and>
    on_verified C avb tier_b kb fb = Ok (akb, ackb) \<and>
    on_peer_hello_ack C aka ackb = Ok \<lparr>s_peer = pi_device_id ib, s_peer_identity = ib,
      s_tier = tier_a, s_negotiated_version = v, s_peer_max_frame_size = fb\<rparr> \<and>
    on_peer_hello_ack C akb acka = Ok \<lparr>s_peer = pi_device_id ia, s_peer_identity = ia,
      s_tier = tier_b, s_negotiated_version = v, s_peer_max_frame_size = fa\<rparr>"
proof -
  have v': "negotiate_version rb ra = Ok v"
    using v by (simp add: negotiate_version_def Let_def min.commute max.commute split: if_splits)
  obtain rqa where ha: "on_peer_hello C hash sta hb (pi_device_id ib) now_a =
      Ok (\<lparr>av_peer_identity = ib, av_peer_nonce = HelloNonce nb, av_our_nonce = HelloNonce na,
           av_negotiated_version = v\<rparr>, rqa)"
    using honest_side [OF C kb ib a b v na] by blast
  obtain rqb where hb: "on_peer_hello C hash stb ha (pi_device_id ia) now_b =
      Ok (\<lparr>av_peer_identity = ia, av_peer_nonce = HelloNonce na, av_our_nonce = HelloNonce nb,
           av_negotiated_version = v\<rparr>, rqb)"
    using honest_side [OF C ka ia b a v' nb] by blast
  obtain siga sigb where s: "sign C ka HelloDomain nb = Ok siga" "sign C kb HelloDomain na = Ok sigb"
    using sign_hello by blast
  show ?thesis
    by (rule exI, rule exI, rule exI, rule exI, rule exI, rule exI, rule exI, rule exI,
        intro conjI, rule ha, simp add: on_verified_def s(1), rule hb, simp add: on_verified_def s(2),
        rule honest_ack [OF C kb ib s(2) fb], rule honest_ack [OF C ka ia s(1) fa])
qed

subsection \<open>Two concrete devices\<close>

definition toy_store :: "u8 \<Rightarrow> software_key_store" where
  "toy_store x = \<lparr>identity_key = replicate 32 x, agreement_key = replicate 32 (x + 1),
     ks_backing = Software NoSecretService\<rparr>"

definition toy_identity :: "u8 \<Rightarrow> public_identity" where
  "toy_identity x = \<lparr>pi_identity_pub = PublicKeyPoint (4 # replicate 32 x @ replicate 32 x),
     pi_agreement_pub = PublicKeyPoint (4 # replicate 32 (x + 1) @ replicate 32 (x + 1)),
     pi_device_id = device_id_from_identity_digest (4 # replicate 32 x @ replicate 32 x)\<rparr>"

definition toy_versions :: version_range where
  "toy_versions = \<lparr>vmin = 1, vmax = 1\<rparr>"

definition toy_hello :: "u8 \<Rightarrow> awaiting_peer_hello \<times> peer_hello" where
  "toy_hello x = the (hello_open (Some [x]) toy_versions (toy_identity x) []
     (own_binding toy_curve (toy_store x) (UnixTime 100)) capabilities_empty)"

lemma toy_store_ok: "key_store_ok toy_curve (toy_store x)"
  by (simp add: key_store_ok_def toy_curve_def toy_store_def)

lemma toy_identity_ok: "public_identity toy_curve (\<lambda>b. b) (toy_store x) = Ok (toy_identity x)"
  unfolding public_identity_Ok [OF toy_curve_ok toy_store_ok]
  by (simp add: toy_identity_def toy_curve_def toy_store_def)

lemma toy_open:
  "hello_open (Some [x]) toy_versions (toy_identity x) []
     (own_binding toy_curve (toy_store x) (UnixTime 100)) capabilities_empty
   = Some (fst (toy_hello x), snd (toy_hello x))"
  by (simp add: toy_hello_def hello_open_def Let_def)

lemma toy_negotiate: "negotiate_version toy_versions toy_versions = Ok 1"
  by (simp add: negotiate_version_def toy_versions_def)

lemma toy_now: "sint (as_secs (UnixTime 50)) \<le> sint (as_secs (UnixTime 100))"
  by simp

theorem honest_exchange_completes_witness:
  "\<exists>ava rqa aka acka avb rqb akb ackb.
     on_peer_hello toy_curve (\<lambda>b. b) (fst (toy_hello 1)) (snd (toy_hello 7)) (pi_device_id (toy_identity 7))
       (UnixTime 50) = Ok (ava, rqa) \<and>
     on_verified toy_curve ava Linked (toy_store 1) 4096 = Ok (aka, acka) \<and>
     on_peer_hello toy_curve (\<lambda>b. b) (fst (toy_hello 7)) (snd (toy_hello 1)) (pi_device_id (toy_identity 1))
       (UnixTime 50) = Ok (avb, rqb) \<and>
     on_verified toy_curve avb SameAccount (toy_store 7) 512 = Ok (akb, ackb) \<and>
     on_peer_hello_ack toy_curve aka ackb = Ok \<lparr>s_peer = pi_device_id (toy_identity 7),
       s_peer_identity = toy_identity 7, s_tier = Linked, s_negotiated_version = 1,
       s_peer_max_frame_size = 512\<rparr> \<and>
     on_peer_hello_ack toy_curve akb acka = Ok \<lparr>s_peer = pi_device_id (toy_identity 1),
       s_peer_identity = toy_identity 1, s_tier = SameAccount, s_negotiated_version = 1,
       s_peer_max_frame_size = 4096\<rparr>"
  by (rule honest_exchange_completes [OF toy_curve_ok toy_store_ok toy_store_ok toy_identity_ok
        toy_identity_ok toy_open toy_open toy_negotiate toy_now toy_now]) simp_all


end
