(* ===== verification/Framing.thy ===== *)
theory Framing
  imports Tradr_Prelude "HOL-Library.Sublist"
begin

text \<open>
  Byte framing (\<open>tradr-proto/src/framing.rs\<close>): \<open>[len:u32 BE][type:u8][payload]\<close>,
  written by \<open>encode_frame\<close> and cut out of a byte stream that arrives in arbitrary
  pieces by \<open>FrameDecoder\<close>. The locale \<open>length_prefix\<close> holds what any
  length-prefixed framing needs, a length code of fixed width that is inverted by its
  decoder, and shows once that such a framing can be cut in one way only; it is interpreted
  on this framing and, in \<open>Record_Link\<close>, on the records of the Bluetooth link.
\<close>

unbundle bit_operations_syntax

section \<open>Big-endian integers\<close>

text \<open>\<open>u32::to_be_bytes\<close> and \<open>u32::from_be_bytes\<close>, and the same for \<open>u16\<close>.\<close>

definition u32_to_be_bytes :: "u32 \<Rightarrow> u8 list" where
  "u32_to_be_bytes x = [ucast (drop_bit 24 x), ucast (drop_bit 16 x), ucast (drop_bit 8 x), ucast x]"

definition u32_from_be_bytes :: "u8 list \<Rightarrow> u32" where
  "u32_from_be_bytes b =
     push_bit 24 (ucast (b ! 0)) OR push_bit 16 (ucast (b ! 1)) OR push_bit 8 (ucast (b ! 2)) OR ucast (b ! 3)"

definition u16_to_be_bytes :: "u16 \<Rightarrow> u8 list" where
  "u16_to_be_bytes x = [ucast (drop_bit 8 x), ucast x]"

definition u16_from_be_bytes :: "u8 list \<Rightarrow> u16" where
  "u16_from_be_bytes b = push_bit 8 (ucast (b ! 0)) OR ucast (b ! 1)"

lemma u32_to_be_bytes_length [simp]: "length (u32_to_be_bytes x) = 4"
  by (simp add: u32_to_be_bytes_def)

lemma u32_from_to_be_bytes [simp]: "u32_from_be_bytes (u32_to_be_bytes x) = x"
proof (rule bit_word_eqI)
  fix n assume "n < LENGTH(32)"
  then consider "n < 8" | "8 \<le> n" "n < 16" | "16 \<le> n" "n < 24" | "24 \<le> n" "n < 32" by force
  then show "bit (u32_from_be_bytes (u32_to_be_bytes x)) n = bit x n"
    by cases (auto simp: u32_from_be_bytes_def u32_to_be_bytes_def bit_simps)
qed

lemma u32_to_from_be_bytes:
  assumes "length b = 4"
  shows "u32_to_be_bytes (u32_from_be_bytes b) = b"
proof -
  obtain w x y z where b: "b = [w, x, y, z]"
    using assms by (auto simp: length_Suc_conv eval_nat_numeral)
  have "ucast (drop_bit 24 (u32_from_be_bytes b)) = w" "ucast (drop_bit 16 (u32_from_be_bytes b)) = x"
    "ucast (drop_bit 8 (u32_from_be_bytes b)) = y" "ucast (u32_from_be_bytes b) = z"
    by (rule bit_word_eqI, auto simp: b u32_from_be_bytes_def bit_simps dest: bit_imp_le_length)+
  then show ?thesis by (simp add: u32_to_be_bytes_def b)
qed

lemma u16_from_to_be_bytes [simp]: "u16_from_be_bytes (u16_to_be_bytes x) = x"
  by (rule bit_word_eqI)
     (auto simp: u16_from_be_bytes_def u16_to_be_bytes_def bit_simps nth_Cons')

lemma u16_to_from_be_bytes:
  assumes "length b = 2"
  shows "u16_to_be_bytes (u16_from_be_bytes b) = b"
proof -
  obtain x y where b: "b = [x, y]"
    using assms by (auto simp: length_Suc_conv eval_nat_numeral)
  have "ucast (drop_bit 8 (u16_from_be_bytes b)) = x" "ucast (u16_from_be_bytes b) = y"
    by (rule bit_word_eqI, auto simp: b u16_from_be_bytes_def bit_simps dest: bit_imp_le_length)+
  then show ?thesis by (simp add: u16_to_be_bytes_def b)
qed

section \<open>Length-prefixed framing\<close>

definition prefix_wire :: "(nat \<Rightarrow> u8 list) \<Rightarrow> u8 list \<Rightarrow> u8 list" where
  "prefix_wire enc body = enc (length body) @ body"

text \<open>
  A code for the lengths up to a limit: \<open>w\<close> bytes, inverted by \<open>dec\<close> in both
  directions.
\<close>

locale length_prefix =
  fixes w :: nat and enc :: "nat \<Rightarrow> u8 list" and dec :: "u8 list \<Rightarrow> nat" and limit :: nat
  assumes width_pos: "0 < w" and enc_width: "length (enc k) = w"
    and dec_enc: "k \<le> limit \<Longrightarrow> dec (enc k) = k"
    and enc_dec: "length b = w \<Longrightarrow> enc (dec b) = b"
begin

abbreviation fits :: "u8 list \<Rightarrow> bool" where
  "fits body \<equiv> length body \<le> limit"

lemma wire_head:
  "take w (prefix_wire enc body @ r) = enc (length body)"
  "drop w (prefix_wire enc body @ r) = body @ r"
  by (simp_all add: prefix_wire_def enc_width)

lemma wire_length: "length (prefix_wire enc body) = w + length body"
  by (simp add: prefix_wire_def enc_width)

text \<open>Cutting a body off at the announced length is undone by framing it again.\<close>

lemma wire_of_cut:
  assumes "w + dec (take w b) \<le> length b"
  shows "prefix_wire enc (take (dec (take w b)) (drop w b)) @ drop (w + dec (take w b)) b = b"
proof -
  have "length (take w b) = w" using assms by simp
  then have "enc (dec (take w b)) = take w b" by (rule enc_dec)
  moreover have "take (dec (take w b)) (drop w b) @ drop (w + dec (take w b)) b = drop w b"
    by (metis add.commute append_take_drop_id drop_drop)
  moreover have "length (take (dec (take w b)) (drop w b)) = dec (take w b)" using assms by simp
  ultimately show ?thesis by (metis append_assoc append_take_drop_id prefix_wire_def)
qed

text \<open>No wire form of a body is a proper prefix of another: the stream can be cut in one way.\<close>

lemma wire_inject:
  assumes "prefix_wire enc b @ r = prefix_wire enc c @ s" and "fits b" and "fits c"
  shows "b = c" and "r = s"
proof -
  have "enc (length b) = enc (length c)" using assms(1) wire_head(1) by metis
  then have "length b = length c" using assms(2,3) dec_enc by metis
  moreover have "b @ r = c @ s" using assms(1) wire_head(2) by metis
  ultimately show "b = c" "r = s" by simp_all
qed

lemma cut_prefix:
  assumes "concat (map (prefix_wire enc) bs) @ r = concat (map (prefix_wire enc) cs)"
    and "\<forall>b \<in> set bs. fits b" and "\<forall>c \<in> set cs. fits c"
  shows "prefix bs cs \<and> r = concat (map (prefix_wire enc) (drop (length bs) cs))"
  using assms
proof (induction bs arbitrary: cs)
  case (Cons b bs)
  have "cs \<noteq> []" using Cons.prems(1) wire_length [of b] width_pos by auto
  then obtain c cs' where cs: "cs = c # cs'" by (cases cs) auto
  have "b = c" "concat (map (prefix_wire enc) bs) @ r = concat (map (prefix_wire enc) cs')"
    using wire_inject [of b "concat (map (prefix_wire enc) bs) @ r" c] Cons.prems by (simp_all add: cs)
  with Cons show ?case by (simp add: cs)
qed simp

end

section \<open>Frames\<close>

text \<open>
  The announced length is a natural number here: the length of a \<open>Vec\<close> is below
  \<open>2 ^ 63\<close>, so the \<open>u64\<close> that holds it plus one never wraps.
\<close>

datatype frame_error = Oversized nat u32 | Frame_Empty

definition encode_frame :: "u8 \<Rightarrow> u8 list \<Rightarrow> u32 \<Rightarrow> (u8 list, frame_error) result" where
  "encode_frame type_code payload limit =
     (let announced = 1 + length payload in
      if announced > unat limit then Err (Oversized announced limit)
      else Ok (u32_to_be_bytes (of_nat announced) @ [type_code] @ payload))"

record frame =
  type_code :: u8
  frame_payload :: "u8 list"

record frame_decoder =
  fd_limit :: u32
  fd_buf :: "u8 list"
  poison :: "frame_error option"

definition frame_decoder_new :: "u32 \<Rightarrow> frame_decoder" where
  "frame_decoder_new limit = \<lparr>fd_limit = limit, fd_buf = [], poison = None\<rparr>"

definition feed :: "u8 list \<Rightarrow> frame_decoder \<Rightarrow> frame_decoder" where
  "feed bytes d = d\<lparr>fd_buf := fd_buf d @ bytes\<rparr>"

definition buffered_len :: "frame_decoder \<Rightarrow> nat" where
  "buffered_len d = length (fd_buf d)"

definition next_frame :: "frame_decoder \<Rightarrow> frame_decoder \<times> (frame option, frame_error) result" where
  "next_frame d =
     (case poison d of
        Some err \<Rightarrow> (d, Err err)
      | None \<Rightarrow>
          if length (fd_buf d) < 4 then (d, Ok None)
          else
            let announced = unat (u32_from_be_bytes (take 4 (fd_buf d))) in
            if announced = 0 then (d\<lparr>poison := Some Frame_Empty, fd_buf := []\<rparr>, Err Frame_Empty)
            else if announced > unat (fd_limit d) then
              let err = Oversized announced (fd_limit d)
              in (d\<lparr>poison := Some err, fd_buf := []\<rparr>, Err err)
            else
              let total_len = 4 + announced in
              if length (fd_buf d) < total_len then (d, Ok None)
              else (d\<lparr>fd_buf := drop total_len (fd_buf d)\<rparr>,
                    Ok (Some \<lparr>type_code = fd_buf d ! 4,
                              frame_payload = take (total_len - 5) (drop 5 (fd_buf d))\<rparr>)))"

definition frame_body :: "frame \<Rightarrow> u8 list" where
  "frame_body f = type_code f # frame_payload f"

abbreviation len_code :: "nat \<Rightarrow> u8 list" where
  "len_code k \<equiv> u32_to_be_bytes (of_nat k)"

abbreviation frame_wire :: "frame \<Rightarrow> u8 list" where
  "frame_wire f \<equiv> prefix_wire len_code (frame_body f)"

abbreviation frame_fits :: "u32 \<Rightarrow> frame \<Rightarrow> bool" where
  "frame_fits limit f \<equiv> length (frame_body f) \<le> unat limit"

interpretation fw: length_prefix 4 len_code "\<lambda>b. unat (u32_from_be_bytes b)" "unat (limit :: u32)" for limit
proof unfold_locales
  show "unat (u32_from_be_bytes (len_code k)) = k" if "k \<le> unat limit" for k
    using that unat_less [of limit] by (simp add: unat_of_nat)
  show "len_code (unat (u32_from_be_bytes b)) = b" if "length b = 4" for b
    using that by (simp add: u32_to_from_be_bytes)
qed (simp_all add: u32_to_be_bytes_def)

lemma encode_frame_Ok:
  "encode_frame (type_code f) (frame_payload f) limit = Ok wire \<longleftrightarrow>
     frame_fits limit f \<and> wire = frame_wire f"
  by (auto simp: encode_frame_def Let_def frame_body_def prefix_wire_def not_le)

lemma frame_body_inject [simp]: "frame_body f = frame_body g \<longleftrightarrow> f = g"
  by (cases f; cases g) (auto simp: frame_body_def)

text \<open>What one call yields is the next frame of the buffer, whose wire form is consumed.\<close>

lemma next_frame_yields:
  assumes "next_frame d = (d', Ok (Some f))"
  shows "poison d = None" and "poison d' = None \<and> fd_limit d' = fd_limit d"
    and "frame_fits (fd_limit d) f" and "fd_buf d = frame_wire f @ fd_buf d'"
proof -
  let ?b = "fd_buf d" and ?n = "unat (u32_from_be_bytes (take 4 (fd_buf d)))"
  have n: "poison d = None" "?n \<noteq> 0" "?n \<le> unat (fd_limit d)" "4 + ?n \<le> length ?b"
    and d': "d' = d\<lparr>fd_buf := drop (4 + ?n) ?b\<rparr>"
    and f: "f = \<lparr>type_code = ?b ! 4, frame_payload = take (?n - 1) (drop 5 ?b)\<rparr>"
    using assms by (auto simp: next_frame_def Let_def split: option.splits if_splits)
  have "drop 4 ?b = ?b ! 4 # drop 5 ?b" using n Cons_nth_drop_Suc [of 4 ?b] by simp
  then have body: "frame_body f = take ?n (drop 4 ?b)"
    using n(2) by (cases ?n) (simp_all add: frame_body_def f)
  show "fd_buf d = frame_wire f @ fd_buf d'"
    using fw.wire_of_cut [of ?b] n(4) by (simp add: body d')
  show "frame_fits (fd_limit d) f" using n by (simp add: body)
  show "poison d = None" "poison d' = None \<and> fd_limit d' = fd_limit d" using n d' by simp_all
qed

text \<open>A whole frame at the front of the buffer is yielded.\<close>

lemma next_frame_whole:
  assumes "poison d = None" and "fd_buf d = frame_wire f @ r" and "frame_fits (fd_limit d) f"
  shows "next_frame d = (d\<lparr>fd_buf := r\<rparr>, Ok (Some f))"
proof -
  have n: "unat (u32_from_be_bytes (take 4 (fd_buf d))) = length (frame_body f)"
    using assms(2,3) fw.wire_head(1) fw.dec_enc by metis
  have len: "length (fd_buf d) = 4 + length (frame_body f) + length r"
    using assms(2) fw.wire_length by simp
  have body: "drop 4 (fd_buf d) = frame_body f @ r"
    using assms(2) fw.wire_head(2) by metis
  have "fd_buf d ! 4 = type_code f"
    using arg_cong [OF body, of hd] len by (simp add: frame_body_def hd_drop_conv_nth)
  moreover have "drop 5 (fd_buf d) = frame_payload f @ r"
    using arg_cong [OF body, of "drop 1"] by (simp add: frame_body_def)
  moreover have "drop (4 + length (frame_body f)) (fd_buf d) = r"
    using arg_cong [OF body, of "drop (length (frame_body f))"] by (simp add: add.commute)
  ultimately show ?thesis
    using assms n len by (simp add: next_frame_def Let_def frame_body_def)
qed

section \<open>A decoder and the stream it is fed\<close>

text \<open>
  The owner of a connection feeds received bytes and asks for frames in any order. A run of
  such calls gives the decoder reached and the answers in order.
\<close>

datatype decoder_call = Feed "u8 list" | NextFrame

fun decoder_run ::
    "decoder_call list \<Rightarrow> frame_decoder \<Rightarrow> frame_decoder \<times> (frame option, frame_error) result list" where
  "decoder_run [] d = (d, [])"
| "decoder_run (Feed b # cs) d = decoder_run cs (feed b d)"
| "decoder_run (NextFrame # cs) d =
     (let (d', out) = next_frame d; (d'', outs) = decoder_run cs d' in (d'', out # outs))"

fun fed :: "decoder_call list \<Rightarrow> u8 list" where
  "fed [] = []"
| "fed (Feed b # cs) = b @ fed cs"
| "fed (NextFrame # cs) = fed cs"

fun yielded :: "(frame option, frame_error) result list \<Rightarrow> frame list" where
  "yielded [] = []"
| "yielded (Ok (Some f) # outs) = f # yielded outs"
| "yielded (_ # outs) = yielded outs"

lemma feed_simps [simp]:
  "fd_limit (feed b d) = fd_limit d" "poison (feed b d) = poison d" "fd_buf (feed b d) = fd_buf d @ b"
  by (simp_all add: feed_def)

text \<open>The announcements that break a connection.\<close>

definition bad_header :: "u32 \<Rightarrow> u8 list \<Rightarrow> frame_error \<Rightarrow> bool" where
  "bad_header limit b e \<longleftrightarrow> 4 \<le> length b \<and>
     (let announced = unat (u32_from_be_bytes (take 4 b)) in
      announced = 0 \<and> e = Frame_Empty \<or> unat limit < announced \<and> e = Oversized announced limit)"

lemma bad_header_append: "bad_header limit b e \<Longrightarrow> bad_header limit (b @ c) e"
  by (simp add: bad_header_def)

lemma next_frame_else:
  assumes "next_frame d = (d', out)" and "poison d = None"
  shows "out = Ok None \<Longrightarrow> d' = d"
    and "out = Err e \<Longrightarrow> poison d' = Some e \<and> fd_limit d' = fd_limit d \<and> bad_header (fd_limit d) (fd_buf d) e"
  using assms by (auto simp: next_frame_def Let_def bad_header_def split: if_splits)

lemma poisoned_run:
  "poison d = Some e \<Longrightarrow> decoder_run cs d = (d', outs) \<Longrightarrow>
     poison d' = Some e \<and> fd_limit d' = fd_limit d \<and> yielded outs = [] \<and> set outs \<subseteq> {Err e}"
proof (induction cs arbitrary: d outs)
  case (Cons c cs)
  show ?case
  proof (cases c)
    case NextFrame
    have "next_frame d = (d, Err e)" using Cons.prems(1) by (simp add: next_frame_def)
    with Cons NextFrame show ?thesis by (fastforce split: prod.splits)
  qed (use Cons.IH [of "feed _ d"] Cons.prems in simp)
qed simp

text \<open>
  Bytes are accounted for: what was in the buffer and what was fed are the wire forms of the
  frames yielded, in order, followed by what is in the buffer; or by a broken header, when the
  decoder is poisoned.
\<close>

lemma run_accounts:
  assumes "decoder_run cs d = (d', outs)" and "poison d = None"
  shows "\<exists>rest. fd_buf d @ fed cs = concat (map frame_wire (yielded outs)) @ rest \<and>
    (\<forall>f \<in> set (yielded outs). frame_fits (fd_limit d) f) \<and> fd_limit d' = fd_limit d \<and>
    (case poison d' of None \<Rightarrow> rest = fd_buf d' \<and> (\<forall>e. Err e \<notin> set outs)
     | Some e \<Rightarrow> bad_header (fd_limit d) rest e \<and> (\<forall>e'. Err e' \<in> set outs \<longrightarrow> e' = e))"
  using assms
proof (induction cs arbitrary: d outs)
  case (Cons c cs)
  show ?case
  proof (cases c)
    case (Feed b)
    then show ?thesis using Cons.IH [of "feed b d" outs] Cons.prems by (simp cong: option.case_cong)
  next
    case NextFrame
    obtain d1 out outs' where n: "next_frame d = (d1, out)" and run: "decoder_run cs d1 = (d', outs')"
      and outs: "outs = out # outs'"
      using Cons.prems NextFrame by (auto split: prod.splits)
    note else1 = next_frame_else [OF n Cons.prems(2)]
    show ?thesis
    proof (cases out)
      case (Err e)
      then have p: "poison d1 = Some e" "bad_header (fd_limit d) (fd_buf d @ fed cs) e" "fd_limit d1 = fd_limit d"
        using else1(2) bad_header_append by auto
      with poisoned_run [OF p(1) run] show ?thesis by (auto simp: NextFrame outs Err)
    next
      case (Ok answer)
      show ?thesis
      proof (cases answer)
        case None
        then show ?thesis using else1(1) Cons.IH [OF run] Cons.prems(2) Ok by (simp add: NextFrame outs cong: option.case_cong)
      next
        case (Some f)
        note y = next_frame_yields [OF n [unfolded Ok Some]]
        then show ?thesis using Cons.IH [OF run] by (auto simp: NextFrame outs Ok Some cong: option.case_cong)
      qed
    qed
  qed
qed simp

lemma wire_no_bad_header:
  assumes "bad_header limit b e" and "b @ c = concat (map frame_wire fs)" and "\<forall>f \<in> set fs. frame_fits limit f"
  shows False
proof -
  obtain f fs' where fs: "fs = f # fs'" using assms(1,2) by (cases fs) (auto simp: bad_header_def)
  have "take 4 b = take 4 (b @ c)" using assms(1) by (simp add: bad_header_def)
  then have "take 4 b = take 4 (frame_wire f @ concat (map frame_wire fs'))"
    by (simp only: assms(2) fs list.map concat.simps)
  then have "unat (u32_from_be_bytes (take 4 b)) = length (frame_body f)"
    using fw.wire_head(1) fw.dec_enc [of "length (frame_body f)" limit] assms(3) by (simp add: fs)
  then show False using assms(1,3) by (auto simp: bad_header_def frame_body_def fs)
qed

lemma run_of_frames:
  assumes "\<forall>f \<in> set fs. frame_fits limit f" and "fed cs @ later = concat (map frame_wire fs)"
    and "decoder_run cs (frame_decoder_new limit) = (d, outs)"
  shows "prefix (yielded outs) fs" and "poison d = None" and "\<forall>e. Err e \<notin> set outs"
    and "fd_buf d @ later = concat (map frame_wire (drop (length (yielded outs)) fs))"
proof -
  obtain rest where rest: "fed cs = concat (map frame_wire (yielded outs)) @ rest"
      "\<forall>f \<in> set (yielded outs). frame_fits limit f"
      "case poison d of None \<Rightarrow> rest = fd_buf d \<and> (\<forall>e. Err e \<notin> set outs)
       | Some e \<Rightarrow> bad_header limit rest e \<and> (\<forall>e'. Err e' \<in> set outs \<longrightarrow> e' = e)"
    using run_accounts [OF assms(3)] by (auto simp: frame_decoder_new_def cong: option.case_cong)
  have cut: "prefix (map frame_body (yielded outs)) (map frame_body fs) \<and>
      rest @ later = concat (map (prefix_wire len_code) (drop (length (yielded outs)) (map frame_body fs)))"
    using fw.cut_prefix [of "map frame_body (yielded outs)" "rest @ later" "map frame_body fs" limit]
      assms(1,2) rest(1,2) by (simp add: comp_def)
  then have tail: "rest @ later = concat (map frame_wire (drop (length (yielded outs)) fs))"
    by (simp add: drop_map comp_def)
  show p: "poison d = None"
  proof (rule ccontr)
    assume "poison d \<noteq> None"
    then obtain e where "bad_header limit rest e" using rest(3) by auto
    from wire_no_bad_header [OF this tail] assms(1) show False by (meson in_set_dropD)
  qed
  show "\<forall>e. Err e \<notin> set outs" "fd_buf d @ later = concat (map frame_wire (drop (length (yielded outs)) fs))"
    using rest(3) p tail by auto
  show "prefix (yielded outs) fs"
  proof -
    have "map frame_body (yielded outs) = take (length (yielded outs)) (map frame_body fs)"
      using cut by (auto simp: prefix_def)
    then have "yielded outs = take (length (yielded outs)) fs"
      by (metis frame_body_inject injI inj_map_eq_map take_map)
    then show ?thesis by (metis take_is_prefix)
  qed
qed

text \<open>
  Property C9. Frames survive the stream. When frames that the sender could encode under the
  receiver's limit are written one after the other, the receiver decodes exactly these frames in
  order, however the bytes are cut into pieces and however feeding and asking interleave: at
  every moment it has a prefix of them and met no error, and once every byte was fed and the
  decoder answers that nothing is left, it has them all.
\<close>

theorem frames_survive_fragmentation:
  assumes "list_all2 (\<lambda>f wire. encode_frame (type_code f) (frame_payload f) limit = Ok wire) fs wires"
    and "fed cs @ later = concat wires"
    and "decoder_run cs (frame_decoder_new limit) = (d, outs)"
  shows "prefix (yielded outs) fs \<and> (\<forall>e. Err e \<notin> set outs) \<and>
    (later = [] \<and> snd (next_frame d) = Ok None \<longrightarrow> yielded outs = fs \<and> buffered_len d = 0)"
proof -
  have fits: "\<forall>f \<in> set fs. frame_fits limit f" and wires: "wires = map frame_wire fs"
    using assms(1) by (induction rule: list_all2_induct) (auto simp: encode_frame_Ok)
  note run = run_of_frames [OF fits assms(2) [unfolded wires] assms(3)]
  have lim: "fd_limit d = limit"
    using run_accounts [OF assms(3)] by (auto simp: frame_decoder_new_def)
  have "drop (length (yielded outs)) fs = []" if "later = []" "snd (next_frame d) = Ok None"
  proof (rule ccontr)
    assume "drop (length (yielded outs)) fs \<noteq> []"
    then obtain f r where more: "drop (length (yielded outs)) fs = f # r" by (cases "drop (length (yielded outs)) fs") auto
    then have "f \<in> set fs" by (metis in_set_dropD list.set_intros(1))
    with next_frame_whole [OF run(2)] run(4) more that(1) fits lim that(2) show False by simp
  qed
  then show ?thesis using run by (auto simp: buffered_len_def prefix_def)
qed

lemma next_frame_refuses:
  assumes "poison d = None"
  shows "snd (next_frame d) = Err e \<longleftrightarrow> bad_header (fd_limit d) (fd_buf d) e"
  using assms by (auto simp: next_frame_def Let_def bad_header_def)

lemma bad_header_unique: "bad_header limit b e \<Longrightarrow> bad_header limit b e' \<Longrightarrow> e' = e"
  by (auto simp: bad_header_def Let_def)

text \<open>
  Property C28. A decoder never yields what was not framed, whatever bytes arrive. The frames it
  yields are, in order and within its limit, the frames at the start of the stream, each the
  decoding of its own encoding. It refuses exactly at a bad header: the next call reports an error
  if and only if the bytes after the frames yielded announce a length of zero or beyond the limit,
  and it is the error that names that length; and once an error was reported, every later call
  reports that same error.
\<close>

theorem decoder_never_invents:
  assumes "decoder_run cs (frame_decoder_new limit) = (d, outs)"
  shows "\<exists>wires rest.
    list_all2 (\<lambda>f wire. encode_frame (type_code f) (frame_payload f) limit = Ok wire) (yielded outs) wires \<and>
    fed cs = concat wires @ rest \<and>
    (\<forall>e. snd (next_frame d) = Err e \<longleftrightarrow> bad_header limit rest e) \<and>
    (\<forall>e. Err e \<in> set outs \<longrightarrow> bad_header limit rest e \<and>
      (\<forall>cs'. set (snd (decoder_run cs' d)) \<subseteq> {Err e}))"
proof -
  obtain rest where rest: "fed cs = concat (map frame_wire (yielded outs)) @ rest"
      "\<forall>f \<in> set (yielded outs). frame_fits limit f" "fd_limit d = limit"
      "case poison d of None \<Rightarrow> rest = fd_buf d \<and> (\<forall>e. Err e \<notin> set outs)
       | Some e \<Rightarrow> bad_header limit rest e \<and> (\<forall>e'. Err e' \<in> set outs \<longrightarrow> e' = e)"
    using run_accounts [OF assms] by (auto simp: frame_decoder_new_def cong: option.case_cong)
  have "list_all2 (\<lambda>f wire. encode_frame (type_code f) (frame_payload f) limit = Ok wire)
      (yielded outs) (map frame_wire (yielded outs))"
    using rest(2) by (simp add: list_all2_map2 list_all2_same encode_frame_Ok)
  moreover have "snd (next_frame d) = Err e \<longleftrightarrow> bad_header limit rest e" for e
  proof (cases "poison d")
    case None
    then show ?thesis using next_frame_refuses rest(3,4) by simp
  next
    case (Some x)
    then have "bad_header limit rest x" "snd (next_frame d) = Err x" using rest(4) by (simp_all add: next_frame_def)
    then show ?thesis using bad_header_unique by auto
  qed
  moreover have "bad_header limit rest e \<and> (\<forall>cs'. set (snd (decoder_run cs' d)) \<subseteq> {Err e})"
    if "Err e \<in> set outs" for e
  proof -
    have p: "poison d = Some e" and b: "bad_header limit rest e" using rest(4) that by (auto split: option.splits)
    have "set (snd (decoder_run cs' d)) \<subseteq> {Err e}" for cs'
      using poisoned_run [OF p, of cs'] by (cases "decoder_run cs' d") simp
    with b show ?thesis by blast
  qed
  ultimately show ?thesis using rest(1) by blast
qed

theorem frames_survive_fragmentation_witness:
  "decoder_run [Feed [0, 0, 0], NextFrame, Feed [2, 7, 9], NextFrame, NextFrame] (frame_decoder_new 10)
     = (frame_decoder_new 10, [Ok None, Ok (Some \<lparr>type_code = 7, frame_payload = [9]\<rparr>), Ok None]) \<and>
   yielded [Ok None, Ok (Some \<lparr>type_code = 7, frame_payload = [9]\<rparr>), Ok None]
     = [\<lparr>type_code = 7, frame_payload = [9]\<rparr>]"
proof -
  let ?cs = "[Feed [0, 0, 0], NextFrame, Feed [2, 7, 9], NextFrame, NextFrame]"
  have run: "decoder_run ?cs (frame_decoder_new 10)
     = (frame_decoder_new 10, [Ok None, Ok (Some \<lparr>type_code = 7, frame_payload = [9]\<rparr>), Ok None])"
    by code_simp
  have enc: "list_all2 (\<lambda>f wire. encode_frame (type_code f) (frame_payload f) 10 = Ok wire)
      [\<lparr>type_code = 7, frame_payload = [9]\<rparr>] [[0, 0, 0, 2, 7, 9]]"
    by code_simp
  have "snd (next_frame (frame_decoder_new 10)) = Ok None" by code_simp
  with frames_survive_fragmentation [OF enc _ run, of "[]"] run show ?thesis by simp
qed

theorem decoder_never_invents_witness:
  "decoder_run [Feed [0, 0, 0, 9], NextFrame] (frame_decoder_new 8)
     = (\<lparr>fd_limit = 8, fd_buf = [], poison = Some (Oversized 9 8)\<rparr>, [Err (Oversized 9 8)]) \<and>
   set (snd (decoder_run [Feed [0, 0, 0, 1, 5], NextFrame]
     \<lparr>fd_limit = 8, fd_buf = [], poison = Some (Oversized 9 8)\<rparr>)) \<subseteq> {Err (Oversized 9 8)}"
proof -
  have run: "decoder_run [Feed [0, 0, 0, 9], NextFrame] (frame_decoder_new 8)
     = (\<lparr>fd_limit = 8, fd_buf = [], poison = Some (Oversized 9 8)\<rparr>, [Err (Oversized 9 8)])"
    by code_simp
  have "Err (Oversized 9 8) \<in> set [Err (Oversized 9 8) :: (frame option, frame_error) result]" by simp
  with decoder_never_invents [OF run] have "\<forall>cs'. set (snd (decoder_run cs'
      \<lparr>fd_limit = 8, fd_buf = [], poison = Some (Oversized 9 8)\<rparr>)) \<subseteq> {Err (Oversized 9 8)}"
    by blast
  with run show ?thesis by blast
qed

end
