(* ===== verification/Message_Type.thy ===== *)
theory Message_Type
  imports Tradr_Prelude
begin

text \<open>
  The registry of type bytes (\<open>tradr-proto/src/message_type.rs\<close>): which plane owns a
  code, which codes are assigned, and what a receiver does with a code it did not expect.
\<close>

datatype plane = Control | Data | Browse

definition all_planes :: "plane list" where
  "all_planes = [Control, Data, Browse]"

fun plane_range :: "plane \<Rightarrow> u8 \<times> u8" where
  "plane_range Control = (0x01, 0x1f)"
| "plane_range Data = (0x20, 0x3f)"
| "plane_range Browse = (0x40, 0x5f)"

datatype message_type =
    Msg_Hello | Msg_HelloAck | Msg_TransferOffer | Msg_TransferAccept |
    Msg_TransferReject | Msg_TransferComplete | Msg_TransferAbort | Msg_PathChanged |
    Msg_KeepAlive | Msg_ItemComplete | Msg_TransferProgress | Msg_LinkReply |
    Msg_LinkApprove | Msg_LinkDecline | Msg_BroadcastKeyOffer | Msg_ChunkRequest |
    Msg_ChunkRerequest | Msg_ChunkData | Msg_FlowControl | Msg_ListDir | Msg_DirListing |
    Msg_Stat | Msg_StatResult | Msg_ReadFile | Msg_ReadFileBegin | Msg_WriteFile |
    Msg_Mkdir | Msg_Delete | Msg_Rename | Msg_Ack | Msg_Watch | Msg_FsEvent | Msg_Refused

definition all_message_types :: "message_type list" where
  "all_message_types = [
     Msg_Hello, Msg_HelloAck, Msg_TransferOffer, Msg_TransferAccept, Msg_TransferReject,
     Msg_TransferComplete, Msg_TransferAbort, Msg_PathChanged, Msg_KeepAlive,
     Msg_ItemComplete, Msg_TransferProgress, Msg_LinkReply, Msg_LinkApprove,
     Msg_LinkDecline, Msg_BroadcastKeyOffer, Msg_ChunkRequest, Msg_ChunkRerequest,
     Msg_ChunkData, Msg_FlowControl, Msg_ListDir, Msg_DirListing, Msg_Stat, Msg_StatResult,
     Msg_ReadFile, Msg_ReadFileBegin, Msg_WriteFile, Msg_Mkdir, Msg_Delete, Msg_Rename,
     Msg_Ack, Msg_Watch, Msg_FsEvent, Msg_Refused]"

fun message_code :: "message_type \<Rightarrow> u8" where
  "message_code Msg_Hello = 0x01"
| "message_code Msg_HelloAck = 0x02"
| "message_code Msg_TransferOffer = 0x03"
| "message_code Msg_TransferAccept = 0x04"
| "message_code Msg_TransferReject = 0x05"
| "message_code Msg_TransferComplete = 0x06"
| "message_code Msg_TransferAbort = 0x07"
| "message_code Msg_PathChanged = 0x08"
| "message_code Msg_KeepAlive = 0x09"
| "message_code Msg_ItemComplete = 0x0a"
| "message_code Msg_TransferProgress = 0x0b"
| "message_code Msg_LinkReply = 0x0c"
| "message_code Msg_LinkApprove = 0x0d"
| "message_code Msg_LinkDecline = 0x0e"
| "message_code Msg_BroadcastKeyOffer = 0x10"
| "message_code Msg_ChunkRequest = 0x20"
| "message_code Msg_ChunkRerequest = 0x21"
| "message_code Msg_ChunkData = 0x22"
| "message_code Msg_FlowControl = 0x23"
| "message_code Msg_ListDir = 0x40"
| "message_code Msg_DirListing = 0x41"
| "message_code Msg_Stat = 0x42"
| "message_code Msg_StatResult = 0x43"
| "message_code Msg_ReadFile = 0x44"
| "message_code Msg_ReadFileBegin = 0x45"
| "message_code Msg_WriteFile = 0x46"
| "message_code Msg_Mkdir = 0x47"
| "message_code Msg_Delete = 0x48"
| "message_code Msg_Rename = 0x49"
| "message_code Msg_Ack = 0x4a"
| "message_code Msg_Watch = 0x4b"
| "message_code Msg_FsEvent = 0x4c"
| "message_code Msg_Refused = 0x4d"

fun message_plane :: "message_type \<Rightarrow> plane" where
  "message_plane Msg_Hello = Control"
| "message_plane Msg_HelloAck = Control"
| "message_plane Msg_TransferOffer = Control"
| "message_plane Msg_TransferAccept = Control"
| "message_plane Msg_TransferReject = Control"
| "message_plane Msg_TransferComplete = Control"
| "message_plane Msg_TransferAbort = Control"
| "message_plane Msg_PathChanged = Control"
| "message_plane Msg_KeepAlive = Control"
| "message_plane Msg_ItemComplete = Control"
| "message_plane Msg_TransferProgress = Control"
| "message_plane Msg_LinkReply = Control"
| "message_plane Msg_LinkApprove = Control"
| "message_plane Msg_LinkDecline = Control"
| "message_plane Msg_BroadcastKeyOffer = Control"
| "message_plane Msg_ChunkRequest = Data"
| "message_plane Msg_ChunkRerequest = Data"
| "message_plane Msg_ChunkData = Data"
| "message_plane Msg_FlowControl = Data"
| "message_plane Msg_ListDir = Browse"
| "message_plane Msg_DirListing = Browse"
| "message_plane Msg_Stat = Browse"
| "message_plane Msg_StatResult = Browse"
| "message_plane Msg_ReadFile = Browse"
| "message_plane Msg_ReadFileBegin = Browse"
| "message_plane Msg_WriteFile = Browse"
| "message_plane Msg_Mkdir = Browse"
| "message_plane Msg_Delete = Browse"
| "message_plane Msg_Rename = Browse"
| "message_plane Msg_Ack = Browse"
| "message_plane Msg_Watch = Browse"
| "message_plane Msg_FsEvent = Browse"
| "message_plane Msg_Refused = Browse"

datatype code_refusal = Zero | WrongPlane plane | OutsideEveryPlane

datatype classification = Known message_type | Ignorable | Code_Refused code_refusal

definition in_range :: "plane \<Rightarrow> u8 \<Rightarrow> bool" where
  "in_range p c = (case plane_range p of (low, high) \<Rightarrow> low \<le> c \<and> c \<le> high)"

definition classify_code :: "u8 \<Rightarrow> plane \<Rightarrow> classification" where
  "classify_code c arriving_on =
     (if c = 0 then Code_Refused Zero
      else case List.find (\<lambda>p. in_range p c) all_planes of
        None \<Rightarrow> Code_Refused OutsideEveryPlane
      | Some range_owner \<Rightarrow>
          if range_owner \<noteq> arriving_on then Code_Refused (WrongPlane range_owner)
          else case List.find (\<lambda>m. message_code m = c) all_message_types of
            Some m \<Rightarrow> Known m
          | None \<Rightarrow> Ignorable)"

section \<open>The registry is consistent\<close>

lemma all_message_types_complete: "m \<in> set all_message_types"
  by (cases m) (simp_all add: all_message_types_def)

lemma message_code_inject: "message_code m = message_code n \<longleftrightarrow> m = n"
proof -
  have "distinct (map message_code all_message_types)" by (simp add: all_message_types_def)
  then show ?thesis using all_message_types_complete by (auto simp: distinct_map dest: inj_onD)
qed

lemma message_code_in_range: "in_range (message_plane m) (message_code m)"
  by (cases m) (simp_all add: in_range_def)

lemma ranges_disjoint: "in_range p c \<Longrightarrow> in_range q c \<Longrightarrow> p = q"
  by (cases p; cases q) (auto simp: in_range_def word_le_nat_alt)

lemma range_not_zero: "in_range p c \<Longrightarrow> c \<noteq> 0"
  by (cases p) (auto simp: in_range_def word_le_nat_alt)

lemma find_owner: "List.find (\<lambda>p. in_range p c) all_planes = Some p \<longleftrightarrow> in_range p c"
  using ranges_disjoint [of _ c] by (cases p) (auto simp: all_planes_def)

lemma find_no_owner: "List.find (\<lambda>p. in_range p c) all_planes = None \<longleftrightarrow> (\<forall>p. \<not> in_range p c)"
  by (metis find_owner not_None_eq)

lemma find_message: "List.find (\<lambda>m. message_code m = c) all_message_types = Some m \<longleftrightarrow> message_code m = c"
proof -
  have "List.find (\<lambda>m. message_code m = c) all_message_types = None \<longleftrightarrow> (\<forall>m. message_code m \<noteq> c)"
    using all_message_types_complete by (auto simp: find_None_iff)
  then show ?thesis
    by (cases "List.find (\<lambda>m. message_code m = c) all_message_types")
       (auto simp: find_Some_iff message_code_inject)
qed

text \<open>
  A type byte is dispatched exactly where it belongs. On every plane a code is
  dispatched as a message if and only if it is that message's code and the message travels on
  that plane, so no two messages share a code and no message is dispatched on a foreign plane;
  it is skipped if and only if it lies in the plane's own range and no message has it; every
  other code is refused, a code of another plane's range naming the plane that owns it.
\<close>

theorem classify_code_exact:
  "(classify_code c p = Known m \<longleftrightarrow> message_code m = c \<and> message_plane m = p) \<and>
   (classify_code c p = Ignorable \<longleftrightarrow> in_range p c \<and> c \<notin> range message_code) \<and>
   (classify_code c p = Code_Refused (WrongPlane q) \<longleftrightarrow> in_range q c \<and> q \<noteq> p) \<and>
   (classify_code c p = Code_Refused Zero \<longleftrightarrow> c = 0) \<and>
   (classify_code c p = Code_Refused OutsideEveryPlane \<longleftrightarrow> 0x60 \<le> c)"
proof -
  have own: "message_code m = c \<Longrightarrow> in_range p c \<longleftrightarrow> message_plane m = p" for m p
    using message_code_in_range ranges_disjoint by blast
  have out: "(\<forall>p. \<not> in_range p c) \<longleftrightarrow> c = 0 \<or> 0x60 \<le> c"
  proof -
    have "(\<forall>p. \<not> in_range p c) \<longleftrightarrow> \<not> in_range Control c \<and> \<not> in_range Data c \<and> \<not> in_range Browse c"
      by (metis plane.exhaust)
    also have "\<dots> \<longleftrightarrow> unat c = 0 \<or> 96 \<le> unat c"
      by (simp add: in_range_def word_le_nat_alt) linarith
    finally show ?thesis by (simp add: word_le_nat_alt unat_eq_0)
  qed
  show ?thesis
  proof (cases "List.find (\<lambda>p. in_range p c) all_planes")
    case None
    then have cl: "classify_code c p = Code_Refused (if c = 0 then Zero else OutsideEveryPlane)"
      by (simp add: classify_code_def)
    from None have none: "\<not> in_range p c" for p by (simp add: find_no_owner)
    then have "message_code m \<noteq> c" for m using message_code_in_range by blast
    moreover have "(0x60 :: u8) \<le> c" if "c \<noteq> 0" using none out that by blast
    moreover have "(0 :: u8) < 0x60" by simp
    ultimately show ?thesis using none by (auto simp: cl)
  next
    case (Some q)
    then have q: "in_range q c" by (simp add: find_owner)
    then have c: "c \<noteq> 0" "\<not> 0x60 \<le> c" using out range_not_zero by blast+
    have owner: "in_range r c \<longleftrightarrow> r = q" for r using q ranges_disjoint by blast
    have cl: "classify_code c p = (if q \<noteq> p then Code_Refused (WrongPlane q)
        else case List.find (\<lambda>m. message_code m = c) all_message_types of
          Some m \<Rightarrow> Known m | None \<Rightarrow> Ignorable)"
      using c(1) by (simp add: classify_code_def Some)
    show ?thesis
    proof (cases "List.find (\<lambda>m. message_code m = c) all_message_types")
      case None
      then have none: "message_code m \<noteq> c" for m by (metis find_message option.distinct(1))
      have "classify_code c p = (if q \<noteq> p then Code_Refused (WrongPlane q) else Ignorable)"
        by (simp add: cl None)
      then show ?thesis using c none by (auto simp: owner)
    next
      case (Some n)
      then have n: "message_code n = c" by (simp add: find_message)
      then have "message_plane n = q" using own owner by blast
      then show ?thesis using c n by (auto simp: cl Some owner message_code_inject)
    qed
  qed
qed

end
