(* ===== verification/Data_Wire.thy ===== *)
theory Data_Wire
  imports Transfer_Control Framing Message_Type
begin

text \<open>
  The data-plane messages on the wire (\<open>tradr-proto/src/data.rs\<close>): the protobuf structs,
  the conversions between them and the validated messages of \<open>Transfer_Control\<close>, and the
  framed encoders and decoders. The protobuf codec itself is the \<open>prost\<close> crate with code
  generated from \<open>transfer.proto\<close>; it is a parameter, a pair of functions per message,
  and what the lemmas use of it is that decoding undoes encoding. The locale
  \<open>wire_message\<close> states what a pair of conversions promises and holds the round trip of a
  framed message once for all of them. \<open>TransferProgress\<close> carries a floating-point rate for
  display and is left out.
\<close>

section \<open>Wire structs and errors\<close>

record v1_chunk_request =
  w_cr_transfer_id :: rstr
  w_cr_item_id :: rstr
  w_cr_from_chunk :: u64
  w_cr_count :: u32

record v1_chunk_rerequest =
  w_crr_transfer_id :: rstr
  w_crr_item_id :: rstr
  w_crr_chunks :: "u64 list"

record v1_chunk_data =
  w_cd_transfer_id :: rstr
  w_cd_item_id :: rstr
  w_cd_chunk_index :: u64
  w_cd_payload_len :: u32
  w_cd_last :: bool
  w_cd_offset_in_chunk :: u32

record v1_item_complete =
  w_ic_transfer_id :: rstr
  w_ic_item_id :: rstr
  w_ic_verified :: bool
  w_ic_final_path :: rstr

record v1_flow_control =
  w_fc_transfer_id :: rstr
  w_fc_max_inflight_chunks :: u32
  w_fc_reason :: rstr

datatype transfer_wire_error =
    Wire_InvalidTransferId transfer_id_error
  | Wire_InvalidItemId item_id_error
  | Wire_InvalidPath rel_path_error
  | Wire_ZeroCount
  | Wire_EmptyChunks
  | Wire_InvalidChunkData chunk_data_error

datatype transfer_frame_error =
    TF_WrongMessageType u8 u8
  | TF_Framing frame_error
  | TF_Decode
  | TF_Wire transfer_wire_error

section \<open>Conversions\<close>

definition chunk_request_to_wire :: "chunk_request \<Rightarrow> v1_chunk_request" where
  "chunk_request_to_wire req =
     \<lparr>w_cr_transfer_id = transfer_id_display (cr_transfer_id req),
      w_cr_item_id = item_id_display (cr_item_id req),
      w_cr_from_chunk = chunk_value (cr_from_chunk req), w_cr_count = cr_count req\<rparr>"

definition chunk_request_from_wire :: "v1_chunk_request \<Rightarrow> (chunk_request, transfer_wire_error) result" where
  "chunk_request_from_wire w =
     (case map_err Wire_InvalidTransferId (transfer_id_from_str (w_cr_transfer_id w)) of
        Err e \<Rightarrow> Err e
      | Ok t \<Rightarrow>
        (case map_err Wire_InvalidItemId (item_id_new (w_cr_item_id w)) of
           Err e \<Rightarrow> Err e
         | Ok i \<Rightarrow>
             if w_cr_count w = 0 then Err Wire_ZeroCount
             else Ok \<lparr>cr_transfer_id = t, cr_item_id = i, cr_from_chunk = ChunkIndex (w_cr_from_chunk w),
                      cr_count = w_cr_count w\<rparr>))"

definition chunk_rerequest_to_wire :: "chunk_rerequest \<Rightarrow> v1_chunk_rerequest" where
  "chunk_rerequest_to_wire req =
     \<lparr>w_crr_transfer_id = transfer_id_display (crr_transfer_id req),
      w_crr_item_id = item_id_display (crr_item_id req),
      w_crr_chunks = map chunk_value (crr_chunks req)\<rparr>"

definition chunk_rerequest_from_wire :: "v1_chunk_rerequest \<Rightarrow> (chunk_rerequest, transfer_wire_error) result" where
  "chunk_rerequest_from_wire w =
     (case map_err Wire_InvalidTransferId (transfer_id_from_str (w_crr_transfer_id w)) of
        Err e \<Rightarrow> Err e
      | Ok t \<Rightarrow>
        (case map_err Wire_InvalidItemId (item_id_new (w_crr_item_id w)) of
           Err e \<Rightarrow> Err e
         | Ok i \<Rightarrow>
             if w_crr_chunks w = [] then Err Wire_EmptyChunks
             else Ok \<lparr>crr_transfer_id = t, crr_item_id = i, crr_chunks = map ChunkIndex (w_crr_chunks w)\<rparr>))"

definition chunk_data_header_to_wire :: "chunk_data_header \<Rightarrow> v1_chunk_data" where
  "chunk_data_header_to_wire h =
     \<lparr>w_cd_transfer_id = transfer_id_display (cd_transfer_id h),
      w_cd_item_id = item_id_display (cd_item_id h),
      w_cd_chunk_index = chunk_value (cd_chunk_index h), w_cd_payload_len = cd_payload_len h,
      w_cd_last = cd_last h, w_cd_offset_in_chunk = cd_offset_in_chunk h\<rparr>"

definition chunk_data_header_from_wire :: "v1_chunk_data \<Rightarrow> (chunk_data_header, transfer_wire_error) result" where
  "chunk_data_header_from_wire w =
     (case map_err Wire_InvalidTransferId (transfer_id_from_str (w_cd_transfer_id w)) of
        Err e \<Rightarrow> Err e
      | Ok t \<Rightarrow>
        (case map_err Wire_InvalidItemId (item_id_new (w_cd_item_id w)) of
           Err e \<Rightarrow> Err e
         | Ok i \<Rightarrow>
             map_err Wire_InvalidChunkData
               (chunk_data_header_new t i (ChunkIndex (w_cd_chunk_index w)) (w_cd_payload_len w)
                  (w_cd_last w) (w_cd_offset_in_chunk w))))"

definition item_complete_to_wire :: "item_complete \<Rightarrow> v1_item_complete" where
  "item_complete_to_wire item =
     \<lparr>w_ic_transfer_id = transfer_id_display (ic_transfer_id item),
      w_ic_item_id = item_id_display (ic_item_id item), w_ic_verified = ic_verified item,
      w_ic_final_path = (case ic_final_path item of Some p \<Rightarrow> rel_path_display p | None \<Rightarrow> [])\<rparr>"

definition item_complete_from_wire :: "v1_item_complete \<Rightarrow> (item_complete, transfer_wire_error) result" where
  "item_complete_from_wire w =
     (case map_err Wire_InvalidTransferId (transfer_id_from_str (w_ic_transfer_id w)) of
        Err e \<Rightarrow> Err e
      | Ok t \<Rightarrow>
        (case map_err Wire_InvalidItemId (item_id_new (w_ic_item_id w)) of
           Err e \<Rightarrow> Err e
         | Ok i \<Rightarrow>
           (case (if w_ic_final_path w = [] then Ok None
                  else map_err Wire_InvalidPath
                    (case rel_path_new (w_ic_final_path w) of Ok p \<Rightarrow> Ok (Some p) | Err e \<Rightarrow> Err e)) of
              Err e \<Rightarrow> Err e
            | Ok final_path \<Rightarrow>
                Ok \<lparr>ic_transfer_id = t, ic_item_id = i, ic_verified = w_ic_verified w,
                    ic_final_path = final_path\<rparr>)))"

definition flow_control_to_wire :: "flow_control \<Rightarrow> v1_flow_control" where
  "flow_control_to_wire fc =
     \<lparr>w_fc_transfer_id = transfer_id_display (fc_transfer_id fc),
      w_fc_max_inflight_chunks = fc_max_inflight_chunks fc,
      w_fc_reason = (case fc_reason fc of Some r \<Rightarrow> r | None \<Rightarrow> [])\<rparr>"

definition flow_control_from_wire :: "v1_flow_control \<Rightarrow> (flow_control, transfer_wire_error) result" where
  "flow_control_from_wire w =
     (case map_err Wire_InvalidTransferId (transfer_id_from_str (w_fc_transfer_id w)) of
        Err e \<Rightarrow> Err e
      | Ok t \<Rightarrow>
          Ok \<lparr>fc_transfer_id = t, fc_max_inflight_chunks = w_fc_max_inflight_chunks w,
              fc_reason = (if w_fc_reason w = [] then None else Some (w_fc_reason w))\<rparr>)"

section \<open>Framed messages\<close>

text \<open>
  Every encoder of the file is this function at its conversion and type code, and every decoder
  the next one.
\<close>

definition encode_message_frame ::
    "('w \<Rightarrow> u8 list) \<Rightarrow> ('a \<Rightarrow> 'w) \<Rightarrow> message_type \<Rightarrow> 'a \<Rightarrow> u32 \<Rightarrow> (u8 list, transfer_frame_error) result" where
  "encode_message_frame enc to_wire ty x max_frame_size =
     map_err TF_Framing (encode_frame (message_code ty) (enc (to_wire x)) max_frame_size)"

definition decode_message_frame ::
    "(u8 list \<Rightarrow> 'w option) \<Rightarrow> ('w \<Rightarrow> ('a, transfer_wire_error) result) \<Rightarrow> message_type \<Rightarrow> frame
      \<Rightarrow> ('a, transfer_frame_error) result" where
  "decode_message_frame dec from_wire ty frame =
     (let expected = message_code ty in
      if type_code frame \<noteq> expected then Err (TF_WrongMessageType expected (type_code frame))
      else case dec (frame_payload frame) of
        None \<Rightarrow> Err TF_Decode
      | Some wire \<Rightarrow> map_err TF_Wire (from_wire wire))"

text \<open>The codec of \<open>prost\<close> for the five messages.\<close>

record prost =
  enc_chunk_request :: "v1_chunk_request \<Rightarrow> u8 list"
  dec_chunk_request :: "u8 list \<Rightarrow> v1_chunk_request option"
  enc_chunk_rerequest :: "v1_chunk_rerequest \<Rightarrow> u8 list"
  dec_chunk_rerequest :: "u8 list \<Rightarrow> v1_chunk_rerequest option"
  enc_chunk_data :: "v1_chunk_data \<Rightarrow> u8 list"
  dec_chunk_data :: "u8 list \<Rightarrow> v1_chunk_data option"
  enc_item_complete :: "v1_item_complete \<Rightarrow> u8 list"
  dec_item_complete :: "u8 list \<Rightarrow> v1_item_complete option"
  enc_flow_control :: "v1_flow_control \<Rightarrow> u8 list"
  dec_flow_control :: "u8 list \<Rightarrow> v1_flow_control option"

definition encode_chunk_request_frame where
  "encode_chunk_request_frame P = encode_message_frame (enc_chunk_request P) chunk_request_to_wire Msg_ChunkRequest"

definition decode_chunk_request_frame where
  "decode_chunk_request_frame P = decode_message_frame (dec_chunk_request P) chunk_request_from_wire Msg_ChunkRequest"

definition encode_chunk_rerequest_frame where
  "encode_chunk_rerequest_frame P = encode_message_frame (enc_chunk_rerequest P) chunk_rerequest_to_wire Msg_ChunkRerequest"

definition decode_chunk_rerequest_frame where
  "decode_chunk_rerequest_frame P = decode_message_frame (dec_chunk_rerequest P) chunk_rerequest_from_wire Msg_ChunkRerequest"

definition encode_chunk_data_header_frame where
  "encode_chunk_data_header_frame P = encode_message_frame (enc_chunk_data P) chunk_data_header_to_wire Msg_ChunkData"

definition decode_chunk_data_header_frame where
  "decode_chunk_data_header_frame P = decode_message_frame (dec_chunk_data P) chunk_data_header_from_wire Msg_ChunkData"

definition encode_item_complete_frame where
  "encode_item_complete_frame P = encode_message_frame (enc_item_complete P) item_complete_to_wire Msg_ItemComplete"

definition decode_item_complete_frame where
  "decode_item_complete_frame P = decode_message_frame (dec_item_complete P) item_complete_from_wire Msg_ItemComplete"

definition encode_flow_control_frame where
  "encode_flow_control_frame P = encode_message_frame (enc_flow_control P) flow_control_to_wire Msg_FlowControl"

definition decode_flow_control_frame where
  "decode_flow_control_frame P = decode_message_frame (dec_flow_control P) flow_control_from_wire Msg_FlowControl"

section \<open>Round trips\<close>

locale wire_message =
  fixes to_wire :: "'a \<Rightarrow> 'w"
    and from_wire :: "'w \<Rightarrow> ('a, transfer_wire_error) result"
    and ok :: "'a \<Rightarrow> bool"
  assumes from_to: "ok x \<Longrightarrow> from_wire (to_wire x) = Ok x"
    and from_ok: "from_wire w = Ok x \<Longrightarrow> ok x"
begin

lemma to_wire_inject: "ok x \<Longrightarrow> ok y \<Longrightarrow> to_wire x = to_wire y \<longleftrightarrow> x = y"
  by (metis from_to result.inject(1))

lemma decode_ok: "decode_message_frame dec from_wire ty f = Ok x \<Longrightarrow> ok x"
  by (auto simp: decode_message_frame_def Let_def dest: from_ok split: if_splits option.splits)

lemma framed_roundtrip:
  assumes "ok x" and "dec (enc (to_wire x)) = Some (to_wire x)"
    and "encode_message_frame enc to_wire ty x limit = Ok wire"
  shows "\<exists>f. wire = frame_wire f \<and> frame_fits limit f \<and> type_code f = message_code ty \<and>
    next_frame (feed wire (frame_decoder_new limit)) = (frame_decoder_new limit, Ok (Some f)) \<and>
    decode_message_frame dec from_wire ty f = Ok x"
proof -
  let ?f = "\<lparr>type_code = message_code ty, frame_payload = enc (to_wire x)\<rparr>"
  have "encode_frame (type_code ?f) (frame_payload ?f) limit = Ok wire"
    using assms(3) by (simp add: encode_message_frame_def)
  then have w: "wire = frame_wire ?f" "frame_fits limit ?f" by (simp_all only: encode_frame_Ok)
  then have "next_frame (feed wire (frame_decoder_new limit)) = (frame_decoder_new limit, Ok (Some ?f))"
    using next_frame_whole [of "feed wire (frame_decoder_new limit)" ?f "[]"]
    by (simp add: feed_def frame_decoder_new_def)
  moreover have "decode_message_frame dec from_wire ty ?f = Ok x"
    using assms(1,2) by (simp add: decode_message_frame_def from_to)
  ultimately show ?thesis using w by (intro exI [of _ ?f]) simp
qed

end

text \<open>The messages the constructors and decoders build.\<close>

definition ids_ok :: "transfer_id \<Rightarrow> item_id \<Rightarrow> bool" where
  "ids_ok t i \<longleftrightarrow> uuid_v7 (transfer_id_bytes t) \<and> item_id_valid i"

definition chunk_request_ok :: "chunk_request \<Rightarrow> bool" where
  "chunk_request_ok r \<longleftrightarrow> ids_ok (cr_transfer_id r) (cr_item_id r) \<and> cr_count r \<noteq> 0"

definition chunk_rerequest_ok :: "chunk_rerequest \<Rightarrow> bool" where
  "chunk_rerequest_ok r \<longleftrightarrow> ids_ok (crr_transfer_id r) (crr_item_id r) \<and> crr_chunks r \<noteq> []"

definition chunk_data_header_ok :: "chunk_data_header \<Rightarrow> bool" where
  "chunk_data_header_ok h \<longleftrightarrow> ids_ok (cd_transfer_id h) (cd_item_id h) \<and>
     chunk_data_header_new (cd_transfer_id h) (cd_item_id h) (cd_chunk_index h) (cd_payload_len h)
       (cd_last h) (cd_offset_in_chunk h) = Ok h"

definition item_complete_ok :: "item_complete \<Rightarrow> bool" where
  "item_complete_ok c \<longleftrightarrow> ids_ok (ic_transfer_id c) (ic_item_id c) \<and>
     (case ic_final_path c of None \<Rightarrow> True | Some p \<Rightarrow> rel_path_new (rel_path_value p) = Ok p)"

definition flow_control_ok :: "flow_control \<Rightarrow> bool" where
  "flow_control_ok c \<longleftrightarrow> uuid_v7 (transfer_id_bytes (fc_transfer_id c)) \<and> fc_reason c \<noteq> Some []"

lemmas id_parsing = transfer_id_text.parse_disp transfer_id_text.disp_parse
  item_id_text.parse_disp item_id_text.disp_parse

lemma map_ChunkIndex_value [simp]: "map (ChunkIndex \<circ> chunk_value) xs = xs"
  by (intro map_idI) simp

lemma chunk_data_header_new_Ok:
  "chunk_data_header_new t i c n l off = Ok h \<Longrightarrow>
   h = \<lparr>cd_transfer_id = t, cd_item_id = i, cd_chunk_index = c, cd_payload_len = n, cd_last = l,
        cd_offset_in_chunk = off\<rparr>"
  by (auto simp: chunk_data_header_new_def split: if_splits result.splits)

interpretation cr_wire: wire_message chunk_request_to_wire chunk_request_from_wire chunk_request_ok
  by unfold_locales
    (auto simp: chunk_request_to_wire_def chunk_request_from_wire_def chunk_request_ok_def ids_ok_def
      id_parsing split: result.splits if_splits)

interpretation crr_wire: wire_message chunk_rerequest_to_wire chunk_rerequest_from_wire chunk_rerequest_ok
  by unfold_locales
    (auto simp: chunk_rerequest_to_wire_def chunk_rerequest_from_wire_def chunk_rerequest_ok_def ids_ok_def
      id_parsing split: result.splits if_splits)

interpretation cd_wire: wire_message chunk_data_header_to_wire chunk_data_header_from_wire chunk_data_header_ok
proof
  show "chunk_data_header_from_wire (chunk_data_header_to_wire x) = Ok x" if "chunk_data_header_ok x" for x
    using that by (simp add: chunk_data_header_ok_def ids_ok_def chunk_data_header_from_wire_def
        chunk_data_header_to_wire_def id_parsing)
  show "chunk_data_header_ok x" if w: "chunk_data_header_from_wire w = Ok x" for w x
  proof -
    obtain t i where "transfer_id_from_str (w_cd_transfer_id w) = Ok t" "item_id_new (w_cd_item_id w) = Ok i"
      and new: "chunk_data_header_new t i (ChunkIndex (w_cd_chunk_index w)) (w_cd_payload_len w)
          (w_cd_last w) (w_cd_offset_in_chunk w) = Ok x"
      using w by (auto simp: chunk_data_header_from_wire_def split: result.splits)
    then have "ids_ok t i" using id_parsing by (auto simp: ids_ok_def)
    then show ?thesis using new chunk_data_header_new_Ok [OF new] by (simp add: chunk_data_header_ok_def)
  qed
qed

interpretation ic_wire: wire_message item_complete_to_wire item_complete_from_wire item_complete_ok
proof
  show "item_complete_from_wire (item_complete_to_wire x) = Ok x" if "item_complete_ok x" for x
    using that
    by (cases "ic_final_path x")
      (auto simp: item_complete_ok_def ids_ok_def item_complete_from_wire_def item_complete_to_wire_def
        id_parsing rel_path_display_def rel_path_new_def [of "[]"] split: result.splits)
  show "item_complete_ok x" if "item_complete_from_wire w = Ok x" for w x
    using that id_parsing
    by (auto simp: item_complete_ok_def ids_ok_def item_complete_from_wire_def rel_path_new_Ok_iff
        split: result.splits if_splits)
qed

interpretation fc_wire: wire_message flow_control_to_wire flow_control_from_wire flow_control_ok
  by unfold_locales
    (auto simp: flow_control_to_wire_def flow_control_from_wire_def flow_control_ok_def id_parsing
      split: result.splits option.splits if_splits)

text \<open>What the sessions use of \<open>prost\<close>: a message that was encoded decodes to itself.\<close>

definition prost_ok :: "prost \<Rightarrow> bool" where
  "prost_ok P \<longleftrightarrow>
     (\<forall>w. dec_chunk_request P (enc_chunk_request P w) = Some w) \<and>
     (\<forall>w. dec_chunk_rerequest P (enc_chunk_rerequest P w) = Some w) \<and>
     (\<forall>w. dec_chunk_data P (enc_chunk_data P w) = Some w) \<and>
     (\<forall>w. dec_item_complete P (enc_item_complete P w) = Some w) \<and>
     (\<forall>w. dec_flow_control P (enc_flow_control P w) = Some w)"

text \<open>The first frame of some bytes, as a fresh decoder finds it.\<close>

definition first_frame :: "u32 \<Rightarrow> u8 list \<Rightarrow> (frame option, frame_error) result" where
  "first_frame limit wire = snd (next_frame (feed wire (frame_decoder_new limit)))"

text \<open>
  The data-plane messages survive the wire. For each of the five messages, a valid
  one that fits the agreed frame size is encoded to bytes whose first frame decodes, at the same
  limit, to exactly that message; and a decoder of one message never accepts the frame of
  another: the type byte decides before the payload is looked at.
\<close>

theorem data_messages_roundtrip:
  assumes "prost_ok P"
  shows "(chunk_request_ok r \<and> encode_chunk_request_frame P r limit = Ok wire \<longrightarrow>
      (\<exists>f. first_frame limit wire = Ok (Some f) \<and> decode_chunk_request_frame P f = Ok r \<and>
           \<not> is_ok (decode_chunk_data_header_frame P f))) \<and>
    (chunk_rerequest_ok rr \<and> encode_chunk_rerequest_frame P rr limit = Ok wire \<longrightarrow>
      (\<exists>f. first_frame limit wire = Ok (Some f) \<and> decode_chunk_rerequest_frame P f = Ok rr \<and>
           \<not> is_ok (decode_chunk_request_frame P f))) \<and>
    (chunk_data_header_ok h \<and> encode_chunk_data_header_frame P h limit = Ok wire \<longrightarrow>
      (\<exists>f. first_frame limit wire = Ok (Some f) \<and> decode_chunk_data_header_frame P f = Ok h \<and>
           \<not> is_ok (decode_chunk_request_frame P f))) \<and>
    (item_complete_ok c \<and> encode_item_complete_frame P c limit = Ok wire \<longrightarrow>
      (\<exists>f. first_frame limit wire = Ok (Some f) \<and> decode_item_complete_frame P f = Ok c \<and>
           \<not> is_ok (decode_flow_control_frame P f))) \<and>
    (flow_control_ok fc \<and> encode_flow_control_frame P fc limit = Ok wire \<longrightarrow>
      (\<exists>f. first_frame limit wire = Ok (Some f) \<and> decode_flow_control_frame P f = Ok fc \<and>
           \<not> is_ok (decode_item_complete_frame P f)))"
proof (intro conjI impI; elim conjE)
  note dec = assms [unfolded prost_ok_def]
  have other: "\<not> is_ok (decode_message_frame d fw ty f)" if "type_code f \<noteq> message_code ty" for d fw ty f
    using that by (simp add: decode_message_frame_def)
  show "\<exists>f. first_frame limit wire = Ok (Some f) \<and> decode_chunk_request_frame P f = Ok r \<and>
           \<not> is_ok (decode_chunk_data_header_frame P f)"
    if "chunk_request_ok r" "encode_chunk_request_frame P r limit = Ok wire"
    using cr_wire.framed_roundtrip [where dec = "dec_chunk_request P", OF that(1) _ that(2) [unfolded encode_chunk_request_frame_def]] dec
    by (auto simp: first_frame_def decode_chunk_request_frame_def decode_chunk_data_header_frame_def other)
  show "\<exists>f. first_frame limit wire = Ok (Some f) \<and> decode_chunk_rerequest_frame P f = Ok rr \<and>
           \<not> is_ok (decode_chunk_request_frame P f)"
    if "chunk_rerequest_ok rr" "encode_chunk_rerequest_frame P rr limit = Ok wire"
    using crr_wire.framed_roundtrip [where dec = "dec_chunk_rerequest P", OF that(1) _ that(2) [unfolded encode_chunk_rerequest_frame_def]] dec
    by (auto simp: first_frame_def decode_chunk_rerequest_frame_def decode_chunk_request_frame_def other)
  show "\<exists>f. first_frame limit wire = Ok (Some f) \<and> decode_chunk_data_header_frame P f = Ok h \<and>
           \<not> is_ok (decode_chunk_request_frame P f)"
    if "chunk_data_header_ok h" "encode_chunk_data_header_frame P h limit = Ok wire"
    using cd_wire.framed_roundtrip [where dec = "dec_chunk_data P", OF that(1) _ that(2) [unfolded encode_chunk_data_header_frame_def]] dec
    by (auto simp: first_frame_def decode_chunk_data_header_frame_def decode_chunk_request_frame_def other)
  show "\<exists>f. first_frame limit wire = Ok (Some f) \<and> decode_item_complete_frame P f = Ok c \<and>
           \<not> is_ok (decode_flow_control_frame P f)"
    if "item_complete_ok c" "encode_item_complete_frame P c limit = Ok wire"
    using ic_wire.framed_roundtrip [where dec = "dec_item_complete P", OF that(1) _ that(2) [unfolded encode_item_complete_frame_def]] dec
    by (auto simp: first_frame_def decode_item_complete_frame_def decode_flow_control_frame_def other)
  show "\<exists>f. first_frame limit wire = Ok (Some f) \<and> decode_flow_control_frame P f = Ok fc \<and>
           \<not> is_ok (decode_item_complete_frame P f)"
    if "flow_control_ok fc" "encode_flow_control_frame P fc limit = Ok wire"
    using fc_wire.framed_roundtrip [where dec = "dec_flow_control P", OF that(1) _ that(2) [unfolded encode_flow_control_frame_def]] dec
    by (auto simp: first_frame_def decode_item_complete_frame_def decode_flow_control_frame_def other)
qed

section \<open>A codec to run the model with\<close>

text \<open>
  A concrete codec with the property of \<open>prost_ok\<close>: each field is a number or a counted
  sequence of numbers, written in unary.
\<close>

definition put_nat :: "nat \<Rightarrow> u8 list" where
  "put_nat n = replicate n 1 @ [0]"

definition get_nat :: "u8 list \<Rightarrow> nat \<times> u8 list" where
  "get_nat bs = (length (takeWhile (\<lambda>b. b \<noteq> 0) bs), tl (dropWhile (\<lambda>b. b \<noteq> 0) bs))"

definition put_nats :: "nat list \<Rightarrow> u8 list" where
  "put_nats ns = put_nat (length ns) @ concat (map put_nat ns)"

fun get_many :: "nat \<Rightarrow> u8 list \<Rightarrow> nat list \<times> u8 list" where
  "get_many 0 bs = ([], bs)"
| "get_many (Suc k) bs = (case get_nat bs of (n, r) \<Rightarrow> case get_many k r of (ns, r') \<Rightarrow> (n # ns, r'))"

definition get_nats :: "u8 list \<Rightarrow> nat list \<times> u8 list" where
  "get_nats bs = (case get_nat bs of (k, r) \<Rightarrow> get_many k r)"

lemma get_put_nat [simp]: "get_nat (put_nat n @ r) = (n, r)"
  by (induction n) (auto simp: get_nat_def put_nat_def)

lemma get_put_many: "get_many (length ns) (concat (map put_nat ns) @ r) = (ns, r)"
  by (induction ns) simp_all

lemma get_put_nats [simp]: "get_nats (put_nats ns @ r) = (ns, r)"
  by (simp add: get_nats_def put_nats_def get_put_many)

lemmas get_put_nats_end [simp] = get_put_nats [where r = "[]", simplified]
lemmas get_put_nat_end [simp] = get_put_nat [where r = "[]", simplified]

definition unary_prost :: prost where
  "unary_prost =
    \<lparr>enc_chunk_request = (\<lambda>w. put_nats (w_cr_transfer_id w) @ put_nats (w_cr_item_id w) @
        put_nat (unat (w_cr_from_chunk w)) @ put_nat (unat (w_cr_count w))),
     dec_chunk_request = (\<lambda>bs. case get_nats bs of (t, r) \<Rightarrow> case get_nats r of (i, r) \<Rightarrow>
        case get_nat r of (c, r) \<Rightarrow> case get_nat r of (n, r) \<Rightarrow>
        Some \<lparr>w_cr_transfer_id = t, w_cr_item_id = i, w_cr_from_chunk = of_nat c, w_cr_count = of_nat n\<rparr>),
     enc_chunk_rerequest = (\<lambda>w. put_nats (w_crr_transfer_id w) @ put_nats (w_crr_item_id w) @
        put_nats (map unat (w_crr_chunks w))),
     dec_chunk_rerequest = (\<lambda>bs. case get_nats bs of (t, r) \<Rightarrow> case get_nats r of (i, r) \<Rightarrow>
        case get_nats r of (cs, r) \<Rightarrow>
        Some \<lparr>w_crr_transfer_id = t, w_crr_item_id = i, w_crr_chunks = map of_nat cs\<rparr>),
     enc_chunk_data = (\<lambda>w. put_nats (w_cd_transfer_id w) @ put_nats (w_cd_item_id w) @
        put_nat (unat (w_cd_chunk_index w)) @ put_nat (unat (w_cd_payload_len w)) @
        put_nat (if w_cd_last w then 1 else 0) @ put_nat (unat (w_cd_offset_in_chunk w))),
     dec_chunk_data = (\<lambda>bs. case get_nats bs of (t, r) \<Rightarrow> case get_nats r of (i, r) \<Rightarrow>
        case get_nat r of (c, r) \<Rightarrow> case get_nat r of (n, r) \<Rightarrow> case get_nat r of (l, r) \<Rightarrow>
        case get_nat r of (off, r) \<Rightarrow>
        Some \<lparr>w_cd_transfer_id = t, w_cd_item_id = i, w_cd_chunk_index = of_nat c,
              w_cd_payload_len = of_nat n, w_cd_last = (l = 1), w_cd_offset_in_chunk = of_nat off\<rparr>),
     enc_item_complete = (\<lambda>w. put_nats (w_ic_transfer_id w) @ put_nats (w_ic_item_id w) @
        put_nat (if w_ic_verified w then 1 else 0) @ put_nats (w_ic_final_path w)),
     dec_item_complete = (\<lambda>bs. case get_nats bs of (t, r) \<Rightarrow> case get_nats r of (i, r) \<Rightarrow>
        case get_nat r of (v, r) \<Rightarrow> case get_nats r of (p, r) \<Rightarrow>
        Some \<lparr>w_ic_transfer_id = t, w_ic_item_id = i, w_ic_verified = (v = 1), w_ic_final_path = p\<rparr>),
     enc_flow_control = (\<lambda>w. put_nats (w_fc_transfer_id w) @
        put_nat (unat (w_fc_max_inflight_chunks w)) @ put_nats (w_fc_reason w)),
     dec_flow_control = (\<lambda>bs. case get_nats bs of (t, r) \<Rightarrow> case get_nat r of (n, r) \<Rightarrow>
        case get_nats r of (s, r) \<Rightarrow>
        Some \<lparr>w_fc_transfer_id = t, w_fc_max_inflight_chunks = of_nat n, w_fc_reason = s\<rparr>)\<rparr>"

lemma map_of_nat_unat [simp]: "map (of_nat \<circ> unat) ws = ws" for ws :: "'a::len word list"
  by (intro map_idI) simp

lemma unary_prost_ok: "prost_ok unary_prost"
  by (simp add: prost_ok_def unary_prost_def)

definition sample_transfer_id :: transfer_id where
  "sample_transfer_id = TransferId [0,0,0,0,0,0,0x70,0,0x80,0,0,0,0,0,0,0]"

definition sample_item_id :: item_id where
  "sample_item_id = \<lparr>item_id_bytes = 97 # replicate 63 0, item_id_len = 1\<rparr>"

lemma sample_ids_ok: "ids_ok sample_transfer_id sample_item_id"
  unfolding ids_ok_def uuid_v7_def item_id_valid_def by code_simp

definition sample_request :: chunk_request where
  "sample_request = \<lparr>cr_transfer_id = sample_transfer_id, cr_item_id = sample_item_id, cr_from_chunk = ChunkIndex 3, cr_count = 2\<rparr>"

theorem data_messages_roundtrip_witness:
  "\<exists>wire f. encode_chunk_request_frame unary_prost sample_request 100000 = Ok wire \<and>
     first_frame 100000 wire = Ok (Some f) \<and> decode_chunk_request_frame unary_prost f = Ok sample_request"
proof -
  have "\<exists>wire. encode_chunk_request_frame unary_prost sample_request 100000 = Ok wire"
    by (simp add: encode_chunk_request_frame_def encode_message_frame_def encode_frame_def Let_def
        unary_prost_def chunk_request_to_wire_def sample_request_def transfer_id_display_def
        uuid_display_def hex2_def hex_digit_def item_id_display_def sample_item_id_def sample_transfer_id_def put_nats_def put_nat_def)
  then obtain wire where w: "encode_chunk_request_frame unary_prost sample_request 100000 = Ok wire" ..
  have "chunk_request_ok sample_request"
    using sample_ids_ok by (simp add: chunk_request_ok_def sample_request_def)
  with w show ?thesis
    using data_messages_roundtrip [OF unary_prost_ok, where r = sample_request and limit = 100000 and wire = wire]
    by blast
qed

end
