(* ===== verification/Hello_Wire.thy ===== *)
theory Hello_Wire
  imports Hello_Exchange Data_Wire
begin

text \<open>
  The wire form of the two messages of the Hello exchange (\<open>tradr-proto/src/hello.rs\<close>):
  conversion from and to the generated types, and the frames they travel in. The \<open>prost\<close> codec
  of the generated types is a parameter.
\<close>

section \<open>The generated types\<close>

record v1_device_info =
  w_di_device_id :: "u8 list"
  w_di_identity_pub :: "u8 list"
  w_di_agreement_pub :: "u8 list"
  w_di_display_name :: rstr
  w_di_platform :: i32
  w_di_capabilities :: u32

record v1_attestation =
  w_at_id_token :: rstr
  w_at_issuer :: rstr
  w_at_issued_at :: i64

record v1_key_binding =
  w_kb_agreement_pub :: "u8 list"
  w_kb_signature :: "u8 list"
  w_kb_not_after :: i64

record v1_hello =
  w_h_min_version :: u32
  w_h_max_version :: u32
  w_h_device :: "v1_device_info option"
  w_h_attestation :: "v1_attestation option"
  w_h_key_binding :: "v1_key_binding option"
  w_h_nonce :: "u8 list"

record v1_hello_ack =
  w_ha_negotiated_version :: u32
  w_ha_max_frame_size :: u32
  w_ha_nonce_signature :: "u8 list"
  w_ha_assigned_tier :: i32

text \<open>\<open>visible_shares\<close> is always written empty and never read, and is left out.\<close>

section \<open>Conversion\<close>

datatype hello_wire_error =
    MissingDevice
  | MissingAttestation
  | MissingKeyBinding
  | InvalidVersionRange version_range_error
  | InvalidIdentityPub public_key_point_error
  | InvalidAgreementPub public_key_point_error
  | InvalidKeyBindingAgreementPub public_key_point_error
  | InvalidNonce nat
  | InvalidAssignedTier trust_tier_error

definition peer_hello_from_wire :: "v1_hello \<Rightarrow> (peer_hello, hello_wire_error) result" where
  "peer_hello_from_wire m =
     try_then (map_err InvalidVersionRange (version_range_new (w_h_min_version m) (w_h_max_version m))) (\<lambda>versions.
     try_then (ok_or MissingDevice (w_h_device m)) (\<lambda>device.
     try_then (map_err InvalidIdentityPub (public_key_point_from_bytes (w_di_identity_pub device))) (\<lambda>identity_pub.
     try_then (map_err InvalidAgreementPub (public_key_point_from_bytes (w_di_agreement_pub device))) (\<lambda>agreement_pub.
     try_then (ok_or MissingAttestation (w_h_attestation m)) (\<lambda>attestation.
     try_then (ok_or MissingKeyBinding (w_h_key_binding m)) (\<lambda>kb.
     try_then (map_err InvalidKeyBindingAgreementPub (public_key_point_from_bytes (w_kb_agreement_pub kb))) (\<lambda>kb_agreement.
     if length (w_h_nonce m) \<noteq> HELLO_NONCE_LEN then Err (InvalidNonce (length (w_h_nonce m)))
     else Ok \<lparr>ph_versions = versions, ph_identity_pub = identity_pub, ph_agreement_pub = agreement_pub,
       ph_attestation_token = w_at_id_token attestation,
       ph_key_binding = \<lparr>kb_agreement_pub = kb_agreement, kb_signature = Signature (w_kb_signature kb), kb_not_after = UnixTime (w_kb_not_after kb)\<rparr>,
       ph_nonce = HelloNonce (w_h_nonce m), ph_capabilities = Capabilities (ucast (w_di_capabilities device)),
       ph_display_name = (case display_name_new (w_di_display_name device) of Ok n \<Rightarrow> Some n | Err _ \<Rightarrow> None)\<rparr>)))))))"

definition peer_hello_to_wire :: "peer_hello \<Rightarrow> v1_hello" where
  "peer_hello_to_wire h =
     \<lparr>w_h_min_version = vmin (ph_versions h), w_h_max_version = vmax (ph_versions h),
      w_h_device = Some \<lparr>w_di_device_id = [], w_di_identity_pub = point_bytes (ph_identity_pub h),
        w_di_agreement_pub = point_bytes (ph_agreement_pub h),
        w_di_display_name = (case ph_display_name h of Some n \<Rightarrow> display_name_str n | None \<Rightarrow> []),
        w_di_platform = 0, w_di_capabilities = ucast (capability_bits (ph_capabilities h))\<rparr>,
      w_h_attestation = Some \<lparr>w_at_id_token = ph_attestation_token h, w_at_issuer = [], w_at_issued_at = 0\<rparr>,
      w_h_key_binding = Some \<lparr>w_kb_agreement_pub = point_bytes (kb_agreement_pub (ph_key_binding h)),
        w_kb_signature = signature_bytes (kb_signature (ph_key_binding h)), w_kb_not_after = as_secs (kb_not_after (ph_key_binding h))\<rparr>,
      w_h_nonce = nonce_bytes (ph_nonce h)\<rparr>"

definition peer_hello_ack_from_wire :: "v1_hello_ack \<Rightarrow> (peer_hello_ack, hello_wire_error) result" where
  "peer_hello_ack_from_wire m =
     try_then (map_err InvalidAssignedTier (trust_tier_try_from (w_ha_assigned_tier m))) (\<lambda>tier.
     Ok \<lparr>pa_negotiated_version = w_ha_negotiated_version m, pa_max_frame_size = w_ha_max_frame_size m,
       pa_nonce_signature = Signature (w_ha_nonce_signature m), pa_assigned_tier = tier\<rparr>)"

definition peer_hello_ack_to_wire :: "peer_hello_ack \<Rightarrow> v1_hello_ack" where
  "peer_hello_ack_to_wire a =
     \<lparr>w_ha_negotiated_version = pa_negotiated_version a, w_ha_max_frame_size = pa_max_frame_size a,
      w_ha_nonce_signature = signature_bytes (pa_nonce_signature a), w_ha_assigned_tier = trust_tier_into (pa_assigned_tier a)\<rparr>"

section \<open>Frames\<close>

datatype hello_frame_error =
    HF_WrongMessageType u8 u8 \<comment> \<open>expected, got\<close>
  | HF_Framing frame_error
  | HF_Decode
  | HF_Wire hello_wire_error

record hello_prost =
  enc_hello :: "v1_hello \<Rightarrow> u8 list"
  dec_hello :: "u8 list \<Rightarrow> v1_hello option"
  enc_hello_ack :: "v1_hello_ack \<Rightarrow> u8 list"
  dec_hello_ack :: "u8 list \<Rightarrow> v1_hello_ack option"

definition encode_hello_frame :: "hello_prost \<Rightarrow> peer_hello \<Rightarrow> u32 \<Rightarrow> (u8 list, hello_frame_error) result" where
  "encode_hello_frame H hello max_frame_size =
     map_err HF_Framing (encode_frame (message_code Msg_Hello) (enc_hello H (peer_hello_to_wire hello)) max_frame_size)"

definition decode_hello_frame :: "hello_prost \<Rightarrow> frame \<Rightarrow> (peer_hello, hello_frame_error) result" where
  "decode_hello_frame H frame =
     (if type_code frame \<noteq> message_code Msg_Hello then Err (HF_WrongMessageType (message_code Msg_Hello) (type_code frame))
      else case dec_hello H (frame_payload frame) of
        None \<Rightarrow> Err HF_Decode
      | Some wire \<Rightarrow> map_err HF_Wire (peer_hello_from_wire wire))"

definition encode_hello_ack_frame :: "hello_prost \<Rightarrow> peer_hello_ack \<Rightarrow> u32 \<Rightarrow> (u8 list, hello_frame_error) result" where
  "encode_hello_ack_frame H ack max_frame_size =
     map_err HF_Framing (encode_frame (message_code Msg_HelloAck) (enc_hello_ack H (peer_hello_ack_to_wire ack)) max_frame_size)"

definition decode_hello_ack_frame :: "hello_prost \<Rightarrow> frame \<Rightarrow> (peer_hello_ack, hello_frame_error) result" where
  "decode_hello_ack_frame H frame =
     (if type_code frame \<noteq> message_code Msg_HelloAck then Err (HF_WrongMessageType (message_code Msg_HelloAck) (type_code frame))
      else case dec_hello_ack H (frame_payload frame) of
        None \<Rightarrow> Err HF_Decode
      | Some wire \<Rightarrow> map_err HF_Wire (peer_hello_ack_from_wire wire))"

section \<open>Round trips\<close>

text \<open>What a \<open>PeerHello\<close> of the native type can be: every field was validated when it was made.\<close>

definition peer_hello_ok :: "peer_hello \<Rightarrow> bool" where
  "peer_hello_ok h \<longleftrightarrow>
     version_range_new (vmin (ph_versions h)) (vmax (ph_versions h)) = Ok (ph_versions h) \<and>
     public_key_point_from_bytes (point_bytes (ph_identity_pub h)) = Ok (ph_identity_pub h) \<and>
     public_key_point_from_bytes (point_bytes (ph_agreement_pub h)) = Ok (ph_agreement_pub h) \<and>
     public_key_point_from_bytes (point_bytes (kb_agreement_pub (ph_key_binding h))) = Ok (kb_agreement_pub (ph_key_binding h)) \<and>
     length (nonce_bytes (ph_nonce h)) = HELLO_NONCE_LEN \<and>
     (case ph_display_name h of None \<Rightarrow> True | Some n \<Rightarrow> display_name_new (display_name_str n) = Ok n)"

lemma no_empty_display_name: "display_name_new [] = Err DisplayName_Empty"
  by (simp add: display_name_new_def validate_bounded_string_def)

lemma peer_hello_roundtrip:
  assumes "peer_hello_ok h"
  shows "peer_hello_from_wire (peer_hello_to_wire h) = Ok h"
proof -
  have "(case display_name_new (case ph_display_name h of Some n \<Rightarrow> display_name_str n | None \<Rightarrow> []) of Ok n \<Rightarrow> Some n | Err _ \<Rightarrow> None)
      = ph_display_name h"
  proof (cases "ph_display_name h")
    case None
    then show ?thesis by (simp add: no_empty_display_name)
  qed (use assms in \<open>simp add: peer_hello_ok_def\<close>)
  moreover have "ucast (ucast (b :: u16) :: u32) = b" for b by (rule bit_word_eqI) (auto simp: bit_simps)
  ultimately show ?thesis
    using assms by (cases h) (simp add: peer_hello_ok_def peer_hello_from_wire_def peer_hello_to_wire_def)
qed

lemma peer_hello_ack_roundtrip: "peer_hello_ack_from_wire (peer_hello_ack_to_wire a) = Ok a"
  by (cases a) (simp add: peer_hello_ack_from_wire_def peer_hello_ack_to_wire_def tier_wire.dec_enc)

lemma decoded_hello_ok: "decode_hello_frame H f = Ok h \<Longrightarrow> peer_hello_ok h"
  by (auto simp: decode_hello_frame_def peer_hello_from_wire_def peer_hello_ok_def version_range_new_def
      public_key_point_from_bytes_def display_name_new_Ok split: if_splits option.splits result.splits)

end
