(* ===== verification/Linking.thy ===== *)
theory Linking
  imports Hello_Exchange
begin

text \<open>
  Account linking (\<open>tradr-core/src/link.rs\<close> and \<open>fingerprint.rs\<close>,
  the derivations of \<open>tradr-identity/src/link.rs\<close>): the secrets and messages of an invite,
  its expiry, the derivation of a link's secret and id, and the words of a fingerprint.
\<close>

section \<open>Secrets and messages\<close>

abbreviation (input) "HALF_SECRET_LEN \<equiv> (16 :: nat)"
abbreviation (input) "LINK_SECRET_LEN \<equiv> (32 :: nat)"

datatype half_secret = HalfSecret (half_secret_bytes: "u8 list")
datatype link_secret = LinkSecret (link_secret_bytes: "u8 list")

definition half_secret_from_bytes :: "u8 list \<Rightarrow> (half_secret, link_error) result" where
  "half_secret_from_bytes bytes =
     (if length bytes = HALF_SECRET_LEN then Ok (HalfSecret bytes)
      else Err (LinkWrongLength HALF_SECRET_LEN (length bytes)))"

definition link_secret_from_bytes :: "u8 list \<Rightarrow> (link_secret, link_error) result" where
  "link_secret_from_bytes bytes =
     (if length bytes = LINK_SECRET_LEN then Ok (LinkSecret bytes)
      else Err (LinkWrongLength LINK_SECRET_LEN (length bytes)))"

record link_reply =
  lr_invite_id :: invite_id
  lr_identity_pub :: public_key_point
  lr_agreement_pub :: public_key_point
  lr_attestation_token :: rstr
  lr_half_secret :: half_secret
  lr_display_name :: "display_name option"

record invite =
  in_invite_id :: invite_id
  in_identity_pub :: public_key_point
  in_agreement_pub :: public_key_point
  in_attestation_token :: rstr
  in_half_secret :: half_secret
  in_expires_at :: unix_time
  in_display_name :: "display_name option"

record link_approve =
  la_invite_id :: invite_id
  la_link_id :: link_id

datatype link_decline_reason = Decline_UserDeclined | Decline_InviteExpired | Decline_VerificationFailed

datatype link_decline_reason_error = DeclineReason_Unspecified | DeclineReason_Unknown i32

definition link_decline_reason_try_from ::
    "i32 \<Rightarrow> (link_decline_reason, link_decline_reason_error) result" where
  "link_decline_reason_try_from v =
     (if v = 0 then Err DeclineReason_Unspecified
      else if v = 1 then Ok Decline_UserDeclined
      else if v = 2 then Ok Decline_InviteExpired
      else if v = 3 then Ok Decline_VerificationFailed
      else Err (DeclineReason_Unknown v))"

fun link_decline_reason_into :: "link_decline_reason \<Rightarrow> i32" where
  "link_decline_reason_into Decline_UserDeclined = 1"
| "link_decline_reason_into Decline_InviteExpired = 2"
| "link_decline_reason_into Decline_VerificationFailed = 3"

record link_decline =
  ld_invite_id :: invite_id
  ld_reason :: "link_decline_reason option"

interpretation decline_wire: wire_enum link_decline_reason_into link_decline_reason_try_from
    DeclineReason_Unknown DeclineReason_Unspecified
proof
  show "link_decline_reason_try_from (link_decline_reason_into x) = Ok x" for x
    by (cases x) (simp_all add: link_decline_reason_try_from_def)
qed (auto simp: link_decline_reason_try_from_def split: if_splits)

text \<open>\<open>i64::saturating_add\<close> and \<open>i64::try_from(u64)\<close>.\<close>

definition i64_saturating_add :: "i64 \<Rightarrow> i64 \<Rightarrow> i64" where
  "i64_saturating_add a b =
     (let s = sint a + sint b in
      if s \<ge> 2 ^ 63 then word_of_int (2 ^ 63 - 1)
      else if s < - (2 ^ 63) then word_of_int (- (2 ^ 63))
      else word_of_int s)"

definition is_expired :: "invite \<Rightarrow> unix_time \<Rightarrow> u64 \<Rightarrow> bool" where
  "is_expired iv now skew_secs =
     (let skew = (if unat skew_secs < 2 ^ 63 then skew_secs else word_of_int (2 ^ 63 - 1));
          limit = i64_saturating_add (as_secs (in_expires_at iv)) skew
      in sint (as_secs now) > sint limit)"

lemma sint_of_int_small: "- (2 ^ 63) \<le> n \<Longrightarrow> n < 2 ^ 63 \<Longrightarrow> sint (word_of_int n :: i64) = n"
  by (simp add: signed_of_int signed_take_bit_int_eq_self)

lemma sint_saturating_add:
  "sint (i64_saturating_add a b) = max (- (2 ^ 63)) (min (sint a + sint b) (2 ^ 63 - 1))"
  using sint_of_int_small [of "sint a + sint b"] sint_of_int_small [of "2 ^ 63 - 1"]
    sint_of_int_small [of "- (2 ^ 63)"]
  by (auto simp: i64_saturating_add_def Let_def min_def max_def)

text \<open>
  An invite's expiry is decided without wrap-around: it is expired exactly when now
  is later than the expiry plus the allowance, computed in the integers, where an allowance
  beyond the largest signed 64-bit number counts as that number; a sum that leaves the range of
  the clock never expires.
\<close>

theorem invite_expiry_exact:
  "is_expired iv now skew \<longleftrightarrow> sint (as_secs now) > sint (as_secs (in_expires_at iv)) + min (int (unat skew)) (2 ^ 63 - 1)"
proof -
  let ?e = "sint (as_secs (in_expires_at iv))" and ?n = "sint (as_secs now)"
  define k :: i64 where "k = (if unat skew < 2 ^ 63 then skew else word_of_int (2 ^ 63 - 1))"
  have k: "sint k = min (int (unat skew)) (2 ^ 63 - 1)"
  proof (cases "unat skew < 2 ^ 63")
    case True
    then have lt: "int (unat skew) < int (2 ^ 63)" by (simp only: of_nat_less_iff)
    moreover have "- (2 ^ 63) \<le> uint skew" by (rule order.trans [of _ 0]) simp_all
    ultimately have "sint skew = int (unat skew)"
      by (simp add: sint_uint signed_take_bit_int_eq_self)
    with True lt show ?thesis by (simp add: k_def)
  next
    case False
    then have "int (2 ^ 63) \<le> int (unat skew)" by (simp only: of_nat_le_iff not_less)
    with False show ?thesis using sint_of_int_small [of "2 ^ 63 - 1"] by (simp add: k_def min_def)
  qed
  have "is_expired iv now skew \<longleftrightarrow> ?n > sint (i64_saturating_add (as_secs (in_expires_at iv)) k)"
    by (simp add: is_expired_def k_def Let_def)
  also have "\<dots> \<longleftrightarrow> ?n > ?e + sint k"
  proof -
    have "0 \<le> sint k" by (simp add: k)
    then show ?thesis
      unfolding sint_saturating_add
      using sint_bounds [of "as_secs now"] sint_bounds [of "as_secs (in_expires_at iv)"]
      by (auto simp: min_def max_def)
  qed
  also have "\<dots> \<longleftrightarrow> ?n > ?e + min (int (unat skew)) (2 ^ 63 - 1)" by (simp only: k)
  finally show ?thesis .
qed

section \<open>Derivations\<close>

text \<open>\<open>blake3::derive_key\<close> is the function \<open>kdf\<close>: context, key material.\<close>

definition derive_link_secret ::
    "(rstr \<Rightarrow> u8 list \<Rightarrow> u8 list) \<Rightarrow> half_secret \<Rightarrow> half_secret \<Rightarrow> link_secret" where
  "derive_link_secret kdf half_a half_b =
     LinkSecret (kdf (lit ''tradr-link-v1'') (half_secret_bytes half_a @ half_secret_bytes half_b))"

definition derive_link_id :: "(u8 list \<Rightarrow> u8 list) \<Rightarrow> link_secret \<Rightarrow> link_id" where
  "derive_link_id hash secret = link_id_from_link_secret_digest (hash (link_secret_bytes secret))"

definition link_secret_slot :: "link_id \<Rightarrow> rstr" where
  "link_secret_slot i = lit ''link-'' @ link_id_display i"

subsection \<open>Fingerprints\<close>

unbundle bit_operations_syntax

abbreviation (input) "FINGERPRINT_WORD_COUNT \<equiv> (12 :: nat)"

text \<open>One turn of the loop of \<open>read_bits\<close>.\<close>

definition read_bit :: "u8 list \<Rightarrow> nat \<Rightarrow> u8" where
  "read_bit digest b = drop_bit (7 - b mod 8) (digest ! (b div 8)) AND 1"

fun read_bits_loop :: "u8 list \<Rightarrow> nat \<Rightarrow> nat \<Rightarrow> u16 \<Rightarrow> u16" where
  "read_bits_loop digest b 0 acc = acc"
| "read_bits_loop digest b (Suc n) acc =
     read_bits_loop digest (b + 1) n (push_bit 1 acc OR ucast (read_bit digest b))"

definition read_bits :: "u8 list \<Rightarrow> nat \<Rightarrow> u16" where
  "read_bits digest start = read_bits_loop digest start 11 0"

definition fingerprint_from_key_digest :: "u8 list \<Rightarrow> u16 list" where
  "fingerprint_from_key_digest digest = map (\<lambda>i. read_bits digest (i * 11)) [0..<FINGERPRINT_WORD_COUNT]"

definition device_fingerprint ::
    "(u8 list \<Rightarrow> u8 list) \<Rightarrow> public_key_point \<Rightarrow> public_key_point \<Rightarrow> u16 list" where
  "device_fingerprint hash identity_pub agreement_pub =
     fingerprint_from_key_digest
       (hash (str_bytes (lit ''tradr-fp-v1'') @ point_bytes identity_pub @ point_bytes agreement_pub))"

text \<open>The twelve words, from the vendored list of 2048.\<close>

definition words :: "rstr list \<Rightarrow> u16 list \<Rightarrow> rstr list" where
  "words word_list indices = map (\<lambda>i. word_list ! unat i) indices"

text \<open>The bits of a digest as one big-endian bit string, and the number 11 of them denote.\<close>

definition digest_bit :: "u8 list \<Rightarrow> nat \<Rightarrow> bool" where
  "digest_bit digest b = bit (digest ! (b div 8)) (7 - b mod 8)"

fun bits_value :: "bool list \<Rightarrow> nat" where
  "bits_value [] = 0"
| "bits_value (b # bs) = (if b then 2 ^ length bs else 0) + bits_value bs"

lemma bits_value_snoc: "bits_value (bs @ [b]) = 2 * bits_value bs + of_bool b"
  by (induction bs) auto

lemma bits_value_less: "bits_value bs < 2 ^ length bs"
  by (induction bs) auto

lemma unat_read_bit: "unat (read_bit digest b) = of_bool (digest_bit digest b)"
  by (simp add: read_bit_def digest_bit_def and_one_eq bit_iff_odd_drop_bit odd_iff_mod_2_eq_one)

lemma even_or_one: "a * 2 OR 1 = a * 2 + 1" for a :: u16
  by (simp add: or_one_eq)

lemma read_bits_loop_value:
  assumes "unat acc = bits_value bs" and "length bs + n \<le> 15"
  shows "unat (read_bits_loop digest b n acc) = bits_value (bs @ map (digest_bit digest) [b..<b + n])"
  using assms
proof (induction digest b n acc arbitrary: bs rule: read_bits_loop.induct)
  case (2 digest b n acc)
  let ?bit = "ucast (read_bit digest b) :: u16"
  have bit: "unat ?bit = of_bool (digest_bit digest b)"
    by (simp add: unat_ucast_widen unat_read_bit)
  have lt: "2 * unat acc + 1 < 2 ^ 16"
  proof -
    have "unat acc < 2 ^ length bs" using 2 bits_value_less [of bs] by simp
    also have "\<dots> \<le> 2 ^ 14" using 2 by (intro power_increasing) auto
    finally show ?thesis by simp
  qed
  have "?bit = of_bool (digest_bit digest b)"
    using bit by (simp add: word_unat_eq_iff split: if_splits)
  then have "push_bit 1 acc OR ?bit = acc * 2 + of_bool (digest_bit digest b)"
    by (simp add: push_bit_eq_mult even_or_one)
  then have "unat (push_bit 1 acc OR ?bit) = 2 * unat acc + of_bool (digest_bit digest b)"
    using lt by (simp add: unat_word_ariths)
  then have "unat (push_bit 1 acc OR ?bit) = bits_value (bs @ [digest_bit digest b])"
    using 2 by (simp add: bits_value_snoc)
  from 2(1) [OF this] 2(3) show ?case by (simp add: upt_rec [of b])
qed simp

lemma read_bits_value: "unat (read_bits digest s) = bits_value (map (digest_bit digest) [s..<s + 11])"
  using read_bits_loop_value [of 0 "[]" 11 digest s] by (simp add: read_bits_def)

lemma bits_value_inject: "length bs = length cs \<Longrightarrow> bits_value bs = bits_value cs \<Longrightarrow> bs = cs"
proof (induction bs cs rule: list_induct2)
  case (Cons b bs c cs)
  then show ?case
    using bits_value_less [of bs] bits_value_less [of cs] by (auto split: if_splits)
qed simp

text \<open>
  A fingerprint is exactly the first 132 bits of the digest. Each of its twelve
  indices is below 2048, so it names a word of the list, and two digests render the same twelve
  words from a list without repetitions if and only if they agree on their first 132 bits.
\<close>

theorem fingerprint_faithful:
  assumes "length word_list = 2048" and "distinct word_list"
  shows "(\<forall>i \<in> set (fingerprint_from_key_digest digest). unat i < 2048) \<and>
    (words word_list (fingerprint_from_key_digest d) = words word_list (fingerprint_from_key_digest e)
      \<longleftrightarrow> (\<forall>b < 132. digest_bit d b = digest_bit e b))"
proof (intro conjI)
  have bound: "unat (read_bits x s) < 2048" for x s
    using bits_value_less [of "map (digest_bit x) [s..<s + 11]"] by (simp add: read_bits_value)
  then show "\<forall>i \<in> set (fingerprint_from_key_digest digest). unat i < 2048"
    by (auto simp: fingerprint_from_key_digest_def)
  have word: "word_list ! unat (read_bits d s) = word_list ! unat (read_bits e s) \<longleftrightarrow>
      (\<forall>b \<in> {s..<s + 11}. digest_bit d b = digest_bit e b)" for s
  proof -
    have "word_list ! unat (read_bits d s) = word_list ! unat (read_bits e s) \<longleftrightarrow>
        unat (read_bits d s) = unat (read_bits e s)"
      using assms bound by (simp add: nth_eq_iff_index_eq)
    also have "\<dots> \<longleftrightarrow> map (digest_bit d) [s..<s + 11] = map (digest_bit e) [s..<s + 11]"
      unfolding read_bits_value
      using bits_value_inject [of "map (digest_bit d) [s..<s + 11]" "map (digest_bit e) [s..<s + 11]"]
      by (metis length_map)
    finally show ?thesis by auto
  qed
  have "words word_list (fingerprint_from_key_digest d) = words word_list (fingerprint_from_key_digest e)
      \<longleftrightarrow> (\<forall>i < 12. \<forall>b \<in> {i * 11..<i * 11 + 11}. digest_bit d b = digest_bit e b)"
    by (simp only: words_def fingerprint_from_key_digest_def map_map comp_def word flip: word) auto
  also have "\<dots> \<longleftrightarrow> (\<forall>b < 132. digest_bit d b = digest_bit e b)"
  proof
    assume *: "\<forall>i < 12. \<forall>b \<in> {i * 11..<i * 11 + 11}. digest_bit d b = digest_bit e b"
    show "\<forall>b < 132. digest_bit d b = digest_bit e b"
    proof (rule allI, rule impI)
      fix b :: nat assume "b < 132"
      then have "b div 11 < 12" "b \<in> {b div 11 * 11..<b div 11 * 11 + 11}" by auto
      with * show "digest_bit d b = digest_bit e b" by blast
    qed
  qed auto
  finally show "words word_list (fingerprint_from_key_digest d) = words word_list (fingerprint_from_key_digest e)
      \<longleftrightarrow> (\<forall>b < 132. digest_bit d b = digest_bit e b)" .
qed

theorem fingerprint_faithful_witness:
  "length (map (\<lambda>i. [i]) [0..<2048]) = 2048 \<and>
   words (map (\<lambda>i. [i]) [0..<2048]) (fingerprint_from_key_digest (replicate 32 0)) \<noteq>
   words (map (\<lambda>i. [i]) [0..<2048]) (fingerprint_from_key_digest (128 # replicate 31 0))"
proof -
  have l: "length (map (\<lambda>i. [i]) [0..<2048]) = 2048" "distinct (map (\<lambda>i. [i]) [0..<2048])"
    by (simp_all add: distinct_map inj_on_def)
  have "digest_bit (replicate 32 0) 0 \<noteq> digest_bit (128 # replicate 31 0) 0"
    by (simp add: digest_bit_def)
  then show ?thesis using l(1) fingerprint_faithful [OF l, of "[]" "replicate 32 0" "128 # replicate 31 0"]
    by auto
qed

end
