(* ===== verification/Link_Registry.thy ===== *)
theory Link_Registry
  imports Linking
begin

text \<open>
  The registry of links (\<open>tradr-identity/src/link.rs\<close>): the accounts this device has
  linked with, which the attestation policy grants the tier \<open>Linked\<close>. A link is two
  things on disk, a secret in the secret store and a record in \<open>links.json\<close>, written by
  calls that can each fail; the state below holds both next to the links in memory, and the
  lemmas say what every failure leaves behind. The JSON text of the file is another crate's:
  the file is its list of records, or missing, unreadable or not in that shape.
\<close>

section \<open>Links and their records\<close>

record link =
  l_link_id :: link_id
  l_peer_account :: account_id
  l_peer_label :: "rstr option"
  l_created_at :: unix_time
  l_full_access :: bool

definition link_new :: "link_id \<Rightarrow> account_id \<Rightarrow> unix_time \<Rightarrow> link" where
  "link_new i account created =
     \<lparr>l_link_id = i, l_peer_account = account, l_peer_label = None, l_created_at = created,
      l_full_access = False\<rparr>"

definition with_label :: "rstr \<Rightarrow> link \<Rightarrow> link" where
  "with_label label l = l\<lparr>l_peer_label := Some label\<rparr>"

definition with_full_access :: "bool \<Rightarrow> link \<Rightarrow> link" where
  "with_full_access allowed l = l\<lparr>l_full_access := allowed\<rparr>"

record link_record =
  rec_link_id :: rstr
  rec_peer_iss :: rstr
  rec_peer_sub :: rstr
  rec_peer_label :: "rstr option"
  rec_created_at :: i64
  rec_full_access :: bool

datatype link_registry_error =
    Registry_Malformed
  | AccountAlreadyLinked
  | DuplicateLinkId
  | SecretMismatch
  | UnknownLink
  | Registry_Secret secret_store_error
  | SecretRollbackFailed secret_store_error \<comment> \<open>after a record write that failed\<close>
  | Registry_Io

definition link_to_record :: "link \<Rightarrow> link_record" where
  "link_to_record l =
     \<lparr>rec_link_id = link_id_display (l_link_id l), rec_peer_iss = account_iss (l_peer_account l),
      rec_peer_sub = account_sub (l_peer_account l), rec_peer_label = l_peer_label l,
      rec_created_at = as_secs (l_created_at l), rec_full_access = l_full_access l\<rparr>"

definition link_from_record :: "link_record \<Rightarrow> (link, link_registry_error) result" where
  "link_from_record r =
     (case link_id_from_str (rec_link_id r) of
        Err _ \<Rightarrow> Err Registry_Malformed
      | Ok i \<Rightarrow>
          let l = with_full_access (rec_full_access r)
                    (link_new i \<lparr>account_iss = rec_peer_iss r, account_sub = rec_peer_sub r\<rparr>
                      (UnixTime (rec_created_at r)))
          in Ok (case rec_peer_label r of None \<Rightarrow> l | Some label \<Rightarrow> with_label label l))"

datatype link_file = NoFile | Unreadable | NotJson | Records "link_record list"

fun load_loop :: "link_record list \<Rightarrow> link list \<Rightarrow> (link list, link_registry_error) result" where
  "load_loop [] links = Ok links"
| "load_loop (r # rs) links =
     (case link_from_record r of
        Err e \<Rightarrow> Err e
      | Ok l \<Rightarrow>
          if l_link_id l \<in> l_link_id ` set links then Err Registry_Malformed
          else if l_peer_account l \<in> l_peer_account ` set links then Err Registry_Malformed
          else load_loop rs (links @ [l]))"

fun registry_load :: "link_file \<Rightarrow> (link list, link_registry_error) result" where
  "registry_load NoFile = load_loop [] []"
| "registry_load Unreadable = Err Registry_Io"
| "registry_load NotJson = Err Registry_Malformed"
| "registry_load (Records rs) = load_loop rs []"

section \<open>The registry\<close>

text \<open>The links in memory, \<open>links.json\<close>, and the directory of the secret store.\<close>

record link_world =
  lw_links :: "link list"
  lw_file :: link_file
  lw_secrets :: file_dir

definition linked_accounts_of :: "link_world \<Rightarrow> account_id list" where
  "linked_accounts_of w = map l_peer_account (lw_links w)"

definition full_access_accounts :: "link_world \<Rightarrow> account_id list" where
  "full_access_accounts w = map l_peer_account (filter l_full_access (lw_links w))"

definition find_link :: "link_id \<Rightarrow> link_world \<Rightarrow> link option" where
  "find_link i w = List.find (\<lambda>l. l_link_id l = i) (lw_links w)"

text \<open>\<open>persist\<close>: the new file is renamed over the old one, or nothing changes.\<close>

definition persist_links :: "bool \<Rightarrow> link list \<Rightarrow> link_file \<Rightarrow> link_file \<times> (unit, link_registry_error) result" where
  "persist_links fails links file =
     (if fails then (file, Err Registry_Io) else (Records (map link_to_record links), Ok ()))"

text \<open>
  The environment of one operation: the process id in temporary names, whether the record file
  can be written, and the faults of the store and remove calls of the secret store.
\<close>

record link_env =
  env_pid :: rstr
  env_persist_fails :: bool
  env_store :: io_faults
  env_remove :: io_faults
  env_load :: io_faults

definition registry_add ::
    "(u8 list \<Rightarrow> u8 list) \<Rightarrow> link_env \<Rightarrow> link \<Rightarrow> link_secret \<Rightarrow> link_world \<Rightarrow> link_world \<times> (unit, link_registry_error) result" where
  "registry_add hash E l secret w =
     (if l_peer_account l \<in> l_peer_account ` set (lw_links w) then (w, Err AccountAlreadyLinked)
      else if l_link_id l \<in> l_link_id ` set (lw_links w) then (w, Err DuplicateLinkId)
      else if derive_link_id hash secret \<noteq> l_link_id l then (w, Err SecretMismatch)
      else
        let slot = link_secret_slot (l_link_id l) in
        case file_store_store (env_pid E) (env_store E) slot (link_secret_bytes secret) (lw_secrets w) of
          (d, Err e) \<Rightarrow> (w\<lparr>lw_secrets := d\<rparr>, Err (Registry_Secret e))
        | (d, Ok _) \<Rightarrow>
            let prospective = lw_links w @ [l] in
            (case persist_links (env_persist_fails E) prospective (lw_file w) of
               (file, Err persist_err) \<Rightarrow>
                 (case file_store_remove (env_remove E) slot d of
                    (d', Ok _) \<Rightarrow> (w\<lparr>lw_file := file, lw_secrets := d'\<rparr>, Err persist_err)
                  | (d', Err discard) \<Rightarrow>
                      (w\<lparr>lw_file := file, lw_secrets := d'\<rparr>, Err (SecretRollbackFailed discard)))
             | (file, Ok _) \<Rightarrow>
                 (w\<lparr>lw_links := prospective, lw_file := file, lw_secrets := d\<rparr>, Ok ())))"

definition registry_remove ::
    "link_env \<Rightarrow> link_id \<Rightarrow> link_world \<Rightarrow> link_world \<times> (unit, link_registry_error) result" where
  "registry_remove E i w =
     (case position (\<lambda>l. l_link_id l = i) (lw_links w) of
        None \<Rightarrow> (w, Err UnknownLink)
      | Some index \<Rightarrow>
        (case file_store_remove (env_remove E) (link_secret_slot i) (lw_secrets w) of
           (d, Err e) \<Rightarrow> (w\<lparr>lw_secrets := d\<rparr>, Err (Registry_Secret e))
         | (d, Ok _) \<Rightarrow>
             let prospective = remove_at index (lw_links w) in
             (case persist_links (env_persist_fails E) prospective (lw_file w) of
                (file, Err e) \<Rightarrow> (w\<lparr>lw_file := file, lw_secrets := d\<rparr>, Err e)
              | (file, Ok _) \<Rightarrow> (w\<lparr>lw_links := prospective, lw_file := file, lw_secrets := d\<rparr>, Ok ()))))"

definition registry_link_secret ::
    "link_env \<Rightarrow> link_id \<Rightarrow> link_world \<Rightarrow> (link_secret option, link_registry_error) result" where
  "registry_link_secret E i w =
     (if i \<notin> l_link_id ` set (lw_links w) then Err UnknownLink
      else case file_store_load (env_load E) (link_secret_slot i) (lw_secrets w) of
        Err e \<Rightarrow> Err (Registry_Secret e)
      | Ok None \<Rightarrow> Ok None
      | Ok (Some bytes) \<Rightarrow>
          (case link_secret_from_bytes bytes of
             Err _ \<Rightarrow> Err Registry_Malformed
           | Ok s \<Rightarrow> Ok (Some s)))"

definition registry_set_full_access ::
    "link_env \<Rightarrow> link_id \<Rightarrow> bool \<Rightarrow> link_world \<Rightarrow> link_world \<times> (unit, link_registry_error) result" where
  "registry_set_full_access E i allowed w =
     (case position (\<lambda>l. l_link_id l = i) (lw_links w) of
        None \<Rightarrow> (w, Err UnknownLink)
      | Some index \<Rightarrow>
          let prospective = (lw_links w)[index := (lw_links w ! index)\<lparr>l_full_access := allowed\<rparr>] in
          (case persist_links (env_persist_fails E) prospective (lw_file w) of
             (file, Err e) \<Rightarrow> (w\<lparr>lw_file := file\<rparr>, Err e)
           | (file, Ok _) \<Rightarrow> (w\<lparr>lw_links := prospective, lw_file := file\<rparr>, Ok ())))"

section \<open>The invariant\<close>

definition links_ok :: "link list \<Rightarrow> bool" where
  "links_ok ls \<longleftrightarrow> distinct (map l_link_id ls) \<and> distinct (map l_peer_account ls) \<and>
     (\<forall>l \<in> set ls. length (link_id_bytes (l_link_id l)) = LINK_ID_LEN)"

lemma link_record_round_trip:
  assumes "length (link_id_bytes (l_link_id l)) = LINK_ID_LEN"
  shows "link_from_record (link_to_record l) = Ok l"
  using link_id_text.parse_disp [OF assms]
  by (cases l) (auto simp: link_from_record_def link_to_record_def link_new_def with_label_def
      with_full_access_def Let_def split: option.splits)

lemma load_loop_records:
  "links_ok (ls @ ms) \<Longrightarrow> load_loop (map link_to_record ms) ls = Ok (ls @ ms)"
proof (induction ms arbitrary: ls)
  case (Cons m ms)
  have "load_loop (map link_to_record ms) (ls @ [m]) = Ok ((ls @ [m]) @ ms)"
    using Cons.prems by (intro Cons.IH) simp
  with Cons.prems link_record_round_trip [of m] show ?case
    by (auto simp: links_ok_def)
qed simp

lemma load_loop_ok: "links_ok ls \<Longrightarrow> load_loop rs ls = Ok ls' \<Longrightarrow> links_ok ls'"
proof (induction rs ls rule: load_loop.induct)
  case (2 r rs ls)
  have valid: "length (link_id_bytes (l_link_id l)) = 16" if "link_from_record r = Ok l" for l
    using that link_id_text.disp_parse [of "rec_link_id r"]
    by (auto simp: link_from_record_def link_new_def with_label_def with_full_access_def Let_def
        split: result.splits option.splits)
  from 2 show ?case by (auto simp: links_ok_def valid split: result.splits if_splits)
qed simp

text \<open>A world is in step with its file when a restart would read the links it holds.\<close>

definition world_ok :: "link_world \<Rightarrow> bool" where
  "world_ok w \<longleftrightarrow> links_ok (lw_links w) \<and> registry_load (lw_file w) = Ok (lw_links w)"

lemma world_ok_persist:
  "links_ok ls \<Longrightarrow> world_ok (w\<lparr>lw_links := ls, lw_file := Records (map link_to_record ls), lw_secrets := d\<rparr>)"
  using load_loop_records [of "[]" ls] by (simp add: world_ok_def)

text \<open>The slot a link's secret lives under is always one the store accepts.\<close>

lemma link_slot_valid: "validate_slot (link_secret_slot i) = Ok ()"
proof -
  have hex: "bare_byte (of_nat (hex_digit n))" "hex_digit n < 128" if "n < 16" for n
    using that by (auto simp: bare_byte_def hex_digit_def is_ascii_digit_def is_ascii_lowercase_def unat_of_nat)
  have nib: "unat y div 16 < 16" for y :: u8 using unat_less [of y] by simp
  have "list_all bare_byte (str_bytes (link_id_display i))"
    using nib by (auto simp: link_id_display_def list_all_iff str_bytes_def hex2_def intro!: hex)
  then show ?thesis
    by (simp add: validate_slot_def link_secret_slot_def bare_byte_def is_ascii_lowercase_def)
qed

lemma link_slot_inject:
  assumes "length (link_id_bytes i) = LINK_ID_LEN" and "length (link_id_bytes j) = LINK_ID_LEN"
  shows "link_secret_slot i = link_secret_slot j \<longleftrightarrow> i = j"
  using link_id_text.disp_inject [OF assms] by (simp add: link_secret_slot_def)

text \<open>
  Property C23. Adding a link is all or nothing. It succeeds only for an account and an id that are
  new and a secret that derives the id, and then the link is in memory and in the file and its
  secret is in the store. On every error the links in memory and the file are as before and so is
  every slot but the one of the new link: a link that is refused, because the account or the id is
  taken or the secret does not derive the id, leaves the whole registry untouched; when the secret
  could not be stored every slot is as before; when the record could not be written the new slot is
  empty, or still holds the new secret if taking it back failed too, which the error says.
\<close>

theorem registry_add_all_or_nothing:
  assumes "registry_add hash E l secret w = (w', r)"
  shows "let slot = link_secret_slot (l_link_id l);
             refused = l_peer_account l \<in> set (linked_accounts_of w) \<or> l_link_id l \<in> l_link_id ` set (lw_links w) \<or>
               derive_link_id hash secret \<noteq> l_link_id l
    in case r of
      Ok _ \<Rightarrow>
        \<not> refused \<and> lw_links w' = lw_links w @ [l] \<and>
        lw_file w' = Records (map link_to_record (lw_links w @ [l])) \<and>
        dir_slot (lw_secrets w') = (dir_slot (lw_secrets w))(slot \<mapsto> link_secret_bytes secret)
    | Err e \<Rightarrow>
        lw_links w' = lw_links w \<and> lw_file w' = lw_file w \<and>
        (if refused then w' = w \<and> e \<in> {AccountAlreadyLinked, DuplicateLinkId, SecretMismatch}
         else case e of
           Registry_Secret _ \<Rightarrow> dir_slot (lw_secrets w') = dir_slot (lw_secrets w)
         | Registry_Io \<Rightarrow> dir_slot (lw_secrets w') = (dir_slot (lw_secrets w))(slot := None)
         | SecretRollbackFailed _ \<Rightarrow> dir_slot (lw_secrets w') = (dir_slot (lw_secrets w))(slot \<mapsto> link_secret_bytes secret)
         | _ \<Rightarrow> False)"
proof -
  let ?slot = "link_secret_slot (l_link_id l)"
  let ?refused = "l_peer_account l \<in> set (linked_accounts_of w) \<or> l_link_id l \<in> l_link_id ` set (lw_links w) \<or>
    derive_link_id hash secret \<noteq> l_link_id l"
  obtain d s where s: "file_store_store (env_pid E) (env_store E) ?slot (link_secret_bytes secret)
      (lw_secrets w) = (d, s)" by force
  obtain d' q where q: "file_store_remove (env_remove E) ?slot d = (d', q)" by force
  note defs = registry_add_def Let_def s q persist_links_def linked_accounts_of_def
  show ?thesis
  proof (cases ?refused)
    case True
    then have "w' = w \<and> (\<exists>e \<in> {AccountAlreadyLinked, DuplicateLinkId, SecretMismatch}. r = Err e)"
      using assms by (auto simp: defs split: if_splits)
    with True show ?thesis by (auto simp: Let_def split: result.split)
  next
    case False
    show ?thesis
    proof (cases s)
      case (Err x)
      then have "dir_slot d = dir_slot (lw_secrets w)" using fs.store_fails s by metis
      then show ?thesis using assms False Err by (auto simp: defs)
    next
      case (Ok u)
      then have d: "dir_slot d = (dir_slot (lw_secrets w))(?slot \<mapsto> link_secret_bytes secret)"
        using fs.store_writes s by (metis unit.exhaust)
      have "dir_slot d' = (case q of Ok _ \<Rightarrow> (dir_slot (lw_secrets w))(?slot := None) | Err _ \<Rightarrow> dir_slot d)"
        using fs.remove_clears [of "env_remove E" ?slot d] fs.remove_fails [of "env_remove E" ?slot d] q d by (auto split: result.split)
      then show ?thesis using assms False Ok d by (auto simp: defs split: if_splits result.splits)
    qed
  qed
qed

text \<open>Two accounts that meet the registry's conditions, for the witnesses.\<close>

definition sample_link :: link where
  "sample_link = link_new (LinkId (replicate 16 5)) \<lparr>account_iss = lit ''i'', account_sub = lit ''s''\<rparr> (UnixTime 1)"

definition sample_world :: link_world where
  "sample_world = \<lparr>lw_links = [], lw_file = NoFile, lw_secrets = \<lparr>files = Map.empty, next_temp = 0\<rparr>\<rparr>"

definition sample_env :: "bool \<Rightarrow> link_env" where
  "sample_env fails = \<lparr>env_pid = [], env_persist_fails = fails, env_store = no_faults,
     env_remove = no_faults, env_load = no_faults\<rparr>"

lemma sample_add:
  "\<exists>w'. registry_add (\<lambda>b. b) (sample_env fails) sample_link (LinkSecret (replicate 32 5)) sample_world
    = (w', if fails then Err Registry_Io else Ok ())"
  using link_slot_valid [of "LinkId (replicate 16 5)"]
  by (simp add: registry_add_def sample_world_def sample_env_def sample_link_def link_new_def
      derive_link_id_def link_id_from_link_secret_digest_def file_store_store_def no_faults_def
      Let_def persist_links_def file_store_remove_def numeral_eq_Suc)

theorem registry_add_all_or_nothing_witness:
  "(\<exists>w'. registry_add (\<lambda>b. b) (sample_env True) sample_link (LinkSecret (replicate 32 5)) sample_world
      = (w', Err Registry_Io) \<and> lw_links w' = [] \<and> dir_slot (lw_secrets w') = dir_slot (lw_secrets sample_world)) \<and>
   (\<exists>w' w'' e. registry_add (\<lambda>b. b) (sample_env False) sample_link (LinkSecret (replicate 32 5)) sample_world = (w', Ok ()) \<and>
      registry_add (\<lambda>b. b) (sample_env False) sample_link (LinkSecret (replicate 32 5)) w' = (w'', Err e) \<and> w'' = w' \<and>
      dir_slot (lw_secrets w') (link_secret_slot (l_link_id sample_link)) = Some (replicate 32 5))"
proof
  obtain w' where a: "registry_add (\<lambda>b. b) (sample_env True) sample_link (LinkSecret (replicate 32 5))
      sample_world = (w', Err Registry_Io)"
    using sample_add [of True] by auto
  have new: "\<not> (l_peer_account sample_link \<in> set (linked_accounts_of sample_world) \<or>
      l_link_id sample_link \<in> l_link_id ` set (lw_links sample_world) \<or>
      derive_link_id (\<lambda>b. b) (LinkSecret (replicate 32 5)) \<noteq> l_link_id sample_link)"
    by (simp add: sample_world_def linked_accounts_of_def sample_link_def link_new_def derive_link_id_def
        link_id_from_link_secret_digest_def numeral_eq_Suc)
  have "dir_slot (lw_secrets sample_world) (link_secret_slot (l_link_id sample_link)) = None" "lw_links sample_world = []"
    by (simp_all add: sample_world_def dir_slot_def)
  then show "\<exists>w'. registry_add (\<lambda>b. b) (sample_env True) sample_link (LinkSecret (replicate 32 5)) sample_world
      = (w', Err Registry_Io) \<and> lw_links w' = [] \<and> dir_slot (lw_secrets w') = dir_slot (lw_secrets sample_world)"
    using a registry_add_all_or_nothing [OF a] new by (auto simp: Let_def fun_upd_idem)
  obtain v where v: "registry_add (\<lambda>b. b) (sample_env False) sample_link (LinkSecret (replicate 32 5)) sample_world = (v, Ok ())"
    using sample_add [of False] by auto
  note first = registry_add_all_or_nothing [OF v]
  obtain x y where again: "registry_add (\<lambda>b. b) (sample_env False) sample_link (LinkSecret (replicate 32 5)) v = (x, y)" by fastforce
  have taken: "l_link_id sample_link \<in> l_link_id ` set (lw_links v)" using first by (simp add: Let_def)
  show "\<exists>w' w'' e. registry_add (\<lambda>b. b) (sample_env False) sample_link (LinkSecret (replicate 32 5)) sample_world = (w', Ok ()) \<and>
      registry_add (\<lambda>b. b) (sample_env False) sample_link (LinkSecret (replicate 32 5)) w' = (w'', Err e) \<and> w'' = w' \<and>
      dir_slot (lw_secrets w') (link_secret_slot (l_link_id sample_link)) = Some (replicate 32 5)"
    using v first again taken registry_add_all_or_nothing [OF again] by (auto simp: Let_def split: result.splits)
qed

section \<open>Removing\<close>

lemma registry_remove_links:
  assumes "links_ok (lw_links w)" and "registry_remove E i w = (w', Ok ())"
  shows "lw_links w' = filter (\<lambda>l. l_link_id l \<noteq> i) (lw_links w)"
    and "i \<in> l_link_id ` set (lw_links w)"
    and "lw_file w' = Records (map link_to_record (lw_links w'))"
    and "dir_slot (lw_secrets w') = (dir_slot (lw_secrets w))(link_secret_slot i := None)"
proof -
  obtain index d where p: "position (\<lambda>l. l_link_id l = i) (lw_links w) = Some index"
      and d: "file_store_remove (env_remove E) (link_secret_slot i) (lw_secrets w) = (d, Ok ())"
      and w': "w' = w\<lparr>lw_links := remove_at index (lw_links w),
        lw_file := Records (map link_to_record (remove_at index (lw_links w))), lw_secrets := d\<rparr>"
    using assms(2)
    by (auto simp: registry_remove_def Let_def persist_links_def split: option.splits prod.splits
        result.splits if_splits)
  show "lw_links w' = filter (\<lambda>l. l_link_id l \<noteq> i) (lw_links w)"
    using remove_at_key [OF _ p] assms(1) by (simp add: w' links_ok_def)
  show "i \<in> l_link_id ` set (lw_links w)"
    using position_Some [OF p] by (metis image_eqI nth_mem)
  show "lw_file w' = Records (map link_to_record (lw_links w'))" by (simp add: w')
  show "dir_slot (lw_secrets w') = (dir_slot (lw_secrets w))(link_secret_slot i := None)"
    using fs.remove_clears [OF d] by (simp add: w')
qed

text \<open>
  Property C21. Removing a link withdraws the trust at once. After a successful removal the
  account of that link is no longer linked, its secret is gone and no other link or secret
  changed; and whatever a peer of that account then attests under a policy built from the
  registry, it is not classified as \<open>Linked\<close>.
\<close>

theorem removed_link_grants_nothing:
  assumes "links_ok (lw_links w)" and "l \<in> set (lw_links w)"
    and "registry_remove E (l_link_id l) w = (w', Ok ())"
  shows "set (lw_links w') = set (lw_links w) - {l} \<and>
    l_peer_account l \<notin> set (linked_accounts_of w') \<and>
    dir_slot (lw_secrets w') (link_secret_slot (l_link_id l)) = None \<and>
    (linked_accounts policy = linked_accounts_of w' \<and>
      \<lparr>account_iss = vc_iss claims, account_sub = vc_sub claims\<rparr> = l_peer_account l \<longrightarrow>
      classify P policy claims ip ap now \<noteq> Ok Linked)"
proof (intro conjI impI)
  note rm = registry_remove_links [OF assms(1,3)]
  have ids: "m = l" if "m \<in> set (lw_links w)" "l_link_id m = l_link_id l" for m
    using that assms(1,2) by (auto simp: links_ok_def distinct_map dest: inj_onD)
  have accs: "m = l" if "m \<in> set (lw_links w)" "l_peer_account m = l_peer_account l" for m
    using that assms(1,2) by (auto simp: links_ok_def distinct_map dest: inj_onD)
  show links: "set (lw_links w') = set (lw_links w) - {l}" using rm(1) ids by auto
  then show gone: "l_peer_account l \<notin> set (linked_accounts_of w')"
    using accs by (auto simp: linked_accounts_of_def)
  show "dir_slot (lw_secrets w') (link_secret_slot (l_link_id l)) = None" using rm(4) by simp
  show "classify P policy claims ip ap now \<noteq> Ok Linked"
    if "linked_accounts policy = linked_accounts_of w' \<and>
      \<lparr>account_iss = vc_iss claims, account_sub = vc_sub claims\<rparr> = l_peer_account l"
    using that gone by (auto simp: classify_def classify_with_profile_Ok Let_def split: if_splits)
qed

text \<open>
  An interrupted removal is repaired by running it again. When the secret was
  discarded but the record could not be written, the link is still held and still names the
  slot, which now reads as empty; removing it again, with nothing failing, succeeds and leaves
  exactly what an uninterrupted removal leaves of the links, the file and the slots.
\<close>

theorem interrupted_removal_repaired:
  assumes "links_ok (lw_links w)" and "registry_remove E i w = (w', Err Registry_Io)"
    and "\<not> unlink_fails (env_remove E')" and "\<not> env_persist_fails E'"
  shows "lw_links w' = lw_links w \<and> lw_file w' = lw_file w \<and>
    dir_slot (lw_secrets w') (link_secret_slot i) = None \<and>
    (\<exists>w''. registry_remove E' i w' = (w'', Ok ()) \<and>
      lw_links w'' = filter (\<lambda>l. l_link_id l \<noteq> i) (lw_links w) \<and>
      dir_slot (lw_secrets w'') = (dir_slot (lw_secrets w))(link_secret_slot i := None))"
proof (intro conjI)
  obtain index d where p: "position (\<lambda>l. l_link_id l = i) (lw_links w) = Some index"
      and d: "file_store_remove (env_remove E) (link_secret_slot i) (lw_secrets w) = (d, Ok ())"
      and w': "w' = w\<lparr>lw_secrets := d\<rparr>"
    using assms(2)
    by (auto simp: registry_remove_def Let_def persist_links_def split: option.splits prod.splits
        result.splits if_splits)
  then show "lw_links w' = lw_links w" "lw_file w' = lw_file w"
    "dir_slot (lw_secrets w') (link_secret_slot i) = None"
    using fs.remove_clears [OF d] by simp_all
  obtain w'' where r: "registry_remove E' i w' = (w'', Ok ())"
    using p assms(3,4) link_slot_valid [of i]
    by (simp add: registry_remove_def w' Let_def persist_links_def file_store_remove_def)
  have "links_ok (lw_links w')" using assms(1) by (simp add: w')
  note rm = registry_remove_links [OF this r]
  then show "\<exists>w''. registry_remove E' i w' = (w'', Ok ()) \<and>
      lw_links w'' = filter (\<lambda>l. l_link_id l \<noteq> i) (lw_links w) \<and>
      dir_slot (lw_secrets w'') = (dir_slot (lw_secrets w))(link_secret_slot i := None)"
    using r fs.remove_clears [OF d] by (auto simp: w')
qed

definition linked_world :: link_world where
  "linked_world = \<lparr>lw_links = [sample_link], lw_file = Records [link_to_record sample_link],
     lw_secrets = \<lparr>files = [link_secret_slot (LinkId (replicate 16 5)) \<mapsto> replicate 32 5], next_temp = 0\<rparr>\<rparr>"

lemma linked_world_ok: "links_ok (lw_links linked_world)" "sample_link \<in> set (lw_links linked_world)"
  by (simp_all add: linked_world_def links_ok_def sample_link_def link_new_def)

lemma linked_world_remove:
  "\<exists>w'. registry_remove (sample_env fails) (l_link_id sample_link) linked_world
    = (w', if fails then Err Registry_Io else Ok ())"
  using link_slot_valid [of "LinkId (replicate 16 5)"]
  by (simp add: registry_remove_def linked_world_def sample_env_def sample_link_def link_new_def
      file_store_remove_def no_faults_def Let_def persist_links_def)

theorem removed_link_grants_nothing_witness:
  "\<exists>w'. registry_remove (sample_env False) (l_link_id sample_link) linked_world = (w', Ok ()) \<and>
     l_peer_account sample_link \<notin> set (linked_accounts_of w')"
proof -
  obtain w' where r: "registry_remove (sample_env False) (l_link_id sample_link) linked_world = (w', Ok ())"
    using linked_world_remove [of False] by auto
  show ?thesis using r removed_link_grants_nothing [OF linked_world_ok r] by blast
qed

theorem interrupted_removal_repaired_witness:
  "\<exists>w' w''. registry_remove (sample_env True) (l_link_id sample_link) linked_world = (w', Err Registry_Io) \<and>
     registry_remove (sample_env False) (l_link_id sample_link) w' = (w'', Ok ()) \<and> lw_links w'' = []"
proof -
  obtain w' where r: "registry_remove (sample_env True) (l_link_id sample_link) linked_world = (w', Err Registry_Io)"
    using linked_world_remove [of True] by auto
  have ok: "\<not> unlink_fails (env_remove (sample_env False))" "\<not> env_persist_fails (sample_env False)"
    by (simp_all add: sample_env_def no_faults_def)
  have "filter (\<lambda>l. l_link_id l \<noteq> l_link_id sample_link) (lw_links linked_world) = []"
    by (simp add: linked_world_def)
  then show ?thesis using r interrupted_removal_repaired [OF linked_world_ok(1) r ok] by auto
qed

section \<open>Restarting\<close>

text \<open>Every state a registry can be in: loaded from its file, then any operations under any faults.\<close>

inductive link_reachable :: "(u8 list \<Rightarrow> u8 list) \<Rightarrow> link_world \<Rightarrow> bool" for hash where
  reach_load: "registry_load f = Ok ls \<Longrightarrow>
    link_reachable hash \<lparr>lw_links = ls, lw_file = f, lw_secrets = d\<rparr>"
| reach_add: "link_reachable hash w \<Longrightarrow> length (link_id_bytes (l_link_id l)) = LINK_ID_LEN \<Longrightarrow>
    link_reachable hash (fst (registry_add hash E l secret w))"
| reach_remove: "link_reachable hash w \<Longrightarrow> link_reachable hash (fst (registry_remove E i w))"
| reach_access: "link_reachable hash w \<Longrightarrow>
    link_reachable hash (fst (registry_set_full_access E i allowed w))"

inductive_cases link_reachableE: "link_reachable hash w"

lemma world_ok_secrets [simp]: "world_ok (w\<lparr>lw_secrets := d\<rparr>) = world_ok w"
  by (simp add: world_ok_def)

lemma world_ok_add:
  assumes "world_ok w" and "length (link_id_bytes (l_link_id l)) = LINK_ID_LEN"
  shows "world_ok (fst (registry_add hash E l secret w))"
proof -
  obtain w' r where a: "registry_add hash E l secret w = (w', r)" by force
  obtain d s where s: "file_store_store (env_pid E) (env_store E) (link_secret_slot (l_link_id l))
      (link_secret_bytes secret) (lw_secrets w) = (d, s)" by force
  obtain d' q where q: "file_store_remove (env_remove E) (link_secret_slot (l_link_id l)) d = (d', q)" by force
  have "links_ok (lw_links w @ [l])" if "l_peer_account l \<notin> l_peer_account ` set (lw_links w)"
      "l_link_id l \<notin> l_link_id ` set (lw_links w)"
    using assms that by (auto simp: world_ok_def links_ok_def)
  then show ?thesis
    using assms(1) world_ok_persist [where ls = "lw_links w @ [l]" and w = w and d = d]
    by (auto simp: registry_add_def Let_def s q persist_links_def split: result.splits)
qed

lemma links_ok_filter: "links_ok ls \<Longrightarrow> links_ok (filter P ls)"
  by (auto simp: links_ok_def distinct_map_filter)

lemma world_ok_remove: "world_ok w \<Longrightarrow> world_ok (fst (registry_remove E i w))"
  using remove_at_key [of l_link_id "lw_links w" i]
    world_ok_persist [where ls = "filter (\<lambda>l. l_link_id l \<noteq> i) (lw_links w)" and w = w] links_ok_filter [of "lw_links w"]
  by (auto simp: registry_remove_def Let_def persist_links_def world_ok_def links_ok_def
      split: option.splits prod.splits result.splits)

lemma world_ok_access:
  assumes "world_ok w"
  shows "world_ok (fst (registry_set_full_access E i allowed w))"
proof (cases "position (\<lambda>l. l_link_id l = i) (lw_links w)")
  case (Some index)
  let ?f = "\<lambda>l :: link. if l_link_id l = i then l\<lparr>l_full_access := allowed\<rparr> else l"
  have upd: "(lw_links w)[index := (lw_links w ! index)\<lparr>l_full_access := allowed\<rparr>] = map ?f (lw_links w)"
    using assms by (intro update_key [OF _ Some]) (simp add: world_ok_def links_ok_def)
  have "l_link_id \<circ> ?f = l_link_id" "l_peer_account \<circ> ?f = l_peer_account"
    by (simp_all add: fun_eq_iff)
  then have "links_ok (map ?f (lw_links w))"
    using assms by (auto simp: world_ok_def links_ok_def)
  then show ?thesis
    using assms Some world_ok_persist [where ls = "map ?f (lw_links w)" and w = w and d = "lw_secrets w"]
    by (auto simp: registry_set_full_access_def Let_def persist_links_def upd)
qed (use assms in \<open>simp add: registry_set_full_access_def\<close>)

text \<open>
  A restart reads back exactly the links. In every reachable state, through any
  sequence of additions, removals and access changes under any faults, loading the file gives
  the links that are in memory, in order, with no account and no id twice.
\<close>

theorem registry_survives_restart:
  assumes "link_reachable hash w"
  shows "registry_load (lw_file w) = Ok (lw_links w) \<and>
    distinct (map l_link_id (lw_links w)) \<and> distinct (linked_accounts_of w)"
proof -
  have "world_ok w"
    using assms
  proof induction
    case (reach_load f ls d)
    have "links_ok ls"
      using reach_load load_loop_ok [of "[]"] by (cases f) (auto simp: links_ok_def)
    with reach_load show ?case by (simp add: world_ok_def)
  qed (simp_all add: world_ok_add world_ok_remove world_ok_access)
  then show ?thesis by (simp add: world_ok_def links_ok_def linked_accounts_of_def)
qed

theorem registry_survives_restart_witness:
  "link_reachable (\<lambda>b. b) (fst (registry_add (\<lambda>b. b) (sample_env False) sample_link
      (LinkSecret (replicate 32 5)) sample_world)) \<and>
   registry_load (lw_file (fst (registry_add (\<lambda>b. b) (sample_env False) sample_link
      (LinkSecret (replicate 32 5)) sample_world))) =
   Ok (lw_links (fst (registry_add (\<lambda>b. b) (sample_env False) sample_link
      (LinkSecret (replicate 32 5)) sample_world)))"
proof -
  have "link_reachable (\<lambda>b. b) sample_world" unfolding sample_world_def by (rule reach_load) simp
  then have r: "link_reachable (\<lambda>b. b) (fst (registry_add (\<lambda>b. b) (sample_env False) sample_link
      (LinkSecret (replicate 32 5)) sample_world))"
    by (rule reach_add) (simp add: sample_link_def link_new_def)
  show ?thesis using r registry_survives_restart [OF r] by blast
qed

end
