(* ===== verification/Peer_Trust.thy ===== *)
theory Peer_Trust
  imports Link_Registry
begin

text \<open>
  Attestation on a live connection (\<open>tradr-app/src/peer_trust.rs\<close>, \<open>browse_access.rs\<close> and the
  two verifiers of \<open>sign_in.rs\<close>). \<open>PeerTrust\<close> holds the key cache all connections share and
  fetches a provider's document at most once per classification; the verifiers read the device's
  own account and its links and hand them to it. The HTTPS request is a parameter. An error is a
  value of \<open>trust_error\<close>, from which the code formats a text.
\<close>

section \<open>Classification\<close>

abbreviation (input) "STALENESS_LIMIT_SECS \<equiv> (30 * 24 * 60 * 60 :: u64)"

abbreviation (input) "FUTURE_SKEW_LIMIT_SECS \<equiv> (300 :: u64)"

datatype trust_error =
    NotSignedIn
  | Trust_Refused verify_error
  | Trust_LinkRefused link_verify_error
  | Fetch_Failed rstr
  | Install_Refused jwks_error
  | Install_OtherProvider rstr rstr \<comment> \<open>document's address, cache's address\<close>
  | KeysChangedAgain

record peer_trust =
  pt_profile :: provider_profile
  pt_cache :: jwks_cache

definition peer_trust_new :: "provider_profile \<Rightarrow> peer_trust" where
  "peer_trust_new profile = \<lparr>pt_profile = profile, pt_cache = jwks_cache_new (profile_jwks_uri profile)\<rparr>"

text \<open>
  What a classification reads from outside: the answer of the fetch, what other connections do to
  the shared cache while the fetch is awaited, and the two clocks at each of the two attempts.
\<close>

record trust_env =
  te_fetch :: "rstr \<Rightarrow> (u8 list, rstr) result"
  te_meanwhile :: "cache_event list"
  te_first :: "unix_time \<times> monotonic"
  te_second :: "unix_time \<times> monotonic"

definition trust_install ::
    "primitives \<Rightarrow> rstr \<Rightarrow> u8 list \<Rightarrow> peer_trust \<Rightarrow> peer_trust \<times> (unit, trust_error) result" where
  "trust_install P jwks_uri document trust =
     (if jwks_uri \<noteq> cache_jwks_uri (pt_cache trust)
      then (trust, Err (Install_OtherProvider jwks_uri (cache_jwks_uri (pt_cache trust))))
      else case jwks_install P document (pt_cache trust) of
        (cache, r) \<Rightarrow> (trust\<lparr>pt_cache := cache\<rparr>, map_err Install_Refused r))"

definition trust_meanwhile :: "primitives \<Rightarrow> trust_env \<Rightarrow> peer_trust \<Rightarrow> peer_trust" where
  "trust_meanwhile P E trust = trust\<lparr>pt_cache := fold (cache_step P) (te_meanwhile E) (pt_cache trust)\<rparr>"

definition warm ::
    "primitives \<Rightarrow> trust_env \<Rightarrow> rstr \<Rightarrow> peer_trust \<Rightarrow> peer_trust \<times> (u8 list, trust_error) result" where
  "warm P E jwks_uri trust =
     (case te_fetch E jwks_uri of
        Err m \<Rightarrow> (trust_meanwhile P E trust, Err (Fetch_Failed m))
      | Ok document \<Rightarrow>
          (case trust_install P jwks_uri document (trust_meanwhile P E trust) of
             (trust', Err e) \<Rightarrow> (trust', Err e)
           | (trust', Ok _) \<Rightarrow> (trust', Ok document)))"

definition trust_policy :: "provider_profile \<Rightarrow> account_id \<Rightarrow> account_id list \<Rightarrow> attestation_policy" where
  "trust_policy profile own linked =
     \<lparr>profiles = [profile], own_account = own, linked_accounts = linked,
      staleness_limit_secs = STALENESS_LIMIT_SECS, future_skew_limit_secs = FUTURE_SKEW_LIMIT_SECS,
      ephemeral_receive = False\<rparr>"

text \<open>\<open>PeerTrust::classify\<close>.\<close>

definition trust_classify ::
    "primitives \<Rightarrow> trust_env \<Rightarrow> rstr \<Rightarrow> public_key_point \<Rightarrow> public_key_point \<Rightarrow> account_id option
      \<Rightarrow> account_id list \<Rightarrow> peer_trust \<Rightarrow> peer_trust \<times> (trust_tier, trust_error) result" where
  "trust_classify P E token identity_pub agreement_pub own linked trust =
     (case own of
        None \<Rightarrow> (trust, Err NotSignedIn)
      | Some own \<Rightarrow>
          let policy = trust_policy (pt_profile trust) own linked in
          (case verify_attestation P policy (pt_cache trust) token identity_pub agreement_pub
                  (fst (te_first E)) (snd (te_first E)) of
             (c, Err e) \<Rightarrow> (trust\<lparr>pt_cache := c\<rparr>, Err (Trust_Refused e))
           | (c, Ok (Verified tier)) \<Rightarrow> (trust\<lparr>pt_cache := c\<rparr>, Ok tier)
           | (c, Ok (JwksNeeded jwks_uri)) \<Rightarrow>
               let trust' = trust_meanwhile P E (trust\<lparr>pt_cache := c\<rparr>) in
               (case te_fetch E jwks_uri of
                  Err m \<Rightarrow> (trust', Err (Fetch_Failed m))
                | Ok document \<Rightarrow>
                    (case jwks_install P document (pt_cache trust') of
                       (c1, Err e) \<Rightarrow> (trust'\<lparr>pt_cache := c1\<rparr>, Err (Install_Refused e))
                     | (c1, Ok _) \<Rightarrow>
                         (case verify_attestation P policy c1 token identity_pub agreement_pub
                                 (fst (te_second E)) (snd (te_second E)) of
                            (c2, Err e) \<Rightarrow> (trust'\<lparr>pt_cache := c2\<rparr>, Err (Trust_Refused e))
                          | (c2, Ok (Verified tier)) \<Rightarrow> (trust'\<lparr>pt_cache := c2\<rparr>, Ok tier)
                          | (c2, Ok (JwksNeeded _)) \<Rightarrow> (trust'\<lparr>pt_cache := c2\<rparr>, Err KeysChangedAgain))))))"

datatype classify_cached_error = Cached_JwksNeeded rstr | Cached_Refused verify_error

definition classify_cached ::
    "primitives \<Rightarrow> rstr \<Rightarrow> public_key_point \<Rightarrow> public_key_point \<Rightarrow> account_id \<Rightarrow> account_id list
      \<Rightarrow> unix_time \<Rightarrow> monotonic \<Rightarrow> peer_trust \<Rightarrow> peer_trust \<times> (trust_tier, classify_cached_error) result" where
  "classify_cached P token identity_pub agreement_pub own linked at tick trust =
     (case verify_attestation P (trust_policy (pt_profile trust) own linked) (pt_cache trust) token
             identity_pub agreement_pub at tick of
        (c, Ok (Verified tier)) \<Rightarrow> (trust\<lparr>pt_cache := c\<rparr>, Ok tier)
      | (c, Ok (JwksNeeded jwks_uri)) \<Rightarrow> (trust\<lparr>pt_cache := c\<rparr>, Err (Cached_JwksNeeded jwks_uri))
      | (c, Err e) \<Rightarrow> (trust\<lparr>pt_cache := c\<rparr>, Err (Cached_Refused e)))"

definition verify_link ::
    "primitives \<Rightarrow> trust_env \<Rightarrow> rstr \<Rightarrow> public_key_point \<Rightarrow> public_key_point \<Rightarrow> device_id \<Rightarrow> peer_trust
      \<Rightarrow> peer_trust \<times> (account_id, trust_error) result" where
  "verify_link P E token identity_pub agreement_pub authenticated trust =
     (let policy = \<lparr>lp_profiles = [pt_profile trust], lp_staleness_limit_secs = STALENESS_LIMIT_SECS,
                    lp_future_skew_limit_secs = FUTURE_SKEW_LIMIT_SECS\<rparr> in
      case verify_link_attestation P policy (pt_cache trust) token identity_pub agreement_pub authenticated
             (fst (te_first E)) (snd (te_first E)) of
        (c, Err e) \<Rightarrow> (trust\<lparr>pt_cache := c\<rparr>, Err (Trust_LinkRefused e))
      | (c, Ok (Link_Verified account)) \<Rightarrow> (trust\<lparr>pt_cache := c\<rparr>, Ok account)
      | (c, Ok (Link_JwksNeeded jwks_uri)) \<Rightarrow>
          let trust' = trust_meanwhile P E (trust\<lparr>pt_cache := c\<rparr>) in
          (case te_fetch E jwks_uri of
             Err m \<Rightarrow> (trust', Err (Fetch_Failed m))
           | Ok document \<Rightarrow>
               (case jwks_install P document (pt_cache trust') of
                  (c1, Err e) \<Rightarrow> (trust'\<lparr>pt_cache := c1\<rparr>, Err (Install_Refused e))
                | (c1, Ok _) \<Rightarrow>
                    (case verify_link_attestation P policy c1 token identity_pub agreement_pub authenticated
                            (fst (te_second E)) (snd (te_second E)) of
                       (c2, Err e) \<Rightarrow> (trust'\<lparr>pt_cache := c2\<rparr>, Err (Trust_LinkRefused e))
                     | (c2, Ok (Link_Verified account)) \<Rightarrow> (trust'\<lparr>pt_cache := c2\<rparr>, Ok account)
                     | (c2, Ok (Link_JwksNeeded _)) \<Rightarrow> (trust'\<lparr>pt_cache := c2\<rparr>, Err KeysChangedAgain)))))"

section \<open>What a tier of a connection rests on\<close>

text \<open>
  A token that proves a tier: signed under one of the keys with an algorithm the profile permits,
  issued by the profile's provider for one of its clients, its nonce binding both keys, fresh at
  the reading, and naming the own account or another account that is linked.
\<close>

definition attested ::
    "primitives \<Rightarrow> provider_profile \<Rightarrow> jwk list \<Rightarrow> account_id \<Rightarrow> account_id list \<Rightarrow> rstr \<Rightarrow> public_key_point
      \<Rightarrow> public_key_point \<Rightarrow> unix_time \<Rightarrow> trust_tier \<Rightarrow> bool" where
  "attested P profile keys own linked token ip ap now tier \<longleftrightarrow>
     (\<exists>claims. verify_id_token P profile keys token = Ok claims \<and>
        signed_by P keys (algorithms profile) token \<and>
        issuer profile = vc_iss claims \<and> vc_aud claims \<in> set (client_ids profile) \<and>
        vc_nonce claims = expected_nonce P (nonce_binding profile) ip ap \<and>
        fresh STALENESS_LIMIT_SECS FUTURE_SKEW_LIMIT_SECS (vc_iat claims) now \<and>
        (let account = \<lparr>account_iss = vc_iss claims, account_sub = vc_sub claims\<rparr> in
           tier = SameAccount \<and> account = own \<or>
           tier = Linked \<and> account \<noteq> own \<and> account \<in> set linked))"

text \<open>The keys a classification can have used, and the reading it judged freshness at.\<close>

definition keys_at :: "primitives \<Rightarrow> trust_env \<Rightarrow> peer_trust \<Rightarrow> jwk list \<Rightarrow> unix_time \<Rightarrow> bool" where
  "keys_at P E trust keys now \<longleftrightarrow>
     keys = cache_keys (pt_cache trust) \<and> now = fst (te_first E) \<or>
     (\<exists>document. te_fetch E (profile_jwks_uri (pt_profile trust)) = Ok document \<and>
        parse_jwks P document = Ok keys \<and> now = fst (te_second E))"

lemma trust_policy_simps [simp]:
  "profiles (trust_policy p own linked) = [p]" "own_account (trust_policy p own linked) = own"
  "linked_accounts (trust_policy p own linked) = linked"
  "staleness_limit_secs (trust_policy p own linked) = STALENESS_LIMIT_SECS"
  "future_skew_limit_secs (trust_policy p own linked) = FUTURE_SKEW_LIMIT_SECS"
  "ephemeral_receive (trust_policy p own linked) = False"
  by (simp_all add: trust_policy_def)

lemma verified_attested:
  assumes "verify_attestation P (trust_policy profile own linked) cache token ip ap now tick
    = (cache', Ok (Verified tier))"
  shows "attested P profile (cache_keys cache) own linked token ip ap now tier"
proof -
  from granted_tier [OF assms] obtain claims where
      "verify_id_token P profile (cache_keys cache) token = Ok claims"
      "signed_by P (cache_keys cache) (algorithms profile) token"
      "issuer profile = vc_iss claims" "vc_aud claims \<in> set (client_ids profile)"
      "vc_nonce claims = expected_nonce P (nonce_binding profile) ip ap"
      "fresh STALENESS_LIMIT_SECS FUTURE_SKEW_LIMIT_SECS (vc_iat claims) now"
      and tier: "let account = \<lparr>account_iss = vc_iss claims, account_sub = vc_sub claims\<rparr> in
       (tier = SameAccount \<longleftrightarrow> account = own) \<and> (tier = Linked \<longleftrightarrow> account \<noteq> own \<and> account \<in> set linked) \<and>
       tier \<noteq> NearbyEphemeral \<and> tier \<noteq> Rejected"
    by (auto simp: Let_def)
  moreover from tier have "let account = \<lparr>account_iss = vc_iss claims, account_sub = vc_sub claims\<rparr> in
      tier = SameAccount \<and> account = own \<or> tier = Linked \<and> account \<noteq> own \<and> account \<in> set linked"
    by (cases tier) (auto simp: Let_def)
  ultimately show ?thesis unfolding attested_def by blast
qed

lemma needed_uri:
  assumes "verify_attestation P (trust_policy profile own linked) cache token ip ap now tick
    = (cache', Ok (JwksNeeded uri))"
  shows "uri = profile_jwks_uri profile"
  using fetch_only_from_profiles [OF assms] by auto

text \<open>A classification that grants a tier had a proof of it, under keys of the profile's provider.\<close>

lemma trust_classify_attested:
  assumes "trust_classify P E token ip ap own linked trust = (trust', Ok tier)"
  obtains account keys now where "own = Some account" and "keys_at P E trust keys now"
    and "attested P (pt_profile trust) keys account linked token ip ap now tier"
    and "pt_profile trust' = pt_profile trust"
proof -
  obtain account where own: "own = Some account"
    using assms by (cases own) (simp_all add: trust_classify_def)
  let ?policy = "trust_policy (pt_profile trust) account linked"
  obtain c r where v: "verify_attestation P ?policy (pt_cache trust) token ip ap
      (fst (te_first E)) (snd (te_first E)) = (c, r)" by fastforce
  note run = assms [unfolded trust_classify_def own option.case Let_def v prod.case]
  show ?thesis
  proof (cases r)
    case (Err e)
    with run show ?thesis by simp
  next
    case (Ok outcome)
    show ?thesis
    proof (cases outcome)
      case (Verified t)
      then have "t = tier" "trust' = trust\<lparr>pt_cache := c\<rparr>" using run Ok by simp_all
      moreover have "keys_at P E trust (cache_keys (pt_cache trust)) (fst (te_first E))"
        by (simp add: keys_at_def)
      ultimately show ?thesis using that [OF own] verified_attested [OF v [unfolded Ok Verified]] by simp
    next
      case (JwksNeeded uri)
      note uri = needed_uri [OF v [unfolded Ok JwksNeeded]]
      from run Ok JwksNeeded obtain document c1 c2 where doc: "te_fetch E uri = Ok document"
          and inst: "jwks_install P document
            (pt_cache (trust_meanwhile P E (trust\<lparr>pt_cache := c\<rparr>))) = (c1, Ok ())"
          and v2: "verify_attestation P ?policy c1 token ip ap (fst (te_second E)) (snd (te_second E))
            = (c2, Ok (Verified tier))"
          and t': "trust' = trust_meanwhile P E (trust\<lparr>pt_cache := c\<rparr>)\<lparr>pt_cache := c2\<rparr>"
        by (auto split: result.splits prod.splits verification.splits)
      from inst have "parse_jwks P document = Ok (cache_keys c1)"
        by (auto simp: jwks_install_def split: result.splits)
      with doc uri have "keys_at P E trust (cache_keys c1) (fst (te_second E))"
        by (auto simp: keys_at_def)
      with that [OF own] verified_attested [OF v2] t' show ?thesis
        by (simp add: trust_meanwhile_def)
    qed
  qed
qed

section \<open>The verifiers\<close>

definition peer_verifier ::
    "primitives \<Rightarrow> trust_env \<Rightarrow> account_id option \<Rightarrow> link_world \<Rightarrow> rstr \<Rightarrow> public_key_point
      \<Rightarrow> public_key_point \<Rightarrow> peer_trust \<Rightarrow> peer_trust \<times> (trust_tier, trust_error) result" where
  "peer_verifier P E own links token identity_pub agreement_pub =
     trust_classify P E token identity_pub agreement_pub own (linked_accounts_of links)"

text \<open>\<open>BrowseAccess\<close>, a device per entry.\<close>

type_synonym browse_access = "device_id \<rightharpoonup> bool"

definition access_record :: "device_id \<Rightarrow> bool \<Rightarrow> browse_access \<Rightarrow> browse_access" where
  "access_record device allowed access = access(device \<mapsto> allowed)"

definition access_allowed :: "device_id \<Rightarrow> browse_access \<Rightarrow> bool" where
  "access_allowed device access = (case access device of Some allowed \<Rightarrow> allowed | None \<Rightarrow> False)"

text \<open>The listener's verifier; its second classification has an environment of its own.\<close>

definition listener_peer_verifier ::
    "primitives \<Rightarrow> trust_env \<Rightarrow> trust_env \<Rightarrow> account_id option \<Rightarrow> link_world \<Rightarrow> rstr \<Rightarrow> public_key_point
      \<Rightarrow> public_key_point \<Rightarrow> peer_trust \<times> browse_access
      \<Rightarrow> (peer_trust \<times> browse_access) \<times> (trust_tier, trust_error) result" where
  "listener_peer_verifier P E E' own links token identity_pub agreement_pub st =
     (let (trust, access) = st;
          device = device_id_from_identity_digest (blake3 P (point_bytes identity_pub)) in
      case trust_classify P E token identity_pub agreement_pub own (linked_accounts_of links) trust of
        (trust1, Err e) \<Rightarrow> ((trust1, access), Err e)
      | (trust1, Ok tier) \<Rightarrow>
          (case tier of
             SameAccount \<Rightarrow> ((trust1, access_record device True access), Ok tier)
           | Linked \<Rightarrow>
               (case trust_classify P E' token identity_pub agreement_pub own (full_access_accounts links) trust1 of
                  (trust2, full) \<Rightarrow> ((trust2, access_record device (full = Ok Linked) access), Ok tier))
           | _ \<Rightarrow> ((trust1, access_record device False access), Ok tier)))"

text \<open>
  The listener's verifier grants what the other one grants, touches the entry of the presented
  identity alone, and lets it browse only when the token proves the own account, or proves the
  account of a link with full access.
\<close>

lemma listener_grants:
  assumes "listener_peer_verifier P E E' own links token ip ap (trust, access) = ((trust', access'), Ok tier)"
  shows "\<exists>trust1. trust_classify P E token ip ap own (linked_accounts_of links) trust = (trust1, Ok tier)"
    and "device \<noteq> device_id_from_identity_digest (blake3 P (point_bytes ip)) \<Longrightarrow> access' device = access device"
    and "access_allowed (device_id_from_identity_digest (blake3 P (point_bytes ip))) access' \<Longrightarrow>
      tier = SameAccount \<or> (\<exists>trust1 account keys now. own = Some account \<and> pt_profile trust1 = pt_profile trust \<and>
        keys_at P E' trust1 keys now \<and>
        attested P (pt_profile trust) keys account (full_access_accounts links) token ip ap now Linked)"
proof -
  obtain trust1 r where c: "trust_classify P E token ip ap own (linked_accounts_of links) trust = (trust1, r)"
    by fastforce
  obtain trust2 full where c2: "trust_classify P E' token ip ap own (full_access_accounts links) trust1 = (trust2, full)"
    by fastforce
  note run = assms [unfolded listener_peer_verifier_def Let_def prod.case c c2]
  from run have r: "r = Ok tier"
    by (cases r) (auto split: trust_tier.splits)
  with c show "\<exists>trust1. trust_classify P E token ip ap own (linked_accounts_of links) trust = (trust1, Ok tier)"
    by blast
  show "access' device = access device"
    if "device \<noteq> device_id_from_identity_digest (blake3 P (point_bytes ip))"
    using run r that by (auto simp: access_record_def split: trust_tier.splits)
  have profile: "pt_profile trust1 = pt_profile trust"
    using c r trust_classify_attested by metis
  assume "access_allowed (device_id_from_identity_digest (blake3 P (point_bytes ip))) access'"
  then have "tier = SameAccount \<or> full = Ok Linked"
    using run r by (auto simp: access_allowed_def access_record_def split: trust_tier.splits)
  then show "tier = SameAccount \<or> (\<exists>trust1 account keys now. own = Some account \<and> pt_profile trust1 = pt_profile trust \<and>
        keys_at P E' trust1 keys now \<and>
        attested P (pt_profile trust) keys account (full_access_accounts links) token ip ap now Linked)"
    using trust_classify_attested [of P E' token ip ap own _ trust1 trust2] c2 profile by metis
qed

end
