(* ===== verification/Deny_List.thy ===== *)
theory Deny_List
  imports Rel_Path Identifiers "HOL-Library.Sublist"
begin

text \<open>
  The file-system vocabulary of \<open>tradr-core/src/vfs.rs\<close> and the default deny list of
  \<open>tradr-vfs/src/sanitization.rs\<close>: its patterns, how one matches a run of components, and
  the two checks every operation makes before it touches the file system. Matching works on the
  bytes of a component, ignoring the case of ASCII letters, as the code does. The lemmas read
  the index loop of the code as a statement about sublists: a path is denied exactly when some
  consecutive run of its components matches a pattern part by part.
\<close>

section \<open>File-system vocabulary\<close>

datatype root_id = RootId (root_value: u64)

datatype entry_kind = Kind_File | Kind_Directory

datatype io_error_kind = Io_InvalidInput | Io_InvalidData | Io_Kind nat

text \<open>\<open>Vfs_Panic\<close> is not a value of the code: it marks a call that would panic.\<close>

datatype vfs_error =
    Vfs_NotFound
  | Vfs_AlreadyExists
  | Vfs_OutsideRoot
  | Vfs_DenyListed
  | Vfs_UnsupportedEntry
  | Vfs_WrongKind
  | Vfs_ReadOnly
  | Vfs_Io io_error_kind
  | Vfs_Panic

section \<open>Patterns\<close>

fun byte_lowercase :: "u8 \<Rightarrow> u8" where
  "byte_lowercase b = (if 65 \<le> unat b \<and> unat b \<le> 90 then b + 32 else b)"

definition eq_ignore_ascii_case :: "u8 list \<Rightarrow> u8 list \<Rightarrow> bool" where
  "eq_ignore_ascii_case a b \<longleftrightarrow> map byte_lowercase a = map byte_lowercase b"

datatype pattern_part = Exact rstr | Glob rstr rstr

definition DENY_PATTERNS :: "pattern_part list list" where
  "DENY_PATTERNS =
    [[Exact (lit ''.tradr-partial'')],
     [Exact (lit ''.ssh'')],
     [Exact (lit ''.gnupg'')],
     [Exact (lit ''.aws'')],
     [Exact (lit ''.kube'')],
     [Exact (lit ''.config''), Exact (lit ''gcloud'')],
     [Exact (lit ''.docker''), Exact (lit ''config.json'')],
     [Exact (lit ''.netrc'')],
     [Exact (lit ''.git-credentials'')],
     [Exact (lit ''.npmrc'')],
     [Exact (lit ''.pypirc'')],
     [Glob [] (lit ''.pem'')],
     [Glob [] (lit ''.key'')],
     [Glob [] (lit ''.p12'')],
     [Glob [] (lit ''.pfx'')],
     [Glob [] (lit ''.keystore'')],
     [Glob [] (lit ''.jks'')],
     [Exact (lit ''.env'')],
     [Glob (lit ''.env.'') []],
     [Glob (lit ''id_rsa'') []],
     [Glob (lit ''id_ed25519'') []],
     [Glob (lit ''id_ecdsa'') []]]"

fun part_matches :: "pattern_part \<Rightarrow> rstr \<Rightarrow> bool" where
  "part_matches (Exact pattern) component = eq_ignore_ascii_case (str_bytes component) (str_bytes pattern)"
| "part_matches (Glob pre suf) component =
     (let bytes = str_bytes component in
      if length bytes < str_len pre + str_len suf then False
      else
        let head = take (str_len pre) bytes;
            tail = drop (length bytes - str_len suf) bytes
        in eq_ignore_ascii_case head (str_bytes pre) \<and> eq_ignore_ascii_case tail (str_bytes suf))"

definition pattern_matches_run :: "pattern_part list \<Rightarrow> rstr list \<Rightarrow> bool" where
  "pattern_matches_run pattern cs =
     (if length cs < length pattern then False
      else list_ex (\<lambda>start.
             list_all (\<lambda>(part, comp). part_matches part comp)
               (zip pattern (take (length pattern) (drop start cs))))
           [0..<length cs - length pattern + 1])"

definition is_denied :: "rstr list \<Rightarrow> bool" where
  "is_denied cs = list_ex (\<lambda>pattern. pattern_matches_run pattern cs) DENY_PATTERNS"

definition is_partial_staging :: "rstr list \<Rightarrow> bool" where
  "is_partial_staging cs \<longleftrightarrow>
     length cs > 1 \<and> eq_ignore_ascii_case (str_bytes (hd cs)) (str_bytes (lit ''.tradr-partial''))"

fun names_partial_root :: "pattern_part list \<Rightarrow> bool" where
  "names_partial_root (Exact name # _) = (name = lit ''.tradr-partial'')"
| "names_partial_root _ = False"

definition is_denied_for_write :: "rstr list \<Rightarrow> bool" where
  "is_denied_for_write cs =
     (if is_partial_staging cs
      then list_ex (\<lambda>pattern. pattern_matches_run pattern cs)
             (filter (\<lambda>p. \<not> names_partial_root p) DENY_PATTERNS)
      else is_denied cs)"

definition check_deny_list :: "rel_path \<Rightarrow> (unit, vfs_error) result" where
  "check_deny_list at = (if is_denied_for_write (components at) then Err Vfs_DenyListed else Ok ())"

definition check_deny_list_write :: "rel_path \<Rightarrow> (unit, vfs_error) result" where
  "check_deny_list_write at = (if is_denied_for_write (components at) then Err Vfs_DenyListed else Ok ())"

section \<open>What a pattern matches\<close>

lemma byte_lowercase_idem [simp]: "byte_lowercase (byte_lowercase b) = byte_lowercase b"
  by (auto simp: unat_word_ariths)

abbreviation folded :: "rstr \<Rightarrow> u8 list" where
  "folded s \<equiv> map byte_lowercase (str_bytes s)"

lemma part_matches_Exact: "part_matches (Exact p) c \<longleftrightarrow> folded c = folded p"
  by (simp add: eq_ignore_ascii_case_def)

lemma part_matches_Glob:
  "part_matches (Glob p s) c \<longleftrightarrow> (\<exists>mid. folded c = folded p @ mid @ folded s)"
proof
  assume m: "part_matches (Glob p s) c"
  let ?n = "length (str_bytes c)" and ?a = "length (str_bytes p)" and ?z = "length (str_bytes s)"
  have len: "?a + ?z \<le> ?n" and head: "take ?a (folded c) = folded p"
    and tail: "drop (?n - ?z) (folded c) = folded s"
    using m by (auto simp: Let_def str_len_def eq_ignore_ascii_case_def take_map drop_map split: if_splits)
  have "folded c = take ?a (folded c) @ take (?n - ?z - ?a) (drop ?a (folded c)) @ drop (?n - ?z) (folded c)"
    using len append_take_drop_id [of "?n - ?z - ?a" "drop ?a (folded c)"]
    by (simp add: add.commute del: append_take_drop_id) (metis append_take_drop_id)
  then show "\<exists>mid. folded c = folded p @ mid @ folded s" using head tail by metis
next
  assume "\<exists>mid. folded c = folded p @ mid @ folded s"
  then obtain mid where mid: "folded c = folded p @ mid @ folded s" ..
  then have len: "length (str_bytes c) = length (str_bytes p) + length mid + length (str_bytes s)"
    by (metis add.assoc length_append length_map)
  show "part_matches (Glob p s) c"
    using mid len by (simp add: Let_def str_len_def eq_ignore_ascii_case_def flip: take_map drop_map)
qed

lemmas part_matches_iff = part_matches_Exact part_matches_Glob

declare part_matches.simps [simp del]

text \<open>The patterns do not see the case of ASCII letters.\<close>

lemma part_matches_folded: "folded c = folded d \<Longrightarrow> part_matches part c = part_matches part d"
  by (cases part) (simp_all add: part_matches_iff)

section \<open>Runs of components\<close>

definition matches_somewhere :: "pattern_part list \<Rightarrow> rstr list \<Rightarrow> bool" where
  "matches_somewhere pattern cs \<longleftrightarrow> (\<exists>run. sublist run cs \<and> list_all2 part_matches pattern run)"

lemma pattern_matches_run_iff: "pattern_matches_run pattern cs \<longleftrightarrow> matches_somewhere pattern cs"
proof
  assume "pattern_matches_run pattern cs"
  then obtain start where start: "start \<le> length cs - length pattern" "length pattern \<le> length cs"
    and all: "list_all (\<lambda>(part, comp). part_matches part comp)
      (zip pattern (take (length pattern) (drop start cs)))"
    unfolding pattern_matches_run_def list_ex_iff
    by (metis atLeastLessThan_iff less_Suc_eq_le not_less set_upt Suc_eq_plus1)
  then have "list_all2 part_matches pattern (take (length pattern) (drop start cs))"
    by (simp add: list_all2_iff list_all_iff)
  moreover have "sublist (take (length pattern) (drop start cs)) cs"
    by (meson sublist_drop sublist_take sublist_order.order_trans)
  ultimately show "matches_somewhere pattern cs" unfolding matches_somewhere_def by blast
next
  assume "matches_somewhere pattern cs"
  then obtain pre run post where cs: "cs = pre @ run @ post" and run: "list_all2 part_matches pattern run"
    by (auto simp: matches_somewhere_def sublist_def)
  then have len: "length pattern = length run" by (metis list_all2_lengthD)
  have "list_all (\<lambda>(part, comp). part_matches part comp)
      (zip pattern (take (length pattern) (drop (length pre) cs)))"
    using run by (simp add: cs len list_all2_iff list_all_iff)
  moreover have "length pre \<in> set [0..<length cs - length pattern + 1]" "\<not> length cs < length pattern"
    by (simp_all add: cs len)
  ultimately show "pattern_matches_run pattern cs"
    unfolding pattern_matches_run_def list_ex_iff by metis
qed

lemma is_denied_iff: "is_denied cs \<longleftrightarrow> (\<exists>pattern \<in> set DENY_PATTERNS. matches_somewhere pattern cs)"
  by (simp add: is_denied_def list_ex_iff pattern_matches_run_iff)

lemma matches_somewhere_sublist:
  "matches_somewhere pattern cs \<Longrightarrow> sublist cs ds \<Longrightarrow> matches_somewhere pattern ds"
  unfolding matches_somewhere_def using sublist_order.order_trans by blast

lemma matches_single: "matches_somewhere [part] cs \<longleftrightarrow> (\<exists>c \<in> set cs. part_matches part c)"
proof
  assume "matches_somewhere [part] cs"
  then obtain c where "sublist [c] cs" "part_matches part c"
    by (auto simp: matches_somewhere_def list_all2_Cons1)
  then show "\<exists>c \<in> set cs. part_matches part c" using set_mono_sublist by fastforce
next
  assume "\<exists>c \<in> set cs. part_matches part c"
  then obtain c where c: "c \<in> set cs" "part_matches part c" by blast
  then have "sublist [c] cs" by (metis append_Cons append_Nil in_set_conv_decomp sublist_appendI)
  with c show "matches_somewhere [part] cs" unfolding matches_somewhere_def by fastforce
qed

lemma matches_somewhere_folded:
  assumes "map folded cs = map folded ds" and "matches_somewhere pattern cs"
  shows "matches_somewhere pattern ds"
proof -
  from assms(2) obtain pre run post where cs: "cs = pre @ run @ post" and run: "list_all2 part_matches pattern run"
    by (auto simp: matches_somewhere_def sublist_def)
  define run' where "run' = take (length run) (drop (length pre) ds)"
  have "map folded run' = map folded run"
    unfolding run'_def by (subst take_map [symmetric], subst drop_map [symmetric], subst assms(1) [symmetric])
      (simp add: cs)
  then have "list_all2 part_matches pattern run'"
    using run unfolding list_all2_conv_all_nth
    by (metis length_map nth_map part_matches_folded)
  moreover have "sublist run' ds"
    unfolding run'_def by (meson sublist_drop sublist_take sublist_order.order_trans)
  ultimately show ?thesis unfolding matches_somewhere_def by blast
qed

abbreviation (input) "PARTIAL_PATTERN \<equiv> [Exact (lit ''.tradr-partial'')]"

lemma names_partial_root_iff:
  "pattern \<in> set DENY_PATTERNS \<Longrightarrow> names_partial_root pattern \<longleftrightarrow> pattern = PARTIAL_PATTERN"
  by (auto simp: DENY_PATTERNS_def)

lemma is_denied_for_write_iff:
  "is_denied_for_write cs \<longleftrightarrow>
     (\<exists>pattern \<in> set DENY_PATTERNS. matches_somewhere pattern cs \<and>
        (is_partial_staging cs \<longrightarrow> pattern \<noteq> PARTIAL_PATTERN))"
  using names_partial_root_iff
  by (auto simp: is_denied_for_write_def is_denied_iff list_ex_iff pattern_matches_run_iff)

lemma is_partial_staging_folded:
  assumes "map folded cs = map folded ds"
  shows "is_partial_staging cs = is_partial_staging ds"
proof -
  have len: "length cs = length ds" using assms by (metis length_map)
  moreover have "folded (hd cs) = folded (hd ds)" if "length cs > 1"
    using assms len that by (cases cs; cases ds) auto
  ultimately show ?thesis by (auto simp: is_partial_staging_def eq_ignore_ascii_case_def)
qed

lemma is_denied_for_write_folded:
  "map folded cs = map folded ds \<Longrightarrow> is_denied_for_write cs = is_denied_for_write ds"
  unfolding is_denied_for_write_iff using is_partial_staging_folded matches_somewhere_folded by metis

lemma is_denied_for_write_below:
  assumes "is_denied_for_write cs" and "is_partial_staging (cs @ below) \<longrightarrow> is_partial_staging cs"
  shows "is_denied_for_write (cs @ below)"
proof -
  from assms(1) obtain pattern where p: "pattern \<in> set DENY_PATTERNS" "matches_somewhere pattern cs"
    "is_partial_staging cs \<longrightarrow> pattern \<noteq> PARTIAL_PATTERN" by (auto simp only: is_denied_for_write_iff)
  then have "matches_somewhere pattern (cs @ below)"
    using matches_somewhere_sublist by blast
  with p assms(2) show ?thesis unfolding is_denied_for_write_iff by metis
qed

text \<open>
  Property C29. The deny list denies what it says and nothing besides. A path is refused exactly
  when some consecutive run of its components matches a pattern of the list part by part, the
  pattern that names the staging directory being skipped for a path below that directory. So
  everything below a denied path is denied too (the staging directory itself apart), two paths
  that differ only in the case of ASCII letters get the same answer, and reading and writing are
  decided alike.
\<close>

theorem deny_list_exact:
  "(check_deny_list p = Err Vfs_DenyListed \<longleftrightarrow>
      (\<exists>pattern \<in> set DENY_PATTERNS. \<exists>pre run post.
         components p = pre @ run @ post \<and> list_all2 part_matches pattern run \<and>
         \<not> (is_partial_staging (components p) \<and> pattern = [Exact (lit ''.tradr-partial'')]))) \<and>
   (check_deny_list p = Err Vfs_DenyListed \<and> components q = components p @ below \<and>
      (is_partial_staging (components q) \<longrightarrow> is_partial_staging (components p)) \<longrightarrow>
      check_deny_list q = Err Vfs_DenyListed) \<and>
   (map folded (components p) = map folded (components q) \<longrightarrow> check_deny_list p = check_deny_list q) \<and>
   check_deny_list_write p = check_deny_list p"
proof (intro conjI impI)
  show "check_deny_list p = Err Vfs_DenyListed \<longleftrightarrow>
      (\<exists>pattern \<in> set DENY_PATTERNS. \<exists>pre run post.
         components p = pre @ run @ post \<and> list_all2 part_matches pattern run \<and>
         \<not> (is_partial_staging (components p) \<and> pattern = [Exact (lit ''.tradr-partial'')]))"
    unfolding check_deny_list_def is_denied_for_write_iff matches_somewhere_def sublist_def
    by (simp split: if_split) metis
  show "check_deny_list q = Err Vfs_DenyListed"
    if "check_deny_list p = Err Vfs_DenyListed \<and> components q = components p @ below \<and>
      (is_partial_staging (components q) \<longrightarrow> is_partial_staging (components p))"
    using that is_denied_for_write_below [of "components p" below]
    by (simp add: check_deny_list_def split: if_splits)
  show "check_deny_list p = check_deny_list q"
    if "map folded (components p) = map folded (components q)"
    using is_denied_for_write_folded [OF that] by (simp add: check_deny_list_def)
qed (simp add: check_deny_list_def check_deny_list_write_def)

theorem deny_list_exact_witness:
  "check_deny_list \<lparr>rel_path_value = lit ''a/.SSH''\<rparr> = Err Vfs_DenyListed \<and>
   check_deny_list \<lparr>rel_path_value = lit ''a/.SSH/config''\<rparr> = Err Vfs_DenyListed \<and>
   check_deny_list \<lparr>rel_path_value = lit ''.config/other''\<rparr> = Ok ()"
proof -
  have p: "check_deny_list \<lparr>rel_path_value = lit ''a/.SSH''\<rparr> = Err Vfs_DenyListed" by code_simp
  have q: "components \<lparr>rel_path_value = lit ''a/.SSH/config''\<rparr> =
      components \<lparr>rel_path_value = lit ''a/.SSH''\<rparr> @ [lit ''config'']" by code_simp
  have st: "is_partial_staging (components \<lparr>rel_path_value = lit ''a/.SSH/config''\<rparr>) \<longrightarrow>
      is_partial_staging (components \<lparr>rel_path_value = lit ''a/.SSH''\<rparr>)" by code_simp
  have "check_deny_list \<lparr>rel_path_value = lit ''.config/other''\<rparr> = Ok ()" by code_simp
  with p show ?thesis
    using deny_list_exact [of "\<lparr>rel_path_value = lit ''a/.SSH''\<rparr>" "\<lparr>rel_path_value = lit ''a/.SSH/config''\<rparr>"
        "[lit ''config'']"] q st by blast
qed

section \<open>The staging area of a transfer\<close>

text \<open>
  \<open>partial_root_rel_path\<close>, \<open>partial_dir_rel_path\<close> and \<open>partial_file_rel_path\<close>: where the
  bytes of an item wait until it is verified. Each unwraps \<open>RelPath::new\<close>; \<open>None\<close> is
  the panic of an \<open>expect\<close> that fails.
\<close>

definition expect :: "('a, 'e) result \<Rightarrow> 'a option" where
  "expect r = (case r of Ok x \<Rightarrow> Some x | Err _ \<Rightarrow> None)"

definition partial_root_rel_path :: "rel_path option" where
  "partial_root_rel_path = expect (rel_path_new (lit ''.tradr-partial''))"

definition partial_dir_rel_path :: "transfer_id \<Rightarrow> rel_path option" where
  "partial_dir_rel_path t =
     (case partial_root_rel_path of
        None \<Rightarrow> None
      | Some root \<Rightarrow> expect (rel_path_new (rel_path_display root @ [SLASH] @ transfer_id_display t)))"

definition partial_file_rel_path :: "transfer_id \<Rightarrow> item_id \<Rightarrow> rel_path option" where
  "partial_file_rel_path t i =
     (case partial_dir_rel_path t of
        None \<Rightarrow> None
      | Some dir \<Rightarrow> expect (rel_path_new (rel_path_display dir @ [SLASH] @ item_id_display i)))"

lemma expect_Some [simp]: "expect r = Some x \<longleftrightarrow> r = Ok x"
  by (simp add: expect_def split: result.split)

lemma permitted_folded:
  assumes "\<forall>x \<in> set c. is_permitted_char x"
  shows "folded c = map of_nat c"
proof -
  have "byte_lowercase (of_nat x) = of_nat x" if "x \<in> set c" for x
    using assms that permitted_ascii [of x]
    by (auto simp: is_permitted_char_def is_ascii_lowercase_def is_ascii_digit_def unat_of_nat_ascii)
  moreover have "str_bytes c = map of_nat c" using assms permitted_ascii by (intro ascii_str_bytes) blast
  ultimately show ?thesis by simp
qed

lemma of_nat_ascii_inj: "x < 128 \<Longrightarrow> y < 128 \<Longrightarrow> (of_nat x :: u8) = of_nat y \<longleftrightarrow> x = y"
  by (metis unat_of_nat_ascii)

lemma permitted_no_dot:
  assumes "\<forall>x \<in> set c. is_permitted_char x"
  shows "46 \<notin> set (folded c)"
proof
  assume "46 \<in> set (folded c)"
  then obtain x where "x \<in> set c" "(of_nat x :: u8) = of_nat 46"
    using permitted_folded [OF assms] by auto
  moreover from this have "is_permitted_char x" using assms by blast
  ultimately have "is_permitted_char 46"
    using permitted_ascii [of x] of_nat_ascii_inj [of x 46] by simp
  then show False by (simp add: is_permitted_char_def is_ascii_lowercase_def is_ascii_digit_def)
qed

lemma permitted_no_dot_match:
  assumes "\<forall>x \<in> set c. is_permitted_char x"
  shows "46 \<in> set (folded p) \<Longrightarrow> \<not> part_matches (Exact p) c"
    and "46 \<in> set (folded p) \<union> set (folded s) \<Longrightarrow> \<not> part_matches (Glob p s) c"
proof -
  note nd = permitted_no_dot [OF assms]
  show "46 \<in> set (folded p) \<Longrightarrow> \<not> part_matches (Exact p) c"
    using nd by (metis part_matches_Exact)
  show "46 \<in> set (folded p) \<union> set (folded s) \<Longrightarrow> \<not> part_matches (Glob p s) c"
    using nd unfolding part_matches_Glob by (metis Un_iff set_append)
qed

lemma permitted_prefix_match:
  assumes "\<forall>x \<in> set c. is_permitted_char x" and "\<forall>x \<in> set p. is_permitted_char x"
  shows "part_matches (Glob p []) c \<longleftrightarrow> prefix p c"
proof -
  have "part_matches (Glob p []) c \<longleftrightarrow> prefix (map of_nat p :: u8 list) (map of_nat c)"
    using assms by (simp add: part_matches_Glob permitted_folded prefix_def)
  also have "\<dots> \<longleftrightarrow> prefix p c"
  proof
    assume pre: "prefix (map of_nat p :: u8 list) (map of_nat c)"
    then have "map of_nat p = map (of_nat :: nat \<Rightarrow> u8) (take (length p) c)"
      by (metis length_map prefix_def take_append take_all take_map append_Nil2 diff_self_eq_0 order_refl take_0)
    then have "map (unat \<circ> (of_nat :: nat \<Rightarrow> u8)) p = map (unat \<circ> (of_nat :: nat \<Rightarrow> u8)) (take (length p) c)"
      by (metis map_map)
    moreover have "map (unat \<circ> (of_nat :: nat \<Rightarrow> u8)) xs = xs" if "\<forall>x \<in> set xs. is_permitted_char x" for xs
      using that permitted_ascii by (intro map_idI) (simp add: unat_of_nat_ascii)
    ultimately have "p = take (length p) c" using assms by (metis in_set_takeD)
    then show "prefix p c" by (metis take_is_prefix)
  qed (rule map_mono_prefix)
  finally show ?thesis .
qed

lemma matches_somewhere_hd: "matches_somewhere (part # ps) cs \<Longrightarrow> \<exists>c \<in> set cs. part_matches part c"
  unfolding matches_somewhere_def using set_mono_sublist by (fastforce simp: list_all2_Cons1)

text \<open>Paths made of plain ASCII names are accepted as they are.\<close>

definition plain_name :: "rstr \<Rightarrow> bool" where
  "plain_name c \<longleftrightarrow> c \<noteq> [] \<and> c \<noteq> lit ''.'' \<and> c \<noteq> lit ''..'' \<and> length c \<le> 255 \<and>
     (\<forall>x \<in> set c. is_permitted_char x \<or> x = 46)"

lemma plain_char:
  assumes "is_permitted_char x \<or> x = 46"
  shows "x < 128" and "x \<noteq> SLASH" and "x \<noteq> BACKSLASH" and "x \<noteq> COLON" and "\<not> is_control x"
    and "\<not> is_misleading_display_character x"
  using assms
  by (auto simp: is_permitted_char_def is_ascii_lowercase_def is_ascii_digit_def is_control_def
      is_misleading_display_character_def)

lemma set_join_with: "set (join_with sep ps) \<subseteq> insert sep (\<Union> (set ` set ps))"
  by (induction sep ps rule: join_with.induct) auto

lemma drive_prefix_colon: "has_drive_letter_prefix s \<Longrightarrow> COLON \<in> set s"
  by (cases s rule: has_drive_letter_prefix.cases) auto

lemma plain_path:
  assumes "cs \<noteq> []" and "\<forall>c \<in> set cs. plain_name c"
  shows "rel_path_new (join_with SLASH cs) = Ok \<lparr>rel_path_value = join_with SLASH cs\<rparr>"
    and "components \<lparr>rel_path_value = join_with SLASH cs\<rparr> = cs"
proof -
  have chars: "is_permitted_char x \<or> x = 46 \<or> x = SLASH" if "x \<in> set (join_with SLASH cs)" for x
    using that set_join_with [of SLASH cs] assms(2) by (fastforce simp: plain_name_def)
  have split: "split_on SLASH (join_with SLASH cs) = cs"
    using assms plain_char(2) unfolding plain_name_def by (intro split_join) blast+
  have "good_component c" if "c \<in> set cs" for c
    using that assms(2) plain_char(1) by (auto simp: plain_name_def good_component_def ascii_str_len)
  moreover have "\<not> has_drive_letter_prefix (join_with SLASH cs)"
    using drive_prefix_colon chars plain_char(4) by fastforce
  moreover have "BACKSLASH \<notin> set (join_with SLASH cs)" using chars plain_char(3) by fastforce
  moreover have "\<not> is_control x \<and> \<not> is_misleading_display_character x"
    if "x \<in> set (join_with SLASH cs)" for x
    using chars [OF that] plain_char(5,6) [of x]
    by (auto simp: is_control_def is_misleading_display_character_def)
  ultimately show "rel_path_new (join_with SLASH cs) = Ok \<lparr>rel_path_value = join_with SLASH cs\<rparr>"
    by (simp add: rel_path_new_Ok_iff good_path_def split)
  then show "components \<lparr>rel_path_value = join_with SLASH cs\<rparr> = cs"
    using components_of_new split by metis
qed

lemma hex_digit_chars: "d < 16 \<Longrightarrow> is_ascii_digit (hex_digit d) \<or> 97 \<le> hex_digit d \<and> hex_digit d \<le> 102"
  by (auto simp: hex_digit_def is_ascii_digit_def)

lemma uuid_display_chars:
  assumes "x \<in> set (uuid_display b)"
  shows "x = 45 \<or> is_ascii_digit x \<or> 97 \<le> x \<and> x \<le> 102"
proof -
  have h: "is_ascii_digit y \<or> 97 \<le> y \<and> y \<le> 102" if "y \<in> set (hex2 a)" for y and a :: u8
  proof -
    have "unat a div 16 < 16" using unat_less [of a] by auto
    then show ?thesis
      using that hex_digit_chars [of "unat a div 16"] hex_digit_chars [of "unat a mod 16"]
      by (auto simp: hex2_def)
  qed
  show ?thesis using assms unfolding uuid_display_def set_append Un_iff by (elim disjE) (auto dest: h)
qed

lemma uuid_display_permitted: "\<forall>x \<in> set (uuid_display b). is_permitted_char x"
  using uuid_display_chars by (fastforce simp: is_permitted_char_def is_ascii_lowercase_def)

lemma uuid_display_plain: "plain_name (uuid_display b)"
  using uuid_display_permitted [of b] by (auto simp: plain_name_def uuid_display_def hex2_def)

lemma item_id_plain:
  assumes "item_id_valid i"
  shows "plain_name (item_id_display i)" and "\<forall>x \<in> set (item_id_display i). is_permitted_char x"
proof -
  have ok: "item_id_new (item_id_display i) = Ok i" using assms by (simp only: item_id_valid_def)
  show p: "\<forall>x \<in> set (item_id_display i). is_permitted_char x" by (rule item_id_new_Ok(2) [OF ok])
  have "\<not> is_permitted_char 46" by (simp add: is_permitted_char_def is_ascii_lowercase_def is_ascii_digit_def)
  with p have "item_id_display i \<noteq> lit ''.''" "item_id_display i \<noteq> lit ''..''" by auto
  with p show "plain_name (item_id_display i)"
    using item_id_new_Ok(3,4) [OF ok] by (auto simp: plain_name_def)
qed

abbreviation staging_components :: "transfer_id \<Rightarrow> item_id \<Rightarrow> rstr list" where
  "staging_components t i \<equiv> [lit ''.tradr-partial'', transfer_id_display t, item_id_display i]"

lemma partial_root_plain: "plain_name (lit ''.tradr-partial'')"
  by code_simp

lemma partial_paths:
  assumes "item_id_valid i"
  shows "partial_dir_rel_path t = Some \<lparr>rel_path_value = join_with SLASH [lit ''.tradr-partial'', transfer_id_display t]\<rparr>"
    and "partial_file_rel_path t i = Some \<lparr>rel_path_value = join_with SLASH (staging_components t i)\<rparr>"
    and "components \<lparr>rel_path_value = join_with SLASH (staging_components t i)\<rparr> = staging_components t i"
proof -
  let ?d = "[lit ''.tradr-partial'', transfer_id_display t]"
  have d: "\<forall>c \<in> set ?d. plain_name c" and f: "\<forall>c \<in> set (staging_components t i). plain_name c"
    using partial_root_plain uuid_display_plain item_id_plain(1) [OF assms]
    by (simp_all add: transfer_id_display_def del: lit_simps)
  have root: "partial_root_rel_path = Some \<lparr>rel_path_value = lit ''.tradr-partial''\<rparr>"
    using plain_path(1) [of "[lit ''.tradr-partial'']"] partial_root_plain
    by (simp add: partial_root_rel_path_def del: lit_simps)
  show dir: "partial_dir_rel_path t = Some \<lparr>rel_path_value = join_with SLASH ?d\<rparr>"
    using plain_path(1) [OF _ d] unfolding partial_dir_rel_path_def root
    by (simp add: rel_path_display_def del: lit_simps)
  show "partial_file_rel_path t i = Some \<lparr>rel_path_value = join_with SLASH (staging_components t i)\<rparr>"
    using plain_path(1) [OF _ f] unfolding partial_file_rel_path_def dir
    by (simp add: rel_path_display_def del: lit_simps)
  show "components \<lparr>rel_path_value = join_with SLASH (staging_components t i)\<rparr> = staging_components t i"
    using plain_path(2) [OF _ f] by simp
qed

lemma partial_file_path:
  assumes "item_id_valid i"
  shows "\<exists>p. partial_file_rel_path t i = Some p \<and> components p = staging_components t i"
  using partial_paths [OF assms] by blast

text \<open>Which names of an item the deny list refuses: three prefixes of private key files.\<close>

definition key_file_names :: "rstr list" where
  "key_file_names = [lit ''id_rsa'', lit ''id_ed25519'', lit ''id_ecdsa'']"

lemma part_matches_permitted:
  assumes "\<forall>x \<in> set c. is_permitted_char x" and "part # ps \<in> set DENY_PATTERNS"
  shows "part_matches part c \<longleftrightarrow> (\<exists>k \<in> set key_file_names. part = Glob k [] \<and> prefix k c)"
proof (cases "\<exists>k \<in> set key_file_names. part = Glob k []")
  case True
  then obtain k where k: "k \<in> set key_file_names" "part = Glob k []" by blast
  then have "\<forall>x \<in> set k. is_permitted_char x"
    by (auto simp: key_file_names_def is_permitted_char_def is_ascii_lowercase_def is_ascii_digit_def)
  then show ?thesis using k permitted_prefix_match [OF assms(1)] by auto
next
  case False
  have dot: "46 \<in> set (folded p)" if "46 \<in> set (str_bytes p)" for p
    using that by (force intro: image_eqI [of _ _ 46])
  have "(\<exists>p. part = Exact p \<and> 46 \<in> set (str_bytes p)) \<or>
      (\<exists>p s. part = Glob p s \<and> 46 \<in> set (str_bytes p) \<union> set (str_bytes s))"
    using assms(2) False by (auto simp: DENY_PATTERNS_def key_file_names_def)
  then have "\<not> part_matches part c"
    using permitted_no_dot_match [OF assms(1)] dot by blast
  with False show ?thesis by blast
qed

lemma partial_root_matches: "part # ps \<in> set DENY_PATTERNS \<Longrightarrow>
    part_matches part (lit ''.tradr-partial'') \<Longrightarrow> part # ps = PARTIAL_PATTERN"
  by (auto simp: DENY_PATTERNS_def part_matches_iff Cons_eq_append_conv)

lemma uuid_no_key_name:
  assumes "k \<in> set key_file_names"
  shows "\<not> prefix k (uuid_display b)"
proof
  assume "prefix k (uuid_display b)"
  then have "set k \<subseteq> set (uuid_display b)" by (rule set_mono_prefix)
  moreover have "105 \<in> set k" using assms by (auto simp: key_file_names_def)
  ultimately show False using uuid_display_chars [of 105 b] by (auto simp: is_ascii_digit_def)
qed

lemma staging_denied_iff:
  assumes "item_id_valid i"
  shows "is_denied_for_write (staging_components t i) \<longleftrightarrow>
    (\<exists>k \<in> set key_file_names. prefix k (item_id_display i))"
proof
  note perm = item_id_plain(2) [OF assms] uuid_display_permitted [of "transfer_id_bytes t"]
  have st: "is_partial_staging (staging_components t i)"
    by (simp add: is_partial_staging_def eq_ignore_ascii_case_def)
  show "\<exists>k \<in> set key_file_names. prefix k (item_id_display i)"
    if "is_denied_for_write (staging_components t i)"
  proof -
    from that st obtain pattern where p: "pattern \<in> set DENY_PATTERNS"
      "matches_somewhere pattern (staging_components t i)" "pattern \<noteq> PARTIAL_PATTERN"
      unfolding is_denied_for_write_iff by blast
    then obtain part ps where pp: "pattern = part # ps"
      by (cases pattern) (auto simp: DENY_PATTERNS_def)
    with p obtain c where c: "c \<in> set (staging_components t i)" "part_matches part c"
      using matches_somewhere_hd by blast
    moreover have "\<not> part_matches part (lit ''.tradr-partial'')" using p pp partial_root_matches by blast
    moreover have "\<not> part_matches part (transfer_id_display t)"
      using part_matches_permitted [OF perm(2)] p(1) pp uuid_no_key_name
      by (auto simp: transfer_id_display_def)
    ultimately have "part_matches part (item_id_display i)" by auto
    then show ?thesis using part_matches_permitted [OF perm(1)] p(1) pp by blast
  qed
  show "is_denied_for_write (staging_components t i)"
    if "\<exists>k \<in> set key_file_names. prefix k (item_id_display i)"
  proof -
    from that obtain k where k: "k \<in> set key_file_names" "prefix k (item_id_display i)" by blast
    then have d: "[Glob k []] \<in> set DENY_PATTERNS" by (auto simp: DENY_PATTERNS_def key_file_names_def)
    have "part_matches (Glob k []) (item_id_display i)"
      using part_matches_permitted [OF perm(1) d] k by blast
    then have "matches_somewhere [Glob k []] (staging_components t i)" by (simp add: matches_single)
    with d show ?thesis unfolding is_denied_for_write_iff by blast
  qed
qed

text \<open>
  Property C39. Where the bytes of an item wait. For every transfer and every item identifier the
  staging path is built without a panic and is the item's name below the transfer's directory
  below the staging root, so items of different transfers never share a file; and the deny list
  lets the receiver write it exactly when the identifier does not begin with the name of a
  private key file. An offer may name such an item, since the identifier itself is valid: its
  bytes then have no place to go.
\<close>

theorem staging_path_exact:
  assumes "item_id_valid i"
  shows "\<exists>p. partial_file_rel_path t i = Some p \<and>
    components p = [lit ''.tradr-partial'', transfer_id_display t, item_id_display i] \<and>
    (check_deny_list_write p = Ok () \<longleftrightarrow>
       \<not> (\<exists>k \<in> set [lit ''id_rsa'', lit ''id_ed25519'', lit ''id_ecdsa'']. prefix k (item_id_display i)))"
proof -
  obtain p where p: "partial_file_rel_path t i = Some p" "components p = staging_components t i"
    using partial_file_path [OF assms] by blast
  then show ?thesis
    using staging_denied_iff [OF assms, of t]
    by (auto simp: check_deny_list_write_def key_file_names_def simp del: lit_simps)
qed

theorem staging_path_exact_witness:
  "\<exists>i p. item_id_new (lit ''id_rsa'') = Ok i \<and>
     partial_file_rel_path (TransferId (replicate 16 0)) i = Some p \<and>
     check_deny_list_write p = Err Vfs_DenyListed"
proof -
  define i where "i = \<lparr>item_id_bytes = str_bytes (lit ''id_rsa'') @ replicate 58 0, item_id_len = 6\<rparr>"
  have new: "item_id_new (lit ''id_rsa'') = Ok i" unfolding i_def by code_simp
  then have valid: "item_id_valid i" and disp: "item_id_display i = lit ''id_rsa''"
    using item_id_new_Ok(1) [OF new] by (simp_all only: item_id_valid_def)
  obtain p where p: "partial_file_rel_path (TransferId (replicate 16 0)) i = Some p"
    "check_deny_list_write p \<noteq> Ok ()"
    using staging_path_exact [OF valid, of "TransferId (replicate 16 0)"] disp by auto
  then have "check_deny_list_write p = Err Vfs_DenyListed"
    by (auto simp: check_deny_list_write_def split: if_splits)
  with new p show ?thesis by blast
qed

end
