(* ===== verification/Sanitization.thy ===== *)
theory Sanitization
  imports Deny_List
begin

text \<open>
  What a receiver makes of the destination path a sender names, and how it finds a free name for
  it (\<open>tradr-vfs/src/sanitization.rs\<close>). \<open>sanitize_destination_path\<close> normalises,
  refuses what could leave the destination, rewrites the names Windows reserves and rebuilds a
  \<open>RelPath\<close>; Unicode normalisation is the \<open>unicode_normalization\<close> crate and a
  parameter here. \<open>resolve_collision\<close> appends a counter until the file system answers that
  nothing has that name; what \<open>stat\<close> answers is a parameter, and since no path is asked
  about twice, a function of the path covers every answer a changing file system can give.
\<close>

section \<open>Sanitising a destination path\<close>

definition WINDOWS_RESERVED :: "rstr list" where
  "WINDOWS_RESERVED = map lit
    [''CON'', ''PRN'', ''AUX'', ''NUL'', ''COM1'', ''COM2'', ''COM3'', ''COM4'', ''COM5'', ''COM6'',
     ''COM7'', ''COM8'', ''COM9'', ''LPT1'', ''LPT2'', ''LPT3'', ''LPT4'', ''LPT5'', ''LPT6'',
     ''LPT7'', ''LPT8'', ''LPT9'']"

datatype sanitization_error =
    San_AbsolutePath
  | San_ParentTraversal
  | San_ControlCharacters
  | San_BidiOverride
  | San_InvalidRelPath rel_path_error

fun sanitization_from :: "rel_path_error \<Rightarrow> sanitization_error" where
  "sanitization_from RelPath_Absolute = San_AbsolutePath"
| "sanitization_from RelPath_DriveLetter = San_AbsolutePath"
| "sanitization_from RelPath_Backslash = San_AbsolutePath"
| "sanitization_from (RelPath_ControlCharacter c) = San_ControlCharacters"
| "sanitization_from (RelPath_MisleadingDisplay c) = San_BidiOverride"
| "sanitization_from (RelPath_DotComponent s) =
     (if s = lit ''..'' then San_ParentTraversal else San_InvalidRelPath (RelPath_DotComponent s))"
| "sanitization_from other = San_InvalidRelPath other"

definition is_bidi_override_char :: "rchar \<Rightarrow> bool" where
  "is_bidi_override_char c \<longleftrightarrow>
     (0x202a \<le> c \<and> c \<le> 0x202e) \<or> (0x2066 \<le> c \<and> c \<le> 0x2069) \<or> c = 0x2028 \<or> c = 0x2029"

fun has_drive_prefix :: "rstr \<Rightarrow> bool" where
  "has_drive_prefix (first # second # _) = (second = COLON \<and> is_ascii_alphabetic first)"
| "has_drive_prefix _ = False"

abbreviation (input) "DOT \<equiv> (46 :: rchar)"
abbreviation (input) "SPACE \<equiv> (32 :: rchar)"
abbreviation (input) "UNDERSCORE \<equiv> (95 :: rchar)"

text \<open>\<open>trim_end_matches(['.', ' '])\<close> and \<open>replace(':', "_")\<close>.\<close>

definition trim_end :: "rstr \<Rightarrow> rstr" where
  "trim_end s = rev (dropWhile (\<lambda>c. c = DOT \<or> c = SPACE) (rev s))"

definition replace_colon :: "rstr \<Rightarrow> rstr" where
  "replace_colon s = map (\<lambda>c. if c = COLON then UNDERSCORE else c) s"

definition is_reserved_stem :: "rstr \<Rightarrow> bool" where
  "is_reserved_stem stem =
     list_ex (\<lambda>reserved. eq_ignore_ascii_case (str_bytes reserved) (str_bytes stem)) WINDOWS_RESERVED"

fun sanitize_components :: "rstr list \<Rightarrow> rstr list \<Rightarrow> (rstr list, sanitization_error) result" where
  "sanitize_components [] sanitized = Ok sanitized"
| "sanitize_components (component # rest) sanitized =
     (let trimmed = trim_end component in
      if trimmed = [] then sanitize_components rest sanitized
      else if trimmed = lit ''..'' then Err San_ParentTraversal
      else
        let replaced = replace_colon trimmed;
            stem = takeWhile (\<lambda>c. c \<noteq> DOT) replaced;
            ext = dropWhile (\<lambda>c. c \<noteq> DOT) replaced
        in sanitize_components rest
             (sanitized @ [if is_reserved_stem stem then stem @ [UNDERSCORE] @ ext else replaced]))"

definition sanitize_destination_path :: "(rstr \<Rightarrow> rstr) \<Rightarrow> rstr \<Rightarrow> (rel_path, sanitization_error) result" where
  "sanitize_destination_path nfc raw_path =
     (let normalized = nfc raw_path in
      if (normalized \<noteq> [] \<and> hd normalized = SLASH) \<or> (normalized \<noteq> [] \<and> hd normalized = BACKSLASH) \<or>
         has_drive_prefix normalized
      then Err San_AbsolutePath
      else if list_ex is_control normalized then Err San_ControlCharacters
      else if list_ex is_bidi_override_char normalized then Err San_BidiOverride
      else if list_ex (\<lambda>comp. comp = lit ''..'') (split_on SLASH normalized) then Err San_ParentTraversal
      else case sanitize_components (split_on SLASH normalized) [] of
        Err e \<Rightarrow> Err e
      | Ok sanitized \<Rightarrow>
          if sanitized = [] then map_err sanitization_from (rel_path_new [])
          else map_err sanitization_from (rel_path_new (join_with SLASH sanitized)))"

section \<open>What sanitising guarantees\<close>

text \<open>A component Windows takes for what it looks like.\<close>

definition windows_safe :: "rstr \<Rightarrow> bool" where
  "windows_safe c \<longleftrightarrow> c \<noteq> [] \<and> COLON \<notin> set c \<and> last c \<noteq> DOT \<and> last c \<noteq> SPACE \<and>
     \<not> is_reserved_stem (takeWhile (\<lambda>x. x \<noteq> DOT) c)"

lemma trim_end_last: "trim_end s \<noteq> [] \<Longrightarrow> last (trim_end s) \<noteq> DOT \<and> last (trim_end s) \<noteq> SPACE"
  using hd_dropWhile [of "\<lambda>c. c = DOT \<or> c = SPACE" "rev s"] unfolding trim_end_def last_rev by blast

lemma trim_end_id: "s = [] \<or> last s \<noteq> DOT \<and> last s \<noteq> SPACE \<Longrightarrow> trim_end s = s"
  by (cases s rule: rev_cases) (auto simp: trim_end_def)

lemma set_trim_end: "set (trim_end s) \<subseteq> set s"
  by (auto simp: trim_end_def dest: set_dropWhileD)

lemma replace_colon_simps [simp]: "COLON \<notin> set (replace_colon s)" "replace_colon s = [] \<longleftrightarrow> s = []"
  by (auto simp: replace_colon_def)

lemma replace_colon_id: "COLON \<notin> set s \<Longrightarrow> replace_colon s = s"
  unfolding replace_colon_def by (intro map_idI) auto

lemma last_replace_colon:
  "s \<noteq> [] \<Longrightarrow> last (replace_colon s) = (if last s = COLON then UNDERSCORE else last s)"
  by (simp add: replace_colon_def last_map)

lemma underscore_not_reserved: "\<not> is_reserved_stem (s @ [UNDERSCORE])"
proof
  assume "is_reserved_stem (s @ [UNDERSCORE])"
  then obtain r where r: "r \<in> set WINDOWS_RESERVED"
    and eq: "map byte_lowercase (str_bytes r) = map byte_lowercase (str_bytes (s @ [UNDERSCORE]))"
    by (auto simp: is_reserved_stem_def list_ex_iff eq_ignore_ascii_case_def)
  have "last (map byte_lowercase (str_bytes r)) = 95" unfolding eq by simp
  with r show False by (auto simp: WINDOWS_RESERVED_def)
qed

lemma takeWhile_dot_append:
  "DOT \<notin> set stem \<Longrightarrow> ext = [] \<or> hd ext = DOT \<Longrightarrow>
   takeWhile (\<lambda>c. c \<noteq> DOT) (stem @ ext) = stem"
  by (induction stem) (cases ext; auto)+

lemma sanitized_component_safe:
  assumes "trim_end cp \<noteq> []" and "replaced = replace_colon (trim_end cp)"
    and "stem = takeWhile (\<lambda>c. c \<noteq> DOT) replaced" and "ext = dropWhile (\<lambda>c. c \<noteq> DOT) replaced"
  shows "windows_safe (if is_reserved_stem stem then stem @ [UNDERSCORE] @ ext else replaced)"
proof -
  have r: "replaced \<noteq> []" "COLON \<notin> set replaced" "last replaced \<noteq> DOT" "last replaced \<noteq> SPACE"
    using assms(1,2) trim_end_last [of cp] by (auto simp: last_replace_colon)
  have split: "stem @ ext = replaced" by (simp add: assms)
  have nodot: "DOT \<notin> set stem" 
    using set_takeWhileD [of DOT "\<lambda>c. c \<noteq> DOT" replaced] unfolding assms(3) by blast
  have ext: "ext = [] \<or> hd ext = DOT" using hd_dropWhile [of "\<lambda>c. c \<noteq> DOT" replaced] unfolding assms by blast
  have "takeWhile (\<lambda>c. c \<noteq> DOT) ((stem @ [UNDERSCORE]) @ ext) = stem @ [UNDERSCORE]"
    using nodot ext by (intro takeWhile_dot_append) auto
  then have "windows_safe ((stem @ [UNDERSCORE]) @ ext)"
    using r underscore_not_reserved by (auto simp: windows_safe_def simp flip: split)
  moreover have "windows_safe replaced" if "\<not> is_reserved_stem stem"
    using that r unfolding windows_safe_def assms(3) by blast
  ultimately show ?thesis by simp
qed

lemma sanitize_components_safe:
  assumes "sanitize_components cs acc = Ok out" and "\<forall>c \<in> set cs. SLASH \<notin> set c"
    and "\<forall>c \<in> set acc. windows_safe c \<and> SLASH \<notin> set c"
  shows "\<forall>c \<in> set out. windows_safe c \<and> SLASH \<notin> set c"
  using assms
proof (induction cs arbitrary: acc)
  case (Cons cp rest)
  define replaced where "replaced = replace_colon (trim_end cp)"
  define stem where "stem = takeWhile (\<lambda>c. c \<noteq> DOT) replaced"
  define ext where "ext = dropWhile (\<lambda>c. c \<noteq> DOT) replaced"
  let ?new = "if is_reserved_stem stem then stem @ [UNDERSCORE] @ ext else replaced"
  show ?case
  proof (cases "trim_end cp = []")
    case True
    then have "sanitize_components rest acc = Ok out" using Cons.prems(1) by simp
    then show ?thesis using Cons.prems(2,3) by (intro Cons.IH) simp_all
  next
    case False
    have "SLASH \<notin> set replaced"
      using Cons.prems(2) set_trim_end [of cp] by (auto simp: replaced_def replace_colon_def)
    moreover have "set stem \<subseteq> set replaced" "set ext \<subseteq> set replaced"
      by (auto simp: stem_def ext_def dest: set_takeWhileD set_dropWhileD)
    ultimately have "SLASH \<notin> set ?new" by auto
    moreover have "windows_safe ?new"
      by (rule sanitized_component_safe [OF False replaced_def stem_def ext_def])
    moreover have "sanitize_components rest (acc @ [?new]) = Ok out" "trim_end cp \<noteq> lit ''..''"
      using Cons.prems(1) False by (auto simp: Let_def replaced_def stem_def ext_def split: if_splits)
    ultimately show ?thesis
      using Cons.prems(2,3) by (intro Cons.IH [of "acc @ [?new]"]) auto
  qed
qed simp

lemma sanitize_components_id:
  "\<forall>c \<in> set cs. windows_safe c \<Longrightarrow> sanitize_components cs acc = Ok (acc @ cs)"
proof (induction cs arbitrary: acc)
  case (Cons c cs)
  then have safe: "windows_safe c" by simp
  then have "trim_end c = c" and "c \<noteq> []" and "c \<noteq> lit ''..''" and "replace_colon c = c"
    by (auto simp: windows_safe_def trim_end_id replace_colon_id)
  with Cons safe show ?case by (simp add: windows_safe_def Let_def del: lit_simps)
qed simp

lemma has_drive_prefix_eq: "has_drive_prefix s = has_drive_letter_prefix s"
  by (cases s rule: has_drive_prefix.cases) auto

lemma is_bidi_override_char_eq: "is_bidi_override_char = is_misleading_display_character"
  by (simp add: fun_eq_iff is_bidi_override_char_def is_misleading_display_character_def)

lemma sanitize_destination_Ok:
  assumes "sanitize_destination_path nfc raw = Ok p"
  shows "rel_path_new (rel_path_value p) = Ok p" and "\<forall>c \<in> set (components p). windows_safe c"
proof -
  obtain out where out: "sanitize_components (split_on SLASH (nfc raw)) [] = Ok out" "out \<noteq> []"
    and new: "rel_path_new (join_with SLASH out) = Ok p"
    using assms by (auto simp: sanitize_destination_path_def Let_def rel_path_new_def [of "[]"]
        split: if_splits result.splits)
  show val: "rel_path_new (rel_path_value p) = Ok p" using new by (auto simp: rel_path_new_Ok_iff)
  have safe: "\<forall>c \<in> set out. windows_safe c \<and> SLASH \<notin> set c"
    using sanitize_components_safe [OF out(1)] split_on_pieces by fastforce
  then have "components p = out" using components_of_new [OF new] split_join [of out SLASH] out(2) by simp
  with safe show "\<forall>c \<in> set (components p). windows_safe c" by blast
qed

text \<open>
  Property C25. A destination path a sender names is made safe or refused. What
  \<open>sanitize_destination_path\<close> returns is a path \<open>RelPath::new\<close> accepts, so resolving it
  from any directory never leaves that directory; none of its components holds a colon, ends in a
  dot or a space, or has a stem that Windows reserves for a device, in any case of letters. And
  sanitising is settled: a result that is in normal form is left exactly as it is by a second pass.
\<close>

theorem sanitized_path_safe:
  assumes "sanitize_destination_path nfc raw = Ok p"
  shows "rel_path_new (rel_path_value p) = Ok p \<and> walk root (components p) = root @ components p \<and>
    (\<forall>c \<in> set (components p). COLON \<notin> set c \<and> last c \<noteq> DOT \<and> last c \<noteq> SPACE \<and>
       \<not> (\<exists>r \<in> set WINDOWS_RESERVED. eq_ignore_ascii_case (str_bytes r) (str_bytes (takeWhile (\<lambda>x. x \<noteq> DOT) c)))) \<and>
    (nfc (rel_path_value p) = rel_path_value p \<longrightarrow> sanitize_destination_path nfc (rel_path_value p) = Ok p)"
proof (intro conjI impI)
  note ok = sanitize_destination_Ok(1) [OF assms] and safe = sanitize_destination_Ok(2) [OF assms]
  have good: "good_path (rel_path_value p)" and comps: "components p = split_on SLASH (rel_path_value p)"
    using ok components_of_new [OF ok] by (simp_all add: rel_path_new_Ok_iff)
  show "rel_path_new (rel_path_value p) = Ok p" by (rule ok)
  show "walk root (components p) = root @ components p"
    using good by (intro walk_good) (auto simp: good_path_def comps)
  show "\<forall>c \<in> set (components p). COLON \<notin> set c \<and> last c \<noteq> DOT \<and> last c \<noteq> SPACE \<and>
       \<not> (\<exists>r \<in> set WINDOWS_RESERVED. eq_ignore_ascii_case (str_bytes r) (str_bytes (takeWhile (\<lambda>x. x \<noteq> DOT) c)))"
    using safe by (auto simp: windows_safe_def is_reserved_stem_def list_ex_iff)
  show "sanitize_destination_path nfc (rel_path_value p) = Ok p"
    if "nfc (rel_path_value p) = rel_path_value p"
    using that ok good good_path_head [of "rel_path_value p"] safe sanitize_components_id [of "components p" "[]"]
    by (auto simp: sanitize_destination_path_def Let_def has_drive_prefix_eq is_bidi_override_char_eq
        list_ex_iff good_path_def good_component_def comps join_split dest: list.set_sel(1))
qed

theorem sanitized_path_safe_witness:
  "sanitize_destination_path id (lit ''a./con.txt'') = Ok \<lparr>rel_path_value = lit ''a/con_.txt''\<rparr> \<and>
   sanitize_destination_path id (lit ''a/con_.txt'') = Ok \<lparr>rel_path_value = lit ''a/con_.txt''\<rparr>"
proof -
  have "sanitize_destination_path id (lit ''a./con.txt'') = Ok \<lparr>rel_path_value = lit ''a/con_.txt''\<rparr>"
    by (simp add: sanitize_destination_path_def Let_def is_control_def is_bidi_override_char_def
        is_misleading_display_character_def trim_end_def replace_colon_def is_reserved_stem_def
        WINDOWS_RESERVED_def eq_ignore_ascii_case_def rel_path_new_def)
  then show ?thesis using sanitized_path_safe [of id "lit ''a./con.txt''" _ "[]"] by (simp del: lit_simps)
qed

section \<open>Finding a free name\<close>

definition rfind :: "'a \<Rightarrow> 'a list \<Rightarrow> nat option" where
  "rfind c s = map_option (\<lambda>i. length s - 1 - i) (position (\<lambda>x. x = c) (rev s))"

text \<open>The counter is an \<open>i32\<close> (the default of an unconstrained integer), printed in decimal.\<close>

fun decimal :: "nat \<Rightarrow> rstr" where
  "decimal n = (if n < 10 then [48 + n] else decimal (n div 10) @ [48 + n mod 10])"

declare decimal.simps [simp del]

definition split_name :: "rstr \<Rightarrow> rstr \<times> rstr \<times> rstr" where
  "split_name rel_str =
     (let (parent_prefix, file_name) =
            (case rfind SLASH rel_str of
               Some idx \<Rightarrow> (take (idx + 1) rel_str, drop (idx + 1) rel_str)
             | None \<Rightarrow> ([], rel_str));
          (stem, ext) =
            (if file_name \<noteq> [] \<and> hd file_name = DOT \<and> DOT \<notin> set (tl file_name) then (file_name, [])
             else case rfind DOT file_name of
               Some dot_idx \<Rightarrow>
                 if dot_idx > 0 then (take dot_idx file_name, drop dot_idx file_name) else (file_name, [])
             | None \<Rightarrow> (file_name, []))
      in (parent_prefix, stem, ext))"

definition candidate_name :: "rstr \<times> rstr \<times> rstr \<Rightarrow> nat \<Rightarrow> rstr" where
  "candidate_name parts counter =
     (case parts of (parent_prefix, stem, ext) \<Rightarrow>
        parent_prefix @ stem @ lit '' ('' @ decimal counter @ lit '')'' @ ext)"

text \<open>
  The loop. Stepping the counter past \<open>i32::MAX\<close> overflows, which happens before that
  value is ever handed to the body.
\<close>

function collision_loop ::
    "(rel_path \<Rightarrow> ('m, vfs_error) result) \<Rightarrow> rstr \<times> rstr \<times> rstr \<Rightarrow> nat \<Rightarrow> (rel_path, vfs_error) result" where
  "collision_loop stat parts counter =
     (if counter \<ge> 2147483647 then Err Vfs_Panic
      else case rel_path_new (candidate_name parts counter) of
        Err _ \<Rightarrow> Err (Vfs_Io Io_InvalidInput)
      | Ok candidate_rel \<Rightarrow>
          (case stat candidate_rel of
             Ok _ \<Rightarrow> collision_loop stat parts (counter + 1)
           | Err e \<Rightarrow> if e = Vfs_NotFound then Ok candidate_rel else Err e))"
  by pat_completeness auto

termination
  by (relation "measure (\<lambda>(stat, parts, counter). 2147483647 - counter)") auto

declare collision_loop.simps [simp del]

definition resolve_collision ::
    "(root_id \<Rightarrow> rel_path \<Rightarrow> ('m, vfs_error) result) \<Rightarrow> root_id \<Rightarrow> rel_path \<Rightarrow> (rel_path, vfs_error) result" where
  "resolve_collision stat root p =
     (case stat root p of
        Err e \<Rightarrow> if e = Vfs_NotFound then Ok p else Err e
      | Ok _ \<Rightarrow> collision_loop (stat root) (split_name (rel_path_value p)) 2)"

section \<open>Candidate names\<close>

definition digits_value :: "rstr \<Rightarrow> nat" where
  "digits_value ds = foldl (\<lambda>a d. a * 10 + (d - 48)) 0 ds"

lemma digits_value_decimal: "digits_value (decimal n) = n"
proof (induction n rule: decimal.induct)
  case (1 n)
  then show ?case
    by (subst decimal.simps) (auto simp: digits_value_def)
qed

lemma decimal_inject: "decimal m = decimal n \<longleftrightarrow> m = n"
  by (metis digits_value_decimal)

lemma decimal_digits: "c \<in> set (decimal n) \<Longrightarrow> 48 \<le> c \<and> c \<le> 57"
proof (induction n rule: decimal.induct)
  case (1 n)
  then show ?case by (subst (asm) (2) decimal.simps) (auto split: if_splits)
qed

lemma length_decimal: "0 < k \<Longrightarrow> n < 10 ^ k \<Longrightarrow> length (decimal n) \<le> k"
proof (induction n arbitrary: k rule: decimal.induct)
  case (1 n)
  show ?case
  proof (cases "n < 10")
    case False
    with "1.prems" obtain j where j: "k = Suc j" "0 < j" by (cases k; cases "k - 1") auto
    with "1.prems" have "n div 10 < 10 ^ j" by (simp add: less_mult_imp_div_less mult.commute)
    with "1.IH" [OF False] j show ?thesis by (subst decimal.simps) auto
  qed (use "1.prems" in \<open>auto simp: decimal.simps [of n]\<close>)
qed

lemma rfind_Some:
  assumes "rfind c s = Some i"
  shows "i < length s" and "s ! i = c" and "c \<notin> set (drop (Suc i) s)"
proof -
  obtain j where j: "position (\<lambda>x. x = c) (rev s) = Some j" and i: "i = length s - 1 - j"
    using assms by (auto simp: rfind_def)
  have p: "j < length s" "rev s ! j = c" "\<forall>k < j. rev s ! k \<noteq> c"
    using position_Some [OF j] by auto
  show "i < length s" "s ! i = c" using p i by (auto simp: rev_nth)
  show "c \<notin> set (drop (Suc i) s)"
  proof
    assume "c \<in> set (drop (Suc i) s)"
    then obtain k where k: "k < length s - Suc i" "s ! (Suc i + k) = c"
      by (auto simp: in_set_conv_nth)
    have "length s - Suc (length s - 1 - (Suc i + k)) = Suc i + k" "length s - 1 - (Suc i + k) < length s"
      using k(1) by linarith+
    with k(2) have "rev s ! (length s - 1 - (Suc i + k)) = c" by (simp only: rev_nth)
    moreover have "length s - 1 - (Suc i + k) < j" using k p i by linarith
    ultimately show False using p by blast
  qed
qed

lemma rfind_None: "rfind c s = None \<longleftrightarrow> c \<notin> set s"
  by (auto simp: rfind_def position_None)

lemma split_on_append: "split_on sep (a @ sep # b) = split_on sep a @ split_on sep b"
proof (induction a)
  case (Cons x a)
  then show ?case by (cases "split_on sep a") auto
qed simp

lemma split_name_parts:
  assumes "split_name s = (pp, stem, ext)"
  shows "s = pp @ stem @ ext" and "pp = [] \<or> (\<exists>dir. pp = dir @ [SLASH])" and "SLASH \<notin> set (stem @ ext)"
proof -
  define file_name where "file_name = (case rfind SLASH s of Some idx \<Rightarrow> drop (idx + 1) s | None \<Rightarrow> s)"
  have pp: "pp = (case rfind SLASH s of Some idx \<Rightarrow> take (idx + 1) s | None \<Rightarrow> [])"
    and f: "stem @ ext = file_name"
    using assms by (auto simp: split_name_def file_name_def Let_def simp del: drop_drop
        split: option.splits if_splits prod.splits)
  show "s = pp @ stem @ ext" using pp f by (auto simp: file_name_def split: option.splits)
  show "SLASH \<notin> set (stem @ ext)"
    unfolding f by (auto simp: file_name_def rfind_None dest: rfind_Some split: option.splits)
  show "pp = [] \<or> (\<exists>dir. pp = dir @ [SLASH])"
    using pp rfind_Some [of SLASH s] by (auto simp: take_Suc_conv_app_nth split: option.splits)
qed

lemma drive_insert:
  assumes "\<not> has_drive_letter_prefix (a @ c)"
  shows "\<not> has_drive_letter_prefix (a @ SPACE # b)"
proof (cases "a = []")
  case True
  then show ?thesis by (cases b) (auto simp: is_ascii_alphabetic_def)
next
  case False
  then show ?thesis using assms by (cases a rule: has_drive_letter_prefix.cases) auto
qed

text \<open>The counter and its parentheses: \<open>SPACE\<close> followed by ASCII that is no separator.\<close>

definition counter_suffix :: "nat \<Rightarrow> rstr" where
  "counter_suffix k = lit '' ('' @ decimal k @ lit '')''"

lemma candidate_name_eq: "candidate_name (pp, stem, ext) k = pp @ stem @ counter_suffix k @ ext"
  by (simp add: candidate_name_def counter_suffix_def)

lemma counter_suffix_chars: "x \<in> set (counter_suffix k) \<Longrightarrow> x \<in> {32, 40, 41} \<or> 48 \<le> x \<and> x \<le> 57"
  by (auto simp: counter_suffix_def dest: decimal_digits)

lemma counter_suffix_len:
  assumes "k < 2147483647"
  shows "str_len (counter_suffix k) \<le> 13"
proof -
  have "length (decimal k) \<le> 10" using assms by (intro length_decimal) auto
  moreover have "str_len (counter_suffix k) = length (counter_suffix k)"
    by (intro ascii_str_len) (auto dest: counter_suffix_chars)
  ultimately show ?thesis by (simp add: counter_suffix_def)
qed

lemma counter_suffix_Cons: "counter_suffix k = SPACE # tl (counter_suffix k)"
  by (simp add: counter_suffix_def)

lemma candidate_inject: "candidate_name parts j = candidate_name parts k \<longleftrightarrow> j = k"
  by (cases parts) (auto simp: candidate_name_def decimal_inject)

text \<open>A candidate is a valid path in the same directory as long as the longer name fits.\<close>

lemma candidate_split:
  assumes "split_name s = (pp, stem, ext)" and "SLASH \<notin> set name"
  shows "split_on SLASH (pp @ name) = butlast (split_on SLASH s) @ [name]"
    and "last (split_on SLASH s) = stem @ ext"
proof -
  note parts = split_name_parts [OF assms(1)]
  have *: "split_on SLASH (pp @ n) = (if pp = [] then [] else split_on SLASH (butlast pp)) @ [n]"
    if "SLASH \<notin> set n" for n
    using parts(2) that by (auto simp: split_on_append split_on_no_sep)
  show "split_on SLASH (pp @ name) = butlast (split_on SLASH s) @ [name]" "last (split_on SLASH s) = stem @ ext"
    using * [OF parts(3)] * [OF assms(2)] parts(1) by simp_all
qed

lemma candidate_valid:
  assumes "good_path s" and "split_name s = (pp, stem, ext)" and "str_len (last (split_on SLASH s)) \<le> 242"
    and "k < 2147483647"
  defines "c \<equiv> candidate_name (pp, stem, ext) k"
  shows "rel_path_new c = Ok \<lparr>rel_path_value = c\<rparr>"
    and "butlast (components \<lparr>rel_path_value = c\<rparr>) = butlast (split_on SLASH s)"
proof -
  let ?name = "stem @ counter_suffix k @ ext"
  note parts = split_name_parts [OF assms(2)]
  have c: "c = pp @ ?name" by (simp add: c_def candidate_name_eq)
  have slash: "SLASH \<notin> set ?name" using parts(3) counter_suffix_chars [of SLASH k] by auto
  note split = candidate_split(1) [OF assms(2) slash, folded c]
  have len: "str_len ?name \<le> 255"
    using counter_suffix_len [OF assms(4)] assms(3) candidate_split(2) [OF assms(2) slash] by simp
  have "SPACE \<in> set ?name" using counter_suffix_Cons [of k] by (metis Un_iff list.set_intros(1) set_append)
  moreover have "SPACE \<notin> set []" "SPACE \<notin> set (lit ''.'')" "SPACE \<notin> set (lit ''..'')" by simp_all
  ultimately have "?name \<noteq> []" "?name \<noteq> lit ''.''" "?name \<noteq> lit ''..''" by metis+
  with len have "good_component ?name" unfolding good_component_def by blast
  then have comps: "good_component x" if "x \<in> set (split_on SLASH c)" for x
    using that assms(1) split by (auto simp: good_path_def dest: in_set_butlastD)
  have chars: "x \<in> set s \<or> x \<in> {32, 40, 41} \<or> 48 \<le> x \<and> x \<le> 57" if "x \<in> set c" for x
    using that parts(1) by (auto simp: c dest: counter_suffix_chars)
  have "\<not> is_control x \<and> \<not> is_misleading_display_character x \<and> x \<noteq> BACKSLASH" if "x \<in> set c" for x
    using chars [OF that] assms(1) by (auto simp: good_path_def is_control_def is_misleading_display_character_def)
  moreover have "\<not> has_drive_letter_prefix c"
    using drive_insert [of "pp @ stem" ext "tl (counter_suffix k) @ ext"] assms(1) parts(1)
      counter_suffix_Cons [of k] unfolding c good_path_def by (metis append.assoc append_Cons)
  ultimately show new: "rel_path_new c = Ok \<lparr>rel_path_value = c\<rparr>"
    using comps by (auto simp: rel_path_new_Ok_iff good_path_def)
  show "butlast (components \<lparr>rel_path_value = c\<rparr>) = butlast (split_on SLASH s)"
    using components_of_new [OF new] split by simp
qed

lemma collision_loop_first_free:
  assumes "c \<le> k" and "k < 2147483647"
    and "\<And>j. c \<le> j \<Longrightarrow> j \<le> k \<Longrightarrow> rel_path_new (candidate_name parts j) = Ok \<lparr>rel_path_value = candidate_name parts j\<rparr>"
    and "\<And>j. c \<le> j \<Longrightarrow> j < k \<Longrightarrow> is_ok (stat \<lparr>rel_path_value = candidate_name parts j\<rparr>)"
    and "stat \<lparr>rel_path_value = candidate_name parts k\<rparr> = Err Vfs_NotFound"
  shows "collision_loop stat parts c = Ok \<lparr>rel_path_value = candidate_name parts k\<rparr>"
  using assms(1,3,4)
proof (induction "k - c" arbitrary: c)
  case 0
  then show ?case using assms(2,5) by (subst collision_loop.simps) simp
next
  case (Suc n)
  then have "is_ok (stat \<lparr>rel_path_value = candidate_name parts c\<rparr>)" and "c < k" by auto
  moreover have "collision_loop stat parts (c + 1) = Ok \<lparr>rel_path_value = candidate_name parts k\<rparr>"
    using Suc by (intro Suc.hyps(1)) auto
  ultimately show ?case
    using Suc.prems(2) [of c] assms(2) by (subst collision_loop.simps) (auto simp: is_ok_iff)
qed

text \<open>Among more candidates than there are files one is free.\<close>

lemma some_candidate_free:
  assumes "finite {q. is_ok (stat q)}" and "card {q. is_ok (stat q)} < n" and "\<forall>q. is_ok (stat q) \<or> stat q = Err Vfs_NotFound"
  shows "\<exists>k \<ge> 2. k < n + 2 \<and> stat \<lparr>rel_path_value = candidate_name parts k\<rparr> = Err Vfs_NotFound"
proof (rule ccontr)
  assume "\<not> ?thesis"
  then have "(\<lambda>k. \<lparr>rel_path_value = candidate_name parts k\<rparr>) ` {2..<n + 2} \<subseteq> {q. is_ok (stat q)}"
    using assms(3) by (auto simp: image_subset_iff)
  then have "card ((\<lambda>k. \<lparr>rel_path_value = candidate_name parts k\<rparr>) ` {2..<n + 2}) \<le> card {q. is_ok (stat q)}"
    using assms(1) by (intro card_mono)
  moreover have "card ((\<lambda>k. \<lparr>rel_path_value = candidate_name parts k\<rparr>) ` {2..<n + 2}) = n"
    by (subst card_image) (auto simp: inj_on_def candidate_inject)
  ultimately show False using assms(2) by simp
qed

text \<open>
  Property C33. A received file finds a name, and never takes one that is in use. For a valid path
  whose last component leaves room for a counter, and a file system that answers every question
  with an entry or \<open>NotFound\<close>, \<open>resolve_collision\<close> terminates with a valid path that
  nothing has, in the same directory: the path itself when it is free, and otherwise the first of
  its numbered names, from 2 on, that is free. The counter never overflows as long as the file
  system holds fewer entries than it has values.
\<close>

theorem collision_resolved:
  assumes "rel_path_new (rel_path_value p) = Ok p" and "str_len (last (components p)) \<le> 242"
    and "\<forall>q. is_ok (stat root q) \<or> stat root q = Err Vfs_NotFound"
    and "finite {q. is_ok (stat root q)}" and "card {q. is_ok (stat root q)} < 2147483645"
  shows "\<exists>q. resolve_collision stat root p = Ok q \<and> stat root q = Err Vfs_NotFound \<and>
    rel_path_new (rel_path_value q) = Ok q \<and> butlast (components q) = butlast (components p) \<and>
    (q = p \<or> is_ok (stat root p) \<and>
       (\<exists>k \<ge> 2. rel_path_value q = candidate_name (split_name (rel_path_value p)) k \<and>
          (\<forall>j. 2 \<le> j \<and> j < k \<longrightarrow>
             is_ok (stat root \<lparr>rel_path_value = candidate_name (split_name (rel_path_value p)) j\<rparr>))))"
proof (cases "is_ok (stat root p)")
  case False
  then have "stat root p = Err Vfs_NotFound" using assms(3) by blast
  with assms(1) show ?thesis by (simp add: resolve_collision_def)
next
  case True
  let ?parts = "split_name (rel_path_value p)"
  let ?cand = "\<lambda>k. \<lparr>rel_path_value = candidate_name ?parts k\<rparr>"
  let ?free = "\<lambda>k. 2 \<le> k \<and> k < 2147483647 \<and> stat root (?cand k) = Err Vfs_NotFound"
  obtain pp stem ext where parts: "?parts = (pp, stem, ext)" using prod_cases3 by blast
  have good: "good_path (rel_path_value p)" using assms(1) by (simp add: rel_path_new_Ok_iff)
  note comps = components_of_new [OF assms(1)]
  have valid: "rel_path_new (candidate_name ?parts k) = Ok (?cand k)"
    and dir: "butlast (components (?cand k)) = butlast (components p)" if "k < 2147483647" for k
    using candidate_valid [OF good parts _ that] assms(2) by (simp_all add: comps parts)
  have ex: "\<exists>k. ?free k"
    using some_candidate_free [of "stat root" 2147483645 ?parts] assms(3-5) by auto
  define k where "k = (LEAST k. ?free k)"
  have k: "?free k" using LeastI_ex [OF ex] unfolding k_def .
  have below: "is_ok (stat root (?cand j))" if "2 \<le> j" "j < k" for j
    using not_less_Least [of j ?free] that k assms(3) unfolding k_def [symmetric] by fastforce
  have "collision_loop (stat root) ?parts 2 = Ok (?cand k)"
    using k below valid by (intro collision_loop_first_free) auto
  then have "resolve_collision stat root p = Ok (?cand k)"
    using True by (auto simp: resolve_collision_def is_ok_iff)
  then show ?thesis using k below True valid [of k] dir [of k] by (intro exI [of _ "?cand k"]) auto
qed

definition two_files :: "root_id \<Rightarrow> rel_path \<Rightarrow> (unit, vfs_error) result" where
  "two_files root q =
     (if q = \<lparr>rel_path_value = lit ''a.txt''\<rparr> \<or> q = \<lparr>rel_path_value = lit ''a (2).txt''\<rparr> then Ok ()
      else Err Vfs_NotFound)"

theorem collision_resolved_witness:
  "\<exists>q. resolve_collision two_files (RootId 0) \<lparr>rel_path_value = lit ''a.txt''\<rparr> = Ok q \<and>
     two_files (RootId 0) q = Err Vfs_NotFound"
proof -
  let ?p = "\<lparr>rel_path_value = lit ''a.txt''\<rparr>"
  have new: "rel_path_new (rel_path_value ?p) = Ok ?p" and len: "str_len (last (components ?p)) \<le> 242"
    by (simp_all add: rel_path_new_def components_def is_control_def is_misleading_display_character_def)
  have files: "{q. is_ok (two_files (RootId 0) q)} = {?p, \<lparr>rel_path_value = lit ''a (2).txt''\<rparr>}"
    by (auto simp: two_files_def split: if_splits)
  have stat: "\<forall>q. is_ok (two_files (RootId 0) q) \<or> two_files (RootId 0) q = Err Vfs_NotFound"
    by (simp add: two_files_def)
  show ?thesis
    using collision_resolved [where stat = two_files and root = "RootId 0", OF new len stat] unfolding files by (auto simp: card_insert_if)
qed

end
