(* ===== verification/Transfer_Session.thy ===== *)
theory Transfer_Session
  imports Data_Wire Sanitization
begin

text \<open>
  The receiving side of a file transfer (\<open>tradr-app/src/transfer.rs\<close>) and the verifier it
  trusts (\<open>tradr-integrity/src/lib.rs\<close>). A session runs against a world: the files of the
  receive root, the bytes the peer still sends on the data stream, what was written to both
  streams, and the failures the file system and the streams are going to report, one entry per
  operation. Every operation of the code is a function from worlds to worlds and a result, and
  \<open>?\<close> is \<open>then_op\<close>. The \<open>bao\<close> decoder, \<open>prost\<close> and Unicode normalisation are
  parameters. Texts of error messages are left out.
\<close>

section \<open>Results and operations\<close>

datatype transport_error =
    Te_Unreachable
  | Te_TimedOut
  | Te_Rejected
  | Te_AuthenticationFailed
  | Te_Closed
  | Te_Io io_error_kind

datatype transfer_session_error =
    Ts_Transport transport_error
  | Ts_Proto transfer_frame_error
  | Ts_Vfs vfs_error
  | Ts_StreamClosed
  | Ts_ProtocolViolation
  | Ts_VerificationFailed
  | Ts_SourceChanged

fun session_error_from :: "transport_error \<Rightarrow> transfer_session_error" where
  "session_error_from Te_Closed = Ts_StreamClosed"
| "session_error_from e = Ts_Transport e"

text \<open>
  What a receive stream is going to deliver: pieces of bytes and failures. After the last entry,
  and on an empty piece, a read returns no byte, which is how a stream reports its end.
\<close>

datatype recv_event = Bytes "u8 list" | Recv_Failure transport_error

record transfer_world =
  tw_files :: "rel_path \<Rightarrow> u8 list option"
  tw_vfs_faults :: "vfs_error option list"
  tw_data_in :: "recv_event list"
  tw_control_in :: "recv_event list"
  tw_data_out :: "u8 list"
  tw_control_out :: "u8 list"
  tw_data_finished :: bool
  tw_send_faults :: "transport_error option list"

type_synonym 'a session_op = "transfer_world \<Rightarrow> transfer_world \<times> ('a, transfer_session_error) result"

definition then_op :: "'a session_op \<Rightarrow> ('a \<Rightarrow> 'b session_op) \<Rightarrow> 'b session_op" where
  "then_op m f w = (case m w of (w', Err e) \<Rightarrow> (w', Err e) | (w', Ok x) \<Rightarrow> f x w')"

definition pure_op :: "('a, transfer_session_error) result \<Rightarrow> 'a session_op" where
  "pure_op r w = (w, r)"

section \<open>Reading frames\<close>

fun recv_read :: "nat \<Rightarrow> recv_event list \<Rightarrow> recv_event list \<times> (u8 list, transport_error) result" where
  "recv_read n [] = ([], Ok [])"
| "recv_read n (Recv_Failure e # es) = (es, Err e)"
| "recv_read n (Bytes bs # es) =
     (if length bs \<le> n then es else Bytes (drop n bs) # es, Ok (take n bs))"

function read_exact :: "nat \<Rightarrow> recv_event list \<Rightarrow> recv_event list \<times> (u8 list, transfer_session_error) result" where
  "read_exact n es =
     (if n = 0 then (es, Ok [])
      else case recv_read n es of
        (es', Err e) \<Rightarrow> (es', Err (session_error_from e))
      | (es', Ok bs) \<Rightarrow>
          if bs = [] then (es', Err Ts_StreamClosed)
          else (case read_exact (n - length bs) es' of
                  (es'', Err e) \<Rightarrow> (es'', Err e)
                | (es'', Ok rest) \<Rightarrow> (es'', Ok (bs @ rest))))"
  by pat_completeness auto

termination
  by (relation "measure fst") auto

declare read_exact.simps [simp del]

definition read_frame :: "u32 \<Rightarrow> recv_event list \<Rightarrow> recv_event list \<times> (frame, transfer_session_error) result" where
  "read_frame max_frame_size es =
     (case read_exact 4 es of
        (es1, Err e) \<Rightarrow> (es1, Err e)
      | (es1, Ok len_bytes) \<Rightarrow>
          let announced = unat (u32_from_be_bytes len_bytes) in
          if announced = 0 then (es1, Err (Ts_Proto (TF_Framing Frame_Empty)))
          else if announced > unat max_frame_size
          then (es1, Err (Ts_Proto (TF_Framing (Oversized announced max_frame_size))))
          else (case read_exact announced es1 of
             (es2, Err e) \<Rightarrow> (es2, Err e)
           | (es2, Ok payload) \<Rightarrow>
               (es2,
                case snd (next_frame (feed (len_bytes @ payload) (frame_decoder_new max_frame_size))) of
                  Err e \<Rightarrow> Err (Ts_Proto (TF_Framing e))
                | Ok None \<Rightarrow> Err Ts_ProtocolViolation
                | Ok (Some frame) \<Rightarrow> Ok frame)))"

definition data_read_frame :: "u32 \<Rightarrow> frame session_op" where
  "data_read_frame limit w =
     (case read_frame limit (tw_data_in w) of (es, r) \<Rightarrow> (w\<lparr>tw_data_in := es\<rparr>, r))"

definition data_read_exact :: "nat \<Rightarrow> u8 list session_op" where
  "data_read_exact n w =
     (case read_exact n (tw_data_in w) of (es, r) \<Rightarrow> (w\<lparr>tw_data_in := es\<rparr>, r))"

section \<open>Streams and files\<close>

text \<open>\<open>write_all\<close> and \<open>finish\<close> of the send streams: done in full, or the next failure.\<close>

definition send_op :: "(transfer_world \<Rightarrow> transfer_world) \<Rightarrow> unit session_op" where
  "send_op effect w =
     (case tw_send_faults w of
        [] \<Rightarrow> (effect w, Ok ())
      | None # fs \<Rightarrow> (effect (w\<lparr>tw_send_faults := fs\<rparr>), Ok ())
      | Some e # fs \<Rightarrow> (w\<lparr>tw_send_faults := fs\<rparr>, Err (session_error_from e)))"

definition data_write_all :: "u8 list \<Rightarrow> unit session_op" where
  "data_write_all bytes = send_op (\<lambda>w. w\<lparr>tw_data_out := tw_data_out w @ bytes\<rparr>)"

definition data_finish :: "unit session_op" where
  "data_finish = send_op (\<lambda>w. w\<lparr>tw_data_finished := True\<rparr>)"

definition control_write_all :: "u8 list \<Rightarrow> unit session_op" where
  "control_write_all bytes = send_op (\<lambda>w. w\<lparr>tw_control_out := tw_control_out w @ bytes\<rparr>)"

text \<open>
  The operations of the \<open>Vfs\<close> trait the session calls, by what the trait documents: opening
  for writing creates and never truncates, a write beyond the end fills the gap with zeros, and
  \<open>rename_no_replace\<close> refuses an existing target. Any of them may fail instead, with no effect.
  Directories hold no bytes; their operations only succeed or fail.
\<close>

definition vfs_op ::
    "(transfer_world \<Rightarrow> transfer_world \<times> ('a, vfs_error) result) \<Rightarrow> transfer_world \<Rightarrow> transfer_world \<times> ('a, vfs_error) result" where
  "vfs_op f w =
     (case tw_vfs_faults w of
        [] \<Rightarrow> f w
      | None # fs \<Rightarrow> f (w\<lparr>tw_vfs_faults := fs\<rparr>)
      | Some e # fs \<Rightarrow> (w\<lparr>tw_vfs_faults := fs\<rparr>, Err e))"

definition vfs_create_dir :: "rel_path \<Rightarrow> transfer_world \<Rightarrow> transfer_world \<times> (unit, vfs_error) result" where
  "vfs_create_dir p = vfs_op (\<lambda>w. (w, Ok ()))"

definition vfs_open_write :: "rel_path \<Rightarrow> transfer_world \<Rightarrow> transfer_world \<times> (unit, vfs_error) result" where
  "vfs_open_write p = vfs_op (\<lambda>w.
     (case tw_files w p of
        Some _ \<Rightarrow> (w, Ok ())
      | None \<Rightarrow> (w\<lparr>tw_files := (tw_files w)(p \<mapsto> [])\<rparr>, Ok ())))"

definition vfs_stat :: "rel_path \<Rightarrow> transfer_world \<Rightarrow> transfer_world \<times> (u64, vfs_error) result" where
  "vfs_stat p = vfs_op (\<lambda>w.
     (w, case tw_files w p of Some f \<Rightarrow> Ok (of_nat (length f)) | None \<Rightarrow> Err Vfs_NotFound))"

definition patch :: "nat \<Rightarrow> u8 list \<Rightarrow> u8 list \<Rightarrow> u8 list" where
  "patch offset bytes f =
     take offset (f @ replicate (offset - length f) 0) @ bytes @ drop (offset + length bytes) f"

definition vfs_write_at :: "rel_path \<Rightarrow> nat \<Rightarrow> u8 list \<Rightarrow> transfer_world \<Rightarrow> transfer_world \<times> (unit, vfs_error) result" where
  "vfs_write_at p offset bytes = vfs_op (\<lambda>w.
     (case tw_files w p of
        None \<Rightarrow> (w, Err Vfs_NotFound)
      | Some f \<Rightarrow> (w\<lparr>tw_files := (tw_files w)(p \<mapsto> patch offset bytes f)\<rparr>, Ok ())))"

definition vfs_sync :: "transfer_world \<Rightarrow> transfer_world \<times> (unit, vfs_error) result" where
  "vfs_sync = vfs_op (\<lambda>w. (w, Ok ()))"

definition vfs_rename_no_replace ::
    "rel_path \<Rightarrow> rel_path \<Rightarrow> transfer_world \<Rightarrow> transfer_world \<times> (unit, vfs_error) result" where
  "vfs_rename_no_replace p q = vfs_op (\<lambda>w.
     (case tw_files w p of
        None \<Rightarrow> (w, Err Vfs_NotFound)
      | Some f \<Rightarrow>
          if tw_files w q \<noteq> None then (w, Err Vfs_AlreadyExists)
          else (w\<lparr>tw_files := (tw_files w)(p := None, q \<mapsto> f)\<rparr>, Ok ())))"

definition vfs_remove :: "rel_path \<Rightarrow> transfer_world \<Rightarrow> transfer_world \<times> (unit, vfs_error) result" where
  "vfs_remove p = vfs_op (\<lambda>w.
     (case tw_files w p of
        None \<Rightarrow> (w, Err Vfs_NotFound)
      | Some _ \<Rightarrow> (w\<lparr>tw_files := (tw_files w)(p := None)\<rparr>, Ok ())))"

text \<open>\<open>From<VfsError>\<close>, where the code uses \<open>?\<close> on a file operation.\<close>

definition lift_vfs :: "(transfer_world \<Rightarrow> transfer_world \<times> ('a, vfs_error) result) \<Rightarrow> 'a session_op" where
  "lift_vfs m w = (case m w of (w', r) \<Rightarrow> (w', map_err Ts_Vfs r))"

section \<open>Verifying a piece\<close>

datatype verification_error = Ver_Mismatch | Ver_Malformed

text \<open>
  \<open>BaoVerifier::verify\<close> over the slice decoder of \<open>bao\<close>, which yields the bytes it
  decoded and how much of the slice it consumed, or the kind of its failure.
\<close>

type_synonym bao_decoder = "content_hash \<Rightarrow> u64 \<Rightarrow> u64 \<Rightarrow> u8 list \<Rightarrow> (u8 list \<times> nat, io_error_kind) result"

definition bao_verify :: "bao_decoder \<Rightarrow> content_hash \<Rightarrow> u64 \<Rightarrow> u64 \<Rightarrow> u8 list \<Rightarrow> (u8 list, verification_error) result" where
  "bao_verify decoder hash offset content_len payload =
     (case decoder hash offset content_len payload of
        Err kind \<Rightarrow> Err (if kind = Io_InvalidData then Ver_Mismatch else Ver_Malformed)
      | Ok (out, consumed) \<Rightarrow>
          if length out \<noteq> unat content_len \<or> consumed \<noteq> length payload then Err Ver_Mismatch
          else Ok out)"

section \<open>Receiving\<close>

record receive_env =
  re_prost :: prost
  re_bao :: bao_decoder
  re_nfc :: "rstr \<Rightarrow> rstr"

record receive_session =
  rv_root :: root_id
  rv_dest_rel_path :: rel_path
  rv_total_bytes :: u64
  rv_content_hash :: content_hash
  rv_transfer_id :: transfer_id
  rv_item_id :: item_id
  rv_max_frame_size :: u32
  rv_partial_file_rel :: rel_path

abbreviation (input) "MAX_CONSECUTIVE_IGNORABLE_FRAMES \<equiv> (16 :: nat)"
abbreviation (input) "MAX_PLACEMENT_ATTEMPTS \<equiv> (32 :: nat)"

text \<open>
  Placing the verified file. A collision found between the question and the rename starts
  over, at most \<open>MAX_PLACEMENT_ATTEMPTS\<close> times; \<open>left\<close> counts the attempts that remain.
\<close>

definition stat_of :: "transfer_world \<Rightarrow> root_id \<Rightarrow> rel_path \<Rightarrow> (u64, vfs_error) result" where
  "stat_of w root q = (case tw_files w q of Some f \<Rightarrow> Ok (of_nat (length f)) | None \<Rightarrow> Err Vfs_NotFound)"

fun place_attempts :: "root_id \<Rightarrow> rel_path \<Rightarrow> rel_path \<Rightarrow> nat \<Rightarrow> rel_path session_op" where
  "place_attempts root partial sanitized 0 w = (w, Err (Ts_Vfs Vfs_AlreadyExists))"
| "place_attempts root partial sanitized (Suc left) w =
     (case vfs_op (\<lambda>w. (w, resolve_collision (stat_of w) root sanitized)) w of
        (w1, Err e) \<Rightarrow> (w1, Err (Ts_Vfs e))
      | (w1, Ok candidate) \<Rightarrow>
          (case vfs_rename_no_replace partial candidate w1 of
             (w2, Ok _) \<Rightarrow> (w2, Ok candidate)
           | (w2, Err e) \<Rightarrow>
               if e = Vfs_AlreadyExists then place_attempts root partial sanitized left w2
               else (w2, Err (Ts_Vfs e))))"

definition place_verified_file :: "receive_env \<Rightarrow> root_id \<Rightarrow> rel_path \<Rightarrow> rel_path \<Rightarrow> rel_path session_op" where
  "place_verified_file E root partial dest w =
     (case sanitize_destination_path (re_nfc E) (rel_path_value dest) of
        Err _ \<Rightarrow> (w, Err Ts_ProtocolViolation)
      | Ok sanitized \<Rightarrow> place_attempts root partial sanitized MAX_PLACEMENT_ATTEMPTS w)"

definition cleanup_partial :: "rel_path \<Rightarrow> rel_path \<Rightarrow> transfer_world \<Rightarrow> transfer_world \<times> (unit, vfs_error) result" where
  "cleanup_partial partial_file partial_dir w =
     (case vfs_remove partial_file w of
        (w1, r) \<Rightarrow>
          if r \<noteq> Ok () \<and> r \<noteq> Err Vfs_NotFound then (w1, r)
          else (case vfs_remove partial_dir w1 of
             (w2, r') \<Rightarrow>
               if r' \<noteq> Ok () \<and> r' \<noteq> Err Vfs_NotFound \<and> r' \<noteq> Err Vfs_WrongKind then (w2, r')
               else (w2, Ok ())))"

text \<open>
  What a partial file left by an earlier run is taken to prove: every chunk its size covers
  counts as received and verified.
\<close>

fun derive_chunks :: "u64 list \<Rightarrow> item_resumption \<Rightarrow> (item_resumption, resumption_error) result" where
  "derive_chunks [] r = Ok r"
| "derive_chunks (idx # rest) r =
     (case chunk_size r (ChunkIndex idx) of
        Err e \<Rightarrow> Err e
      | Ok chunk_sz \<Rightarrow>
          (case record_piece r (ChunkIndex idx) 0 chunk_sz of
             (r1, Err e) \<Rightarrow> Err e
           | (r1, Ok _) \<Rightarrow>
               (case mark_verified r1 (ChunkIndex idx) of
                  (r2, Err e) \<Rightarrow> Err e
                | (r2, Ok _) \<Rightarrow> derive_chunks rest r2)))"

definition derive_resumption :: "u64 \<Rightarrow> u64 \<Rightarrow> item_resumption \<Rightarrow> (item_resumption, resumption_error) result" where
  "derive_resumption size_bytes item_bytes r =
     (let full_chunks = min (size_bytes div REFERENCE_CHUNK_SIZE_BYTES) (total_chunks r) in
      case derive_chunks (map of_nat [0..<unat full_chunks]) r of
        Err e \<Rightarrow> Err e
      | Ok r' \<Rightarrow>
          if full_chunks < total_chunks r \<and> size_bytes \<ge> item_bytes
          then derive_chunks [saturating_sub (total_chunks r) 1] r'
          else Ok r')"

definition start_resumption :: "receive_session \<Rightarrow> item_resumption session_op" where
  "start_resumption S w =
     (let fresh = resumption_new (rv_item_id S) (rv_total_bytes S) in
      case vfs_stat (rv_partial_file_rel S) w of
        (w1, Err _) \<Rightarrow> (w1, Ok fresh)
      | (w1, Ok size_bytes) \<Rightarrow>
          (case derive_resumption size_bytes (rv_total_bytes S) fresh of
             Ok r \<Rightarrow> (w1, Ok r)
           | Err _ \<Rightarrow> (w1, Ok fresh)))"

text \<open>One \<open>ChunkData\<close> message: check it, read and verify its slice, write it, then record it.\<close>

definition piece_offset :: "chunk_data_header \<Rightarrow> u64" where
  "piece_offset h =
     chunk_value (cd_chunk_index h) * REFERENCE_CHUNK_SIZE_BYTES + ucast (cd_offset_in_chunk h)"

definition piece_len :: "u64 \<Rightarrow> chunk_data_header \<Rightarrow> u64" where
  "piece_len item_bytes h =
     min (saturating_sub item_bytes (piece_offset h))
         (saturating_sub REFERENCE_CHUNK_SIZE_BYTES (ucast (cd_offset_in_chunk h)))"

definition check_piece :: "receive_session \<Rightarrow> chunk_data_header \<Rightarrow> (unit, transfer_session_error) result" where
  "check_piece S h =
     (if cd_transfer_id h \<noteq> rv_transfer_id S then Err Ts_ProtocolViolation
      else if cd_item_id h \<noteq> rv_item_id S then Err Ts_ProtocolViolation
      else if cd_payload_len h > max (rv_max_frame_size S) (2 * 1024 * 1024) then Err Ts_ProtocolViolation
      else Ok ())"

definition record_verified ::
    "item_resumption \<Rightarrow> chunk_data_header \<Rightarrow> nat \<Rightarrow> (item_resumption, transfer_session_error) result" where
  "record_verified res h len =
     (case record_piece res (cd_chunk_index h) (cd_offset_in_chunk h) (of_nat len) of
        (_, Err _) \<Rightarrow> Err Ts_ProtocolViolation
      | (res1, Ok complete) \<Rightarrow>
          if complete then
            (case mark_verified res1 (cd_chunk_index h) of
               (_, Err _) \<Rightarrow> Err Ts_ProtocolViolation
             | (res2, Ok _) \<Rightarrow> Ok res2)
          else Ok res1)"

definition store_piece ::
    "receive_env \<Rightarrow> receive_session \<Rightarrow> item_resumption \<Rightarrow> chunk_data_header \<Rightarrow> u8 list \<Rightarrow> item_resumption session_op" where
  "store_piece E S res h payload =
     (if chunk_value (cd_chunk_index h) \<ge> total_chunks res then pure_op (Err Ts_ProtocolViolation)
      else if piece_offset h \<ge> rv_total_bytes S then pure_op (Err Ts_ProtocolViolation)
      else case bao_verify (re_bao E) (rv_content_hash S) (piece_offset h)
                  (piece_len (rv_total_bytes S) h) payload of
        Err _ \<Rightarrow> pure_op (Err Ts_VerificationFailed)
      | Ok verified_bytes \<Rightarrow>
          then_op (lift_vfs (vfs_write_at (rv_partial_file_rel S) (unat (piece_offset h)) verified_bytes)) (\<lambda>_.
          then_op (lift_vfs vfs_sync) (\<lambda>_.
          pure_op (record_verified res h (length verified_bytes)))))"

definition receive_piece ::
    "receive_env \<Rightarrow> receive_session \<Rightarrow> item_resumption \<Rightarrow> frame \<Rightarrow> item_resumption session_op" where
  "receive_piece E S res frame =
     then_op (pure_op (map_err Ts_Proto (decode_chunk_data_header_frame (re_prost E) frame))) (\<lambda>h.
     then_op (pure_op (check_piece S h)) (\<lambda>_.
     then_op (data_read_exact (unat (cd_payload_len h))) (store_piece E S res h)))"

section \<open>Every frame uses up the stream\<close>

fun stream_size :: "recv_event list \<Rightarrow> nat" where
  "stream_size [] = 0"
| "stream_size (Bytes bs # es) = length bs + stream_size es"
| "stream_size (Recv_Failure e # es) = stream_size es"

lemma recv_read_size:
  "recv_read n es = (es', r) \<Longrightarrow> stream_size es' \<le> stream_size es \<and>
     (\<forall>bs. r = Ok bs \<longrightarrow> stream_size es = length bs + stream_size es' \<and> length bs \<le> n)"
  by (cases "(n, es)" rule: recv_read.cases) (auto split: if_splits)

lemma read_exact_size:
  "read_exact n es = (es', r) \<Longrightarrow> stream_size es' \<le> stream_size es \<and>
     (\<forall>bs. r = Ok bs \<longrightarrow> length bs = n \<and> stream_size es = n + stream_size es')"
proof (induction n es arbitrary: es' r rule: read_exact.induct)
  case (1 n es)
  show ?case
  proof (cases "n = 0")
    case False
    obtain es1 r1 where rd: "recv_read n es = (es1, r1)" by fastforce
    note sz = recv_read_size [OF rd]
    show ?thesis
    proof (cases r1)
      case (Err e)
      then show ?thesis using "1.prems" False rd sz by (subst (asm) read_exact.simps) auto
    next
      case (Ok bs)
      obtain es2 r2 where rest: "read_exact (n - length bs) es1 = (es2, r2)" by fastforce
      show ?thesis
      proof (cases "bs = []")
        case True
        then show ?thesis using "1.prems" False rd sz Ok by (subst (asm) read_exact.simps) auto
      next
        case nonempty: False
        then have "es' = es2 \<and> r = (case r2 of Ok x \<Rightarrow> Ok (bs @ x) | Err e \<Rightarrow> Err e)"
          using "1.prems" False rd Ok rest
          by (subst (asm) read_exact.simps) (auto split: result.splits)
        moreover have "stream_size es2 \<le> stream_size es1 \<and>
            (\<forall>x. r2 = Ok x \<longrightarrow> length x = n - length bs \<and> stream_size es1 = (n - length bs) + stream_size es2)"
          using "1.IH" [OF False rd [symmetric] Ok nonempty rest] .
        moreover have "stream_size es = length bs + stream_size es1" "length bs \<le> n" using sz Ok by simp_all
        ultimately show ?thesis by (cases r2) simp_all
      qed
    qed
  qed (use "1.prems" in \<open>auto simp: read_exact.simps [of 0]\<close>)
qed

lemma read_frame_size:
  assumes "read_frame limit es = (es', r)"
  shows "stream_size es' \<le> stream_size es" and "r = Ok f \<Longrightarrow> stream_size es' < stream_size es"
proof -
  obtain es1 r1 where rd: "read_exact 4 es = (es1, r1)" by fastforce
  have sz1: "stream_size es1 \<le> stream_size es" using read_exact_size [OF rd] by (rule conjunct1)
  have sz2: "stream_size es1 < stream_size es" if "r1 = Ok bs" for bs
    using read_exact_size [OF rd] that by simp
  have "stream_size es' \<le> stream_size es \<and> (r = Ok f \<longrightarrow> stream_size es' < stream_size es)"
  proof (cases r1)
    case (Err e)
    then show ?thesis using assms rd sz1 by (auto simp: read_frame_def)
  next
    case (Ok lb)
    obtain es2 r2 where rd2: "read_exact (unat (u32_from_be_bytes lb)) es1 = (es2, r2)" by fastforce
    have "es' = es1 \<or> es' = es2"
      using assms rd rd2 Ok by (auto simp: read_frame_def Let_def split: if_splits result.splits)
    then show ?thesis using sz2 [OF Ok] read_exact_size [OF rd2] by auto
  qed
  then show "stream_size es' \<le> stream_size es" "r = Ok f \<Longrightarrow> stream_size es' < stream_size es" by blast+
qed

text \<open>The bytes a stream will still deliver before it ends or fails.\<close>

fun incoming :: "recv_event list \<Rightarrow> u8 list" where
  "incoming [] = []"
| "incoming (Recv_Failure e # es) = []"
| "incoming (Bytes bs # es) = (if bs = [] then [] else bs @ incoming es)"

lemma recv_read_incoming:
  assumes "recv_read n es = (es', Ok bytes)" and "bytes \<noteq> []"
  shows "incoming es = bytes @ incoming es'"
  using assms by (induction n es rule: recv_read.induct) (auto split: if_splits)

text \<open>An operation that leaves no more on the data stream than it found.\<close>

named_theorems shrinks_intros \<open>operations that never lengthen the data stream\<close>

definition shrinks :: "(transfer_world \<Rightarrow> transfer_world \<times> 'a) \<Rightarrow> bool" where
  "shrinks m \<longleftrightarrow> (\<forall>w. stream_size (tw_data_in (fst (m w))) \<le> stream_size (tw_data_in w))"

lemma shrinksD: "shrinks m \<Longrightarrow> m w = (w', r) \<Longrightarrow> stream_size (tw_data_in w') \<le> stream_size (tw_data_in w)"
  unfolding shrinks_def by (metis fst_conv)

lemma shrinks_then_op [shrinks_intros]:
  assumes "shrinks m" and "\<And>x. shrinks (f x)"
  shows "shrinks (then_op m f)"
  unfolding shrinks_def
proof
  fix w
  obtain w1 r where m: "m w = (w1, r)" by fastforce
  then have "stream_size (tw_data_in w1) \<le> stream_size (tw_data_in w)" by (rule shrinksD [OF assms(1)])
  moreover have "stream_size (tw_data_in (fst (f x w1))) \<le> stream_size (tw_data_in w1)" for x
    using assms(2) by (simp add: shrinks_def)
  ultimately show "stream_size (tw_data_in (fst (then_op m f w))) \<le> stream_size (tw_data_in w)"
    using m by (auto simp: then_op_def intro: order_trans split: result.splits)
qed

lemma shrinks_vfs_op [shrinks_intros]:
  assumes "\<And>w. stream_size (tw_data_in (fst (f w))) \<le> stream_size (tw_data_in w)"
  shows "shrinks (vfs_op f)"
  unfolding shrinks_def
proof
  fix w
  show "stream_size (tw_data_in (fst (vfs_op f w))) \<le> stream_size (tw_data_in w)"
  proof (cases "tw_vfs_faults w")
    case (Cons flt fs)
    then show ?thesis using assms [of "w\<lparr>tw_vfs_faults := fs\<rparr>"] by (cases flt) (simp_all add: vfs_op_def)
  qed (simp add: vfs_op_def assms)
qed

lemma shrinks_lift_vfs [shrinks_intros]: "shrinks m \<Longrightarrow> shrinks (lift_vfs m)"
  unfolding shrinks_def lift_vfs_def by (auto split: prod.splits) (metis fst_conv)

lemma shrinks_ops [shrinks_intros]:
  "shrinks (pure_op r)" "shrinks (data_read_exact n)" "shrinks (data_read_frame limit)"
  "shrinks (vfs_write_at p k bs)" "shrinks vfs_sync"
  by (auto simp: shrinks_def pure_op_def data_read_exact_def data_read_frame_def
      dest: read_exact_size read_frame_size(1) split: prod.splits)
    (auto simp: vfs_write_at_def vfs_sync_def vfs_op_def split: list.splits option.splits)

lemma shrinks_store_piece [shrinks_intros]: "shrinks (store_piece E S res h payload)"
  by (auto simp: store_piece_def intro!: shrinks_intros split: result.split)

lemma shrinks_receive_piece [shrinks_intros]: "shrinks (receive_piece E S res f)"
  unfolding receive_piece_def by (intro shrinks_intros)

lemma data_read_frame_size:
  "data_read_frame limit w = (w', Ok f) \<Longrightarrow> stream_size (tw_data_in w') < stream_size (tw_data_in w)"
  by (auto simp: data_read_frame_def dest: read_frame_size(2) split: prod.splits)

section \<open>The receive loop\<close>

text \<open>
  The inner loop: messages until as many pieces arrived as were requested or the item is
  complete. \<open>ignorable\<close> counts unassigned frames in a row, over all requests.
\<close>

function receive_batch ::
    "receive_env \<Rightarrow> receive_session \<Rightarrow> nat \<Rightarrow> nat \<Rightarrow> nat \<Rightarrow> item_resumption \<Rightarrow> (item_resumption \<times> nat) session_op" where
  "receive_batch E S count received_count ignorable res w =
     (if received_count \<ge> count then (w, Ok (res, ignorable))
      else case data_read_frame (rv_max_frame_size S) w of
        (w1, Err e) \<Rightarrow> (w1, Err e)
      | (w1, Ok frame) \<Rightarrow>
          (case classify_code (type_code frame) Data of
             Known ty \<Rightarrow>
               if ty = Msg_ChunkData then
                 (case receive_piece E S res frame w1 of
                    (w2, Err e) \<Rightarrow> (w2, Err e)
                  | (w2, Ok res') \<Rightarrow>
                      if is_item_complete res' then (w2, Ok (res', 0))
                      else receive_batch E S count (received_count + 1) 0 res' w2)
               else (w1, Err Ts_ProtocolViolation)
           | Ignorable \<Rightarrow>
               if ignorable + 1 > MAX_CONSECUTIVE_IGNORABLE_FRAMES then (w1, Err Ts_ProtocolViolation)
               else receive_batch E S count received_count (ignorable + 1) res w1
           | Code_Refused _ \<Rightarrow> (w1, Err Ts_ProtocolViolation)))"
  by pat_completeness auto

termination
proof (relation "measure (\<lambda>(E, S, count, received_count, ignorable, res, w). stream_size (tw_data_in w))", goal_cases)
  case (2 E S count received_count ignorable res w a b f ty w2 r res')
  then have "stream_size (tw_data_in a) < stream_size (tw_data_in w)"
    by (metis data_read_frame_size)
  moreover have "stream_size (tw_data_in w2) \<le> stream_size (tw_data_in a)"
    using 2 by (metis shrinks_receive_piece shrinksD)
  ultimately show ?case by simp
next
  case (3 E S count received_count ignorable res w a b f)
  then show ?case by (simp, metis data_read_frame_size)
qed simp

declare receive_batch.simps [simp del]

text \<open>What every frame and every piece keep, a batch keeps.\<close>

lemma receive_batch_invariant:
  assumes "receive_batch E S count n ign res w = (w', r)" and "I res w"
    and frame: "\<And>res w w1 r. I res w \<Longrightarrow> data_read_frame (rv_max_frame_size S) w = (w1, r) \<Longrightarrow> I res w1"
    and piece: "\<And>res w w1 f res1. I res w \<Longrightarrow> receive_piece E S res f w = (w1, Ok res1) \<Longrightarrow> I res1 w1"
    and failed: "\<And>res w w1 f e. I res w \<Longrightarrow> receive_piece E S res f w = (w1, Err e) \<Longrightarrow> J w1"
    and weak: "\<And>res w. I res w \<Longrightarrow> J w"
  shows "(\<forall>res' ign'. r = Ok (res', ign') \<longrightarrow> I res' w') \<and> J w'"
  using assms(1,2)
proof (induction "stream_size (tw_data_in w)" arbitrary: n ign res w rule: less_induct)
  case less
  show ?case
  proof (cases "n \<ge> count")
    case True
    then show ?thesis using less.prems weak by (subst (asm) receive_batch.simps) auto
  next
    case n: False
    obtain w1 r1 where rd: "data_read_frame (rv_max_frame_size S) w = (w1, r1)" by fastforce
    have I1: "I res w1" by (rule frame [OF less.prems(2) rd])
    show ?thesis
    proof (cases r1)
      case (Err e)
      then show ?thesis using less.prems(1) n rd weak [OF I1] by (subst (asm) receive_batch.simps) auto
    next
      case (Ok f)
      have sz: "stream_size (tw_data_in w1) < stream_size (tw_data_in w)"
        using data_read_frame_size rd Ok by blast
      show ?thesis
      proof (cases "classify_code (type_code f) Data")
        case (Known ty)
        obtain w2 r2 where pc: "receive_piece E S res f w1 = (w2, r2)" by fastforce
        have sz2: "stream_size (tw_data_in w2) \<le> stream_size (tw_data_in w1)"
          by (rule shrinksD [OF shrinks_receive_piece pc])
        show ?thesis
        proof (cases "\<exists>res1. r2 = Ok res1 \<and> ty = Msg_ChunkData \<and> \<not> is_item_complete res1")
          case True
          then obtain res1 where r2: "r2 = Ok res1" "ty = Msg_ChunkData" "\<not> is_item_complete res1" by blast
          then have "receive_batch E S count (n + 1) 0 res1 w2 = (w', r)"
            using less.prems(1) n rd Ok Known pc by (subst (asm) receive_batch.simps) auto
          moreover have "I res1 w2" using piece [OF I1] pc r2(1) by blast
          ultimately show ?thesis using less.hyps [of w2 "n + 1" 0 res1] sz sz2 by simp
        next
          case False
          have "J w2" using piece [OF I1] failed [OF I1] weak pc by (cases r2) blast+
          with False show ?thesis
            using less.prems(1) n rd Ok Known pc weak [OF I1] piece [OF I1]
            by (subst (asm) receive_batch.simps) (auto split: if_splits result.splits)
        qed
      next
        case Ignorable
        then show ?thesis
          using less.prems(1) n rd Ok weak [OF I1] less.hyps [OF sz _ I1]
          by (subst (asm) receive_batch.simps) (auto split: if_splits)
      next
        case (Code_Refused x)
        then show ?thesis
          using less.prems(1) n rd Ok weak [OF I1] by (subst (asm) receive_batch.simps) auto
      qed
    qed
  qed
qed

lemma shrinks_receive_batch: "shrinks (receive_batch E S count n ign res)"
proof -
  have "stream_size (tw_data_in w') \<le> stream_size (tw_data_in w)"
    if "receive_batch E S count n ign res w = (w', r)" for w w' r
    by (rule conjunct2 [OF receive_batch_invariant [OF that,
            where I = "\<lambda>_ v. stream_size (tw_data_in v) \<le> stream_size (tw_data_in w)"
              and J = "\<lambda>v. stream_size (tw_data_in v) \<le> stream_size (tw_data_in w)"]])
      (auto dest!: shrinksD [OF shrinks_ops(3)] shrinksD [OF shrinks_receive_piece])
  then show ?thesis unfolding shrinks_def by (metis prod.collapse)
qed

text \<open>A batch that was asked for something uses up a frame at least.\<close>

lemma receive_batch_progress:
  assumes "receive_batch E S count n ign res w = (w', Ok x)" and "n < count"
  shows "stream_size (tw_data_in w') < stream_size (tw_data_in w)"
proof -
  obtain w1 r1 where rd: "data_read_frame (rv_max_frame_size S) w = (w1, r1)" by fastforce
  with assms obtain f where f: "r1 = Ok f"
    by (subst (asm) receive_batch.simps) (auto split: result.splits)
  have "stream_size (tw_data_in w') \<le> stream_size (tw_data_in w1)"
  proof (cases "classify_code (type_code f) Data")
    case (Known ty)
    obtain w2 r2 where pc: "receive_piece E S res f w1 = (w2, r2)" by fastforce
    have le: "stream_size (tw_data_in w2) \<le> stream_size (tw_data_in w1)"
      by (rule shrinksD [OF shrinks_receive_piece pc])
    show ?thesis
      using assms rd f Known pc le shrinksD [OF shrinks_receive_batch, of E S count "n + 1" 0 _ w2 w' "Ok x"]
      by (subst (asm) receive_batch.simps) (auto split: if_splits result.splits intro: order_trans)
  next
    case Ignorable
    then show ?thesis
      using assms rd f shrinksD [OF shrinks_receive_batch, of E S count n "ign + 1" res w1 w' "Ok x"]
      by (subst (asm) receive_batch.simps) (auto split: if_splits)
  next
    case (Code_Refused x1)
    then show ?thesis using assms rd f by (subst (asm) receive_batch.simps) auto
  qed
  moreover have "stream_size (tw_data_in w1) < stream_size (tw_data_in w)"
    using data_read_frame_size rd f by blast
  ultimately show ?thesis by simp
qed

text \<open>The outer loop: request what is missing, receive it, until nothing is left to ask for.\<close>

definition send_chunk_request :: "receive_env \<Rightarrow> receive_session \<Rightarrow> chunk_index \<Rightarrow> u32 \<Rightarrow> unit session_op" where
  "send_chunk_request E S from_chunk count =
     then_op (pure_op (map_err Ts_Proto
        (encode_chunk_request_frame (re_prost E)
          \<lparr>cr_transfer_id = rv_transfer_id S, cr_item_id = rv_item_id S, cr_from_chunk = from_chunk,
           cr_count = count\<rparr> (rv_max_frame_size S)))) data_write_all"

lemma shrinks_send_chunk_request [shrinks_intros]: "shrinks (send_chunk_request E S c n)"
  unfolding send_chunk_request_def
  by (intro shrinks_intros)
    (auto simp: shrinks_def data_write_all_def send_op_def split: list.split option.split)

lemma next_chunk_request_count: "next_chunk_request r m = Some (c, n) \<Longrightarrow> 0 < unat n"
  by (auto simp: next_chunk_request_def Let_def unat_gt_0 split: if_splits option.splits)

function receive_loop :: "receive_env \<Rightarrow> receive_session \<Rightarrow> nat \<Rightarrow> item_resumption \<Rightarrow> item_resumption session_op" where
  "receive_loop E S ignorable res w =
     (if is_item_complete res then (w, Ok res)
      else case next_chunk_request res 64 of
        None \<Rightarrow> (w, Ok res)
      | Some (from_chunk, count) \<Rightarrow>
          (case send_chunk_request E S from_chunk count w of
             (w1, Err e) \<Rightarrow> (w1, Err e)
           | (w1, Ok _) \<Rightarrow>
               (case receive_batch E S (unat count) 0 ignorable res w1 of
                  (w2, Err e) \<Rightarrow> (w2, Err e)
                | (w2, Ok (res', ignorable')) \<Rightarrow> receive_loop E S ignorable' res' w2)))"
  by pat_completeness auto

termination
proof (relation "measure (\<lambda>(E, S, ignorable, res, w). stream_size (tw_data_in w))", goal_cases)
  case (2 E S ignorable res w req c n w1 r1 u w2 r2 x res' ign')
  then have "stream_size (tw_data_in w2) < stream_size (tw_data_in w1)"
    by (metis next_chunk_request_count receive_batch_progress)
  moreover have "stream_size (tw_data_in w1) \<le> stream_size (tw_data_in w)"
    using 2 by (metis shrinks_send_chunk_request shrinksD)
  ultimately show ?case by simp
qed simp

declare receive_loop.simps [simp del]

section \<open>The whole session\<close>

definition send_item_complete :: "receive_env \<Rightarrow> receive_session \<Rightarrow> bool \<Rightarrow> rel_path option \<Rightarrow> unit session_op" where
  "send_item_complete E S ok final_path =
     then_op (pure_op (map_err Ts_Proto
        (encode_item_complete_frame (re_prost E)
          \<lparr>ic_transfer_id = rv_transfer_id S, ic_item_id = rv_item_id S, ic_verified = ok,
           ic_final_path = final_path\<rparr> (rv_max_frame_size S)))) control_write_all"

definition conclude :: "receive_env \<Rightarrow> receive_session \<Rightarrow> item_resumption \<Rightarrow> rel_path session_op" where
  "conclude E S res =
     (if \<not> is_item_complete res then
        then_op data_finish (\<lambda>_.
        then_op (send_item_complete E S False None) (\<lambda>_.
        pure_op (Err Ts_VerificationFailed)))
      else
        then_op (place_verified_file E (rv_root S) (rv_partial_file_rel S) (rv_dest_rel_path S)) (\<lambda>final_path.
        then_op data_finish (\<lambda>_.
        then_op (send_item_complete E S True (Some final_path)) (\<lambda>_.
        pure_op (Ok final_path)))))"

definition receive_file_inner :: "receive_env \<Rightarrow> receive_session \<Rightarrow> rel_path session_op" where
  "receive_file_inner E S =
     then_op (lift_vfs (vfs_open_write (rv_partial_file_rel S))) (\<lambda>_.
     then_op (start_resumption S) (\<lambda>res.
     then_op (receive_loop E S 0 res) (conclude E S)))"

record receive_request =
  rq_root :: root_id
  rq_dest_rel_path :: rel_path
  rq_total_bytes :: u64
  rq_content_hash :: content_hash
  rq_transfer_id :: transfer_id
  rq_item_id :: item_id
  rq_max_frame_size :: u32

definition session_of :: "receive_request \<Rightarrow> rel_path \<Rightarrow> receive_session" where
  "session_of R partial =
     \<lparr>rv_root = rq_root R, rv_dest_rel_path = rq_dest_rel_path R, rv_total_bytes = rq_total_bytes R,
      rv_content_hash = rq_content_hash R, rv_transfer_id = rq_transfer_id R, rv_item_id = rq_item_id R,
      rv_max_frame_size = rq_max_frame_size R, rv_partial_file_rel = partial\<rparr>"

text \<open>\<open>receive_file\<close>: whatever fails after the directory exists, the partial file is removed.\<close>

definition receive_file :: "receive_env \<Rightarrow> receive_request \<Rightarrow> rel_path session_op" where
  "receive_file E R w =
     (case (partial_dir_rel_path (rq_transfer_id R), partial_file_rel_path (rq_transfer_id R) (rq_item_id R)) of
        (Some partial_dir, Some partial_file) \<Rightarrow>
          (case lift_vfs (vfs_create_dir partial_dir) w of
             (w1, Err e) \<Rightarrow> (w1, Err e)
           | (w1, Ok _) \<Rightarrow>
               (case receive_file_inner E (session_of R partial_file) w1 of
                  (w2, Ok final_path) \<Rightarrow> (w2, Ok final_path)
                | (w2, Err e) \<Rightarrow>
                    (case cleanup_partial partial_file partial_dir w2 of
                       (w3, Ok _) \<Rightarrow> (w3, Err e)
                     | (w3, Err clean_err) \<Rightarrow>
                         if clean_err = Vfs_NotFound \<or> clean_err = Vfs_WrongKind then (w3, Err e)
                         else (w3, Err (Ts_Vfs clean_err)))))
      | _ \<Rightarrow> (w, Err (Ts_Vfs Vfs_Panic)))"

end
