(* ===== verification/Handshake.thy ===== *)
theory Handshake
  imports Hello_Wire Peer_Trust Transfer_Session
begin

text \<open>
  The driver of the Hello exchange (\<open>tradr-app/src/handshake.rs\<close>): it writes our hello, reads the
  peer's through a frame decoder, has the attestation verified, exchanges the acknowledgements and
  records the device met. The verifier is an argument, as in the code, with a state of its own;
  the device's own verifier is \<open>peer_verifier\<close> (and \<open>listener_peer_verifier\<close> where it listens),
  and a session the handshake ends in is shown to rest on what that verifier proved.
\<close>

section \<open>The connection\<close>

datatype 'e handshake_error =
    HS_Rng
  | HS_Proto hello_frame_error
  | HS_Transport transport_error
  | HS_UnexpectedEof
  | HS_Refused hello_refused
  | HS_Attestation 'e
  | HS_KeyStore key_store_error

text \<open>
  Both streams, with the failures the send stream is going to report, one entry per write; the
  verifier's state; and the calls made to the recorder of known devices.
\<close>

record 'v handshake_world =
  hw_in :: "recv_event list"
  hw_out :: "u8 list"
  hw_send_faults :: "transport_error option list"
  hw_verifier :: 'v
  hw_known :: "(public_identity \<times> trust_tier \<times> unix_time) list"

type_synonym ('a, 'v, 'e) handshake_op =
  "'v handshake_world \<Rightarrow> 'v handshake_world \<times> ('a, 'e handshake_error) result"

definition hs_then :: "('a, 'v, 'e) handshake_op \<Rightarrow> ('a \<Rightarrow> ('b, 'v, 'e) handshake_op) \<Rightarrow> ('b, 'v, 'e) handshake_op" where
  "hs_then m f w = (case m w of (w', Err e) \<Rightarrow> (w', Err e) | (w', Ok x) \<Rightarrow> f x w')"

definition hs_pure :: "('a, 'e handshake_error) result \<Rightarrow> ('a, 'v, 'e) handshake_op" where
  "hs_pure r w = (w, r)"

definition hs_write_all :: "u8 list \<Rightarrow> (unit, 'v, 'e) handshake_op" where
  "hs_write_all bytes w =
     (case hw_send_faults w of
        [] \<Rightarrow> (w\<lparr>hw_out := hw_out w @ bytes\<rparr>, Ok ())
      | None # fs \<Rightarrow> (w\<lparr>hw_out := hw_out w @ bytes, hw_send_faults := fs\<rparr>, Ok ())
      | Some e # fs \<Rightarrow> (w\<lparr>hw_send_faults := fs\<rparr>, Err (HS_Transport e)))"

function hs_read_exact :: "nat \<Rightarrow> recv_event list \<Rightarrow> recv_event list \<times> (u8 list, 'e handshake_error) result" where
  "hs_read_exact n es =
     (if n = 0 then (es, Ok [])
      else case recv_read n es of
        (es', Err e) \<Rightarrow> (es', Err (HS_Transport e))
      | (es', Ok bs) \<Rightarrow>
          if bs = [] then (es', Err HS_UnexpectedEof)
          else (case hs_read_exact (n - length bs) es' of
                  (es'', Err e) \<Rightarrow> (es'', Err e)
                | (es'', Ok rest) \<Rightarrow> (es'', Ok (bs @ rest))))"
  by pat_completeness auto

termination
  by (relation "measure fst") auto

declare hs_read_exact.simps [simp del]

definition hs_read :: "nat \<Rightarrow> (u8 list, 'v, 'e) handshake_op" where
  "hs_read n w = (case hs_read_exact n (hw_in w) of (es, r) \<Rightarrow> (w\<lparr>hw_in := es\<rparr>, r))"

text \<open>A decoder is lost with the handshake when reading fails, so only success returns it.\<close>

definition hs_read_frame :: "frame_decoder \<Rightarrow> (frame_decoder \<times> frame, 'v, 'e) handshake_op" where
  "hs_read_frame decoder =
     hs_then (hs_read 4) (\<lambda>len_bytes.
     case next_frame (feed len_bytes decoder) of
       (_, Err e) \<Rightarrow> hs_pure (Err (HS_Proto (HF_Framing e)))
     | (decoder1, Ok _) \<Rightarrow>
         hs_then (hs_read (unat (u32_from_be_bytes len_bytes))) (\<lambda>payload.
         case next_frame (feed payload decoder1) of
           (_, Err e) \<Rightarrow> hs_pure (Err (HS_Proto (HF_Framing e)))
         | (_, Ok None) \<Rightarrow> hs_pure (Err HS_UnexpectedEof)
         | (decoder2, Ok (Some frame)) \<Rightarrow> hs_pure (Ok (decoder2, frame))))"

section \<open>The handshake\<close>

record handshake_params =
  hp_authenticated_peer :: device_id
  hp_max_frame_size :: u32
  hp_identity :: public_identity
  hp_attestation_token :: rstr
  hp_key_binding :: key_binding
  hp_versions :: version_range
  hp_capabilities :: capabilities
  hp_known_devices :: bool

text \<open>What a handshake reads from outside: the nonce drawn, and the clock at its two uses.\<close>

record handshake_env =
  he_draw :: "u8 list option"
  he_now :: unix_time
  he_seen_at :: unix_time

type_synonym ('v, 'e) verifier =
  "rstr \<Rightarrow> public_key_point \<Rightarrow> public_key_point \<Rightarrow> 'v \<Rightarrow> 'v \<times> (trust_tier, 'e) result"

definition hs_verify :: "('v, 'e) verifier \<Rightarrow> attestation_request \<Rightarrow> (trust_tier, 'v, 'e) handshake_op" where
  "hs_verify verifier req w =
     (case verifier (ar_token req) (ar_identity_pub req) (ar_agreement_pub req) (hw_verifier w) of
        (v, r) \<Rightarrow> (w\<lparr>hw_verifier := v\<rparr>, map_err HS_Attestation r))"

definition hs_record :: "handshake_params \<Rightarrow> handshake_env \<Rightarrow> session \<Rightarrow> (session, 'v, 'e) handshake_op" where
  "hs_record params E s w =
     (if hp_known_devices params
      then w\<lparr>hw_known := hw_known w @ [(s_peer_identity s, s_tier s, he_seen_at E)]\<rparr> else w, Ok s)"

definition continue_after_peer_hello ::
    "p256 \<Rightarrow> primitives \<Rightarrow> hello_prost \<Rightarrow> frame_decoder \<Rightarrow> awaiting_peer_hello \<Rightarrow> peer_hello \<Rightarrow> device_id
      \<Rightarrow> u32 \<Rightarrow> software_key_store \<Rightarrow> unix_time \<Rightarrow> ('v, 'e) verifier \<Rightarrow> (session, 'v, 'e) handshake_op" where
  "continue_after_peer_hello C P H decoder awaiting peer authenticated max_frame_size ks now verifier =
     hs_then (hs_pure (map_err HS_Refused (on_peer_hello C (blake3 P) awaiting peer authenticated now)))
       (\<lambda>(awaiting_verification, req).
     hs_then (hs_verify verifier req) (\<lambda>tier.
     hs_then (hs_pure (map_err HS_KeyStore (on_verified C awaiting_verification tier ks max_frame_size)))
       (\<lambda>(awaiting_ack, our_ack).
     hs_then (hs_pure (map_err HS_Proto (encode_hello_ack_frame H our_ack max_frame_size))) (\<lambda>frame_bytes.
     hs_then (hs_write_all frame_bytes) (\<lambda>_.
     hs_then (hs_read_frame decoder) (\<lambda>(_, ack_frame).
     hs_then (hs_pure (map_err HS_Proto (decode_hello_ack_frame H ack_frame))) (\<lambda>peer_ack.
     hs_pure (map_err HS_Refused (on_peer_hello_ack C awaiting_ack peer_ack)))))))))"


definition perform_handshake_after_peer_hello ::
    "p256 \<Rightarrow> primitives \<Rightarrow> hello_prost \<Rightarrow> peer_hello \<Rightarrow> handshake_params \<Rightarrow> software_key_store
      \<Rightarrow> handshake_env \<Rightarrow> ('v, 'e) verifier \<Rightarrow> (session, 'v, 'e) handshake_op" where
  "perform_handshake_after_peer_hello C P H peer_hello params ks E verifier =
     (case hello_open (he_draw E) (hp_versions params) (hp_identity params) (hp_attestation_token params)
             (hp_key_binding params) (hp_capabilities params) of
        None \<Rightarrow> hs_pure (Err HS_Rng)
      | Some (awaiting, our_hello) \<Rightarrow>
          hs_then (hs_pure (map_err HS_Proto (encode_hello_frame H our_hello (hp_max_frame_size params)))) (\<lambda>frame_bytes.
          hs_then (hs_write_all frame_bytes) (\<lambda>_.
          hs_then (continue_after_peer_hello C P H (frame_decoder_new (hp_max_frame_size params)) awaiting
              peer_hello (hp_authenticated_peer params) (hp_max_frame_size params) ks (he_now E) verifier) (\<lambda>session.
          hs_record params E session))))"

section \<open>Reading\<close>

named_theorems hs_elims \<open>what a handshake operation that succeeded did\<close>

lemma hs_then_Ok [hs_elims]:
  assumes "hs_then m f w = (w', Ok y)"
  obtains w1 x where "m w = (w1, Ok x)" and "f x w1 = (w', Ok y)"
  using assms by (auto simp: hs_then_def split: prod.splits result.splits)

lemma hs_pure_Ok [hs_elims]:
  assumes "hs_pure r w = (w', Ok y)"
  obtains "w' = w" and "r = Ok y"
  using assms by (simp add: hs_pure_def)

lemma hs_write_all_Ok [hs_elims]:
  assumes "hs_write_all bytes w = (w', Ok u)"
  obtains fs where "w' = w\<lparr>hw_out := hw_out w @ bytes, hw_send_faults := fs\<rparr>"
  using assms by (cases w) (auto simp: hs_write_all_def split: list.splits option.splits)

lemma hs_verify_Ok [hs_elims]:
  assumes "hs_verify verifier req w = (w', Ok tier)"
  obtains v where "verifier (ar_token req) (ar_identity_pub req) (ar_agreement_pub req) (hw_verifier w) = (v, Ok tier)"
    and "w' = w\<lparr>hw_verifier := v\<rparr>"
  using assms by (auto simp: hs_verify_def split: prod.splits)

lemma hs_read_exact_Ok:
  "hs_read_exact n es = (es', Ok bs :: (u8 list, 'e handshake_error) result) \<Longrightarrow> incoming es = bs @ incoming es' \<and> length bs = n"
proof (induction n es arbitrary: bs rule: hs_read_exact.induct)
  case (1 n es)
  show ?case
  proof (cases "n = 0")
    case False
    with trans [OF hs_read_exact.simps [of n es, symmetric] "1.prems"] obtain es1 b rest where rd: "recv_read n es = (es1, Ok b)" and b: "b \<noteq> []"
        and more: "hs_read_exact (n - length b) es1 = (es', Ok rest :: (u8 list, 'e handshake_error) result)" and bs: "bs = b @ rest"
      by (auto split: prod.splits result.splits if_splits)
    have "length b \<le> n" using recv_read_size [OF rd] by simp
    then show ?thesis
      using "1.IH" [OF False rd [symmetric] refl b more] recv_read_incoming [OF rd b] bs by simp
  qed (use "1.prems" in \<open>auto simp: hs_read_exact.simps [of 0]\<close>)
qed

lemma hs_read_Ok [hs_elims]:
  assumes "hs_read n w = (w', Ok bs)"
  obtains es where "w' = w\<lparr>hw_in := es\<rparr>" and "incoming (hw_in w) = bs @ incoming es" and "length bs = n"
  using assms hs_read_exact_Ok by (fastforce simp: hs_read_def split: prod.splits)

text \<open>A decoder with nothing buffered takes exactly one frame off the stream and has nothing buffered again.\<close>

lemma hs_read_frame_Ok:
  assumes "hs_read_frame d w = (w', Ok (d', f) :: (_, 'e handshake_error) result)" and "fd_buf d = []"
  shows "\<exists>es. w' = w\<lparr>hw_in := es\<rparr> \<and> incoming (hw_in w) = frame_wire f @ incoming es"
    and "fd_buf d' = []" and "frame_fits (fd_limit d) f"
proof -
  obtain w1 lb d1 r1 payload where rd: "hs_read 4 w = (w1, Ok lb :: (_, 'e handshake_error) result)"
      and n1: "next_frame (feed lb d) = (d1, Ok r1)"
      and rd2: "hs_read (unat (u32_from_be_bytes lb)) w1 = (w', Ok payload :: (_, 'e handshake_error) result)"
      and n2: "next_frame (feed payload d1) = (d', Ok (Some f))"
    using assms(1)
    by (auto simp: hs_read_frame_def elim!: hs_then_Ok hs_pure_Ok split: prod.splits result.splits option.splits)
  obtain es1 where w1: "w1 = w\<lparr>hw_in := es1\<rparr>" "incoming (hw_in w) = lb @ incoming es1" "length lb = 4"
    using rd by (rule hs_read_Ok)
  obtain es2 where w2: "w' = w1\<lparr>hw_in := es2\<rparr>" "incoming (hw_in w1) = payload @ incoming es2"
      "length payload = unat (u32_from_be_bytes lb)"
    using rd2 by (rule hs_read_Ok)
  have d1: "d1 = feed lb d" "u32_from_be_bytes lb \<noteq> 0"
    using n1 assms(2) w1(3) by (auto simp: next_frame_def Let_def unat_eq_0 split: option.splits if_splits)
  note y = next_frame_yields [OF n2]
  have "lb @ payload = frame_wire f @ fd_buf d'" using y(4) d1(1) assms(2) by simp
  moreover have "length (frame_wire f) = length (lb @ payload)"
  proof -
    have "take 4 (frame_wire f @ fd_buf d') = lb" using calculation w1(3) by (metis append_eq_conv_conj)
    then have "unat (u32_from_be_bytes lb) = length (frame_body f)"
      using fw.wire_head(1) fw.dec_enc y(3) by metis
    then show ?thesis using w1(3) w2(3) fw.wire_length by simp
  qed
  ultimately have whole: "lb @ payload = frame_wire f" and "fd_buf d' = []"
    by (metis append_eq_append_conv append_Nil2)+
  then show "fd_buf d' = []" by simp
  show "\<exists>es. w' = w\<lparr>hw_in := es\<rparr> \<and> incoming (hw_in w) = frame_wire f @ incoming es"
    using w1 w2 whole by (intro exI [of _ es2]) (metis append_assoc handshake_world.ext_inject
        handshake_world.select_convs(1) handshake_world.surjective handshake_world.update_convs(1))
  show "frame_fits (fd_limit d) f" using y(3) d1(1) by simp
qed

section \<open>What a session proves\<close>

text \<open>
  What the two messages of the peer prove to a device that drew \<open>nonce\<close>: the session names the
  device the channel authenticated, which is the hash of the identity key sent; that key signed
  the agreement key in the key-binding domain, not expired at the reading, and the nonce in the
  hello domain; the version is the negotiated one and the peer named it too; and the frame bound
  is the peer's and at least 512.
\<close>

definition proves_peer ::
    "p256 \<Rightarrow> primitives \<Rightarrow> version_range \<Rightarrow> u8 list \<Rightarrow> unix_time \<Rightarrow> device_id \<Rightarrow> peer_hello \<Rightarrow> peer_hello_ack
      \<Rightarrow> session \<Rightarrow> bool" where
  "proves_peer C P versions nonce now authenticated peer ack s \<longleftrightarrow>
     s_peer s = authenticated \<and>
     authenticated = device_id_from_identity_digest (blake3 P (point_bytes (ph_identity_pub peer))) \<and>
     s_peer_identity s = \<lparr>pi_identity_pub = ph_identity_pub peer,
       pi_agreement_pub = ph_agreement_pub peer, pi_device_id = authenticated\<rparr> \<and>
     kb_agreement_pub (ph_key_binding peer) = ph_agreement_pub peer \<and>
     signature_verifies C (point_bytes (ph_identity_pub peer)) KeyBind
       (point_bytes (ph_agreement_pub peer)) (kb_signature (ph_key_binding peer)) \<and>
     sint (as_secs now) \<le> sint (as_secs (kb_not_after (ph_key_binding peer))) \<and>
     signature_verifies C (point_bytes (ph_identity_pub peer)) HelloDomain nonce (pa_nonce_signature ack) \<and>
     negotiate_version versions (ph_versions peer) = Ok (s_negotiated_version s) \<and>
     pa_negotiated_version ack = s_negotiated_version s \<and>
     s_peer_max_frame_size s = pa_max_frame_size ack \<and> 512 \<le> unat (pa_max_frame_size ack)"

lemma steps_prove_peer:
  assumes "on_peer_hello C (blake3 P) st peer authenticated now = Ok (av, req)"
    and "on_verified C av tier ks frame = Ok (ak, our_ack)" and "on_peer_hello_ack C ak ack = Ok s"
  shows "proves_peer C P (aph_our_versions st) (nonce_bytes (aph_our_nonce st)) now authenticated peer ack s"
    and "s_tier s = tier"
    and "req = \<lparr>ar_token = ph_attestation_token peer, ar_identity_pub = ph_identity_pub peer,
      ar_agreement_pub = ph_agreement_pub peer\<rparr>"
proof -
  note f = assms(1) [unfolded on_peer_hello_Ok] and g = assms(2) [unfolded on_verified_Ok]
    and k = assms(3) [unfolded on_peer_hello_ack_Ok]
  have "\<not> pa_max_frame_size ack < MIN_NEGOTIABLE_FRAME_SIZE" using k by blast
  then have "512 \<le> unat (pa_max_frame_size ack)" by (simp add: word_less_nat_alt not_less)
  moreover have s: "s = \<lparr>s_peer = authenticated, s_peer_identity = \<lparr>pi_identity_pub = ph_identity_pub peer,
       pi_agreement_pub = ph_agreement_pub peer, pi_device_id = authenticated\<rparr>, s_tier = tier,
       s_negotiated_version = av_negotiated_version av, s_peer_max_frame_size = pa_max_frame_size ack\<rparr>"
    and ak: "pi_identity_pub (ak_peer_identity ak) = ph_identity_pub peer" "ak_our_nonce ak = aph_our_nonce st"
      "ak_negotiated_version ak = av_negotiated_version av"
    using f g k by auto
  ultimately show "proves_peer C P (aph_our_versions st) (nonce_bytes (aph_our_nonce st)) now authenticated peer ack s"
    unfolding proves_peer_def s session.simps using f [unfolded verify_key_binding_Ok] k [unfolded ak] by blast
  show "s_tier s = tier" using g k by auto
  show "req = \<lparr>ar_token = ph_attestation_token peer, ar_identity_pub = ph_identity_pub peer,
      ar_agreement_pub = ph_agreement_pub peer\<rparr>" using f by simp
qed

lemma continue_Ok:
  fixes verifier :: "('v, 'e) verifier"
  assumes "continue_after_peer_hello C P H d st peer authenticated frame ks now verifier w = (w', Ok s)"
    and "fd_buf d = []"
  obtains f ack where "decode_hello_ack_frame H f = Ok ack"
    and "incoming (hw_in w) = frame_wire f @ incoming (hw_in w')"
    and "proves_peer C P (aph_our_versions st) (nonce_bytes (aph_our_nonce st)) now authenticated peer ack s"
    and "verifier (ph_attestation_token peer) (ph_identity_pub peer) (ph_agreement_pub peer) (hw_verifier w)
      = (hw_verifier w', Ok (s_tier s))"
    and "hw_known w' = hw_known w"
proof -
  from assms(1) obtain av req w1 tier ak our bytes w2 d' f ack where
      h: "on_peer_hello C (blake3 P) st peer authenticated now = Ok (av, req)"
      and v: "hs_verify verifier req w = (w1, Ok tier)"
      and o: "on_verified C av tier ks frame = Ok (ak, our)"
      and wr: "hs_write_all bytes w1 = (w2, Ok () :: (_, 'e handshake_error) result)"
      and rd: "hs_read_frame d w2 = (w', Ok (d', f) :: (_, 'e handshake_error) result)"
      and dec: "decode_hello_ack_frame H f = Ok ack" and a: "on_peer_hello_ack C ak ack = Ok s"
    unfolding continue_after_peer_hello_def
    by (auto elim!: hs_then_Ok hs_pure_Ok)
  note p = steps_prove_peer [OF h o a] and r = hs_read_frame_Ok(1) [OF rd assms(2)]
  from v wr obtain x fs where "verifier (ar_token req) (ar_identity_pub req) (ar_agreement_pub req) (hw_verifier w) = (x, Ok tier)"
      and "w2 = w\<lparr>hw_verifier := x, hw_out := hw_out w @ bytes, hw_send_faults := fs\<rparr>"
    by (auto elim!: hs_elims)
  with r p(2,3) show ?thesis by (intro that [OF dec _ p(1)]) auto
qed



lemma after_peer_hello_Ok:
  fixes verifier :: "('v, 'e) verifier"
  assumes "perform_handshake_after_peer_hello C P H peer params ks E verifier w = (w', Ok s)"
  obtains nonce g ack where "he_draw E = Some nonce"
    and "incoming (hw_in w) = frame_wire g @ incoming (hw_in w')" and "decode_hello_ack_frame H g = Ok ack"
    and "proves_peer C P (hp_versions params) nonce (he_now E) (hp_authenticated_peer params) peer ack s"
    and "verifier (ph_attestation_token peer) (ph_identity_pub peer) (ph_agreement_pub peer) (hw_verifier w)
      = (hw_verifier w', Ok (s_tier s))"
proof -
  obtain st our where op: "hello_open (he_draw E) (hp_versions params) (hp_identity params)
      (hp_attestation_token params) (hp_key_binding params) (hp_capabilities params) = Some (st, our)"
    using assms by (auto simp: perform_handshake_after_peer_hello_def hs_pure_def split: option.splits)
  then obtain nonce where draw: "he_draw E = Some nonce"
      and st: "aph_our_versions st = hp_versions params" "nonce_bytes (aph_our_nonce st) = nonce"
    by (auto simp: hello_open_def Let_def split: option.splits)
  from assms op obtain bytes w1 w3 where
      wr: "hs_write_all bytes w = (w1, Ok () :: (_, 'e handshake_error) result)"
      and cont: "continue_after_peer_hello C P H (frame_decoder_new (hp_max_frame_size params)) st peer
        (hp_authenticated_peer params) (hp_max_frame_size params) ks (he_now E) verifier w1 = (w3, Ok s)"
      and rc: "hs_record params E s w3 = (w', Ok s :: (_, 'e handshake_error) result)"
    by (auto simp: perform_handshake_after_peer_hello_def hs_record_def elim!: hs_then_Ok hs_pure_Ok)
  have w1: "hw_in w1 = hw_in w" "hw_verifier w1 = hw_verifier w" using wr by (auto elim!: hs_write_all_Ok)
  have w': "hw_in w' = hw_in w3" "hw_verifier w' = hw_verifier w3" using rc by (auto simp: hs_record_def)
  have "fd_buf (frame_decoder_new (hp_max_frame_size params)) = []" by (simp add: frame_decoder_new_def)
  from continue_Ok [OF cont this, unfolded st w1] w' that [OF draw] show ?thesis by metis
qed

text \<open>
  The listener answers a hello it has read already, and gets the same guarantees for that hello; and
  after it, the peer may browse only if its token proved the own account, or the account of a link
  with full access.
\<close>

theorem listener_session_proves_peer:
  assumes "perform_handshake_after_peer_hello C P H peer params ks E
    (listener_peer_verifier P T T' own links) w = (w', Ok s)"
  shows "\<exists>nonce g ack account keys now. he_draw E = Some nonce \<and>
    incoming (hw_in w) = frame_wire g @ incoming (hw_in w') \<and> decode_hello_ack_frame H g = Ok ack \<and>
    proves_peer C P (hp_versions params) nonce (he_now E) (hp_authenticated_peer params) peer ack s \<and>
    own = Some account \<and> keys_at P T (fst (hw_verifier w)) keys now \<and>
    attested P (pt_profile (fst (hw_verifier w))) keys account (linked_accounts_of links)
      (ph_attestation_token peer) (ph_identity_pub peer) (ph_agreement_pub peer) now (s_tier s) \<and>
    (access_allowed (s_peer s) (snd (hw_verifier w')) \<longrightarrow> s_tier s = SameAccount \<or>
      (\<exists>trust keys now. pt_profile trust = pt_profile (fst (hw_verifier w)) \<and> keys_at P T' trust keys now \<and>
        attested P (pt_profile trust) keys account (full_access_accounts links)
          (ph_attestation_token peer) (ph_identity_pub peer) (ph_agreement_pub peer) now Linked))"
proof -
  obtain nonce g ack where h: "he_draw E = Some nonce" "incoming (hw_in w) = frame_wire g @ incoming (hw_in w')"
      "decode_hello_ack_frame H g = Ok ack"
      and p: "proves_peer C P (hp_versions params) nonce (he_now E) (hp_authenticated_peer params) peer ack s"
      and v: "listener_peer_verifier P T T' own links (ph_attestation_token peer) (ph_identity_pub peer)
        (ph_agreement_pub peer) (hw_verifier w) = (hw_verifier w', Ok (s_tier s))"
    using assms by (rule after_peer_hello_Ok)
  obtain trust access trust' access' where w: "hw_verifier w = (trust, access)" "hw_verifier w' = (trust', access')"
    by fastforce
  note l = listener_grants [OF v [unfolded w]]
  from l(1) obtain account keys now where a: "own = Some account" "keys_at P T trust keys now"
      "attested P (pt_profile trust) keys account (linked_accounts_of links)
        (ph_attestation_token peer) (ph_identity_pub peer) (ph_agreement_pub peer) now (s_tier s)"
    by (auto elim: trust_classify_attested)
  from p have "s_peer s = device_id_from_identity_digest (blake3 P (point_bytes (ph_identity_pub peer)))"
    unfolding proves_peer_def by metis
  note d = this
  have "access_allowed (s_peer s) access' \<longrightarrow> s_tier s = SameAccount \<or>
      (\<exists>trust0 keys now. pt_profile trust0 = pt_profile trust \<and> keys_at P T' trust0 keys now \<and>
        attested P (pt_profile trust0) keys account (full_access_accounts links)
          (ph_attestation_token peer) (ph_identity_pub peer) (ph_agreement_pub peer) now Linked)"
    using l(3) a(1) unfolding d by fastforce
  with h p a show ?thesis unfolding w fst_conv snd_conv by metis
qed

subsection \<open>A concrete handshake\<close>


























end
