(* ===== verification/Mux_Frame.thy ===== *)
theory Mux_Frame
  imports Framing
begin

text \<open>
  Multiplexing frames (\<open>tradr-proto/src/mux.rs\<close>): stream identifiers and their four
  spaces, the allocator of a side, and the frames that carry a slice of a stream. The
  identifier says who opened a stream (bit 0) and whether it runs both ways (bit 1).
\<close>

section \<open>Stream identifiers\<close>

datatype stream_opener = Dialler | Listener

datatype stream_id = StreamId (stream_value: u32)

definition opened_by :: "stream_id \<Rightarrow> stream_opener" where
  "opened_by s = (if stream_value s AND 0x01 = 0 then Dialler else Listener)"

definition is_bidirectional :: "stream_id \<Rightarrow> bool" where
  "is_bidirectional s \<longleftrightarrow> stream_value s AND 0x02 = 0"

definition next_in_space :: "stream_id \<Rightarrow> stream_id option" where
  "next_in_space s = map_option StreamId (checked_add (stream_value s) 4)"

text \<open>The derived order of the identifiers is that of their values.\<close>

instantiation stream_id :: linorder
begin

definition less_eq_stream_id :: "stream_id \<Rightarrow> stream_id \<Rightarrow> bool" where
  "less_eq_stream_id a b \<longleftrightarrow> stream_value a \<le> stream_value b"

definition less_stream_id :: "stream_id \<Rightarrow> stream_id \<Rightarrow> bool" where
  "less_stream_id a b \<longleftrightarrow> stream_value a < stream_value b"

instance
  by standard (auto simp: less_eq_stream_id_def less_stream_id_def stream_id.expand)

end

abbreviation sid_nat :: "stream_id \<Rightarrow> nat" where
  "sid_nat s \<equiv> unat (stream_value s)"

lemma sid_order [simp]: "a \<le> b \<longleftrightarrow> sid_nat a \<le> sid_nat b" "a < b \<longleftrightarrow> sid_nat a < sid_nat b"
  for a b :: stream_id
  by (simp_all add: less_eq_stream_id_def less_stream_id_def word_le_nat_alt word_less_nat_alt)

lemma sid_bound [simp]: "sid_nat s < 4294967296"
  using unat_less [of "stream_value s"] by simp

lemma sid_eqI: "sid_nat a = sid_nat b \<Longrightarrow> a = b"
  by (simp add: stream_id.expand word_unat_eq_iff)

lemma and_low_bits:
  "unat (v AND 1) = unat v mod 2" "unat (v AND 3) = unat v mod 4" "v AND 2 = 0 \<longleftrightarrow> unat v mod 4 < 2"
  for v :: u32
proof -
  show "unat (v AND 1) = unat v mod 2"
    by (simp add: and_one_eq unat_mod)
  have "v AND 3 = take_bit 2 v" by (simp add: take_bit_eq_mask mask_eq_exp_minus_1)
  then show three: "unat (v AND 3) = unat v mod 4" by (simp add: take_bit_eq_mod unat_mod)
  have "v AND 2 = 0 \<longleftrightarrow> \<not> bit v 1" using and_exp_eq_0_iff_not_bit [of v 1] by simp
  also have "\<dots> \<longleftrightarrow> even (unat v div 2)"
    using bit_iff_odd [of "unat v" 1] by (simp add: bit_unsigned_iff)
  also have "\<dots> \<longleftrightarrow> unat v mod 4 < 2" by presburger
  finally show "v AND 2 = 0 \<longleftrightarrow> unat v mod 4 < 2" .
qed

lemma opened_by_Dialler: "opened_by s = Dialler \<longleftrightarrow> even (sid_nat s)"
  by (simp add: opened_by_def even_iff_mod_2_eq_zero unat_eq_0 flip: and_low_bits)

lemma is_bidirectional_iff: "is_bidirectional s \<longleftrightarrow> sid_nat s mod 4 < 2"
  by (simp add: is_bidirectional_def and_low_bits)

lemma next_in_space_Some: "next_in_space s = Some t \<longleftrightarrow> sid_nat t = sid_nat s + 4"
  by (cases t) (auto simp: next_in_space_def checked_add_Some)

lemma next_in_space_None: "next_in_space s = None \<longleftrightarrow> 2 ^ 32 \<le> sid_nat s + 4"
  by (simp add: next_in_space_def checked_add_None)

section \<open>Frames\<close>

datatype mux_kind = Mux_Data | Mux_Fin

datatype mux_error =
    Mux_FrameError frame_error
  | NotAMuxCode u8
  | UnassignedCode u8
  | TruncatedHeader nat
  | FinCarriesPayload nat
  | StreamIdsExhausted

record mux_frame =
  mf_kind :: mux_kind
  mf_stream_id :: stream_id
  mf_payload :: "u8 list"

fun mux_kind_code :: "mux_kind \<Rightarrow> u8" where
  "mux_kind_code Mux_Data = 0x60"
| "mux_kind_code Mux_Fin = 0x61"

definition mux_kind_from_code :: "u8 \<Rightarrow> mux_kind option" where
  "mux_kind_from_code c = (if c = 0x60 then Some Mux_Data else if c = 0x61 then Some Mux_Fin else None)"

definition encode_mux_frame ::
    "mux_kind \<Rightarrow> stream_id \<Rightarrow> u8 list \<Rightarrow> u32 \<Rightarrow> (u8 list, mux_error) result" where
  "encode_mux_frame kind s payload limit =
     (if kind = Mux_Fin \<and> payload \<noteq> [] then Err (FinCarriesPayload (length payload))
      else map_err Mux_FrameError
        (encode_frame (mux_kind_code kind) (u32_to_be_bytes (stream_value s) @ payload) limit))"

definition mux_frame_from_wire :: "frame \<Rightarrow> (mux_frame, mux_error) result" where
  "mux_frame_from_wire f =
     (let code = type_code f in
      if \<not> (0x60 \<le> code \<and> code \<le> 0x7f) then Err (NotAMuxCode code)
      else case mux_kind_from_code code of
        None \<Rightarrow> Err (UnassignedCode code)
      | Some kind \<Rightarrow>
          if length (frame_payload f) < 4 then Err (TruncatedHeader (length (frame_payload f)))
          else if kind = Mux_Fin \<and> length (frame_payload f) > 4
          then Err (FinCarriesPayload (length (frame_payload f) - 4))
          else Ok \<lparr>mf_kind = kind, mf_stream_id = StreamId (u32_from_be_bytes (take 4 (frame_payload f))),
                   mf_payload = drop 4 (frame_payload f)\<rparr>)"

definition max_mux_payload :: "u32 \<Rightarrow> nat" where
  "max_mux_payload limit = unat (saturating_sub limit 5)"

definition mux_outer :: "mux_frame \<Rightarrow> frame" where
  "mux_outer f = \<lparr>type_code = mux_kind_code (mf_kind f),
     frame_payload = u32_to_be_bytes (stream_value (mf_stream_id f)) @ mf_payload f\<rparr>"

lemma mux_kind_from_code_Some: "mux_kind_from_code c = Some k \<longleftrightarrow> c = mux_kind_code k"
  by (cases k) (auto simp: mux_kind_from_code_def)

lemma encode_mux_frame_Ok:
  "encode_mux_frame k s p limit = Ok wire \<longleftrightarrow>
     (k = Mux_Fin \<longrightarrow> p = []) \<and> 5 + length p \<le> unat limit \<and>
     wire = frame_wire (mux_outer \<lparr>mf_kind = k, mf_stream_id = s, mf_payload = p\<rparr>)"
  using encode_frame_Ok [of "mux_outer \<lparr>mf_kind = k, mf_stream_id = s, mf_payload = p\<rparr>" limit wire]
  by (auto simp: encode_mux_frame_def mux_outer_def frame_body_def)

lemma mux_frame_from_wire_Ok:
  "mux_frame_from_wire f = Ok m \<longleftrightarrow> f = mux_outer m \<and> (mf_kind m = Mux_Fin \<longrightarrow> mf_payload m = [])"
proof
  assume ok: "mux_frame_from_wire f = Ok m"
  then have p: "\<not> length (frame_payload f) < 4" "type_code f = mux_kind_code (mf_kind m)"
      "mf_stream_id m = StreamId (u32_from_be_bytes (take 4 (frame_payload f)))"
      "mf_payload m = drop 4 (frame_payload f)" "mf_kind m = Mux_Fin \<longrightarrow> length (frame_payload f) \<le> 4"
    by (auto simp: mux_frame_from_wire_def Let_def mux_kind_from_code_Some split: if_splits option.splits)
  have "u32_to_be_bytes (u32_from_be_bytes (take 4 (frame_payload f))) = take 4 (frame_payload f)"
    using p(1) by (intro u32_to_from_be_bytes) simp
  with p show "f = mux_outer m \<and> (mf_kind m = Mux_Fin \<longrightarrow> mf_payload m = [])"
    by (cases f) (simp add: mux_outer_def)
next
  assume m: "f = mux_outer m \<and> (mf_kind m = Mux_Fin \<longrightarrow> mf_payload m = [])"
  have "0x60 \<le> mux_kind_code k \<and> mux_kind_code k \<le> 0x7f" for k by (cases k) simp_all
  moreover have "mux_kind_from_code (mux_kind_code k) = Some k" for k by (simp add: mux_kind_from_code_Some)
  ultimately show "mux_frame_from_wire f = Ok m"
    using m by (cases m) (auto simp: mux_frame_from_wire_def mux_outer_def)
qed

section \<open>Allocation\<close>

record stream_allocator =
  next_bidi :: "stream_id option"
  next_uni :: "stream_id option"

fun stream_allocator_new :: "stream_opener \<Rightarrow> stream_allocator" where
  "stream_allocator_new Dialler = \<lparr>next_bidi = Some (StreamId 0), next_uni = Some (StreamId 2)\<rparr>"
| "stream_allocator_new Listener = \<lparr>next_bidi = Some (StreamId 1), next_uni = Some (StreamId 3)\<rparr>"

definition next_bidirectional ::
    "stream_allocator \<Rightarrow> stream_allocator \<times> (stream_id, mux_error) result" where
  "next_bidirectional a =
     (case next_bidi a of
        None \<Rightarrow> (a, Err StreamIdsExhausted)
      | Some current \<Rightarrow> (a\<lparr>next_bidi := next_in_space current\<rparr>, Ok current))"

definition next_unidirectional ::
    "stream_allocator \<Rightarrow> stream_allocator \<times> (stream_id, mux_error) result" where
  "next_unidirectional a =
     (case next_uni a of
        None \<Rightarrow> (a, Err StreamIdsExhausted)
      | Some current \<Rightarrow> (a\<lparr>next_uni := next_in_space current\<rparr>, Ok current))"

end
