(* ===== verification/Multiplexer.thy ===== *)
theory Multiplexer
  imports Mux_Frame Rust_BTreeMap
begin

text \<open>
  The stream multiplexer of single-stream links (\<open>tradr-transport/src/mux.rs\<close>): the
  streams of a connection with their receive buffers, the queues of streams the peer opened
  and nobody accepted yet, the high-water marks that tell a finished stream from a new one,
  and the refusal that ends the connection for good. \<open>usize\<close> has 64 bits.
\<close>

definition RECEIVE_WINDOW_FRAMES :: nat where "RECEIVE_WINDOW_FRAMES = 128"
definition MAX_PENDING_STREAMS :: nat where "MAX_PENDING_STREAMS = 64"
definition MIN_RECORD_LIMIT :: u32 where "MIN_RECORD_LIMIT = 6"

datatype mux_refusal =
    PeerAllocatedInOurSpace stream_id
  | WroteToOurUnidirectionalStream stream_id
  | FrameAfterFin stream_id
  | ReceiveWindowExceeded stream_id
  | TooManyPendingStreams

datatype mux_fault =
    Fault_Refused mux_refusal
  | NoSuchStream stream_id
  | NotReadable stream_id
  | NotWritable stream_id
  | AlreadyFinished stream_id
  | Fault_StreamIdsExhausted
  | RecordLimitTooSmall u32
  | Fault_Encode mux_error

text \<open>\<open>Read\<close> carries the bytes copied into the caller's buffer, not only their count.\<close>

datatype read_outcome = Read "u8 list" | Finished | Pending

record stream_state =
  recv_buf :: "u8 list"
  local_finished :: bool
  peer_finished :: bool
  released :: bool

definition stream_state_new :: stream_state where
  "stream_state_new = \<lparr>recv_buf = [], local_finished = False, peer_finished = False, released = False\<rparr>"

record multiplexer =
  mx_opener :: stream_opener
  allocator :: stream_allocator
  record_limit :: u32
  receive_window :: nat
  streams :: "(stream_id, stream_state) btree_map"
  pending_bidi :: "stream_id list"
  pending_uni :: "stream_id list"
  mx_refusal :: "mux_refusal option"
  high_water_marks :: "stream_id option list"

definition multiplexer_new :: "stream_opener \<Rightarrow> u32 \<Rightarrow> u32 \<Rightarrow> (multiplexer, mux_fault) result" where
  "multiplexer_new opener frame_size limit =
     (if limit < MIN_RECORD_LIMIT then Err (RecordLimitTooSmall limit)
      else Ok \<lparr>mx_opener = opener, allocator = stream_allocator_new opener, record_limit = limit,
        receive_window = min (RECEIVE_WINDOW_FRAMES * unat frame_size) (2 ^ 64 - 1),
        streams = bt_empty, pending_bidi = [], pending_uni = [], mx_refusal = None,
        high_water_marks = replicate 4 None\<rparr>)"

definition space_index :: "stream_id \<Rightarrow> nat" where
  "space_index s = unat (stream_value s AND 0x03)"

definition base_stream_id :: "stream_id \<Rightarrow> stream_id" where
  "base_stream_id s = StreamId (of_nat (space_index s))"

definition high_water_mark :: "multiplexer \<Rightarrow> stream_id \<Rightarrow> stream_id option" where
  "high_water_mark m s = high_water_marks m ! space_index s"

definition update_high_water_mark :: "stream_id \<Rightarrow> multiplexer \<Rightarrow> multiplexer" where
  "update_high_water_mark s m =
     (let mark = (case high_water_marks m ! space_index s of Some prev \<Rightarrow> max prev s | None \<Rightarrow> s)
      in m\<lparr>high_water_marks := (high_water_marks m)[space_index s := Some mark]\<rparr>)"

definition retirable :: "stream_opener \<Rightarrow> stream_id \<Rightarrow> stream_state \<Rightarrow> bool" where
  "retirable opener s st \<longleftrightarrow>
     released st \<and>
     (local_finished st \<or> opened_by s \<noteq> opener \<and> \<not> is_bidirectional s) \<and>
     (peer_finished st \<or> opened_by s = opener \<and> \<not> is_bidirectional s) \<and>
     recv_buf st = []"

definition try_retire :: "stream_id \<Rightarrow> multiplexer \<Rightarrow> multiplexer" where
  "try_retire s m =
     (case bt_get (streams m) s of
        Some st \<Rightarrow> if retirable (mx_opener m) s st then m\<lparr>streams := bt_remove s (streams m)\<rparr> else m
      | None \<Rightarrow> m)"

definition retire :: "stream_id \<Rightarrow> multiplexer \<Rightarrow> multiplexer" where
  "retire s m =
     (if mx_refusal m \<noteq> None then m
      else try_retire s
        (case bt_get (streams m) s of
           Some st \<Rightarrow> m\<lparr>streams := bt_insert s (st\<lparr>released := True\<rparr>) (streams m)\<rparr>
         | None \<Rightarrow> m))"

definition open_bidirectional :: "multiplexer \<Rightarrow> multiplexer \<times> (stream_id, mux_fault) result" where
  "open_bidirectional m =
     (case mx_refusal m of
        Some r \<Rightarrow> (m, Err (Fault_Refused r))
      | None \<Rightarrow>
          (case next_bidirectional (allocator m) of
             (a, Err _) \<Rightarrow> (m\<lparr>allocator := a\<rparr>, Err Fault_StreamIdsExhausted)
           | (a, Ok s) \<Rightarrow>
               let m' = update_high_water_mark s (m\<lparr>allocator := a\<rparr>)
               in (m'\<lparr>streams := bt_insert s stream_state_new (streams m')\<rparr>, Ok s)))"

definition open_unidirectional :: "multiplexer \<Rightarrow> multiplexer \<times> (stream_id, mux_fault) result" where
  "open_unidirectional m =
     (case mx_refusal m of
        Some r \<Rightarrow> (m, Err (Fault_Refused r))
      | None \<Rightarrow>
          (case next_unidirectional (allocator m) of
             (a, Err _) \<Rightarrow> (m\<lparr>allocator := a\<rparr>, Err Fault_StreamIdsExhausted)
           | (a, Ok s) \<Rightarrow>
               let m' = update_high_water_mark s (m\<lparr>allocator := a\<rparr>)
               in (m'\<lparr>streams := bt_insert s stream_state_new (streams m')\<rparr>, Ok s)))"

section \<open>Sending\<close>

text \<open>
  \<open>slice::chunks\<close>. A chunk size of zero panics in Rust; \<open>multiplexer_new\<close> refuses the
  limits under which it would occur.
\<close>

function chunks :: "nat \<Rightarrow> 'a list \<Rightarrow> 'a list list" where
  "chunks n xs = (if xs = [] \<or> n = 0 then [] else take n xs # chunks n (drop n xs))"
  by pat_completeness auto

termination
  by (relation "measure (\<lambda>(n, xs). length xs)") auto

declare chunks.simps [simp del]

fun encode_chunks :: "stream_id \<Rightarrow> u32 \<Rightarrow> u8 list list \<Rightarrow> (u8 list list, mux_fault) result" where
  "encode_chunks s limit [] = Ok []"
| "encode_chunks s limit (c # cs) =
     (case encode_mux_frame Mux_Data s c limit of
        Err e \<Rightarrow> Err (Fault_Encode e)
      | Ok frame \<Rightarrow>
          (case encode_chunks s limit cs of Err e \<Rightarrow> Err e | Ok frames \<Rightarrow> Ok (frame # frames)))"

definition mux_write :: "stream_id \<Rightarrow> u8 list \<Rightarrow> multiplexer \<Rightarrow> (u8 list list, mux_fault) result" where
  "mux_write s bytes m =
     (case mx_refusal m of
        Some r \<Rightarrow> Err (Fault_Refused r)
      | None \<Rightarrow>
          (case bt_get (streams m) s of
             None \<Rightarrow> Err (NoSuchStream s)
           | Some st \<Rightarrow>
               if opened_by s \<noteq> mx_opener m \<and> \<not> is_bidirectional s then Err (NotWritable s)
               else if local_finished st then Err (AlreadyFinished s)
               else if bytes = [] then Ok []
               else encode_chunks s (record_limit m) (chunks (max_mux_payload (record_limit m)) bytes)))"

definition mux_finish :: "stream_id \<Rightarrow> multiplexer \<Rightarrow> multiplexer \<times> (u8 list, mux_fault) result" where
  "mux_finish s m =
     (case mx_refusal m of
        Some r \<Rightarrow> (m, Err (Fault_Refused r))
      | None \<Rightarrow>
          (case bt_get (streams m) s of
             None \<Rightarrow> (m, Err (NoSuchStream s))
           | Some st \<Rightarrow>
               if opened_by s \<noteq> mx_opener m \<and> \<not> is_bidirectional s then (m, Err (NotWritable s))
               else if local_finished st then (m, Err (AlreadyFinished s))
               else
                 let m' = m\<lparr>streams := bt_insert s (st\<lparr>local_finished := True\<rparr>) (streams m)\<rparr> in
                 (case encode_mux_frame Mux_Fin s [] (record_limit m) of
                    Err e \<Rightarrow> (m', Err (Fault_Encode e))
                  | Ok frame \<Rightarrow> (try_retire s m', Ok frame))))"

section \<open>Receiving\<close>

definition refuse :: "mux_refusal \<Rightarrow> multiplexer \<Rightarrow> multiplexer \<times> (unit, mux_refusal) result" where
  "refuse r m = (m\<lparr>mx_refusal := Some r\<rparr>, Err r)"

definition pending_count :: "multiplexer \<Rightarrow> nat" where
  "pending_count m = length (pending_bidi m) + length (pending_uni m)"

definition push_pending :: "stream_id \<Rightarrow> multiplexer \<Rightarrow> multiplexer" where
  "push_pending s m =
     (if is_bidirectional s then m\<lparr>pending_bidi := pending_bidi m @ [s]\<rparr>
      else m\<lparr>pending_uni := pending_uni m @ [s]\<rparr>)"

text \<open>The loop that opens every identifier of the space below the one that arrived.\<close>

function open_gap ::
    "stream_id \<Rightarrow> stream_id option \<Rightarrow> multiplexer \<Rightarrow> multiplexer \<times> (unit, mux_refusal) result" where
  "open_gap target None m = (m, Ok ())"
| "open_gap target (Some s) m =
     (if target \<le> s then (m, Ok ())
      else if pending_count m \<ge> MAX_PENDING_STREAMS then refuse TooManyPendingStreams m
      else
        let m1 = push_pending s m;
            m2 = m1\<lparr>streams := bt_insert s stream_state_new (streams m1)\<rparr>
        in open_gap target (next_in_space s) (update_high_water_mark s m2))"
  by pat_completeness auto

termination
proof (relation "measure (\<lambda>(target, s, m). case s of None \<Rightarrow> 0 | Some s \<Rightarrow> 2 ^ 32 - sid_nat s)")
  fix target s :: stream_id and m m1 m2 :: multiplexer
  show "((target, next_in_space s, update_high_water_mark s m2), target, Some s, m)
      \<in> measure (\<lambda>(target, s, m). case s of None \<Rightarrow> 0 | Some s \<Rightarrow> 2 ^ 32 - sid_nat s)"
    by (auto split: option.split simp: next_in_space_Some) (use sid_bound [of s] in linarith)
qed simp

definition admit :: "stream_id \<Rightarrow> multiplexer \<Rightarrow> multiplexer \<times> (unit, mux_refusal) result" where
  "admit s m =
     (if (case high_water_mark m s of Some hwm \<Rightarrow> s \<le> hwm | None \<Rightarrow> False) then refuse (FrameAfterFin s) m
      else if opened_by s = mx_opener m then refuse (PeerAllocatedInOurSpace s) m
      else
        let curr = (case high_water_mark m s of
                      Some prev \<Rightarrow> next_in_space prev | None \<Rightarrow> Some (base_stream_id s)) in
        (case open_gap s curr m of
           (m1, Err r) \<Rightarrow> (m1, Err r)
         | (m1, Ok _) \<Rightarrow>
             if pending_count m1 \<ge> MAX_PENDING_STREAMS then refuse TooManyPendingStreams m1
             else (update_high_water_mark s (push_pending s m1), Ok ())))"

definition deliver :: "mux_frame \<Rightarrow> multiplexer \<Rightarrow> multiplexer \<times> (unit, mux_refusal) result" where
  "deliver f m =
     (let s = mf_stream_id f;
          st = (case bt_get (streams m) s of Some st \<Rightarrow> st | None \<Rightarrow> stream_state_new);
          m1 = (case bt_get (streams m) s of
                  Some _ \<Rightarrow> m | None \<Rightarrow> m\<lparr>streams := bt_insert s stream_state_new (streams m)\<rparr>) in
      if opened_by s = mx_opener m \<and> \<not> is_bidirectional s then refuse (WroteToOurUnidirectionalStream s) m1
      else if peer_finished st then refuse (FrameAfterFin s) m1
      else case mf_kind f of
        Mux_Data \<Rightarrow>
          if length (recv_buf st) + length (mf_payload f) > receive_window m
          then refuse (ReceiveWindowExceeded s) m1
          else (m1\<lparr>streams := bt_insert s (st\<lparr>recv_buf := recv_buf st @ mf_payload f\<rparr>) (streams m1)\<rparr>, Ok ())
      | Mux_Fin \<Rightarrow>
          (try_retire s (m1\<lparr>streams := bt_insert s (st\<lparr>peer_finished := True\<rparr>) (streams m1)\<rparr>), Ok ()))"

definition on_frame :: "mux_frame \<Rightarrow> multiplexer \<Rightarrow> multiplexer \<times> (unit, mux_refusal) result" where
  "on_frame f m =
     (case mx_refusal m of
        Some r \<Rightarrow> (m, Err r)
      | None \<Rightarrow>
          (case (if bt_get (streams m) (mf_stream_id f) = None then admit (mf_stream_id f) m else (m, Ok ())) of
             (m1, Err r) \<Rightarrow> (m1, Err r)
           | (m1, Ok _) \<Rightarrow> deliver f m1))"

definition mux_read :: "stream_id \<Rightarrow> nat \<Rightarrow> multiplexer \<Rightarrow> multiplexer \<times> (read_outcome, mux_fault) result" where
  "mux_read s n m =
     (case mx_refusal m of
        Some r \<Rightarrow> (m, Err (Fault_Refused r))
      | None \<Rightarrow>
          (case bt_get (streams m) s of
             None \<Rightarrow> (m, Err (NoSuchStream s))
           | Some st \<Rightarrow>
               if opened_by s = mx_opener m \<and> \<not> is_bidirectional s then (m, Err (NotReadable s))
               else if recv_buf st \<noteq> [] then
                 let to_read = min n (length (recv_buf st));
                     st' = st\<lparr>recv_buf := drop to_read (recv_buf st)\<rparr>;
                     m' = m\<lparr>streams := bt_insert s st' (streams m)\<rparr>
                 in (if recv_buf st' = [] then try_retire s m' else m', Ok (Read (take to_read (recv_buf st))))
               else if peer_finished st then (m, Ok Finished)
               else (m, Ok Pending)))"

fun pop_front :: "'a list \<Rightarrow> 'a list \<times> 'a option" where
  "pop_front [] = ([], None)"
| "pop_front (x # xs) = (xs, Some x)"

definition accept_bidirectional :: "multiplexer \<Rightarrow> multiplexer \<times> stream_id option" where
  "accept_bidirectional m =
     (if mx_refusal m \<noteq> None then (m, None)
      else case pop_front (pending_bidi m) of (q, s) \<Rightarrow> (m\<lparr>pending_bidi := q\<rparr>, s))"

definition accept_unidirectional :: "multiplexer \<Rightarrow> multiplexer \<times> stream_id option" where
  "accept_unidirectional m =
     (if mx_refusal m \<noteq> None then (m, None)
      else case pop_front (pending_uni m) of (q, s) \<Rightarrow> (m\<lparr>pending_uni := q\<rparr>, s))"

section \<open>Spaces and marks\<close>

lemma space_index_eq: "space_index s = sid_nat s mod 4"
  by (simp add: space_index_def and_low_bits)

lemma space_index_less [simp]: "space_index s < 4"
  by (simp add: space_index_eq)

lemma opened_by_space: "opened_by s = (if even (space_index s) then Dialler else Listener)"
  using opened_by_Dialler [of s] stream_opener.exhaust
  by (auto simp: space_index_eq dvd_mod_iff)

lemma bidirectional_space: "is_bidirectional s \<longleftrightarrow> space_index s < 2"
  by (simp add: is_bidirectional_iff space_index_eq)

text \<open>Who opened a stream and its direction determine its space.\<close>

lemma space_index_determined:
  "opened_by s = opened_by t \<Longrightarrow> is_bidirectional s = is_bidirectional t \<Longrightarrow> space_index s = space_index t"
proof -
  have four: "space_index s \<in> {0, 1, 2, 3}" for s using space_index_less [of s] by (simp only: insert_iff) linarith
  assume "opened_by s = opened_by t" "is_bidirectional s = is_bidirectional t"
  then show "space_index s = space_index t"
    using four [of s] four [of t] by (auto simp: opened_by_space bidirectional_space split: if_splits)
qed

lemma next_in_space_index: "next_in_space s = Some t \<Longrightarrow> space_index t = space_index s"
  by (simp add: next_in_space_Some space_index_eq)

lemma base_stream_id: "sid_nat (base_stream_id s) = space_index s" "space_index (base_stream_id s) = space_index s"
  using space_index_less [of s] by (simp_all add: base_stream_id_def space_index_eq unat_of_nat)

lemma space_classes:
  "space_index s = space_index t \<Longrightarrow> opened_by s = opened_by t \<and> is_bidirectional s = is_bidirectional t"
  by (simp add: opened_by_space bidirectional_space)

definition below_mark :: "multiplexer \<Rightarrow> stream_id \<Rightarrow> bool" where
  "below_mark m s \<longleftrightarrow> (case high_water_mark m s of Some h \<Rightarrow> s \<le> h | None \<Rightarrow> False)"

lemma below_mark_cong: "high_water_marks m' = high_water_marks m \<Longrightarrow> below_mark m' = below_mark m"
  by (simp add: below_mark_def high_water_mark_def fun_eq_iff)

lemma update_mark_simps [simp]:
  "mx_opener (update_high_water_mark s m) = mx_opener m"
  "allocator (update_high_water_mark s m) = allocator m"
  "record_limit (update_high_water_mark s m) = record_limit m"
  "receive_window (update_high_water_mark s m) = receive_window m"
  "streams (update_high_water_mark s m) = streams m"
  "pending_bidi (update_high_water_mark s m) = pending_bidi m"
  "pending_uni (update_high_water_mark s m) = pending_uni m"
  "mx_refusal (update_high_water_mark s m) = mx_refusal m"
  "length (high_water_marks (update_high_water_mark s m)) = length (high_water_marks m)"
  by (simp_all add: update_high_water_mark_def Let_def)

lemma update_mark_lookup:
  assumes "length (high_water_marks m) = 4"
  shows "high_water_marks (update_high_water_mark s m) ! i =
    (if i = space_index s then Some (case high_water_mark m s of Some h \<Rightarrow> max h s | None \<Rightarrow> s)
     else high_water_marks m ! i)"
  using assms by (simp add: update_high_water_mark_def Let_def high_water_mark_def nth_list_update)

lemma update_mark_below:
  assumes "length (high_water_marks m) = 4"
  shows "below_mark (update_high_water_mark s m) s"
    and "below_mark m t \<Longrightarrow> below_mark (update_high_water_mark s m) t"
  using assms by (auto simp: below_mark_def high_water_mark_def update_mark_lookup max_def split: option.splits)

lemma push_pending_simps [simp]:
  "mx_opener (push_pending s m) = mx_opener m" "allocator (push_pending s m) = allocator m"
  "record_limit (push_pending s m) = record_limit m" "receive_window (push_pending s m) = receive_window m"
  "streams (push_pending s m) = streams m" "mx_refusal (push_pending s m) = mx_refusal m"
  "high_water_marks (push_pending s m) = high_water_marks m"
  "pending_count (push_pending s m) = Suc (pending_count m)"
  by (simp_all add: push_pending_def pending_count_def)

lemma try_retire_simps [simp]:
  "mx_opener (try_retire s m) = mx_opener m" "allocator (try_retire s m) = allocator m"
  "record_limit (try_retire s m) = record_limit m" "receive_window (try_retire s m) = receive_window m"
  "pending_bidi (try_retire s m) = pending_bidi m" "pending_uni (try_retire s m) = pending_uni m"
  "mx_refusal (try_retire s m) = mx_refusal m" "high_water_marks (try_retire s m) = high_water_marks m"
  by (simp_all add: try_retire_def split: option.split)

section \<open>The invariant\<close>

definition own_index :: "stream_opener \<Rightarrow> bool \<Rightarrow> nat" where
  "own_index opener bidi = (if opener = Dialler then 0 else 1) + (if bidi then 0 else 2)"

text \<open>The allocator stands right above the mark of its space.\<close>

definition above_mark :: "stream_id option list \<Rightarrow> nat \<Rightarrow> stream_id option" where
  "above_mark marks i =
     (case marks ! i of None \<Rightarrow> Some (StreamId (of_nat i)) | Some h \<Rightarrow> next_in_space h)"

definition allocator_ok :: "multiplexer \<Rightarrow> bool" where
  "allocator_ok m \<longleftrightarrow>
     next_bidi (allocator m) = above_mark (high_water_marks m) (own_index (mx_opener m) True) \<and>
     next_uni (allocator m) = above_mark (high_water_marks m) (own_index (mx_opener m) False)"

definition pending_ok :: "multiplexer \<Rightarrow> bool" where
  "pending_ok m \<longleftrightarrow> pending_count m \<le> MAX_PENDING_STREAMS \<and>
     sorted_wrt (<) (pending_bidi m) \<and> sorted_wrt (<) (pending_uni m) \<and>
     (\<forall>s \<in> set (pending_bidi m). opened_by s \<noteq> mx_opener m \<and> is_bidirectional s \<and> below_mark m s) \<and>
     (\<forall>s \<in> set (pending_uni m). opened_by s \<noteq> mx_opener m \<and> \<not> is_bidirectional s \<and> below_mark m s)"

definition streams_ok :: "multiplexer \<Rightarrow> bool" where
  "streams_ok m \<longleftrightarrow> bt_invar (streams m) \<and>
     (\<forall>s st. bt_get (streams m) s = Some st \<longrightarrow> below_mark m s \<and> length (recv_buf st) \<le> receive_window m)"

definition marks_ok :: "multiplexer \<Rightarrow> bool" where
  "marks_ok m \<longleftrightarrow> length (high_water_marks m) = 4 \<and>
     (\<forall>i < 4. \<forall>h. high_water_marks m ! i = Some h \<longrightarrow> space_index h = i)"

definition mux_inv :: "multiplexer \<Rightarrow> bool" where
  "mux_inv m \<longleftrightarrow> marks_ok m \<and> streams_ok m \<and> pending_ok m \<and> allocator_ok m \<and> 6 \<le> unat (record_limit m)"

definition buffered :: "multiplexer \<Rightarrow> stream_id \<Rightarrow> u8 list" where
  "buffered m s = (case bt_get (streams m) s of Some st \<Rightarrow> recv_buf st | None \<Rightarrow> [])"

text \<open>What every call keeps: the configuration, the invariant, and the identifiers ever used.\<close>

definition mux_evolves :: "multiplexer \<Rightarrow> multiplexer \<Rightarrow> bool" where
  "mux_evolves m m' \<longleftrightarrow> mux_inv m' \<and> mx_opener m' = mx_opener m \<and> receive_window m' = receive_window m \<and>
     record_limit m' = record_limit m \<and> (\<forall>s. below_mark m s \<longrightarrow> below_mark m' s)"

lemma mux_evolves_refl: "mux_inv m \<Longrightarrow> mux_evolves m m"
  by (simp add: mux_evolves_def)

lemma mux_evolves_trans: "mux_evolves m m' \<Longrightarrow> mux_evolves m' m'' \<Longrightarrow> mux_evolves m m''"
  by (simp add: mux_evolves_def)

lemma multiplexer_new_inv:
  "multiplexer_new opener frame_size limit = Ok m \<Longrightarrow> mux_inv m"
  by (cases opener)
     (auto simp: multiplexer_new_def mux_inv_def marks_ok_def streams_ok_def pending_ok_def
       allocator_ok_def above_mark_def own_index_def pending_count_def MIN_RECORD_LIMIT_def word_less_nat_alt not_less
       split: if_splits)

lemma below_mark_fields [simp]:
  "below_mark (m\<lparr>streams := x\<rparr>) = below_mark m" "below_mark (m\<lparr>pending_bidi := q\<rparr>) = below_mark m"
  "below_mark (m\<lparr>pending_uni := q\<rparr>) = below_mark m" "below_mark (m\<lparr>allocator := a\<rparr>) = below_mark m"
  "below_mark (m\<lparr>mx_refusal := r\<rparr>) = below_mark m" "below_mark (try_retire s m) = below_mark m"
  "below_mark (push_pending s m) = below_mark m"
  by (rule below_mark_cong, simp)+

lemma pending_count_fields [simp]:
  "pending_count (m\<lparr>streams := x\<rparr>) = pending_count m" "pending_count (m\<lparr>allocator := a\<rparr>) = pending_count m"
  "pending_count (m\<lparr>mx_refusal := r\<rparr>) = pending_count m" "pending_count (try_retire s m) = pending_count m"
  "pending_count (update_high_water_mark s m) = pending_count m"
  by (simp_all add: pending_count_def)

lemmas mux_parts = mux_inv_def marks_ok_def streams_ok_def pending_ok_def allocator_ok_def

lemma evolves_streams:
  assumes "mux_inv m" and "streams_ok (m\<lparr>streams := x\<rparr>)"
  shows "mux_evolves m (m\<lparr>streams := x\<rparr>)"
  using assms by (simp add: mux_evolves_def mux_inv_def marks_ok_def pending_ok_def allocator_ok_def)

lemma evolves_insert:
  assumes "mux_inv m" and "below_mark m s" and "length (recv_buf st) \<le> receive_window m"
  shows "mux_evolves m (m\<lparr>streams := bt_insert s st (streams m)\<rparr>)"
    and "buffered (m\<lparr>streams := bt_insert s st (streams m)\<rparr>) = (buffered m)(s := recv_buf st)"
  using assms by (auto simp: mux_inv_def streams_ok_def buffered_def fun_eq_iff
      intro!: evolves_streams split: if_splits option.splits)

lemma evolves_try_retire:
  assumes "mux_inv m"
  shows "mux_evolves m (try_retire s m)" and "buffered (try_retire s m) = buffered m"
proof -
  have inv: "bt_invar (streams m)" using assms by (simp add: mux_inv_def streams_ok_def)
  then show "buffered (try_retire s m) = buffered m"
    by (auto simp: buffered_def fun_eq_iff try_retire_def retirable_def split: option.split)
  show "mux_evolves m (try_retire s m)"
  proof (cases "try_retire s m = m")
    case False
    then have "try_retire s m = m\<lparr>streams := bt_remove s (streams m)\<rparr>"
      by (simp add: try_retire_def split: option.splits if_splits)
    then show ?thesis
      using assms inv by (auto simp: mux_inv_def streams_ok_def intro!: evolves_streams split: if_splits)
  qed (simp add: mux_evolves_refl assms)
qed

lemma evolves_refuse:
  assumes "mux_inv m"
  shows "mux_evolves m (m\<lparr>mx_refusal := r\<rparr>)" and "buffered (m\<lparr>mx_refusal := r\<rparr>) = buffered m"
  using assms by (simp_all add: mux_evolves_def mux_parts buffered_def fun_eq_iff)

lemma own_index_space:
  "own_index opener bidi < 4" "opened_by s = opener \<Longrightarrow> is_bidirectional s = bidi \<Longrightarrow> space_index s = own_index opener bidi"
  "opened_by s \<noteq> opener \<Longrightarrow> space_index s \<noteq> own_index opener bidi"
proof -
  have four: "space_index s \<in> {0, 1, 2, 3}" using space_index_less [of s] by (simp only: insert_iff) linarith
  show "own_index opener bidi < 4" by (simp add: own_index_def)
  show "opened_by s = opener \<Longrightarrow> is_bidirectional s = bidi \<Longrightarrow> space_index s = own_index opener bidi"
    using four by (auto simp: own_index_def opened_by_space bidirectional_space split: if_splits)
  show "opened_by s \<noteq> opener \<Longrightarrow> space_index s \<noteq> own_index opener bidi"
    using four by (cases opener) (auto simp: own_index_def opened_by_space split: if_splits)
qed

text \<open>A stream the peer opens above its mark joins the queue of its direction.\<close>

lemma evolves_open_peer:
  assumes inv: "mux_inv m" and peer: "opened_by s \<noteq> mx_opener m" and new: "\<not> below_mark m s"
    and room: "pending_count m < MAX_PENDING_STREAMS"
  shows "mux_evolves m (update_high_water_mark s (push_pending s m))"
    and "buffered (update_high_water_mark s (push_pending s m)) = buffered m"
    and "below_mark (update_high_water_mark s (push_pending s m)) s"
proof -
  let ?m = "update_high_water_mark s (push_pending s m)"
  have len: "length (high_water_marks (push_pending s m)) = 4" using inv by (simp add: mux_parts)
  note below = update_mark_below [OF len]
  show "below_mark ?m s" by (rule below(1))
  show "buffered ?m = buffered m" by (simp add: buffered_def fun_eq_iff)
  have mono: "below_mark m t \<Longrightarrow> below_mark ?m t" for t using below(2) by simp
  have "marks_ok ?m" using inv by (auto simp: mux_parts update_mark_lookup high_water_mark_def max_def split: option.splits if_splits)
  moreover have "streams_ok ?m" using inv mono by (auto simp: mux_parts)
  moreover have "allocator_ok ?m"
    using inv own_index_space(3) [OF peer, THEN not_sym] by (simp add: mux_parts above_mark_def update_mark_lookup [OF len])
  moreover have "pending_ok ?m"
  proof -
    have above: "t < s" if "below_mark m t" "opened_by t \<noteq> mx_opener m" "is_bidirectional t = is_bidirectional s" for t
    proof -
      have "opened_by t = opened_by s" using that(2) peer by (metis stream_opener.exhaust)
      then have "space_index t = space_index s" using that(3) by (rule space_index_determined)
      then show ?thesis using that(1) new by (auto simp: below_mark_def high_water_mark_def split: option.splits)
    qed
    show ?thesis
      using inv mono below(1) peer room above
      by (auto simp: mux_parts push_pending_def pending_count_def sorted_wrt_append simp del: sid_order)
  qed
  ultimately show "mux_evolves m ?m"
    using inv mono by (simp add: mux_evolves_def mux_inv_def)
qed

lemma update_mark_streams: "update_high_water_mark s (m\<lparr>streams := x\<rparr>) = (update_high_water_mark s m)\<lparr>streams := x\<rparr>"
  by (simp add: update_high_water_mark_def Let_def)

lemma update_mark_below_iff:
  assumes "length (high_water_marks m) = 4"
  shows "below_mark (update_high_water_mark s m) t \<longleftrightarrow>
    below_mark m t \<or> space_index t = space_index s \<and> t \<le> s"
  using assms
  by (auto simp: below_mark_def high_water_mark_def update_mark_lookup max_def split: option.splits)

lemma below_mark_mono: "below_mark m t \<Longrightarrow> space_index s = space_index t \<Longrightarrow> s \<le> t \<Longrightarrow> below_mark m s"
  by (auto simp: below_mark_def high_water_mark_def split: option.splits)

lemma absent_above_mark: "mux_inv m \<Longrightarrow> \<not> below_mark m s \<Longrightarrow> bt_get (streams m) s = None"
  by (cases "bt_get (streams m) s") (auto simp: mux_inv_def streams_ok_def)

text \<open>The loop keeps the invariant, delivers nothing, and leaves the target itself unopened.\<close>

lemma open_gap_keeps:
  assumes "mux_inv m" and "opened_by target \<noteq> mx_opener m" and "\<not> below_mark m target"
    and "\<And>s. cur = Some s \<Longrightarrow> space_index s = space_index target \<and> \<not> below_mark m s"
    and "open_gap target cur m = (m', r)"
  shows "mux_evolves m m' \<and> buffered m' = buffered m \<and>
    (r = Ok () \<longrightarrow> mx_refusal m' = mx_refusal m \<and> \<not> below_mark m' target)"
  using assms
proof (induction target cur m rule: open_gap.induct)
  case (1 target m)
  then show ?case by (auto simp: mux_evolves_refl)
next
  case (2 target s m)
  let ?m1 = "update_high_water_mark s (push_pending s m)"
  let ?m2 = "?m1\<lparr>streams := bt_insert s stream_state_new (streams m)\<rparr>"
  have s: "space_index s = space_index target" "\<not> below_mark m s" using "2.prems"(4) by auto
  then have peer: "opened_by s \<noteq> mx_opener m" using "2.prems"(2) space_classes by metis
  show ?case
  proof (cases "target \<le> s \<or> MAX_PENDING_STREAMS \<le> pending_count m")
    case True
    then show ?thesis
      using "2.prems" evolves_refuse [OF "2.prems"(1)] mux_evolves_refl [OF "2.prems"(1)]
      by (auto simp: refuse_def split: if_splits)
  next
    case False
    then have lt: "s < target" and room: "pending_count m < MAX_PENDING_STREAMS" by auto
    note o = evolves_open_peer [OF "2.prems"(1) peer s(2) room]
    have inv1: "mux_inv ?m1" using o(1) by (simp add: mux_evolves_def)
    note i = evolves_insert [OF inv1 o(3), of stream_state_new]
    have m2: "mux_evolves m ?m2" "buffered ?m2 = buffered m" "mx_refusal ?m2 = mx_refusal m"
      using i mux_evolves_trans [OF o(1)] o(2) absent_above_mark [OF "2.prems"(1) s(2)]
      by (auto simp: stream_state_new_def buffered_def fun_eq_iff)
    have len: "length (high_water_marks (push_pending s m)) = 4" using "2.prems"(1) by (simp add: mux_parts)
    have above: "\<not> below_mark ?m2 t" if "space_index t = space_index target" "s < t" for t
      using that s below_mark_mono [of m t s] by (auto simp: update_mark_below_iff [OF len])
    have run: "open_gap target (next_in_space s) ?m2 = (m', r)"
      using "2.prems"(5) False by (auto simp: Let_def update_mark_streams)
    have "mux_evolves ?m2 m' \<and> buffered m' = buffered ?m2 \<and>
        (r = Ok () \<longrightarrow> mx_refusal m' = mx_refusal ?m2 \<and> \<not> below_mark m' target)"
    proof (rule "2.IH" [where x = "push_pending s m" and xa = "(push_pending s m)\<lparr>streams := bt_insert s stream_state_new (streams (push_pending s m))\<rparr>", unfolded update_mark_streams push_pending_simps])
      show "open_gap target (next_in_space s) ?m2 = (m', r)" by (rule run)
      show "\<not> below_mark ?m2 target" using above lt by simp
      show "space_index t = space_index target \<and> \<not> below_mark ?m2 t" if "next_in_space s = Some t" for t
        using that above [of t] next_in_space_index [OF that] s(1) by (simp add: next_in_space_Some)
      show "mux_inv ?m2" using m2(1) by (simp add: mux_evolves_def)
    qed (use False "2.prems"(2) in auto)
    with m2 mux_evolves_trans show ?thesis by auto
  qed
qed

section \<open>What each call does\<close>

lemma admit_keeps:
  assumes "mux_inv m" and "bt_get (streams m) s = None" and "admit s m = (m', r)"
  shows "mux_evolves m m' \<and> buffered m' = buffered m \<and>
    (r = Ok () \<longrightarrow> mx_refusal m' = mx_refusal m \<and> below_mark m' s \<and> opened_by s \<noteq> mx_opener m)"
    and "below_mark m s \<Longrightarrow> r = Err (FrameAfterFin s)"
proof -
  note refused = evolves_refuse [OF assms(1)]
  show "below_mark m s \<Longrightarrow> r = Err (FrameAfterFin s)"
    using assms(3) by (simp add: admit_def below_mark_def refuse_def)
  show "mux_evolves m m' \<and> buffered m' = buffered m \<and>
    (r = Ok () \<longrightarrow> mx_refusal m' = mx_refusal m \<and> below_mark m' s \<and> opened_by s \<noteq> mx_opener m)"
  proof (cases "below_mark m s \<or> opened_by s = mx_opener m")
    case True
    then have "\<exists>e. r = Err e \<and> m' = m\<lparr>mx_refusal := Some e\<rparr>"
      using assms(3) by (auto simp: admit_def refuse_def simp flip: below_mark_def split: if_splits)
    then show ?thesis using refused by auto
  next
    case False
    define cur where "cur = (case high_water_mark m s of Some prev \<Rightarrow> next_in_space prev | None \<Rightarrow> Some (base_stream_id s))"
    obtain m1 g where gap: "open_gap s cur m = (m1, g)" by force
    have marks: "\<forall>h. high_water_mark m s = Some h \<longrightarrow> space_index h = space_index s"
      using assms(1) by (auto simp: mux_parts high_water_mark_def)
    have cur: "space_index t = space_index s \<and> \<not> below_mark m t" if "cur = Some t" for t
    proof (cases "high_water_mark m s")
      case None
      then show ?thesis using that base_stream_id(2) [of s]
        by (auto simp: cur_def below_mark_def high_water_mark_def split: option.splits)
    next
      case (Some h)
      then have t: "space_index t = space_index s" "sid_nat t = sid_nat h + 4"
        using that marks next_in_space_index [of h t] by (auto simp: cur_def next_in_space_Some)
      then show ?thesis using Some by (auto simp: below_mark_def high_water_mark_def)
    qed
    have k: "mux_evolves m m1 \<and> buffered m1 = buffered m \<and>
        (g = Ok () \<longrightarrow> mx_refusal m1 = mx_refusal m \<and> \<not> below_mark m1 s)"
      using open_gap_keeps [OF assms(1) _ _ cur gap] False by blast
    have adm: "admit s m = (case g of Err e \<Rightarrow> (m1, Err e) | Ok _ \<Rightarrow>
        if MAX_PENDING_STREAMS \<le> pending_count m1 then refuse TooManyPendingStreams m1
        else (update_high_water_mark s (push_pending s m1), Ok ()))"
      using False gap by (auto simp: admit_def below_mark_def Let_def cur_def [symmetric] split: result.split)
    have inv1: "mux_inv m1" and op: "mx_opener m1 = mx_opener m" using k by (auto simp: mux_evolves_def)
    show ?thesis
    proof (cases "g = Ok () \<and> pending_count m1 < MAX_PENDING_STREAMS")
      case True
      then have "opened_by s \<noteq> mx_opener m1" "\<not> below_mark m1 s" using False k op by auto
      note o = evolves_open_peer [OF inv1 this conjunct2 [OF True]]
      have "r = Ok ()" "m' = update_high_water_mark s (push_pending s m1)"
        using adm assms(3) True by auto
      then show ?thesis using o k True False mux_evolves_trans by auto
    next
      case no: False
      then have "\<exists>e. r = Err e \<and> (m' = m1 \<or> m' = m1\<lparr>mx_refusal := Some e\<rparr>)"
        using adm assms(3) by (auto simp: refuse_def split: result.splits if_splits)
      then show ?thesis using k evolves_refuse [OF inv1] mux_evolves_trans by auto
    qed
  qed
qed

lemma deliver_keeps:
  assumes "mux_inv m" and "below_mark m (mf_stream_id f)" and "deliver f m = (m', r)"
  shows "mux_evolves m m' \<and> buffered m' =
    (if r = Ok () \<and> mf_kind f = Mux_Data
     then (buffered m)(mf_stream_id f := buffered m (mf_stream_id f) @ mf_payload f) else buffered m)"
proof -
  let ?s = "mf_stream_id f"
  define st where "st = (case bt_get (streams m) ?s of Some st \<Rightarrow> st | None \<Rightarrow> stream_state_new)"
  define m1 where "m1 = (case bt_get (streams m) ?s of Some _ \<Rightarrow> m
    | None \<Rightarrow> m\<lparr>streams := bt_insert ?s stream_state_new (streams m)\<rparr>)"
  have st: "recv_buf st = buffered m ?s" "length (recv_buf st) \<le> receive_window m"
    using assms(1) by (auto simp: st_def buffered_def stream_state_new_def mux_inv_def streams_ok_def split: option.split)
  have m1: "mux_evolves m m1" "buffered m1 = buffered m"
    using evolves_insert [OF assms(1,2), of stream_state_new] mux_evolves_refl [OF assms(1)]
    by (auto simp: m1_def stream_state_new_def buffered_def fun_eq_iff split: option.splits)
  then have inv1: "mux_inv m1" and b1: "below_mark m1 ?s" and w: "receive_window m1 = receive_window m"
    using assms(2) by (auto simp: mux_evolves_def)
  have run: "deliver f m =
      (if opened_by ?s = mx_opener m \<and> \<not> is_bidirectional ?s then refuse (WroteToOurUnidirectionalStream ?s) m1
       else if peer_finished st then refuse (FrameAfterFin ?s) m1
       else case mf_kind f of
         Mux_Data \<Rightarrow>
           if length (recv_buf st) + length (mf_payload f) > receive_window m
           then refuse (ReceiveWindowExceeded ?s) m1
           else (m1\<lparr>streams := bt_insert ?s (st\<lparr>recv_buf := recv_buf st @ mf_payload f\<rparr>) (streams m1)\<rparr>, Ok ())
       | Mux_Fin \<Rightarrow>
           (try_retire ?s (m1\<lparr>streams := bt_insert ?s (st\<lparr>peer_finished := True\<rparr>) (streams m1)\<rparr>), Ok ()))"
    by (simp only: deliver_def Let_def st_def m1_def)
  consider (refused) e where "r = Err e" "m' = m1\<lparr>mx_refusal := Some e\<rparr>"
    | (data) "r = Ok ()" "mf_kind f = Mux_Data" "length (recv_buf st @ mf_payload f) \<le> receive_window m1"
        "m' = m1\<lparr>streams := bt_insert ?s (st\<lparr>recv_buf := recv_buf st @ mf_payload f\<rparr>) (streams m1)\<rparr>"
    | (fin) "r = Ok ()" "mf_kind f = Mux_Fin"
        "m' = try_retire ?s (m1\<lparr>streams := bt_insert ?s (st\<lparr>peer_finished := True\<rparr>) (streams m1)\<rparr>)"
    using assms(3) w by (cases "mf_kind f") (auto simp: run refuse_def not_less split: if_splits)
  then show ?thesis
  proof cases
    case refused
    then show ?thesis using evolves_refuse [OF inv1] m1 mux_evolves_trans by auto
  next
    case data
    then show ?thesis
      using evolves_insert [OF inv1 b1, of "st\<lparr>recv_buf := recv_buf st @ mf_payload f\<rparr>"] m1 mux_evolves_trans st
      by (auto simp: fun_eq_iff)
  next
    case fin
    note i = evolves_insert [OF inv1 b1, of "st\<lparr>peer_finished := True\<rparr>"]
    have "mux_evolves m1 (m1\<lparr>streams := bt_insert ?s (st\<lparr>peer_finished := True\<rparr>) (streams m1)\<rparr>)"
      using i(1) st w by simp
    moreover from this have "mux_inv (m1\<lparr>streams := bt_insert ?s (st\<lparr>peer_finished := True\<rparr>) (streams m1)\<rparr>)"
      by (simp add: mux_evolves_def)
    ultimately show ?thesis using fin i(2) evolves_try_retire m1 mux_evolves_trans st w
      by (auto simp: fun_eq_iff)
  qed
qed

text \<open>A frame that is accepted appends its bytes to its own stream's buffer and to no other.\<close>

lemma on_frame_keeps:
  assumes "mux_inv m" and "on_frame f m = (m', r)" and "mf_kind f = Mux_Fin \<longrightarrow> mf_payload f = []"
  shows "mux_evolves m m'" and "buffered m' =
    (if r = Ok () then (buffered m)(mf_stream_id f := buffered m (mf_stream_id f) @ mf_payload f) else buffered m)"
proof -
  let ?s = "mf_stream_id f"
  obtain m1 g where adm: "(if bt_get (streams m) ?s = None then admit ?s m else (m, Ok ())) = (m1, g)" by force
  have a: "mux_evolves m m1 \<and> buffered m1 = buffered m \<and> (g = Ok () \<longrightarrow> below_mark m1 ?s)"
  proof (cases "bt_get (streams m) ?s")
    case None
    then show ?thesis using adm admit_keeps(1) [OF assms(1) None] by simp
  next
    case (Some st)
    then have "below_mark m ?s" using assms(1) by (auto simp: mux_inv_def streams_ok_def)
    then show ?thesis using Some adm mux_evolves_refl [OF assms(1)] by auto
  qed
  then have inv1: "mux_inv m1" by (simp add: mux_evolves_def)
  have run: "on_frame f m = (case mx_refusal m of Some e \<Rightarrow> (m, Err e)
      | None \<Rightarrow> (case g of Err e \<Rightarrow> (m1, Err e) | Ok _ \<Rightarrow> deliver f m1))"
    by (simp only: on_frame_def adm prod.case)
  have "mux_evolves m m' \<and> buffered m' =
    (if r = Ok () then (buffered m)(?s := buffered m ?s @ mf_payload f) else buffered m)"
  proof (cases "mx_refusal m = None \<and> g = Ok ()")
    case True
    then have d: "deliver f m1 = (m', r)" using run assms(2) by simp
    have "below_mark m1 ?s" using a True by simp
    note k = deliver_keeps [OF inv1 this d]
    then have "mux_evolves m m'" using a mux_evolves_trans by blast
    moreover have "mf_payload f = []" if "mf_kind f \<noteq> Mux_Data"
      using that assms(3) by (cases "mf_kind f") auto
    ultimately show ?thesis using k a by auto
  next
    case False
    then have "(m' = m \<or> m' = m1) \<and> r \<noteq> Ok ()"
      using run assms(2) by (cases g) (auto split: option.splits)
    then show ?thesis using a mux_evolves_refl [OF assms(1)] by auto
  qed
  then show "mux_evolves m m'" "buffered m' =
    (if r = Ok () then (buffered m)(?s := buffered m ?s @ mf_payload f) else buffered m)" by simp_all
qed

lemma mux_read_keeps:
  assumes "mux_inv m" and "mux_read s n m = (m', r)"
  shows "mux_evolves m m'" and "case r of Ok (Read bytes) \<Rightarrow> buffered m = (buffered m')(s := bytes @ buffered m' s)
    | _ \<Rightarrow> buffered m' = buffered m"
    and "r = Ok Finished \<Longrightarrow> buffered m s = []"
proof -
  show "r = Ok Finished \<Longrightarrow> buffered m s = []"
    using assms(2) by (auto simp: mux_read_def buffered_def Let_def split: option.splits if_splits)
  define st where "st = the (bt_get (streams m) s)"
  define k where "k = min n (length (recv_buf st))"
  define m1 where "m1 = m\<lparr>streams := bt_insert s (st\<lparr>recv_buf := drop k (recv_buf st)\<rparr>) (streams m)\<rparr>"
  consider (same) "m' = m" "\<nexists>bytes. r = Ok (Read bytes)"
    | (drained) "bt_get (streams m) s = Some st" "r = Ok (Read (take k (recv_buf st)))" "m' = m1 \<or> m' = try_retire s m1"
    using assms(2) by (auto simp: mux_read_def Let_def st_def k_def m1_def split: option.splits if_splits)
  then have "mux_evolves m m' \<and> (case r of Ok (Read bytes) \<Rightarrow> buffered m = (buffered m')(s := bytes @ buffered m' s)
    | _ \<Rightarrow> buffered m' = buffered m)"
  proof cases
    case same
    then show ?thesis using mux_evolves_refl [OF assms(1)] by (cases r) (auto split: read_outcome.split)
  next
    case drained
    have "below_mark m s" "length (recv_buf st) \<le> receive_window m"
      using assms(1) drained(1) by (auto simp: mux_inv_def streams_ok_def)
    then have i: "mux_evolves m m1" "buffered m1 = (buffered m)(s := drop k (recv_buf st))"
      using evolves_insert [OF assms(1), of s "st\<lparr>recv_buf := drop k (recv_buf st)\<rparr>"] by (auto simp: m1_def)
    then have inv1: "mux_inv m1" by (simp add: mux_evolves_def)
    have "mux_evolves m m' \<and> buffered m' = buffered m1"
      using drained(3) i(1) evolves_try_retire [OF inv1] mux_evolves_trans by blast
    moreover have "buffered m s = recv_buf st" using drained(1) by (simp add: buffered_def)
    ultimately show ?thesis using drained(2) i(2) by (auto simp: fun_eq_iff)
  qed
  then show "mux_evolves m m'" "case r of Ok (Read bytes) \<Rightarrow> buffered m = (buffered m')(s := bytes @ buffered m' s)
    | _ \<Rightarrow> buffered m' = buffered m" by simp_all
qed

lemma retire_keeps:
  assumes "mux_inv m"
  shows "mux_evolves m (retire s m) \<and> buffered (retire s m) = buffered m"
proof (cases "bt_get (streams m) s")
  case None
  then show ?thesis using evolves_try_retire [OF assms] mux_evolves_refl [OF assms] by (simp add: retire_def)
next
  case (Some st)
  define m1 where "m1 = m\<lparr>streams := bt_insert s (st\<lparr>released := True\<rparr>) (streams m)\<rparr>"
  have "below_mark m s" "length (recv_buf st) \<le> receive_window m" "buffered m s = recv_buf st"
    using assms Some by (auto simp: mux_inv_def streams_ok_def buffered_def)
  then have "mux_evolves m m1" "buffered m1 = buffered m"
    using evolves_insert [OF assms, of s "st\<lparr>released := True\<rparr>"] by (auto simp: m1_def fun_eq_iff)
  moreover from this have inv1: "mux_inv m1" by (simp add: mux_evolves_def)
  ultimately have "mux_evolves m (try_retire s m1)" "buffered (try_retire s m1) = buffered m"
    using mux_evolves_trans [OF _ evolves_try_retire(1) [OF inv1]] evolves_try_retire(2) [OF inv1] by auto
  then show ?thesis using mux_evolves_refl [OF assms] by (auto simp: retire_def Some m1_def [symmetric])
qed

lemma mux_finish_keeps:
  assumes "mux_inv m" and "mux_finish s m = (m', r)"
  shows "mux_evolves m m' \<and> buffered m' = buffered m"
proof -
  define st where "st = the (bt_get (streams m) s)"
  define m1 where "m1 = m\<lparr>streams := bt_insert s (st\<lparr>local_finished := True\<rparr>) (streams m)\<rparr>"
  consider "m' = m" | "bt_get (streams m) s = Some st" "m' = m1 \<or> m' = try_retire s m1"
    using assms(2)
    by (auto simp: mux_finish_def Let_def st_def m1_def split: option.splits if_splits result.splits)
  then show ?thesis
  proof cases
    case 1
    then show ?thesis using mux_evolves_refl [OF assms(1)] by simp
  next
    case 2
    then have "below_mark m s" "length (recv_buf st) \<le> receive_window m" "buffered m s = recv_buf st"
      using assms(1) by (auto simp: mux_inv_def streams_ok_def buffered_def)
    then have i: "mux_evolves m m1" "buffered m1 = buffered m"
      using evolves_insert [OF assms(1), of s "st\<lparr>local_finished := True\<rparr>"] by (auto simp: m1_def fun_eq_iff)
    then have "mux_inv m1" by (simp add: mux_evolves_def)
    then show ?thesis using 2(2) i evolves_try_retire mux_evolves_trans by metis
  qed
qed

lemma accept_keeps:
  assumes "mux_inv m"
  shows "mux_evolves m (fst (accept_bidirectional m)) \<and> buffered (fst (accept_bidirectional m)) = buffered m"
    and "mux_evolves m (fst (accept_unidirectional m)) \<and> buffered (fst (accept_unidirectional m)) = buffered m"
proof -
  have "mux_evolves m (m\<lparr>pending_bidi := tl (pending_bidi m)\<rparr>)" "mux_evolves m (m\<lparr>pending_uni := tl (pending_uni m)\<rparr>)"
    using assms
    by (cases "pending_bidi m"; cases "pending_uni m"; auto simp: mux_evolves_def mux_parts pending_count_def)+
  moreover have "fst (pop_front q) = tl q" for q :: "stream_id list" by (cases q) simp_all
  ultimately show "mux_evolves m (fst (accept_bidirectional m)) \<and> buffered (fst (accept_bidirectional m)) = buffered m"
    "mux_evolves m (fst (accept_unidirectional m)) \<and> buffered (fst (accept_unidirectional m)) = buffered m"
    using mux_evolves_refl [OF assms]
    by (auto simp: accept_bidirectional_def accept_unidirectional_def buffered_def fun_eq_iff split: prod.split)
       (metis fst_conv)+
qed

text \<open>The identifier right above the mark of a space is in that space and was never used.\<close>

lemma above_mark_fresh:
  assumes "marks_ok m" and "i < 4" and "above_mark (high_water_marks m) i = Some s"
  shows "space_index s = i" and "\<not> below_mark m s"
proof -
  show i: "space_index s = i"
    using assms next_in_space_index
    by (auto simp: above_mark_def marks_ok_def space_index_eq unat_of_nat split: option.splits)
  show "\<not> below_mark m s"
    using assms i by (auto simp: above_mark_def below_mark_def high_water_mark_def next_in_space_Some split: option.splits)
qed

lemma own_index_inject: "own_index opener a = own_index opener b \<longleftrightarrow> a = b"
  by (simp add: own_index_def)

lemma evolves_open_own:
  assumes inv: "mux_inv m" and s: "above_mark (high_water_marks m) (own_index (mx_opener m) bidi) = Some s"
    and a: "a = (if bidi then (allocator m)\<lparr>next_bidi := next_in_space s\<rparr> else (allocator m)\<lparr>next_uni := next_in_space s\<rparr>)"
    and m': "m' = (update_high_water_mark s (m\<lparr>allocator := a\<rparr>))\<lparr>streams := bt_insert s stream_state_new (streams m)\<rparr>"
  shows "mux_evolves m m'" and "buffered m' = buffered m" and "\<not> below_mark m s" and "below_mark m' s"
    and "opened_by s = mx_opener m" and "is_bidirectional s = bidi"
proof -
  let ?m1 = "update_high_water_mark s (m\<lparr>allocator := a\<rparr>)"
  have marks: "marks_ok m" using inv by (simp add: mux_inv_def)
  note fresh = above_mark_fresh [OF marks own_index_space(1) s]
  show "\<not> below_mark m s" by (rule fresh(2))
  show "opened_by s = mx_opener m" "is_bidirectional s = bidi"
    using fresh(1) by (cases "mx_opener m"; cases bidi; simp add: opened_by_space bidirectional_space own_index_def)+
  have len: "length (high_water_marks (m\<lparr>allocator := a\<rparr>)) = 4" using marks by (simp add: marks_ok_def)
  note below = update_mark_below [OF len]
  have mark: "high_water_marks ?m1 ! i = (if i = space_index s then Some s else high_water_marks m ! i)" for i
    using fresh(2) by (auto simp: update_mark_lookup [OF len] below_mark_def high_water_mark_def max_def split: option.splits)
  have "marks_ok ?m1" using marks by (auto simp: marks_ok_def mark)
  moreover have "streams_ok ?m1" "pending_ok ?m1"
    using inv below(2) by (auto simp: mux_inv_def streams_ok_def pending_ok_def)
  moreover have "next_bidi a = (if bidi then next_in_space s else next_bidi (allocator m))"
      "next_uni a = (if bidi then next_uni (allocator m) else next_in_space s)" by (simp_all add: a)
  then have "allocator_ok ?m1"
    using inv fresh(1) by (auto simp: mux_inv_def allocator_ok_def above_mark_def mark own_index_inject)
  ultimately have e1: "mux_evolves m ?m1" using inv below(2) by (simp add: mux_evolves_def mux_inv_def)
  then have inv1: "mux_inv ?m1" by (simp add: mux_evolves_def)
  note i = evolves_insert [OF inv1 below(1), of stream_state_new]
  show "mux_evolves m m'" using i(1) mux_evolves_trans [OF e1] by (simp add: m' stream_state_new_def)
  show "buffered m' = buffered m"
    using i(2) absent_above_mark [OF inv fresh(2)]
    by (auto simp: m' stream_state_new_def buffered_def fun_eq_iff split: if_splits)
  show "below_mark m' s" using below(1) by (simp add: m')
qed

lemma open_keeps:
  assumes "mux_inv m" and "open_bidirectional m = (m', Ok s) \<or> open_unidirectional m = (m', Ok s)"
  shows "mux_evolves m m'" and "buffered m' = buffered m" and "\<not> below_mark m s" and "below_mark m' s"
    and "opened_by s = mx_opener m"
proof -
  obtain bidi a where "above_mark (high_water_marks m) (own_index (mx_opener m) bidi) = Some s"
    "a = (if bidi then (allocator m)\<lparr>next_bidi := next_in_space s\<rparr> else (allocator m)\<lparr>next_uni := next_in_space s\<rparr>)"
    "m' = (update_high_water_mark s (m\<lparr>allocator := a\<rparr>))\<lparr>streams := bt_insert s stream_state_new (streams m)\<rparr>"
  proof (cases "open_bidirectional m = (m', Ok s)")
    case True
    then show thesis using assms(1) that [of True]
      by (auto simp: open_bidirectional_def next_bidirectional_def Let_def mux_inv_def allocator_ok_def split: option.splits)
  next
    case False
    then show thesis using assms that [of False]
      by (auto simp: open_unidirectional_def next_unidirectional_def Let_def mux_inv_def allocator_ok_def split: option.splits)
  qed
  note o = evolves_open_own [OF assms(1) this]
  show "mux_evolves m m'" "buffered m' = buffered m" "\<not> below_mark m s" "below_mark m' s" "opened_by s = mx_opener m"
    by (fact o)+
qed

lemma open_failed:
  assumes "open_bidirectional m = (m', Err e) \<or> open_unidirectional m = (m', Err e)"
  shows "m' = m"
  using assms
  by (auto simp: open_bidirectional_def open_unidirectional_def next_bidirectional_def next_unidirectional_def
      Let_def split: option.splits)

section \<open>Runs\<close>

text \<open>
  A connection is a sequence of calls. Frames reach it through \<open>mux_frame_from_wire\<close>. Each step
  is labelled with what it moved: bytes taken in on a stream, bytes handed to its reader, a
  stream opened here or accepted from the peer. Writing changes no state.
\<close>

datatype mux_event =
    Received stream_id "u8 list" | Delivered stream_id "u8 list" | Opened stream_id | Accepted stream_id | Quiet

inductive mux_step :: "multiplexer \<Rightarrow> mux_event \<Rightarrow> multiplexer \<Rightarrow> bool" where
  frame_accepted: "mux_frame_from_wire w = Ok f \<Longrightarrow> on_frame f m = (m', Ok ()) \<Longrightarrow>
     mux_step m (Received (mf_stream_id f) (mf_payload f)) m'"
| frame_refused: "mux_frame_from_wire w = Ok f \<Longrightarrow> on_frame f m = (m', Err r) \<Longrightarrow> mux_step m Quiet m'"
| read_bytes: "mux_read s n m = (m', Ok (Read bytes)) \<Longrightarrow> mux_step m (Delivered s bytes) m'"
| read_nothing: "mux_read s n m = (m', r) \<Longrightarrow> \<nexists>bytes. r = Ok (Read bytes) \<Longrightarrow> mux_step m Quiet m'"
| opened: "open_bidirectional m = (m', Ok s) \<or> open_unidirectional m = (m', Ok s) \<Longrightarrow> mux_step m (Opened s) m'"
| open_refused: "open_bidirectional m = (m', Err e) \<or> open_unidirectional m = (m', Err e) \<Longrightarrow> mux_step m Quiet m'"
| accepted: "accept_bidirectional m = (m', Some s) \<or> accept_unidirectional m = (m', Some s) \<Longrightarrow>
     mux_step m (Accepted s) m'"
| nothing_to_accept: "accept_bidirectional m = (m', None) \<or> accept_unidirectional m = (m', None) \<Longrightarrow>
     mux_step m Quiet m'"
| finished: "mux_finish s m = (m', r) \<Longrightarrow> mux_step m Quiet m'"
| retired: "mux_step m Quiet (retire s m)"

inductive mux_run :: "multiplexer \<Rightarrow> mux_event list \<Rightarrow> multiplexer \<Rightarrow> bool" where
  start: "mux_run m [] m"
| more: "mux_run m es m' \<Longrightarrow> mux_step m' e m'' \<Longrightarrow> mux_run m (es @ [e]) m''"

fun received :: "stream_id \<Rightarrow> mux_event list \<Rightarrow> u8 list" where
  "received s [] = []"
| "received s (Received t b # es) = (if t = s then b else []) @ received s es"
| "received s (_ # es) = received s es"

fun delivered :: "stream_id \<Rightarrow> mux_event list \<Rightarrow> u8 list" where
  "delivered s [] = []"
| "delivered s (Delivered t b # es) = (if t = s then b else []) @ delivered s es"
| "delivered s (_ # es) = delivered s es"

fun opened_ids :: "mux_event list \<Rightarrow> stream_id list" where
  "opened_ids [] = []"
| "opened_ids (Opened s # es) = s # opened_ids es"
| "opened_ids (_ # es) = opened_ids es"

lemma history_append [simp]:
  "received s (es @ fs) = received s es @ received s fs"
  "delivered s (es @ fs) = delivered s es @ delivered s fs"
  "opened_ids (es @ fs) = opened_ids es @ opened_ids fs"
  by (induction s es rule: received.induct, simp_all)

lemma mux_step_keeps:
  assumes "mux_step m e m'" and "mux_inv m"
  shows "mux_evolves m m' \<and> (\<forall>s. buffered m s @ received s [e] = delivered s [e] @ buffered m' s)"
  using assms
proof (induction rule: mux_step.induct)
  case (frame_accepted w f m m')
  then show ?case using on_frame_keeps [of m f m' "Ok ()"] by (auto simp: mux_frame_from_wire_Ok)
next
  case (frame_refused w f m m' r)
  then show ?case using on_frame_keeps [of m f m' "Err r"] by (auto simp: mux_frame_from_wire_Ok)
next
  case (read_bytes s n m m' bytes)
  then show ?case using mux_read_keeps(1,2) [of m s n m'] by fastforce
next
  case (read_nothing s n m m' r)
  then show ?case using mux_read_keeps(1,2) [of m s n m' r] by (auto split: result.splits read_outcome.splits)
next
  case (accepted m m' s)
  then show ?case using accept_keeps [of m] by auto
next
  case (nothing_to_accept m m')
  then show ?case using accept_keeps [of m] by auto
next
  case (opened m m' s)
  then show ?case using open_keeps [of m m' s] by simp
next
  case (open_refused m m' e)
  then show ?case using open_failed [of m m' e] mux_evolves_refl by simp
next
  case (finished s m m' r)
  then show ?case using mux_finish_keeps [of m s m' r] by simp
next
  case (retired m s)
  then show ?case using retire_keeps [of m s] by simp
qed

lemma mux_run_keeps:
  assumes "mux_run m es m'" and "mux_inv m"
  shows "mux_evolves m m' \<and> (\<forall>s. buffered m s @ received s es = delivered s es @ buffered m' s)"
  using assms
proof (induction rule: mux_run.induct)
  case (start m)
  then show ?case by (simp add: mux_evolves_refl)
next
  case (more m es m' e m'')
  then have "mux_evolves m m'" and IH: "\<And>s. buffered m s @ received s es = delivered s es @ buffered m' s" by auto
  then have step: "mux_evolves m' m'' \<and> (\<forall>s. buffered m' s @ received s [e] = delivered s [e] @ buffered m'' s)"
    using mux_step_keeps [OF more.hyps(2)] by (simp add: mux_evolves_def)
  have "buffered m s @ received s (es @ [e]) = delivered s (es @ [e]) @ buffered m'' s" for s
    using IH [of s] step by (metis append_assoc history_append(1,2))
  then show ?case using step mux_evolves_trans [OF \<open>mux_evolves m m'\<close>] by blast
qed

lemma new_buffers_nothing: "multiplexer_new opener frame_size limit = Ok m \<Longrightarrow> buffered m s = []"
  by (auto simp: multiplexer_new_def buffered_def split: if_splits)

lemmas mux_step_frame = mux_step.frame_accepted mux_step.frame_refused

text \<open>
  Property C7. Each stream is a lossless, ordered, isolated byte queue. After any sequence of
  calls on a new multiplexer, for every stream the bytes the peer sent on it are exactly the
  bytes handed to its reader followed by those still buffered: none is lost, repeated, reordered
  or crosses to another stream, retired streams included, and when a read reports the end of the
  stream, everything sent on it was read.
\<close>

theorem mux_streams_are_queues:
  assumes "multiplexer_new opener frame_size limit = Ok m0" and "mux_run m0 es m"
  shows "received s es = delivered s es @ buffered m s \<and>
    (\<forall>n m'. mux_read s n m = (m', Ok Finished) \<longrightarrow> delivered s es = received s es)"
  using mux_run_keeps [OF assms(2) multiplexer_new_inv [OF assms(1)]] new_buffers_nothing [OF assms(1)]
    mux_read_keeps(3) [of m s] by (fastforce simp: mux_evolves_def)

text \<open>
  Property C24. A peer cannot make the multiplexer hold more than it agreed to. After any sequence
  of calls, the buffer of every stream holds at most 128 frames of the agreed size, at most 64
  streams wait to be accepted, and the waiting streams are streams of the peer, each of the right
  direction, each once and in ascending order.
\<close>

theorem mux_memory_bounded:
  assumes "multiplexer_new opener frame_size limit = Ok m0" and "mux_run m0 es m"
  shows "length (buffered m s) \<le> 128 * unat frame_size \<and>
    length (pending_bidi m) + length (pending_uni m) \<le> 64 \<and>
    sorted_wrt (<) (pending_bidi m) \<and> sorted_wrt (<) (pending_uni m) \<and>
    (\<forall>t \<in> set (pending_bidi m). opened_by t \<noteq> opener \<and> is_bidirectional t) \<and>
    (\<forall>t \<in> set (pending_uni m). opened_by t \<noteq> opener \<and> \<not> is_bidirectional t)"
proof -
  have "mux_inv m" "receive_window m \<le> 128 * unat frame_size" "mx_opener m = opener"
    using mux_run_keeps [OF assms(2) multiplexer_new_inv [OF assms(1)]] assms(1)
    by (auto simp: mux_evolves_def multiplexer_new_def RECEIVE_WINDOW_FRAMES_def split: if_splits)
  moreover from this have "length (buffered m s) \<le> receive_window m"
    by (auto simp: mux_inv_def streams_ok_def buffered_def split: option.split)
  ultimately show ?thesis
    by (auto simp: mux_inv_def pending_ok_def pending_count_def MAX_PENDING_STREAMS_def simp del: sid_order)
qed

text \<open>Identifiers opened in a run are above every mark before it and distinct.\<close>

lemma opened_ids_fresh:
  assumes "mux_run m es m'" and "mux_inv m"
  shows "distinct (opened_ids es) \<and>
    (\<forall>s \<in> set (opened_ids es). \<not> below_mark m s \<and> below_mark m' s \<and> opened_by s = mx_opener m)"
  using assms
proof (induction rule: mux_run.induct)
  case (more m es m' e m'')
  have ev: "mux_evolves m m'" using mux_run_keeps [OF more.hyps(1) more.prems] by simp
  then have inv: "mux_inv m'" by (simp add: mux_evolves_def)
  have ev': "mux_evolves m' m''" using mux_step_keeps [OF more.hyps(2) inv] by simp
  have "\<not> below_mark m' s \<and> below_mark m'' s \<and> opened_by s = mx_opener m'" if "e = Opened s" for s
    using more.hyps(2) inv open_keeps(3,4,5) unfolding that by (cases rule: mux_step.cases) blast
  then show ?case using more.IH [OF more.prems] ev ev' by (cases e) (auto simp: mux_evolves_def)
qed simp

text \<open>
  Property C30. A stream identifier means one stream for the life of the connection. The
  identifiers opened on this side are pairwise distinct and in its own space; and once a stream
  that existed was retired, a frame that names it is refused and closes the connection instead of
  bringing it back.
\<close>

theorem stream_ids_never_reused:
  assumes "multiplexer_new opener frame_size limit = Ok m0" and "mux_run m0 es m1" and "mux_run m1 es' m2"
    and "bt_get (streams m1) (mf_stream_id f) \<noteq> None" and "bt_get (streams m2) (mf_stream_id f) = None"
  shows "distinct (opened_ids (es @ es')) \<and> (\<forall>s \<in> set (opened_ids (es @ es')). opened_by s = opener) \<and>
    (\<exists>m3 r. on_frame f m2 = (m3, Err r) \<and> mx_refusal m3 = Some r)"
proof -
  have inv: "mux_inv m0" "mux_inv m1" "mux_inv m2" and ev: "mux_evolves m1 m2" and op: "mx_opener m1 = mx_opener m0"
    using mux_run_keeps [OF assms(2) multiplexer_new_inv [OF assms(1)]] mux_run_keeps [OF assms(3)]
      multiplexer_new_inv [OF assms(1)] by (auto simp: mux_evolves_def)
  have "below_mark m1 (mf_stream_id f)"
    using absent_above_mark [OF inv(2), of "mf_stream_id f"] assms(4) by auto
  then have below: "below_mark m2 (mf_stream_id f)" using ev by (simp add: mux_evolves_def)
  then have "admit (mf_stream_id f) m2 = refuse (FrameAfterFin (mf_stream_id f)) m2"
    unfolding admit_def below_mark_def [symmetric] by simp
  then have "\<exists>m3 r. on_frame f m2 = (m3, Err r) \<and> mx_refusal m3 = Some r"
    using assms(5) by (cases "mx_refusal m2") (simp_all add: on_frame_def refuse_def)
  moreover have "distinct (opened_ids es @ opened_ids es')" "\<forall>s \<in> set (opened_ids es @ opened_ids es'). opened_by s = opener"
    using opened_ids_fresh [OF assms(2) inv(1)] opened_ids_fresh [OF assms(3) inv(2)] op assms(1)
    by (auto simp: multiplexer_new_def split: if_splits)
  ultimately show ?thesis by simp
qed

section \<open>What a write puts on the wire\<close>

lemma chunks_concat: "0 < n \<Longrightarrow> concat (chunks n xs) = xs"
  by (induction n xs rule: chunks.induct) (subst chunks.simps, auto)

lemma chunks_length: "c \<in> set (chunks n xs) \<Longrightarrow> c \<noteq> [] \<and> length c \<le> n"
proof (induction n xs rule: chunks.induct)
  case (1 n xs)
  then show ?case by (subst (asm) (2) chunks.simps) (auto split: if_splits)
qed

lemma encode_chunks_Ok:
  assumes "\<forall>c \<in> set cs. 5 + length c \<le> unat limit"
  shows "encode_chunks s limit cs = Ok (map (\<lambda>c. frame_wire (mux_outer
    \<lparr>mf_kind = Mux_Data, mf_stream_id = s, mf_payload = c\<rparr>)) cs)"
  using assms
proof (induction cs)
  case (Cons c cs)
  then have "encode_mux_frame Mux_Data s c limit = Ok (frame_wire (mux_outer
      \<lparr>mf_kind = Mux_Data, mf_stream_id = s, mf_payload = c\<rparr>))"
    by (subst encode_mux_frame_Ok) simp
  then show ?case using Cons by simp
qed simp

text \<open>
  A write reaches the wire whole. On every reachable multiplexer that was not closed,
  writing to an open stream of this side succeeds, no encoding fault is possible, and the link
  frames it returns decode, one by one and in order, to data frames of that stream whose payloads
  are non-empty, stay within the link's record bound and concatenate to the bytes written.
\<close>

theorem mux_write_carries:
  assumes "multiplexer_new opener frame_size limit = Ok m0" and "mux_run m0 es m" and "mx_refusal m = None"
    and "bt_get (streams m) s = Some st" and "\<not> local_finished st"
    and "opened_by s = mx_opener m \<or> is_bidirectional s"
  shows "\<exists>fs cs wires. mux_write s bytes m = Ok wires \<and>
    list_all2 (\<lambda>f wire. encode_frame (type_code f) (frame_payload f) limit = Ok wire) fs wires \<and>
    map mux_frame_from_wire fs = map (\<lambda>c. Ok \<lparr>mf_kind = Mux_Data, mf_stream_id = s, mf_payload = c\<rparr>) cs \<and>
    [] \<notin> set cs \<and> concat cs = bytes"
proof -
  define n where "n = max_mux_payload limit"
  define out where "out c = mux_outer \<lparr>mf_kind = Mux_Data, mf_stream_id = s, mf_payload = c\<rparr>" for c
  have "record_limit m = limit" "6 \<le> unat limit"
    using mux_run_keeps [OF assms(2) multiplexer_new_inv [OF assms(1)]] assms(1)
    by (auto simp: mux_evolves_def mux_inv_def multiplexer_new_def split: if_splits)
  then have n: "record_limit m = limit" "0 < n" "n + 5 \<le> unat limit"
    by (auto simp: n_def max_mux_payload_def unat_saturating_sub)
  have fits: "\<forall>c \<in> set (chunks n bytes). 5 + length c \<le> unat limit"
    using chunks_length [of _ n bytes] n(3) by fastforce
  have wr: "mux_write s bytes m = Ok (map (\<lambda>c. frame_wire (out c)) (chunks n bytes))"
    using assms(3-6) encode_chunks_Ok [OF fits, of s] n
    by (auto simp: mux_write_def n_def out_def chunks.simps [of _ "[]"])
  have "list_all2 (\<lambda>f wire. encode_frame (type_code f) (frame_payload f) limit = Ok wire)
      (map out (chunks n bytes)) (map (\<lambda>c. frame_wire (out c)) (chunks n bytes))"
    using fits by (auto simp: list_all2_map1 list_all2_map2 list_all2_same encode_frame_Ok out_def mux_outer_def
        frame_body_def)
  moreover have "mux_frame_from_wire (out c) = Ok \<lparr>mf_kind = Mux_Data, mf_stream_id = s, mf_payload = c\<rparr>" for c
    by (simp add: mux_frame_from_wire_Ok out_def)
  ultimately show ?thesis
    using wr chunks_concat [OF n(2)] chunks_length [of "[]" n bytes]
    by (rule_tac x = "map out (chunks n bytes)" in exI, rule_tac x = "chunks n bytes" in exI,
        rule_tac x = "map (\<lambda>c. frame_wire (out c)) (chunks n bytes)" in exI) auto
qed

section \<open>A short connection\<close>

text \<open>
  A listener with a window of 128 bytes: the peer's stream 0 arrives with two bytes, one is read,
  and a stream of this side is opened.
\<close>

definition mux0 :: multiplexer where
  "mux0 = \<lparr>mx_opener = Listener, allocator = stream_allocator_new Listener, record_limit = 16,
     receive_window = 128, streams = [], pending_bidi = [], pending_uni = [], mx_refusal = None,
     high_water_marks = [None, None, None, None]\<rparr>"

definition mux1 :: multiplexer where
  "mux1 = mux0\<lparr>streams := [(StreamId 0, stream_state_new\<lparr>recv_buf := [8, 9]\<rparr>)], pending_bidi := [StreamId 0],
     high_water_marks := [Some (StreamId 0), None, None, None]\<rparr>"

definition mux2 :: multiplexer where
  "mux2 = mux1\<lparr>streams := [(StreamId 0, stream_state_new\<lparr>recv_buf := [9]\<rparr>)]\<rparr>"

lemma mux0_new: "multiplexer_new Listener 1 16 = Ok mux0"
proof -
  have "replicate 4 None = [None, None, None, None :: stream_id option]" by (simp add: eval_nat_numeral)
  then show ?thesis
    by (simp add: multiplexer_new_def mux0_def MIN_RECORD_LIMIT_def RECEIVE_WINDOW_FRAMES_def bt_empty_def)
qed

lemma mux_sample_run: "mux_run mux0 [Received (StreamId 0) [8, 9], Delivered (StreamId 0) [8]] mux2"
proof -
  let ?f = "\<lparr>mf_kind = Mux_Data, mf_stream_id = StreamId 0, mf_payload = [8, 9]\<rparr>"
  have "on_frame ?f mux0 = (mux1, Ok ())" by code_simp
  then have "mux_step mux0 (Received (StreamId 0) [8, 9]) mux1"
    using mux_step.frame_accepted [of "mux_outer ?f" ?f mux0 mux1] by (simp add: mux_frame_from_wire_Ok)
  moreover have "mux_read (StreamId 0) 1 mux1 = (mux2, Ok (Read [8]))" by code_simp
  then have "mux_step mux1 (Delivered (StreamId 0) [8]) mux2" by (rule mux_step.read_bytes)
  ultimately show ?thesis using mux_run.more [OF mux_run.more [OF mux_run.start]] by fastforce
qed

theorem mux_streams_are_queues_witness:
  "received (StreamId 0) [Received (StreamId 0) [8, 9], Delivered (StreamId 0) [8]] =
     delivered (StreamId 0) [Received (StreamId 0) [8, 9], Delivered (StreamId 0) [8]] @ buffered mux2 (StreamId 0) \<and>
   buffered mux2 (StreamId 0) = [9]"
  using mux_streams_are_queues [OF mux0_new mux_sample_run, of "StreamId 0"] by simp

theorem mux_memory_bounded_witness:
  "length (buffered mux2 (StreamId 0)) \<le> 128 \<and> length (pending_bidi mux2) + length (pending_uni mux2) \<le> 64"
  using mux_memory_bounded [OF mux0_new mux_sample_run, of "StreamId 0"] by simp

theorem mux_write_carries_witness:
  "\<exists>wires. mux_write (StreamId 0) [1, 2, 3] mux2 = Ok wires"
proof -
  have "mx_refusal mux2 = None" by code_simp
  moreover have "bt_get (streams mux2) (StreamId 0) = Some (stream_state_new\<lparr>recv_buf := [9]\<rparr>)" by code_simp
  moreover have "\<not> local_finished (stream_state_new\<lparr>recv_buf := [9]\<rparr>)" by code_simp
  moreover have "opened_by (StreamId 0) = mx_opener mux2 \<or> is_bidirectional (StreamId 0)" by code_simp
  ultimately show ?thesis using mux_write_carries [OF mux0_new mux_sample_run, of "StreamId 0" _ "[1, 2, 3]"] by blast
qed

text \<open>A unidirectional stream of the peer that ended and was released is gone.\<close>

definition mux_open :: multiplexer where
  "mux_open = mux0\<lparr>streams := [(StreamId 2, stream_state_new)], pending_uni := [StreamId 2],
     high_water_marks := [None, None, Some (StreamId 2), None]\<rparr>"

definition mux_gone :: multiplexer where
  "mux_gone = mux_open\<lparr>streams := []\<rparr>"

lemma mux_open_run: "mux_run mux0 [Received (StreamId 2) []] mux_open"
proof -
  let ?f = "\<lparr>mf_kind = Mux_Data, mf_stream_id = StreamId 2, mf_payload = []\<rparr>"
  have "on_frame ?f mux0 = (mux_open, Ok ())" by code_simp
  then have "mux_step mux0 (Received (StreamId 2) []) mux_open"
    using mux_step.frame_accepted [of "mux_outer ?f" ?f mux0 mux_open] by (simp add: mux_frame_from_wire_Ok)
  then show ?thesis using mux_run.more [OF mux_run.start] by fastforce
qed

lemma mux_gone_run: "mux_run mux_open [Quiet, Received (StreamId 2) []] mux_gone"
proof -
  let ?f = "\<lparr>mf_kind = Mux_Fin, mf_stream_id = StreamId 2, mf_payload = []\<rparr>"
  have "on_frame ?f (retire (StreamId 2) mux_open) = (mux_gone, Ok ())" by code_simp
  then have "mux_step (retire (StreamId 2) mux_open) (Received (StreamId 2) []) mux_gone"
    using mux_step.frame_accepted [of "mux_outer ?f" ?f] by (simp add: mux_frame_from_wire_Ok)
  then show ?thesis
    using mux_run.more [OF mux_run.more [OF mux_run.start mux_step.retired]] by fastforce
qed

theorem stream_ids_never_reused_witness:
  "\<exists>m3 r. on_frame \<lparr>mf_kind = Mux_Data, mf_stream_id = StreamId 2, mf_payload = [7]\<rparr> mux_gone = (m3, Err r)"
proof -
  let ?f = "\<lparr>mf_kind = Mux_Data, mf_stream_id = StreamId 2, mf_payload = [7]\<rparr>"
  have "bt_get (streams mux_open) (mf_stream_id ?f) \<noteq> None" "bt_get (streams mux_gone) (mf_stream_id ?f) = None"
    by code_simp+
  then show ?thesis using stream_ids_never_reused [OF mux0_new mux_open_run mux_gone_run, of ?f] by blast
qed

end
