(* ===== verification/Record_Link.thy ===== *)
theory Record_Link
  imports Framing
begin

























end
