(* ===== verification/Broadcast_Key.thy ===== *)
theory Broadcast_Key
  imports Key_Store Attestation
begin

text \<open>
  The Account Broadcast Key (\<open>tradr-core/src/broadcast.rs\<close>,
  \<open>tradr-identity/src/broadcast_key.rs\<close> and \<open>broadcast_exchange.rs\<close>): the offer
  that carries a key with its generation and creation time, the collision rule that makes all
  devices of an account settle on one key, the registry that keeps the key in two places on
  disk, and the exchange of offers between two devices of the account.
\<close>

section \<open>Offers and the collision rule\<close>

abbreviation (input) "ACCOUNT_BROADCAST_KEY_LEN \<equiv> (32 :: nat)"
abbreviation (input) "FIRST_KEY_GENERATION \<equiv> (1 :: u32)"

datatype account_broadcast_key = AccountBroadcastKey (abk_bytes: "u8 list")

datatype broadcast_key_error = Abk_WrongLength nat nat

definition account_broadcast_key_from_bytes ::
    "u8 list \<Rightarrow> (account_broadcast_key, broadcast_key_error) result" where
  "account_broadcast_key_from_bytes bytes =
     (if length bytes = ACCOUNT_BROADCAST_KEY_LEN then Ok (AccountBroadcastKey bytes)
      else Err (Abk_WrongLength ACCOUNT_BROADCAST_KEY_LEN (length bytes)))"

fun next_generation :: "u32 option \<Rightarrow> u32" where
  "next_generation None = FIRST_KEY_GENERATION"
| "next_generation (Some generation) = saturating_add generation 1"

datatype broadcast_key_offer_error = ZeroIsNotAGeneration | CreatedAtNotAfterEpoch i64

record broadcast_key_offer =
  offer_key :: account_broadcast_key
  offer_generation :: u32
  offer_created_at :: unix_time

definition broadcast_key_offer_new ::
    "account_broadcast_key \<Rightarrow> u32 \<Rightarrow> unix_time \<Rightarrow> (broadcast_key_offer, broadcast_key_offer_error) result" where
  "broadcast_key_offer_new key generation created =
     (if generation = 0 then Err ZeroIsNotAGeneration
      else if sint (as_secs created) \<le> 0 then Err (CreatedAtNotAfterEpoch (as_secs created))
      else Ok \<lparr>offer_key = key, offer_generation = generation, offer_created_at = created\<rparr>)"

datatype collision_outcome = KeepLocal | AdoptRemote

definition resolve_collision :: "broadcast_key_offer \<Rightarrow> broadcast_key_offer \<Rightarrow> collision_outcome" where
  "resolve_collision l r =
     (if offer_generation l > offer_generation r then KeepLocal
      else if offer_generation l < offer_generation r then AdoptRemote
      else if sint (as_secs (offer_created_at l)) < sint (as_secs (offer_created_at r)) then KeepLocal
      else if sint (as_secs (offer_created_at l)) > sint (as_secs (offer_created_at r)) then AdoptRemote
      else if abk_bytes (offer_key l) \<le> abk_bytes (offer_key r) then KeepLocal
      else AdoptRemote)"

text \<open>The offer a device holds after resolving a collision.\<close>

definition settle :: "broadcast_key_offer \<Rightarrow> broadcast_key_offer \<Rightarrow> broadcast_key_offer" where
  "settle l r = (case resolve_collision l r of KeepLocal \<Rightarrow> l | AdoptRemote \<Rightarrow> r)"

definition beats :: "broadcast_key_offer \<Rightarrow> broadcast_key_offer \<Rightarrow> bool" where
  "beats a b \<longleftrightarrow> resolve_collision a b = KeepLocal"

lemma beats_iff:
  "beats a b \<longleftrightarrow> offer_generation b < offer_generation a \<or>
     offer_generation a = offer_generation b \<and>
       (sint (as_secs (offer_created_at a)) < sint (as_secs (offer_created_at b)) \<or>
        offer_created_at a = offer_created_at b \<and> abk_bytes (offer_key a) \<le> abk_bytes (offer_key b))"
  by (auto simp: beats_def resolve_collision_def unix_time.expand)
     (metis signed_word_eqI unix_time.expand not_less_iff_gr_or_eq)

lemma beats_total: "beats a b \<or> beats b a"
  by (auto simp: beats_iff)
     (metis linorder_cases signed_word_eqI unix_time.expand linorder_linear)+

lemma beats_antisym: "beats a b \<Longrightarrow> beats b a \<Longrightarrow> a = b"
  by (auto simp: beats_iff account_broadcast_key.expand)

lemma beats_trans: "beats a b \<Longrightarrow> beats b c \<Longrightarrow> beats a c"
  unfolding beats_iff by fastforce

lemma settle_best: "settle a b = (if beats a b then a else b)"
  by (auto simp: settle_def beats_def split: collision_outcome.split)

lemma settle_beats: "beats (settle a b) a" "beats (settle a b) b" "settle a b \<in> {a, b}"
  using beats_total [of a b] beats_total [of a a] beats_total [of b b] by (auto simp: settle_best)

lemma settle_commute: "settle a b = settle b a"
  using beats_total [of a b] beats_antisym [of a b] by (auto simp: settle_best)

text \<open>
  Devices of an account exchange offers in pairs, in any order and any number of times. What a
  device has heard of grows with every exchange: \<open>heard\<close> is the set of devices whose first
  offer has reached it.
\<close>

fun gossip :: "('d \<times> 'd) list \<Rightarrow> ('d \<Rightarrow> broadcast_key_offer) \<Rightarrow> 'd \<Rightarrow> broadcast_key_offer" where
  "gossip [] offers = offers"
| "gossip ((i, j) # es) offers =
     gossip es (offers(i := settle (offers i) (offers j), j := settle (offers j) (offers i)))"

fun heard :: "('d \<times> 'd) list \<Rightarrow> ('d \<Rightarrow> 'd set) \<Rightarrow> 'd \<Rightarrow> 'd set" where
  "heard [] h = h"
| "heard ((i, j) # es) h = heard es (h(i := h i \<union> h j, j := h i \<union> h j))"

definition best_of :: "('d \<Rightarrow> broadcast_key_offer) \<Rightarrow> 'd set \<Rightarrow> broadcast_key_offer \<Rightarrow> bool" where
  "best_of offers D k \<longleftrightarrow> k \<in> offers ` D \<and> (\<forall>d \<in> D. beats k (offers d))"

lemma best_of_settle:
  assumes "best_of offers A a" and "best_of offers B b"
  shows "best_of offers (A \<union> B) (settle a b)"
  using assms settle_beats [of a b] beats_trans unfolding best_of_def by blast

lemma gossip_best:
  assumes "\<And>d. best_of offers (h d) (held d)"
  shows "best_of offers (heard es h d) (gossip es held d)"
  using assms
proof (induction es held arbitrary: h rule: gossip.induct)
  case (2 i j es held)
  have "best_of offers ((h(i := h i \<union> h j, j := h i \<union> h j)) d)
      ((held(i := settle (held i) (held j), j := settle (held j) (held i))) d)" for d
    using 2(2) best_of_settle [OF 2(2) 2(2), of i j] settle_commute [of "held j" "held i"] by auto
  then show ?case unfolding gossip.simps heard.simps by (rule 2(1))
qed simp

text \<open>
  Property C38. All devices of an account settle on one key. Whatever pairs of devices exchange
  offers, in whatever order, each device holds the best offer among those it has heard of under
  one total order, so two devices that heard of the same devices hold the same key, generation
  and creation time; the outcome of a single exchange does not depend on which side is local.
\<close>

theorem devices_settle_on_one_key:
  "best_of offers (heard es (\<lambda>d. {d}) i) (gossip es offers i) \<and>
   (heard es (\<lambda>d. {d}) i = heard es (\<lambda>d. {d}) j \<longrightarrow> gossip es offers i = gossip es offers j) \<and>
   settle a b = settle b a"
proof -
  have "best_of offers {d} (offers d)" for d
    using beats_total [of "offers d" "offers d"] by (simp add: best_of_def)
  then have best: "best_of offers (heard es (\<lambda>d. {d}) i) (gossip es offers i)" for i
    by (rule gossip_best)
  have "gossip es offers i = gossip es offers j" if "heard es (\<lambda>d. {d}) i = heard es (\<lambda>d. {d}) j"
    using best [of i] best [of j] that by (auto simp: best_of_def intro: beats_antisym)
  then show ?thesis using best settle_commute by blast
qed

section \<open>The registry\<close>

text \<open>
  A key on disk is two things: its bytes in the secret store and a record with the account, the
  generation and the creation time. The world holds the registry in memory next to both. The
  \<open>expect\<close> in \<open>offer\<close> is the outcome \<open>Bk_Panic\<close>.
\<close>

record broadcast_key_registry =
  br_account :: account_id
  br_generation :: "u32 option"
  br_created_at :: "unix_time option"

record account_broadcast_key_record =
  abkr_iss :: rstr
  abkr_sub :: rstr
  abkr_generation :: u32
  abkr_created_at :: i64

datatype abk_file = Abk_NoFile | Abk_Unreadable | Abk_NotJson | Abk_Record account_broadcast_key_record

datatype broadcast_key_registry_error =
    Bk_Malformed
  | Bk_WrongAccount
  | Bk_SecretMissing
  | Bk_Rng
  | Bk_Secret secret_store_error
  | Bk_Offer broadcast_key_offer_error
  | Bk_SecretRollbackFailed secret_store_error
  | Bk_Io
  | Bk_Panic

definition ACCOUNT_BROADCAST_KEY_SLOT :: rstr where
  "ACCOUNT_BROADCAST_KEY_SLOT = lit ''account-broadcast-key''"

record abk_world =
  bw_registry :: broadcast_key_registry
  bw_file :: abk_file
  bw_secrets :: file_dir

record abk_env =
  be_pid :: rstr
  be_persist_fails :: bool
  be_load :: io_faults
  be_store :: io_faults
  be_restore :: io_faults

fun broadcast_key_load ::
    "abk_file \<Rightarrow> account_id \<Rightarrow> (broadcast_key_registry, broadcast_key_registry_error) result" where
  "broadcast_key_load Abk_NoFile account =
     Ok \<lparr>br_account = account, br_generation = None, br_created_at = None\<rparr>"
| "broadcast_key_load Abk_Unreadable account = Err Bk_Io"
| "broadcast_key_load Abk_NotJson account = Err Bk_Malformed"
| "broadcast_key_load (Abk_Record rec) account =
     (if abkr_iss rec \<noteq> account_iss account \<or> abkr_sub rec \<noteq> account_sub account then Err Bk_WrongAccount
      else if abkr_generation rec = 0 then Err Bk_Malformed
      else if sint (abkr_created_at rec) \<le> 0 then Err Bk_Malformed
      else Ok \<lparr>br_account = account, br_generation = Some (abkr_generation rec),
                br_created_at = Some (UnixTime (abkr_created_at rec))\<rparr>)"

definition broadcast_key_offer_of ::
    "abk_env \<Rightarrow> abk_world \<Rightarrow> (broadcast_key_offer option, broadcast_key_registry_error) result" where
  "broadcast_key_offer_of E w =
     (case (br_generation (bw_registry w), br_created_at (bw_registry w)) of
        (Some generation, Some created) \<Rightarrow>
          (case file_store_load (be_load E) ACCOUNT_BROADCAST_KEY_SLOT (bw_secrets w) of
             Err e \<Rightarrow> Err (Bk_Secret e)
           | Ok None \<Rightarrow> Err Bk_SecretMissing
           | Ok (Some bytes) \<Rightarrow>
               (case account_broadcast_key_from_bytes bytes of
                  Err _ \<Rightarrow> Err Bk_Malformed
                | Ok key \<Rightarrow>
                    (case broadcast_key_offer_new key generation created of
                       Err _ \<Rightarrow> Err Bk_Panic
                     | Ok offer \<Rightarrow> Ok (Some offer))))
      | _ \<Rightarrow> Ok None)"

definition broadcast_key_draw ::
    "rng \<Rightarrow> unix_time \<Rightarrow> broadcast_key_registry \<Rightarrow> (broadcast_key_offer, broadcast_key_registry_error) result" where
  "broadcast_key_draw rng now registry =
     (case rng of
        Some bytes # _ \<Rightarrow>
          (case account_broadcast_key_from_bytes bytes of
             Err _ \<Rightarrow> Err Bk_Panic
           | Ok key \<Rightarrow>
               map_err Bk_Offer (broadcast_key_offer_new key (next_generation (br_generation registry)) now))
      | _ \<Rightarrow> Err Bk_Rng)"

definition persist_abk ::
    "bool \<Rightarrow> account_broadcast_key_record \<Rightarrow> abk_file \<Rightarrow> abk_file \<times> (unit, broadcast_key_registry_error) result" where
  "persist_abk fails rec file = (if fails then (file, Err Bk_Io) else (Abk_Record rec, Ok ()))"

definition broadcast_key_adopt ::
    "abk_env \<Rightarrow> broadcast_key_offer \<Rightarrow> abk_world \<Rightarrow> abk_world \<times> (unit, broadcast_key_registry_error) result" where
  "broadcast_key_adopt E offer w =
     (case file_store_load (be_load E) ACCOUNT_BROADCAST_KEY_SLOT (bw_secrets w) of
        Err e \<Rightarrow> (w, Err (Bk_Secret e))
      | Ok previous \<Rightarrow>
          (case file_store_store (be_pid E) (be_store E) ACCOUNT_BROADCAST_KEY_SLOT
                  (abk_bytes (offer_key offer)) (bw_secrets w) of
             (d, Err e) \<Rightarrow> (w\<lparr>bw_secrets := d\<rparr>, Err (Bk_Secret e))
           | (d, Ok _) \<Rightarrow>
               let account = br_account (bw_registry w);
                   rec = \<lparr>abkr_iss = account_iss account, abkr_sub = account_sub account,
                          abkr_generation = offer_generation offer,
                          abkr_created_at = as_secs (offer_created_at offer)\<rparr> in
               (case persist_abk (be_persist_fails E) rec (bw_file w) of
                  (file, Err persist_err) \<Rightarrow>
                    (case (case previous of
                             Some old \<Rightarrow> file_store_store (be_pid E) (be_restore E) ACCOUNT_BROADCAST_KEY_SLOT old d
                           | None \<Rightarrow> file_store_remove (be_restore E) ACCOUNT_BROADCAST_KEY_SLOT d) of
                       (d', Ok _) \<Rightarrow> (w\<lparr>bw_file := file, bw_secrets := d'\<rparr>, Err persist_err)
                     | (d', Err e) \<Rightarrow> (w\<lparr>bw_file := file, bw_secrets := d'\<rparr>, Err (Bk_SecretRollbackFailed e)))
                | (file, Ok _) \<Rightarrow>
                    (\<lparr>bw_registry = (bw_registry w)\<lparr>br_generation := Some (offer_generation offer),
                        br_created_at := Some (offer_created_at offer)\<rparr>,
                      bw_file = file, bw_secrets = d\<rparr>, Ok ()))))"

definition broadcast_key_generate ::
    "abk_env \<Rightarrow> rng \<Rightarrow> unix_time \<Rightarrow> abk_world \<Rightarrow> abk_world \<times> (broadcast_key_offer, broadcast_key_registry_error) result" where
  "broadcast_key_generate E rng now w =
     (case broadcast_key_draw rng now (bw_registry w) of
        Err e \<Rightarrow> (w, Err e)
      | Ok offer \<Rightarrow>
          (case broadcast_key_adopt E offer w of
             (w', Err e) \<Rightarrow> (w', Err e)
           | (w', Ok _) \<Rightarrow> (w', Ok offer)))"

definition broadcast_key_clear ::
    "io_faults \<Rightarrow> bool \<Rightarrow> abk_world \<Rightarrow> abk_world \<times> (unit, broadcast_key_registry_error) result" where
  "broadcast_key_clear F unlink_record_fails w =
     (case file_store_remove F ACCOUNT_BROADCAST_KEY_SLOT (bw_secrets w) of
        (d, Err e) \<Rightarrow> (w\<lparr>bw_secrets := d\<rparr>, Err (Bk_Secret e))
      | (d, Ok _) \<Rightarrow>
          if bw_file w = Abk_NoFile then (w\<lparr>bw_secrets := d\<rparr>, Ok ())
          else if unlink_record_fails then (w\<lparr>bw_secrets := d\<rparr>, Err Bk_Io)
          else (w\<lparr>bw_file := Abk_NoFile, bw_secrets := d\<rparr>, Ok ()))"

section \<open>The exchange\<close>

datatype exchange_outcome = Kept | Generated | Adopted

datatype exchange_error = TierNotSameAccount trust_tier | Exchange_Registry broadcast_key_registry_error

record awaiting_peer_offer =
  apo_local_offer :: broadcast_key_offer
  apo_drawn :: bool

definition exchange_open ::
    "abk_env \<Rightarrow> trust_tier \<Rightarrow> rng \<Rightarrow> unix_time \<Rightarrow> abk_world \<Rightarrow>
     (awaiting_peer_offer \<times> broadcast_key_offer, exchange_error) result" where
  "exchange_open E tier rng now w =
     (if tier \<noteq> SameAccount then Err (TierNotSameAccount tier)
      else case broadcast_key_offer_of E w of
        Err e \<Rightarrow> Err (Exchange_Registry e)
      | Ok (Some stored) \<Rightarrow> Ok (\<lparr>apo_local_offer = stored, apo_drawn = False\<rparr>, stored)
      | Ok None \<Rightarrow>
          (case broadcast_key_draw rng now (bw_registry w) of
             Err e \<Rightarrow> Err (Exchange_Registry e)
           | Ok drawn \<Rightarrow> Ok (\<lparr>apo_local_offer = drawn, apo_drawn = True\<rparr>, drawn)))"

definition on_peer_offer ::
    "abk_env \<Rightarrow> awaiting_peer_offer \<Rightarrow> broadcast_key_offer \<Rightarrow> abk_world \<Rightarrow>
     abk_world \<times> (exchange_outcome, exchange_error) result" where
  "on_peer_offer E st peer w =
     (case resolve_collision (apo_local_offer st) peer of
        KeepLocal \<Rightarrow>
          if apo_drawn st then
            (case broadcast_key_adopt E (apo_local_offer st) w of
               (w', Err e) \<Rightarrow> (w', Err (Exchange_Registry e))
             | (w', Ok _) \<Rightarrow> (w', Ok Generated))
          else (w, Ok Kept)
      | AdoptRemote \<Rightarrow>
          (case broadcast_key_adopt E peer w of
             (w', Err e) \<Rightarrow> (w', Err (Exchange_Registry e))
           | (w', Ok _) \<Rightarrow> (w', Ok Adopted)))"

section \<open>What the registry keeps\<close>

definition offer_ok :: "broadcast_key_offer \<Rightarrow> bool" where
  "offer_ok o1 \<longleftrightarrow> length (abk_bytes (offer_key o1)) = ACCOUNT_BROADCAST_KEY_LEN \<and> offer_generation o1 \<noteq> 0 \<and>
     0 < sint (as_secs (offer_created_at o1))"

lemma offer_new_Ok:
  "broadcast_key_offer_new k g c = Ok o1 \<longleftrightarrow>
     g \<noteq> 0 \<and> 0 < sint (as_secs c) \<and> o1 = \<lparr>offer_key = k, offer_generation = g, offer_created_at = c\<rparr>"
  by (auto simp: broadcast_key_offer_new_def)

lemma abk_from_bytes_Ok:
  "account_broadcast_key_from_bytes b = Ok k \<longleftrightarrow> length b = ACCOUNT_BROADCAST_KEY_LEN \<and> k = AccountBroadcastKey b"
  by (auto simp: account_broadcast_key_from_bytes_def)

lemma abk_slot_valid: "validate_slot ACCOUNT_BROADCAST_KEY_SLOT = Ok ()"
  by (simp add: validate_slot_def ACCOUNT_BROADCAST_KEY_SLOT_def bare_byte_def is_ascii_lowercase_def is_ascii_digit_def)

text \<open>Memory and the record on disk agree: what a restart of the registry would load.\<close>

definition abk_synced :: "abk_world \<Rightarrow> bool" where
  "abk_synced w \<longleftrightarrow> broadcast_key_load (bw_file w) (br_account (bw_registry w)) = Ok (bw_registry w)"

lemma load_slot_no_fault:
  "\<not> read_fails F \<Longrightarrow> file_store_load F ACCOUNT_BROADCAST_KEY_SLOT d = Ok (dir_slot d ACCOUNT_BROADCAST_KEY_SLOT)"
  by (simp add: file_store_load_def abk_slot_valid dir_slot_def)

lemma offer_of_Some:
  "broadcast_key_offer_of E w = Ok (Some o1) \<Longrightarrow>
     offer_ok o1 \<and> dir_slot (bw_secrets w) ACCOUNT_BROADCAST_KEY_SLOT = Some (abk_bytes (offer_key o1)) \<and>
     br_generation (bw_registry w) = Some (offer_generation o1) \<and> br_created_at (bw_registry w) = Some (offer_created_at o1)"
  by (auto simp: broadcast_key_offer_of_def offer_new_Ok abk_from_bytes_Ok offer_ok_def
      dest: fs.load_reads [THEN sym] split: option.splits result.splits)

lemma offer_of_holds:
  assumes "offer_ok o1" and "dir_slot (bw_secrets w) ACCOUNT_BROADCAST_KEY_SLOT = Some (abk_bytes (offer_key o1))"
    and "br_generation (bw_registry w) = Some (offer_generation o1)"
    and "br_created_at (bw_registry w) = Some (offer_created_at o1)" and "\<not> read_fails (be_load E)"
  shows "broadcast_key_offer_of E w = Ok (Some o1)"
  using assms by (simp add: broadcast_key_offer_of_def load_slot_no_fault account_broadcast_key_from_bytes_def
      broadcast_key_offer_new_def offer_ok_def)

lemma draw_ok: "broadcast_key_draw rng now reg = Ok o1 \<Longrightarrow> offer_ok o1"
  by (auto simp: broadcast_key_draw_def offer_new_Ok abk_from_bytes_Ok offer_ok_def
      split: list.splits option.splits result.splits)

lemma adopt_cases:
  assumes "broadcast_key_adopt E o1 w = (w', r)"
  obtains (adopted) d where "r = Ok ()"
      "dir_slot d = (dir_slot (bw_secrets w))(ACCOUNT_BROADCAST_KEY_SLOT \<mapsto> abk_bytes (offer_key o1))"
      "w' = \<lparr>bw_registry = (bw_registry w)\<lparr>br_generation := Some (offer_generation o1),
                br_created_at := Some (offer_created_at o1)\<rparr>,
             bw_file = Abk_Record \<lparr>abkr_iss = account_iss (br_account (bw_registry w)),
               abkr_sub = account_sub (br_account (bw_registry w)), abkr_generation = offer_generation o1,
               abkr_created_at = as_secs (offer_created_at o1)\<rparr>, bw_secrets = d\<rparr>"
  | (failed) e d where "r = Err e" "w' = w\<lparr>bw_secrets := d\<rparr>"
      "(\<forall>x. e \<noteq> Bk_SecretRollbackFailed x) \<longrightarrow> dir_slot d = dir_slot (bw_secrets w)"
proof (cases "file_store_load (be_load E) ACCOUNT_BROADCAST_KEY_SLOT (bw_secrets w)")
  case (Err e)
  then show thesis using assms failed [of _ "bw_secrets w"] by (auto simp: broadcast_key_adopt_def)
next
  case (Ok previous)
  have prev: "previous = dir_slot (bw_secrets w) ACCOUNT_BROADCAST_KEY_SLOT" using fs.load_reads [OF Ok] .
  obtain d s where s: "file_store_store (be_pid E) (be_store E) ACCOUNT_BROADCAST_KEY_SLOT
      (abk_bytes (offer_key o1)) (bw_secrets w) = (d, s)" by force
  show thesis
  proof (cases s)
    case (Err e)
    then show thesis using assms Ok s fs.store_fails [OF s [unfolded Err]] failed
      by (auto simp: broadcast_key_adopt_def)
  next
    case stored: (Ok u)
    show thesis
    proof (cases "be_persist_fails E")
      case False
      then show thesis using assms Ok s stored fs.store_writes [OF s [unfolded stored, simplified]] adopted
        by (auto simp: broadcast_key_adopt_def persist_abk_def Let_def)
    next
      case True
      obtain d' q where q: "(case previous of
            Some old \<Rightarrow> file_store_store (be_pid E) (be_restore E) ACCOUNT_BROADCAST_KEY_SLOT old d
          | None \<Rightarrow> file_store_remove (be_restore E) ACCOUNT_BROADCAST_KEY_SLOT d) = (d', q)" by force
      have done1: "file_store_store (be_pid E) (be_store E) ACCOUNT_BROADCAST_KEY_SLOT
          (abk_bytes (offer_key o1)) (bw_secrets w) = (d, Ok ())" using s stored by simp
      have "dir_slot d' = dir_slot (bw_secrets w)" if "q = Ok ()"
      proof (cases previous)
        case None
        show ?thesis
        proof (rule fs.store_rollback [OF _ done1])
          show "dir_slot (bw_secrets w) ACCOUNT_BROADCAST_KEY_SLOT = None" using prev None by simp
          show "file_store_remove (be_restore E) ACCOUNT_BROADCAST_KEY_SLOT d = (d', Ok ())" using q None that by simp
        qed
      next
        case (Some old)
        show ?thesis
        proof (rule fs.store_restore [OF _ done1])
          show "dir_slot (bw_secrets w) ACCOUNT_BROADCAST_KEY_SLOT = Some old" using prev Some by simp
          show "file_store_store (be_pid E) (be_restore E) ACCOUNT_BROADCAST_KEY_SLOT old d = (d', Ok ())"
            using q Some that by simp
        qed
      qed
      moreover have "broadcast_key_adopt E o1 w = (w\<lparr>bw_secrets := d'\<rparr>,
          Err (case q of Ok _ \<Rightarrow> Bk_Io | Err e \<Rightarrow> Bk_SecretRollbackFailed e))"
        by (cases q) (simp_all add: broadcast_key_adopt_def Ok s stored persist_abk_def True q)
      ultimately show thesis using assms failed [of "case q of Ok _ \<Rightarrow> Bk_Io | Err e \<Rightarrow> Bk_SecretRollbackFailed e" d']
        by (cases q) auto
    qed
  qed
qed

text \<open>
  Property C27. Adopting a key is all or nothing and survives a restart. On success the record on
  disk reloads to exactly the registry in memory, for the same account only, and the offer read
  back is the one adopted; on failure the registry and the record are untouched, and unless
  restoring the old secret failed as well, every secret is as it was.
\<close>

theorem adopt_all_or_nothing:
  assumes "abk_synced w" and "offer_ok offer" and "broadcast_key_adopt E offer w = (w', r)"
  shows "abk_synced w' \<and> br_account (bw_registry w') = br_account (bw_registry w) \<and>
    (case r of
       Ok _ \<Rightarrow> (\<forall>E'. \<not> read_fails (be_load E') \<longrightarrow> broadcast_key_offer_of E' w' = Ok (Some offer)) \<and>
         (\<forall>other. other \<noteq> br_account (bw_registry w) \<longrightarrow>
           broadcast_key_load (bw_file w') other = Err Bk_WrongAccount)
     | Err e \<Rightarrow> bw_registry w' = bw_registry w \<and> bw_file w' = bw_file w \<and>
         ((\<forall>x. e \<noteq> Bk_SecretRollbackFailed x) \<longrightarrow> dir_slot (bw_secrets w') = dir_slot (bw_secrets w)))"
  using assms(3)
proof (cases rule: adopt_cases)
  case (adopted d)
  have "broadcast_key_offer_of E' w' = Ok (Some offer)" if "\<not> read_fails (be_load E')" for E'
    using assms(2) adopted that by (intro offer_of_holds) auto
  moreover have "abk_synced w'" using assms(2) adopted by (auto simp: abk_synced_def offer_ok_def)
  ultimately show ?thesis using adopted by auto
next
  case (failed e d)
  then show ?thesis using assms(1) by (auto simp: abk_synced_def)
qed

lemma exchange_open_Ok:
  assumes "exchange_open E tier rng now w = Ok (st, sent)"
  shows "tier = SameAccount" and "apo_local_offer st = sent" and "offer_ok sent"
    and "\<not> apo_drawn st \<Longrightarrow> broadcast_key_offer_of E w = Ok (Some sent)"
  using assms draw_ok offer_of_Some
  by (auto simp: exchange_open_def split: if_splits result.splits option.splits)

lemma on_peer_offer_holds:
  assumes "abk_synced w" and "exchange_open E tier rng now w = Ok (st, sent)" and "offer_ok peer"
    and "on_peer_offer E' st peer w = (w', Ok out)" and "\<not> read_fails (be_load E'')"
  shows "abk_synced w' \<and> broadcast_key_offer_of E'' w' = Ok (Some (settle sent peer))"
proof (cases "resolve_collision sent peer = KeepLocal \<and> \<not> apo_drawn st")
  case True
  note op = exchange_open_Ok [OF assms(2)]
  then have "broadcast_key_offer_of E'' w = Ok (Some sent)"
    using True assms(5) offer_of_Some [of E w sent] by (intro offer_of_holds) auto
  then show ?thesis using True assms(1,4) op(2) by (simp add: on_peer_offer_def settle_def)
next
  case False
  note op = exchange_open_Ok [OF assms(2)]
  have "broadcast_key_adopt E' (settle sent peer) w = (w', Ok ())"
    using False assms(4) op(2) by (auto simp: on_peer_offer_def settle_def split: collision_outcome.splits if_splits prod.splits result.splits)
  then show ?thesis
  proof (cases rule: adopt_cases)
    case (adopted d)
    have ok: "offer_ok (settle sent peer)" using op(3) assms(3) settle_beats(3) [of sent peer] by auto
    then have "abk_synced w'" using adopted by (auto simp: abk_synced_def offer_ok_def)
    moreover have "broadcast_key_offer_of E'' w' = Ok (Some (settle sent peer))"
      using ok adopted assms(5) by (intro offer_of_holds) auto
    ultimately show ?thesis by simp
  qed simp
qed

text \<open>
  Property C10. An exchange leaves both devices with the same key. When two devices open an
  exchange, which each does only on a channel granted \<open>SameAccount\<close>, and each processes
  the other's offer successfully, then each reads back one and the same offer, the better of the
  two sent, whether it had a key before or drew one for the occasion.
\<close>

theorem exchange_agrees:
  assumes "abk_synced w1" and "abk_synced w2"
    and "exchange_open E1 tier1 rng1 now1 w1 = Ok (st1, sent1)"
    and "exchange_open E2 tier2 rng2 now2 w2 = Ok (st2, sent2)"
    and "on_peer_offer F1 st1 sent2 w1 = (w1', Ok out1)" and "on_peer_offer F2 st2 sent1 w2 = (w2', Ok out2)"
    and "\<not> read_fails (be_load G)"
  shows "broadcast_key_offer_of G w1' = Ok (Some (settle sent1 sent2)) \<and>
    broadcast_key_offer_of G w2' = Ok (Some (settle sent1 sent2)) \<and> tier1 = SameAccount \<and> tier2 = SameAccount"
  using on_peer_offer_holds [OF assms(1,3) exchange_open_Ok(3) [OF assms(4)] assms(5,7)]
    on_peer_offer_holds [OF assms(2,4) exchange_open_Ok(3) [OF assms(3)] assms(6,7)]
    exchange_open_Ok(1) [OF assms(3)] exchange_open_Ok(1) [OF assms(4)] settle_commute [of sent2 sent1] by auto

section \<open>A first exchange\<close>

definition first_world :: abk_world where
  "first_world = \<lparr>bw_registry = \<lparr>br_account = \<lparr>account_iss = lit ''i'', account_sub = lit ''s''\<rparr>,
       br_generation = None, br_created_at = None\<rparr>,
     bw_file = Abk_NoFile, bw_secrets = \<lparr>files = Map.empty, next_temp = 0\<rparr>\<rparr>"

definition quiet_env :: abk_env where
  "quiet_env = \<lparr>be_pid = lit ''1'', be_persist_fails = False, be_load = no_faults, be_store = no_faults,
     be_restore = no_faults\<rparr>"

definition key_offer :: "u8 \<Rightarrow> broadcast_key_offer" where
  "key_offer b = \<lparr>offer_key = AccountBroadcastKey (replicate 32 b), offer_generation = 1, offer_created_at = UnixTime 9\<rparr>"

lemma first_world_synced: "abk_synced first_world"
  by (simp add: abk_synced_def first_world_def)

lemma key_offer_ok: "offer_ok (key_offer b)"
  by (simp add: offer_ok_def key_offer_def)

lemma first_adopt: "\<exists>w'. broadcast_key_adopt quiet_env o1 first_world = (w', Ok ())"
  by (simp add: broadcast_key_adopt_def first_world_def quiet_env_def no_faults_def file_store_load_def
      file_store_store_def abk_slot_valid Let_def persist_abk_def eval_nat_numeral)

lemma first_open:
  "exchange_open quiet_env SameAccount [Some (replicate 32 b)] (UnixTime 9) first_world =
     Ok (\<lparr>apo_local_offer = key_offer b, apo_drawn = True\<rparr>, key_offer b)"
  by (simp add: exchange_open_def broadcast_key_offer_of_def first_world_def broadcast_key_draw_def
      account_broadcast_key_from_bytes_def broadcast_key_offer_new_def key_offer_def)

lemma first_peer_offer:
  "\<exists>w' out. on_peer_offer quiet_env \<lparr>apo_local_offer = l, apo_drawn = True\<rparr> peer first_world = (w', Ok out)"
  using first_adopt [of l] first_adopt [of peer]
  by (auto simp: on_peer_offer_def split: collision_outcome.split)

theorem devices_settle_on_one_key_witness:
  "gossip [(0 :: nat, 1), (1, 2), (0, 2)] (\<lambda>d. key_offer (of_nat d)) 0 =
   gossip [(0, 1), (1, 2), (0, 2)] (\<lambda>d. key_offer (of_nat d)) 2"
proof -
  have "heard [(0 :: nat, 1), (1, 2), (0, 2)] (\<lambda>d. {d}) 0 = heard [(0, 1), (1, 2), (0, 2)] (\<lambda>d. {d}) 2"
    by auto
  then show ?thesis by (rule devices_settle_on_one_key [THEN conjunct2, THEN conjunct1, THEN mp])
qed

theorem adopt_all_or_nothing_witness:
  "\<exists>w'. broadcast_key_adopt quiet_env (key_offer 7) first_world = (w', Ok ()) \<and>
     broadcast_key_offer_of quiet_env w' = Ok (Some (key_offer 7))"
proof -
  obtain w' where a: "broadcast_key_adopt quiet_env (key_offer 7) first_world = (w', Ok ())"
    using first_adopt by blast
  have "\<not> read_fails (be_load quiet_env)" by (simp add: quiet_env_def no_faults_def)
  then show ?thesis using a adopt_all_or_nothing [OF first_world_synced key_offer_ok a] by auto
qed

theorem exchange_agrees_witness:
  "\<exists>w1 w2. broadcast_key_offer_of quiet_env w1 = Ok (Some (settle (key_offer 3) (key_offer 5))) \<and>
     broadcast_key_offer_of quiet_env w2 = Ok (Some (settle (key_offer 3) (key_offer 5)))"
proof -
  obtain w1 out1 where 1: "on_peer_offer quiet_env \<lparr>apo_local_offer = key_offer 3, apo_drawn = True\<rparr> (key_offer 5)
      first_world = (w1, Ok out1)" using first_peer_offer by blast
  obtain w2 out2 where 2: "on_peer_offer quiet_env \<lparr>apo_local_offer = key_offer 5, apo_drawn = True\<rparr> (key_offer 3)
      first_world = (w2, Ok out2)" using first_peer_offer by blast
  have "\<not> read_fails (be_load quiet_env)" by (simp add: quiet_env_def no_faults_def)
  from exchange_agrees [OF first_world_synced first_world_synced first_open first_open 1 2 this]
  show ?thesis by blast
qed

end
