(* ===== verification/Receive_Integrity.thy ===== *)
theory Receive_Integrity
  imports Transfer_Session
begin

text \<open>
  What a receiving session does to the files of the receive root. The argument follows the code:
  a piece reaches the partial file only after its slice verified, the tracker records it only
  after that, and the file is placed only when the tracker has every byte. So the invariant ties
  the tracker to the partial file, byte by byte, and every operation of a session keeps it;
  \<open>guarantees\<close> is the contract of an operation, and its rules compose contracts the way
  \<open>then_op\<close> composes operations.
\<close>

section \<open>Contracts of operations\<close>

text \<open>From a world in \<open>P\<close>, success ends in \<open>Q\<close> of the result and failure in \<open>F\<close>.\<close>

definition guarantees ::
    "(transfer_world \<Rightarrow> bool) \<Rightarrow> 'a session_op \<Rightarrow> ('a \<Rightarrow> transfer_world \<Rightarrow> bool) \<Rightarrow> (transfer_world \<Rightarrow> bool) \<Rightarrow> bool" where
  "guarantees P m Q F \<longleftrightarrow>
     (\<forall>w w' x. P w \<longrightarrow> m w = (w', Ok x) \<longrightarrow> Q x w') \<and> (\<forall>w w' e. P w \<longrightarrow> m w = (w', Err e) \<longrightarrow> F w')"

lemma guaranteesI:
  assumes "\<And>w w' x. P w \<Longrightarrow> m w = (w', Ok x) \<Longrightarrow> Q x w'" and "\<And>w w' e. P w \<Longrightarrow> m w = (w', Err e) \<Longrightarrow> F w'"
  shows "guarantees P m Q F"
  using assms unfolding guarantees_def by blast

lemma guarantees_Ok: "guarantees P m Q F \<Longrightarrow> P w \<Longrightarrow> m w = (w', Ok x) \<Longrightarrow> Q x w'"
  unfolding guarantees_def by blast

lemma guarantees_Err: "guarantees P m Q F \<Longrightarrow> P w \<Longrightarrow> m w = (w', Err e) \<Longrightarrow> F w'"
  unfolding guarantees_def by blast

lemma guarantees_then_op:
  assumes "guarantees P m Q F" and "\<And>x. guarantees (Q x) (f x) R F"
  shows "guarantees P (then_op m f) R F"
proof (rule guaranteesI)
  fix w w' x
  assume "P w" and "then_op m f w = (w', Ok x)"
  then show "R x w'"
    using assms by (auto simp: then_op_def dest: guarantees_Ok split: prod.splits result.splits)
next
  fix w w' e
  assume "P w" and "then_op m f w = (w', Err e)"
  then show "F w'"
    using assms by (auto simp: then_op_def dest: guarantees_Ok guarantees_Err split: prod.splits result.splits)
qed

lemma guarantees_conseq:
  assumes "guarantees P m Q F" and "\<And>w. P' w \<Longrightarrow> P w" and "\<And>x w. Q x w \<Longrightarrow> Q' x w"
    and "\<And>w. F w \<Longrightarrow> F' w"
  shows "guarantees P' m Q' F'"
  using assms unfolding guarantees_def by blast

lemma guarantees_pure_op: "guarantees P (pure_op r) (\<lambda>x w. P w \<and> r = Ok x) P"
  by (rule guaranteesI) (auto simp: pure_op_def)

text \<open>An operation that does not touch the files keeps what is said about them.\<close>

definition file_local :: "(transfer_world \<Rightarrow> bool) \<Rightarrow> bool" where
  "file_local P \<longleftrightarrow> (\<forall>w w'. tw_files w = tw_files w' \<longrightarrow> P w = P w')"

definition same_files :: "(transfer_world \<Rightarrow> transfer_world \<times> 'a) \<Rightarrow> bool" where
  "same_files m \<longleftrightarrow> (\<forall>w. tw_files (fst (m w)) = tw_files w)"

lemma guarantees_same_files:
  assumes "same_files m" and "file_local P"
  shows "guarantees P m (\<lambda>_. P) P"
  using assms unfolding same_files_def file_local_def by (intro guaranteesI) (metis fst_conv)+

lemma same_files_ops:
  "same_files (pure_op r)" "same_files (data_read_exact n)" "same_files (data_read_frame limit)"
  "same_files (data_write_all bs)" "same_files data_finish" "same_files (control_write_all bs)"
  "same_files (lift_vfs vfs_sync)"
  by (auto simp: same_files_def pure_op_def data_read_exact_def data_read_frame_def data_write_all_def
      data_finish_def control_write_all_def send_op_def lift_vfs_def vfs_sync_def vfs_op_def
      split: prod.split list.split option.split)

lemma same_files_then_op:
  assumes "same_files m" and "\<And>x. same_files (f x)"
  shows "same_files (then_op m f)"
  using assms by (auto simp: same_files_def then_op_def split: prod.split result.split) (metis fst_conv)+

lemma same_files_send_chunk_request: "same_files (send_chunk_request E S c n)"
  unfolding send_chunk_request_def by (intro same_files_then_op same_files_ops)

lemma same_files_send_item_complete: "same_files (send_item_complete E S ok p)"
  unfolding send_item_complete_def by (intro same_files_then_op same_files_ops)

section \<open>Writing a piece\<close>

lemma length_patch [simp]: "length (patch off bs f) = max (length f) (off + length bs)"
  by (auto simp: patch_def)

lemma nth_patch:
  assumes "i < max (length f) (off + length bs)"
  shows "off \<le> i \<Longrightarrow> i < off + length bs \<Longrightarrow> patch off bs f ! i = bs ! (i - off)"
    and "\<not> (off \<le> i \<and> i < off + length bs) \<Longrightarrow> i < length f \<Longrightarrow> patch off bs f ! i = f ! i"
  using assms by (auto simp: patch_def nth_append min_def)

text \<open>
  What an earlier run left at the partial path, and how much of it a session takes over by its size
  alone: the whole item when it is long enough, and otherwise the chunks it covers. A byte of the
  item is vouched for when it is the byte of the content, or one taken over.
\<close>

definition leftover_of :: "(rel_path \<Rightarrow> u8 list option) \<Rightarrow> rel_path \<Rightarrow> u8 list" where
  "leftover_of files0 partial = (case files0 partial of Some f \<Rightarrow> f | None \<Rightarrow> [])"

definition trusted_len :: "u64 \<Rightarrow> u8 list \<Rightarrow> nat" where
  "trusted_len T left = (if unat T \<le> length left then unat T else length left div 1048576 * 1048576)"

definition byte_ok :: "u8 list \<Rightarrow> u64 \<Rightarrow> u8 list \<Rightarrow> nat \<Rightarrow> u8 \<Rightarrow> bool" where
  "byte_ok content T left i b \<longleftrightarrow>
     i < length content \<and> b = content ! i \<or> i < trusted_len T left \<and> b = left ! i"

lemma trusted_len_le: "trusted_len T left \<le> length left"
  by (auto simp: trusted_len_def)

text \<open>The bytes a tracker calls received are vouched for in the file.\<close>

definition backed :: "u8 list \<Rightarrow> u64 \<Rightarrow> u8 list \<Rightarrow> item_resumption \<Rightarrow> u8 list \<Rightarrow> bool" where
  "backed content T left res f \<longleftrightarrow>
     (\<forall>c k. c < total_chunks res \<and> k \<in> received res c \<longrightarrow>
        unat c * 1048576 + k < length f \<and>
        byte_ok content T left (unat c * 1048576 + k) (f ! (unat c * 1048576 + k)))"

definition others_kept :: "rel_path \<Rightarrow> (rel_path \<Rightarrow> u8 list option) \<Rightarrow> transfer_world \<Rightarrow> bool" where
  "others_kept partial files0 w \<longleftrightarrow> (\<forall>q. q \<noteq> partial \<longrightarrow> tw_files w q = files0 q)"

definition piece_inv ::
    "u8 list \<Rightarrow> u64 \<Rightarrow> rel_path \<Rightarrow> (rel_path \<Rightarrow> u8 list option) \<Rightarrow> item_resumption \<Rightarrow> transfer_world \<Rightarrow> bool" where
  "piece_inv content T partial files0 res w \<longleftrightarrow>
     resumption_inv res \<and> total_bytes res = T \<and> others_kept partial files0 w \<and>
     (\<exists>f. tw_files w partial = Some f \<and> drop (unat T) f = drop (unat T) (leftover_of files0 partial) \<and>
        backed content T (leftover_of files0 partial) res f)"

lemma file_local_piece_inv: "file_local (piece_inv content T partial files0 res)"
  by (simp add: file_local_def piece_inv_def others_kept_def)

lemma file_local_others_kept: "file_local (others_kept partial files0)"
  by (simp add: file_local_def others_kept_def)

lemma piece_inv_others: "piece_inv content T partial files0 res w \<Longrightarrow> others_kept partial files0 w"
  by (simp add: piece_inv_def)

text \<open>Where a piece of a valid header lies, read in the naturals.\<close>

lemma piece_position:
  assumes "chunk_data_header_ok h" and "resumption_inv res" and "total_bytes res = T"
    and "chunk_value (cd_chunk_index h) < total_chunks res" and "piece_offset h < T"
  shows "unat (piece_offset h) = unat (chunk_value (cd_chunk_index h)) * 1048576 + unat (cd_offset_in_chunk h)"
    and "unat (piece_len T h) =
      min (unat T - unat (piece_offset h)) (1048576 - unat (cd_offset_in_chunk h))"
    and "0 < unat (piece_len T h)" and "unat (piece_offset h) + unat (piece_len T h) \<le> unat T"
    and "unat (piece_len T h) \<le> 1048576"
proof -
  let ?c = "chunk_value (cd_chunk_index h)" and ?o = "cd_offset_in_chunk h"
  have off: "unat ?o < 1048576"
    using assms(1) by (auto simp: chunk_data_header_ok_def chunk_data_header_new_def word_le_nat_alt
        unat_ucast_widen split: if_splits)
  have "unat ?c * 1048576 < unat T"
    using chunk_len_eq [of res ?c] assms(2-4) by (auto simp: resumption_inv_def)
  then have "unat ?c * 1048576 < 1048576 * 17592186044416" using unat_less [of T] by simp
  then have "unat ?c < 17592186044416" by simp
  then have room: "unat ?c * 1048576 + unat ?o < 2 ^ 64" using off by simp
  then show pos: "unat (piece_offset h) = unat ?c * 1048576 + unat ?o"
    by (simp add: piece_offset_def unat_word_ariths unat_ucast_widen)
  show len: "unat (piece_len T h) = min (unat T - unat (piece_offset h)) (1048576 - unat ?o)"
    using off by (auto simp: piece_len_def min_def word_le_nat_alt rust_arith unat_ucast_widen)
  have "unat (piece_offset h) < unat T" using assms(5) by (simp add: word_less_nat_alt)
  then show "0 < unat (piece_len T h)" "unat (piece_offset h) + unat (piece_len T h) \<le> unat T"
    "unat (piece_len T h) \<le> 1048576"
    using off by (auto simp: len)
qed

lemma record_verified_effect:
  assumes "resumption_inv res" and "record_verified res h n = Ok res'" and "n < 2 ^ 32"
  shows "resumption_inv res'" and "total_bytes res' = total_bytes res" and "total_chunks res' = total_chunks res"
    and "received res' = (received res)(chunk_value (cd_chunk_index h) :=
      received res (chunk_value (cd_chunk_index h)) \<union>
        {unat (cd_offset_in_chunk h)..<unat (cd_offset_in_chunk h) + n})"
proof -
  obtain res1 complete where rp:
    "record_piece res (cd_chunk_index h) (cd_offset_in_chunk h) (of_nat n) = (res1, Ok complete)"
    and rest: "(if complete then \<exists>u. mark_verified res1 (cd_chunk_index h) = (res', Ok u) else res' = res1)"
    using assms(2) by (auto simp: record_verified_def split: prod.splits result.splits if_splits)
  have n: "unat (of_nat n :: u32) = n" using assms(3) by (simp add: unat_of_nat)
  note e1 = record_piece_effect [OF assms(1) rp, unfolded n]
  have len: "chunk_len res1 = chunk_len res"
    using e1(2,3) by (simp add: fun_eq_iff chunk_len_def chunk_size_def)
  have "resumption_inv res' \<and> total_bytes res' = total_bytes res \<and> total_chunks res' = total_chunks res \<and>
    received res' = received res1"
  proof (cases complete)
    case True
    then obtain u where mv: "mark_verified res1 (cd_chunk_index h) = (res', Ok u)" using rest by auto
    note e2 = mark_verified_effect [OF e1(1) mv]
    show ?thesis using e2 e1(2,3,7) True len by (simp add: fun_upd_idem)
  qed (use rest e1(1-3) in simp)
  then show "resumption_inv res'" "total_bytes res' = total_bytes res" "total_chunks res' = total_chunks res"
    "received res' = (received res)(chunk_value (cd_chunk_index h) :=
      received res (chunk_value (cd_chunk_index h)) \<union>
        {unat (cd_offset_in_chunk h)..<unat (cd_offset_in_chunk h) + n})"
    by (simp_all only: e1(6))
qed

lemma backed_patch:
  assumes "backed content T left res f" and "total_chunks res' = total_chunks res"
    and "received res' = (received res)(c := received res c \<union> {o'..<o' + n})"
    and "off = unat c * 1048576 + o'" and "bytes = take n (drop off content)" and "length bytes = n"
  shows "backed content T left res' (patch off bytes f)"
  unfolding backed_def
proof (intro allI impI)
  fix c' :: u64 and k
  let ?p = "unat c' * 1048576 + k"
  assume h: "c' < total_chunks res' \<and> k \<in> received res' c'"
  have new: "patch off bytes f ! ?p = content ! ?p \<and> ?p < length content \<and> ?p < off + n"
    if "off \<le> ?p" "?p < off + n"
    using that assms(5,6) by (auto simp: nth_patch(1))
  have old: "?p < length f \<and> byte_ok content T left ?p (f ! ?p)"
    if "\<not> (off \<le> ?p \<and> ?p < off + n)"
    using h that assms(1-4) by (auto simp: backed_def split: if_splits)
  show "?p < length (patch off bytes f) \<and> byte_ok content T left ?p (patch off bytes f ! ?p)"
    using new old nth_patch(2) [of ?p f off bytes] assms(6) by (fastforce simp: byte_ok_def)
qed

text \<open>A write inside the item leaves what lies beyond it.\<close>

lemma drop_patch: "off + length bytes \<le> n \<Longrightarrow> drop n (patch off bytes f) = drop n f"
  by (cases "length f \<le> off") (simp_all add: patch_def)

text \<open>The hypothesis on the decoder: what it accepts under a hash are bytes of the content hashed.\<close>

definition decoder_sound :: "bao_decoder \<Rightarrow> content_hash \<Rightarrow> u8 list \<Rightarrow> bool" where
  "decoder_sound decoder hash content \<longleftrightarrow>
     (\<forall>off len payload out n. decoder hash off len payload = Ok (out, n) \<longrightarrow>
        out = take (unat len) (drop (unat off) content))"

lemma bao_verify_sound:
  assumes "decoder_sound decoder hash content" and "bao_verify decoder hash off len payload = Ok out"
  shows "out = take (unat len) (drop (unat off) content)" and "length out = unat len"
  using assms by (fastforce simp: bao_verify_def decoder_sound_def split: result.splits if_splits)+

lemma guarantees_write_at:
  "guarantees P (lift_vfs (vfs_write_at p off bytes))
     (\<lambda>_ w. \<exists>w0 f. P w0 \<and> tw_files w0 p = Some f \<and> tw_files w = (tw_files w0)(p \<mapsto> patch off bytes f))
     (\<lambda>w. \<exists>w0. P w0 \<and> tw_files w = tw_files w0)"
  by (rule guaranteesI)
    (auto simp: lift_vfs_def vfs_write_at_def vfs_op_def
      split: list.splits option.splits prod.splits result.splits)

lemma store_piece_contract:
  assumes sound: "decoder_sound (re_bao E) (rv_content_hash S) content" and ok: "chunk_data_header_ok h"
  shows "guarantees (piece_inv content (rv_total_bytes S) (rv_partial_file_rel S) files0 res)
    (store_piece E S res h payload)
    (piece_inv content (rv_total_bytes S) (rv_partial_file_rel S) files0)
    (others_kept (rv_partial_file_rel S) files0)"
proof -
  let ?T = "rv_total_bytes S" and ?p = "rv_partial_file_rel S"
  let ?I = "piece_inv content ?T ?p files0" and ?F = "others_kept ?p files0"
  have fail: "guarantees (?I res) (pure_op (Err e)) ?I ?F" for e
    by (rule guarantees_conseq [OF guarantees_pure_op]) (auto dest: piece_inv_others)
  have "guarantees (?I res)
      (then_op (lift_vfs (vfs_write_at ?p (unat (piece_offset h)) bytes)) (\<lambda>_.
       then_op (lift_vfs vfs_sync) (\<lambda>_. pure_op (record_verified res h (length bytes))))) ?I ?F"
    if inr: "chunk_value (cd_chunk_index h) < total_chunks res" "piece_offset h < ?T"
      and v: "bao_verify (re_bao E) (rv_content_hash S) (piece_offset h) (piece_len ?T h) payload = Ok bytes" for bytes
  proof -
    note b = bao_verify_sound [OF sound v]
    let ?W = "\<lambda>w. resumption_inv res \<and> total_bytes res = ?T \<and> ?F w \<and>
      (\<forall>res'. record_verified res h (length bytes) = Ok res' \<longrightarrow> ?I res' w)"
    have step: "?W w" if I: "?I res w0" and f: "tw_files w0 ?p = Some f"
      and w: "tw_files w = (tw_files w0)(?p \<mapsto> patch (unat (piece_offset h)) bytes f)" for w w0 f
    proof -
      have r: "resumption_inv res" "total_bytes res = ?T" and F: "?F w0"
        and bf: "backed content ?T (leftover_of files0 ?p) res f" "drop (unat ?T) f = drop (unat ?T) (leftover_of files0 ?p)"
        using I f by (auto simp: piece_inv_def)
      note pos = piece_position [OF ok r inr]
      have "?I res' w" if rv: "record_verified res h (length bytes) = Ok res'" for res'
      proof -
        have "length bytes < 2 ^ 32" using b(2) pos(5) by simp
        note e = record_verified_effect [OF r(1) rv this]
        have "backed content ?T (leftover_of files0 ?p) res' (patch (unat (piece_offset h)) bytes f)"
          by (rule backed_patch [OF bf(1) e(3,4) pos(1)]) (use b in simp_all)
        then show ?thesis using e(1,2) r(2) F w bf(2) pos(4) b(2) by (simp add: piece_inv_def others_kept_def drop_patch)
      qed
      then show ?thesis using r F w by (simp add: others_kept_def)
    qed
    have "file_local ?W"
      by (simp add: file_local_def others_kept_def piece_inv_def)
    note sync = guarantees_same_files [OF same_files_ops(7) this]
    have wr: "guarantees (?I res) (lift_vfs (vfs_write_at ?p (unat (piece_offset h)) bytes)) (\<lambda>_. ?W) ?F"
    proof (rule guarantees_conseq [OF guarantees_write_at [where P = "?I res"]], goal_cases)
      case (2 x w)
      then show ?case by (elim exE conjE) (rule step)
    qed (auto simp: piece_inv_def others_kept_def)
    have recd: "guarantees ?W (pure_op (record_verified res h (length bytes))) ?I ?F"
      by (rule guarantees_conseq [OF guarantees_pure_op [where P = ?W]]) auto
    show ?thesis
      by (rule guarantees_then_op [OF wr guarantees_then_op [OF guarantees_conseq [OF sync] recd]]) auto
  qed
  then show ?thesis unfolding store_piece_def by (auto intro: fail split: result.split)
qed

lemma receive_piece_contract:
  assumes sound: "decoder_sound (re_bao E) (rv_content_hash S) content"
  shows "guarantees (piece_inv content (rv_total_bytes S) (rv_partial_file_rel S) files0 res)
    (receive_piece E S res frame)
    (piece_inv content (rv_total_bytes S) (rv_partial_file_rel S) files0)
    (others_kept (rv_partial_file_rel S) files0)"
proof -
  let ?I = "piece_inv content (rv_total_bytes S) (rv_partial_file_rel S) files0"
  let ?F = "others_kept (rv_partial_file_rel S) files0"
  have read: "guarantees (?I res) (data_read_exact n) (\<lambda>_. ?I res) ?F" for n
    by (rule guarantees_conseq [OF guarantees_same_files [OF same_files_ops(2) file_local_piece_inv]])
      (auto dest: piece_inv_others)
  have dec: "guarantees (?I res) (pure_op (map_err Ts_Proto (decode_chunk_data_header_frame (re_prost E) frame)))
      (\<lambda>h w. ?I res w \<and> chunk_data_header_ok h) ?F"
    by (rule guarantees_conseq [OF guarantees_pure_op [where P = "?I res"]])
      (auto intro: piece_inv_others cd_wire.decode_ok simp: decode_chunk_data_header_frame_def split: result.splits)
  have chk: "guarantees P (pure_op (check_piece S h)) (\<lambda>_. P) P" for P h
    by (rule guarantees_conseq [OF guarantees_pure_op]) auto
  have "guarantees (\<lambda>w. ?I res w \<and> chunk_data_header_ok h)
      (then_op (pure_op (check_piece S h)) (\<lambda>_. then_op (data_read_exact (unat (cd_payload_len h))) (store_piece E S res h)))
      ?I ?F" for h
  proof (cases "chunk_data_header_ok h")
    case True
    show ?thesis
      by (rule guarantees_then_op [OF guarantees_conseq [OF chk [where P = "?I res"]] guarantees_then_op [OF read store_piece_contract [OF sound True]]])
        (auto dest: piece_inv_others)
  qed (simp add: guarantees_def)
  then show ?thesis unfolding receive_piece_def by (rule guarantees_then_op [OF dec])
qed

section \<open>The loop\<close>

lemma receive_batch_contract:
  assumes sound: "decoder_sound (re_bao E) (rv_content_hash S) content"
  shows "guarantees (piece_inv content (rv_total_bytes S) (rv_partial_file_rel S) files0 res)
    (receive_batch E S count n ign res)
    (\<lambda>(res', ign'). piece_inv content (rv_total_bytes S) (rv_partial_file_rel S) files0 res')
    (others_kept (rv_partial_file_rel S) files0)"
proof -
  let ?I = "piece_inv content (rv_total_bytes S) (rv_partial_file_rel S) files0"
  let ?F = "others_kept (rv_partial_file_rel S) files0"
  have frame: "?I res w1" if "?I res w" "data_read_frame (rv_max_frame_size S) w = (w1, r)" for res w w1 r
    using that same_files_ops(3) [of "rv_max_frame_size S"] file_local_piece_inv
    unfolding same_files_def file_local_def by (metis fst_conv)
  have "(\<forall>res' ign'. r = Ok (res', ign') \<longrightarrow> ?I res' w') \<and> ?F w'"
    if "receive_batch E S count n ign res w = (w', r)" "?I res w" for w w' r
    by (rule receive_batch_invariant [where I = ?I and J = ?F, OF that frame])
      (auto intro: guarantees_Ok [OF receive_piece_contract [OF sound]]
        guarantees_Err [OF receive_piece_contract [OF sound]] piece_inv_others)
  then show ?thesis by (intro guaranteesI) auto
qed

lemma receive_loop_contract:
  assumes "decoder_sound (re_bao E) (rv_content_hash S) content"
  shows "guarantees (piece_inv content (rv_total_bytes S) (rv_partial_file_rel S) files0 res)
    (receive_loop E S ign res)
    (piece_inv content (rv_total_bytes S) (rv_partial_file_rel S) files0)
    (others_kept (rv_partial_file_rel S) files0)"
proof -
  have "case receive_loop E S ign res w of
      (w', Ok res') \<Rightarrow> piece_inv content (rv_total_bytes S) (rv_partial_file_rel S) files0 res' w'
    | (w', Err e) \<Rightarrow> others_kept (rv_partial_file_rel S) files0 w'"
    if "piece_inv content (rv_total_bytes S) (rv_partial_file_rel S) files0 res w" for w
    using that assms
  proof (induction E S ign res w rule: receive_loop.induct)
    case (1 E S ign res w)
    let ?I = "piece_inv content (rv_total_bytes S) (rv_partial_file_rel S) files0"
    show ?case
    proof (cases "is_item_complete res \<or> next_chunk_request res 64 = None")
      case True
      then show ?thesis using "1.prems"(1) by (subst receive_loop.simps) auto
    next
      case False
      then obtain c n where q: "\<not> is_item_complete res" "next_chunk_request res 64 = Some (c, n)" by auto
      obtain w1 r1 where s: "send_chunk_request E S c n w = (w1, r1)" by fastforce
      have I1: "?I res w1"
        using "1.prems"(1) s same_files_send_chunk_request [of E S c n] file_local_piece_inv
        unfolding same_files_def file_local_def by (metis fst_conv)
      obtain w2 r2 where b: "receive_batch E S (unat n) 0 ign res w1 = (w2, r2)" by fastforce
      note bc = receive_batch_contract [OF "1.prems"(2), of files0 res "unat n" 0 ign]
      show ?thesis
      proof (cases "\<exists>u res' ign'. r1 = Ok u \<and> r2 = Ok (res', ign')")
        case True
        then obtain u res' ign' where r: "r1 = Ok u" "r2 = Ok (res', ign')" by blast
        have "?I res' w2" using guarantees_Ok [OF bc I1 b [unfolded r(2)]] by simp
        note IH = "1.IH" [OF q refl s [symmetric] r(1) b [symmetric] r(2) refl this "1.prems"(2)]
        have "receive_loop E S ign res w = receive_loop E S ign' res' w2"
          using q s b r by (subst receive_loop.simps) simp
        then show ?thesis using IH by simp
      next
        case False
        then show ?thesis
          using q s b piece_inv_others [OF I1] guarantees_Err [OF bc I1]
          by (subst receive_loop.simps) (auto split: result.split)
      qed
    qed
  qed
  then show ?thesis by (intro guaranteesI) force+
qed

section \<open>Starting from a leftover file\<close>

lemma derive_chunks_effect:
  assumes "resumption_inv r" and "derive_chunks idxs r = Ok r'"
  shows "resumption_inv r' \<and> total_bytes r' = total_bytes r \<and> total_chunks r' = total_chunks r \<and>
    set idxs \<subseteq> {..<total_chunks r} \<and>
    received r' = (\<lambda>c. if c \<in> set idxs then {0..<chunk_len r c} else received r c)"
  using assms
proof (induction idxs arbitrary: r)
  case (Cons i idxs)
  obtain sz r1 b r2 u where sz: "chunk_size r (ChunkIndex i) = Ok sz"
    and rp: "record_piece r (ChunkIndex i) 0 sz = (r1, Ok b)"
    and mv: "mark_verified r1 (ChunkIndex i) = (r2, Ok u)" and rest: "derive_chunks idxs r2 = Ok r'"
    using Cons.prems(2) by (auto split: result.splits prod.splits)
  note e1 = record_piece_effect [OF Cons.prems(1) rp]
  note e2 = mark_verified_effect [OF e1(1) mv]
  have len: "chunk_len r1 = chunk_len r" "chunk_len r2 = chunk_len r"
    using e1(2,3) e2(2,3) by (simp_all add: fun_eq_iff chunk_len_def chunk_size_def)
  show ?case using Cons.IH [OF e2(1) rest] e1 e2(2-5) len by (auto simp: fun_eq_iff)
qed simp

lemma derive_resumption_backed:
  assumes new: "r = resumption_new item T" and d: "derive_resumption (of_nat (length f)) T r = Ok r'" and len: "length f < 2 ^ 64"
  shows "resumption_inv r'" and "total_bytes r' = T" and "backed content T f r' f"
proof -
  let ?full = "min (of_nat (length f) div REFERENCE_CHUNK_SIZE_BYTES) (total_chunks r)"
  have inv: "resumption_inv r" and T: "total_bytes r = T"
    by (simp_all add: new resumption_inv_new) (simp add: resumption_new_def)
  have tw: "totals_wf r" using inv by (simp add: resumption_inv_def)
  have none: "received r c = {}" for c by (simp add: new received_def resumption_new_def)
  have size: "unat (of_nat (length f) :: u64) = length f" using len by (simp add: unat_of_nat)
  obtain r1 where r1: "derive_chunks (map of_nat [0..<unat ?full]) r = Ok r1"
    and r': "if ?full < total_chunks r \<and> of_nat (length f) \<ge> T
      then derive_chunks [saturating_sub (total_chunks r) 1] r1 = Ok r' else r' = r1"
    using d by (auto simp: derive_resumption_def Let_def split: result.splits if_splits)
  have full: "unat ?full \<le> length f div 1048576"
    by (auto simp: min_def word_le_nat_alt unat_div size)
  note e1 = derive_chunks_effect [OF inv r1]
  then have inv1: "resumption_inv r1" and tot1: "total_bytes r1 = T" "total_chunks r1 = total_chunks r"
    and len1: "chunk_len r1 = chunk_len r"
    using T by (simp_all add: fun_eq_iff chunk_len_def chunk_size_def)
  have inside: "unat c * 1048576 + k < unat T" if "c < total_chunks r" "k < chunk_len r c" for c k
    using that chunk_len_eq [OF tw, of c] T by (simp add: less_diff_conv)
  have short: "unat c * 1048576 + k < trusted_len T f" if "k \<in> received r1 c" for c k
  proof -
    have c: "c \<in> of_nat ` {0..<unat ?full}" and k: "k < chunk_len r c"
      using that e1 none by (auto split: if_splits)
    from c obtain j where j: "c = of_nat j" "j < unat ?full" by auto
    then have "unat c = j" using unat_less [of ?full] by (simp add: unat_of_nat)
    then have "unat c + 1 \<le> length f div 1048576" using j(2) full by linarith
    then have "(unat c + 1) * 1048576 \<le> length f div 1048576 * 1048576" by simp
    moreover have lt: "c < total_chunks r" using c e1 by auto
    then have "k < 1048576" using k chunk_len_eq [OF tw lt] by simp
    ultimately show ?thesis using inside [OF lt k] by (simp add: trusted_len_def)
  qed
  have "resumption_inv r' \<and> total_bytes r' = T \<and> total_chunks r' = total_chunks r \<and>
      (\<forall>c k. k \<in> received r' c \<longrightarrow> unat c * 1048576 + k < trusted_len T f)"
  proof (cases "?full < total_chunks r \<and> of_nat (length f) \<ge> T")
    case True
    let ?last = "saturating_sub (total_chunks r) 1"
    have d2: "derive_chunks [?last] r1 = Ok r'" using r' True by argo
    note e2 = derive_chunks_effect [OF inv1 d2]
    have "unat T \<le> length f" using True size by (simp add: word_le_nat_alt)
    then have "unat ?last * 1048576 + k < trusted_len T f" if "k < chunk_len r ?last" for k
      using inside [of ?last k] that e2 tot1 by (simp add: trusted_len_def)
    then show ?thesis using e2 tot1 len1 short by (auto split: if_splits)
  next
    case False
    then have "r' = r1" using r' by argo
    then show ?thesis using inv1 tot1 short by simp
  qed
  then show "resumption_inv r'" "total_bytes r' = T" "backed content T f r' f"
    using trusted_len_le [of T f] by (simp_all add: backed_def byte_ok_def) (meson order_less_le_trans)
qed

text \<open>The partial file as a session finds it or creates it.\<close>

definition opened :: "rel_path \<Rightarrow> (rel_path \<Rightarrow> u8 list option) \<Rightarrow> transfer_world \<Rightarrow> bool" where
  "opened partial files0 w \<longleftrightarrow> others_kept partial files0 w \<and> tw_files w partial = Some (leftover_of files0 partial)"

lemma open_write_contract:
  "guarantees (\<lambda>w. tw_files w = files0) (lift_vfs (vfs_open_write partial)) (\<lambda>_. opened partial files0) (others_kept partial files0)"
  by (rule guaranteesI)
    (auto simp: opened_def others_kept_def leftover_of_def lift_vfs_def vfs_open_write_def vfs_op_def
      split: list.splits option.splits prod.splits result.splits)

lemma start_resumption_contract:
  assumes "length (leftover_of files0 (rv_partial_file_rel S)) < 2 ^ 64"
  shows "guarantees (opened (rv_partial_file_rel S) files0) (start_resumption S)
     (piece_inv content (rv_total_bytes S) (rv_partial_file_rel S) files0) F"
proof (rule guaranteesI)
  let ?p = "rv_partial_file_rel S" and ?T = "rv_total_bytes S" and ?fresh = "resumption_new (rv_item_id S) (rv_total_bytes S)"
  let ?f = "leftover_of files0 ?p"
  fix w w' res
  assume o: "opened ?p files0 w" and st: "start_resumption S w = (w', Ok res)"
  then have f: "tw_files w ?p = Some ?f" by (simp add: opened_def)
  obtain w1 r1 where vs: "vfs_stat ?p w = (w1, r1)" by fastforce
  then have w1: "tw_files w1 = tw_files w" and r1: "\<And>n. r1 = Ok n \<Longrightarrow> n = of_nat (length ?f)"
    using f by (auto simp: vfs_stat_def vfs_op_def split: list.splits option.splits)
  have fresh: "resumption_inv ?fresh" "total_bytes ?fresh = ?T" "backed content ?T ?f ?fresh ?f"
    by (simp_all add: resumption_inv_new) (simp_all add: backed_def received_def resumption_new_def)
  have "w' = w1 \<and> (res = ?fresh \<or> derive_resumption (of_nat (length ?f)) ?T ?fresh = Ok res)"
    using st vs r1 by (auto simp: start_resumption_def Let_def split: result.splits)
  then show "piece_inv content ?T ?p files0 res w'"
    using fresh derive_resumption_backed [OF refl _ assms, of ?T "rv_item_id S" res] o f w1
    by (auto simp: piece_inv_def opened_def others_kept_def)
qed (auto simp: start_resumption_def Let_def split: prod.splits result.splits)

section \<open>Placing\<close>

text \<open>A whole item: every byte is vouched for, and what a longer leftover had beyond it is still there.\<close>

definition vouched :: "u8 list \<Rightarrow> u64 \<Rightarrow> u8 list \<Rightarrow> u8 list \<Rightarrow> bool" where
  "vouched content T left bs \<longleftrightarrow> unat T \<le> length bs \<and> drop (unat T) bs = drop (unat T) left \<and>
     (\<forall>i < unat T. byte_ok content T left i (bs ! i))"

lemma complete_file_vouched:
  assumes "resumption_inv res" and "is_item_complete res" and "total_bytes res = T" and "backed content T left res f"
    and "drop (unat T) f = drop (unat T) left"
  shows "vouched content T left f"
proof -
  have tw: "totals_wf res" using assms(1) by (simp add: resumption_inv_def)
  have at: "i < length f \<and> byte_ok content T left i (f ! i)" if "i < unat T" for i
  proof -
    let ?c = "of_nat (i div 1048576) :: u64"
    have "i div 1048576 < 2 ^ 64" using that unat_less [of T] by (simp add: less_mult_imp_div_less)
    then have c: "unat ?c = i div 1048576" by (simp add: unat_of_nat)
    have lt: "?c < total_chunks res"
      using tw that assms(3) by (simp add: word_less_nat_alt c totals_wf_def less_eq_div_iff_mult_less_eq div_less_iff_less_mult)
    then have "received res ?c = {0..<chunk_len res ?c}"
      using verified_full [OF assms(1) lt] assms(1,2) is_item_complete_iff [OF assms(1)] is_chunk_verified_entry [OF lt]
      by simp
    moreover have "chunk_len res ?c = min 1048576 (unat T - i div 1048576 * 1048576)" using chunk_len_eq [OF tw lt] c assms(3) by simp
    moreover have "i mod 1048576 < min 1048576 (unat T - i div 1048576 * 1048576)"
      using that by (simp add: less_diff_conv)
    ultimately have "i mod 1048576 \<in> received res ?c" by simp
    with assms(4) lt show ?thesis unfolding backed_def by (metis c div_mult_mod_eq)
  qed
  have "unat T \<le> length f" using at [of "unat T - 1"] by (cases "unat T = 0") auto
  then show ?thesis using at assms(5) by (simp add: vouched_def)
qed

text \<open>
  A leftover is honest when it is a prefix of the content no longer than the item, as it is when
  there is none. What is vouched for over an honest leftover is the content.
\<close>

definition honest_leftover :: "u8 list \<Rightarrow> u64 \<Rightarrow> u8 list \<Rightarrow> bool" where
  "honest_leftover content T left \<longleftrightarrow>
     length left \<le> unat T \<and> length left \<le> length content \<and> left = take (length left) content"

lemma honest_leftover_Nil [simp]: "honest_leftover content T []"
  by (simp add: honest_leftover_def)

lemma vouched_honest:
  assumes "vouched content T left bs" and "honest_leftover content T left"
  shows "bs = take (unat T) content" and "unat T \<le> length content"
proof -
  have "left ! i = content ! i" if "i < length left" for i
    using assms(2) that by (metis honest_leftover_def nth_take)
  then have at: "i < length content \<and> bs ! i = content ! i" if "i < unat T" for i
    using assms that trusted_len_le [of T left] by (fastforce simp: vouched_def byte_ok_def honest_leftover_def)
  have len: "length bs = unat T" using assms by (simp add: vouched_def honest_leftover_def)
  show le: "unat T \<le> length content" using at [of "unat T - 1"] by (cases "unat T = 0") auto
  show "bs = take (unat T) content" using len le at by (intro nth_equalityI) auto
qed

text \<open>At most one file was placed, at a path that was free, with the bytes \<open>bs\<close>; the rest is as before.\<close>

definition landed ::
    "u8 list \<Rightarrow> rel_path \<Rightarrow> (rel_path \<Rightarrow> u8 list option) \<Rightarrow> rel_path option \<Rightarrow> transfer_world \<Rightarrow> bool" where
  "landed bs partial files0 placed w \<longleftrightarrow>
     (\<forall>q. q \<noteq> partial \<longrightarrow> tw_files w q = (if placed = Some q then Some bs else files0 q)) \<and>
     (\<forall>p. placed = Some p \<longrightarrow> files0 p = None \<and> p \<noteq> partial)"

lemma landed_None: "landed bs partial files0 None w \<longleftrightarrow> others_kept partial files0 w"
  by (simp add: landed_def others_kept_def)

lemma vfs_rename_no_replace_effect:
  assumes "vfs_rename_no_replace p q w = (w', r)"
  shows "r = Ok u \<Longrightarrow> \<exists>f. tw_files w p = Some f \<and> tw_files w q = None \<and> tw_files w' = (tw_files w)(p := None, q \<mapsto> f)"
    and "r = Err e \<Longrightarrow> tw_files w' = tw_files w"
  using assms by (auto simp: vfs_rename_no_replace_def vfs_op_def split: list.splits option.splits if_splits)

lemma vfs_op_query_files: "vfs_op (\<lambda>w. (w, g w)) w = (w', r) \<Longrightarrow> tw_files w' = tw_files w"
  by (auto simp: vfs_op_def split: list.splits option.splits)

lemma place_attempts_effect:
  assumes "tw_files w partial = Some bs" and "place_attempts root partial sanitized n w = (w', r)"
  shows "(\<forall>p. r = Ok p \<longrightarrow> tw_files w p = None \<and> tw_files w' = (tw_files w)(partial := None, p \<mapsto> bs)) \<and>
    (\<forall>e. r = Err e \<longrightarrow> tw_files w' = tw_files w)"
  using assms
proof (induction n arbitrary: w)
  case (Suc n)
  obtain w1 r1 where q: "vfs_op (\<lambda>w. (w, resolve_collision (stat_of w) root sanitized)) w = (w1, r1)" by fastforce
  note f1 = vfs_op_query_files [OF q]
  show ?case
  proof (cases r1)
    case (Ok candidate)
    obtain w2 r2 where rn: "vfs_rename_no_replace partial candidate w1 = (w2, r2)" by fastforce
    note eff = vfs_rename_no_replace_effect [OF rn]
    show ?thesis
    proof (cases r2)
      case (Err e)
      then have f2: "tw_files w2 = tw_files w" using eff(2) f1 by simp
      show ?thesis using Suc.prems q Ok rn Err f2 Suc.IH [of w2] by (auto split: if_splits)
    qed (use Suc.prems q Ok rn eff(1) f1 in auto)
  qed (use Suc.prems(2) q f1 in auto)
qed auto

lemma place_verified_contract:
  "guarantees (\<lambda>w. others_kept partial files0 w \<and> tw_files w partial = Some bs)
     (place_verified_file E root partial dest)
     (\<lambda>p. landed bs partial files0 (Some p)) (others_kept partial files0)"
proof (cases "sanitize_destination_path (re_nfc E) (rel_path_value dest)")
  case (Ok sanitized)
  then have p: "place_verified_file E root partial dest = place_attempts root partial sanitized 32"
    by (simp add: place_verified_file_def fun_eq_iff)
  have "guarantees (\<lambda>w. others_kept partial files0 w \<and> tw_files w partial = Some bs)
     (place_attempts root partial sanitized n)
     (\<lambda>p. landed bs partial files0 (Some p)) (others_kept partial files0)" for n
  proof (rule guaranteesI, goal_cases)
    case (1 w w' x)
    then show ?case
      using place_attempts_effect [of w partial bs root sanitized n w' "Ok x"]
      by (auto simp: landed_def others_kept_def) (metis option.distinct(1))
  next
    case (2 w w' e)
    then show ?case
      using place_attempts_effect [of w partial bs root sanitized n w' "Err e"] by (simp add: others_kept_def)
  qed
  then show ?thesis unfolding p .
qed (auto simp: place_verified_file_def intro!: guaranteesI)

definition landed_item ::
    "u8 list \<Rightarrow> u64 \<Rightarrow> rel_path \<Rightarrow> (rel_path \<Rightarrow> u8 list option) \<Rightarrow> rel_path option \<Rightarrow> transfer_world \<Rightarrow> bool" where
  "landed_item content T partial files0 placed w \<longleftrightarrow>
     (\<exists>bs. landed bs partial files0 placed w \<and> (placed \<noteq> None \<longrightarrow> vouched content T (leftover_of files0 partial) bs))"

lemma landed_item_None: "others_kept partial files0 w \<Longrightarrow> \<exists>placed. landed_item content T partial files0 placed w"
  using landed_None unfolding landed_item_def by blast

lemma conclude_contract:
  "guarantees (piece_inv content (rv_total_bytes S) (rv_partial_file_rel S) files0 res) (conclude E S res)
     (\<lambda>p. landed_item content (rv_total_bytes S) (rv_partial_file_rel S) files0 (Some p))
     (\<lambda>w. \<exists>placed. landed_item content (rv_total_bytes S) (rv_partial_file_rel S) files0 placed w)"
proof -
  let ?T = "rv_total_bytes S" and ?p = "rv_partial_file_rel S" and ?I = "piece_inv content (rv_total_bytes S) (rv_partial_file_rel S) files0 res"
  let ?Q = "\<lambda>p. landed_item content ?T ?p files0 (Some p)" and ?F = "\<lambda>w. \<exists>placed. landed_item content ?T ?p files0 placed w"
  have keep: "guarantees (?Q p) m (\<lambda>_. ?Q p) ?F" if "same_files m" for p and m :: "unit session_op"
  proof (rule guarantees_conseq [OF guarantees_same_files [OF that, of "?Q p"]])
    show "file_local (?Q p)" by (simp add: file_local_def landed_def landed_item_def)
  qed auto
  have rest: "guarantees (?Q p) (then_op data_finish (\<lambda>_. then_op (send_item_complete E S True (Some p)) (\<lambda>_.
      pure_op (Ok p)))) ?Q ?F" for p
    by (rule guarantees_then_op [OF keep [OF same_files_ops(5)]
          guarantees_then_op [OF keep [OF same_files_send_item_complete]]])
      (auto intro!: guaranteesI simp: pure_op_def)
  show ?thesis
  proof (cases "is_item_complete res")
    case True
    have c: "\<exists>bs. others_kept ?p files0 w \<and> tw_files w ?p = Some bs \<and> vouched content ?T (leftover_of files0 ?p) bs" if "?I w" for w
      using that complete_file_vouched [OF _ True] by (auto simp: piece_inv_def)
    note place = place_verified_contract [of ?p files0 _ E "rv_root S" "rv_dest_rel_path S"]
    have "guarantees ?I (place_verified_file E (rv_root S) ?p (rv_dest_rel_path S)) ?Q ?F"
    proof (rule guaranteesI)
      fix w w' p
      assume w: "?I w" and run: "place_verified_file E (rv_root S) ?p (rv_dest_rel_path S) w = (w', Ok p)"
      then obtain bs where bs: "others_kept ?p files0 w \<and> tw_files w ?p = Some bs" "vouched content ?T (leftover_of files0 ?p) bs"
        using c by blast
      with guarantees_Ok [OF place bs(1) run] show "?Q p w'" by (auto simp: landed_item_def)
    next
      fix w w' e
      assume w: "?I w" and run: "place_verified_file E (rv_root S) ?p (rv_dest_rel_path S) w = (w', Err e)"
      then obtain bs where bs: "others_kept ?p files0 w \<and> tw_files w ?p = Some bs" using c by blast
      show "?F w'" by (rule landed_item_None [OF guarantees_Err [OF place bs run]])
    qed
    with True show ?thesis unfolding conclude_def by (simp add: guarantees_then_op [OF _ rest])
  next
    case False
    have "same_files (conclude E S res)"
      using False by (simp add: conclude_def same_files_then_op same_files_ops same_files_send_item_complete)
    note g = guarantees_same_files [OF this file_local_piece_inv]
    have no: "conclude E S res w \<noteq> (w', Ok p)" for w w' p
      using False by (auto simp: conclude_def then_op_def pure_op_def split: prod.splits result.splits)
    show ?thesis
    proof (rule guaranteesI)
      fix w w' e
      assume "?I w" and "conclude E S res w = (w', Err e)"
      then show "?F w'" by (rule landed_item_None [OF piece_inv_others [OF guarantees_Err [OF g]]])
    qed (use no in blast)
  qed
qed

lemma receive_file_inner_contract:
  assumes "decoder_sound (re_bao E) (rv_content_hash S) content"
    and "length (leftover_of files0 (rv_partial_file_rel S)) < 2 ^ 64"
  shows "guarantees (\<lambda>w. tw_files w = files0) (receive_file_inner E S)
     (\<lambda>p. landed_item content (rv_total_bytes S) (rv_partial_file_rel S) files0 (Some p))
     (\<lambda>w. \<exists>placed. landed_item content (rv_total_bytes S) (rv_partial_file_rel S) files0 placed w)"
proof -
  note op = guarantees_conseq [OF open_write_contract _ _ landed_item_None]
    and lp = guarantees_conseq [OF receive_loop_contract [OF assms(1)] _ _ landed_item_None]
  show ?thesis unfolding receive_file_inner_def
    by (rule guarantees_then_op [OF op guarantees_then_op [OF start_resumption_contract [OF assms(2)]
            guarantees_then_op [OF lp conclude_contract]]])
qed

lemma cleanup_partial_effect:
  assumes "cleanup_partial pf pd w = (w', r)"
  shows "q \<noteq> pf \<Longrightarrow> q \<noteq> pd \<Longrightarrow> tw_files w' q = tw_files w q"
    and "r = Ok u \<Longrightarrow> tw_vfs_faults w = [] \<Longrightarrow> tw_files w' pf = None"
  using assms
  by (auto simp: cleanup_partial_def vfs_remove_def vfs_op_def split: list.splits option.splits if_splits prod.splits)

text \<open>
  Property C3. A receiving session never damages the receive root and places nothing it cannot
  account for, whatever the peer sends, whatever fails, and whatever an earlier run left at the
  partial path. Outside its own staging paths at most one file appears, at a path that was free. It
  has at least the announced size, and each of its bytes up to there is the byte of the content
  whose hash was accepted, except that the code does not check again what it took over from the
  leftover: there a byte may be the one that was left, in the chunks the leftover covers, or
  anywhere when the leftover is as long as the item. With no leftover, or one that is a prefix of
  the content, the file is exactly the announced prefix of the content. A session that reports a
  path has placed the file there. The hypotheses: the slice decoder accepts only bytes of the content
  behind the hash, and file sizes fit in 64 bits.
\<close>

theorem receive_file_authentic:
  assumes "decoder_sound (re_bao E) (rq_content_hash R) content"
    and "left = (case partial_file_rel_path (rq_transfer_id R) (rq_item_id R) of Some pf \<Rightarrow> leftover_of (tw_files w) pf | None \<Rightarrow> [])"
    and "length left < 2 ^ 64" and "receive_file E R w = (w', r)"
  shows "\<exists>placed bs.
    (\<forall>q. partial_file_rel_path (rq_transfer_id R) (rq_item_id R) \<noteq> Some q \<longrightarrow>
        partial_dir_rel_path (rq_transfer_id R) \<noteq> Some q \<longrightarrow>
        tw_files w' q = (if placed = Some q then Some bs else tw_files w q)) \<and>
    (\<forall>p. placed = Some p \<longrightarrow> tw_files w p = None \<and> vouched content (rq_total_bytes R) left bs \<and>
       (honest_leftover content (rq_total_bytes R) left \<longrightarrow>
          bs = take (unat (rq_total_bytes R)) content \<and> unat (rq_total_bytes R) \<le> length content)) \<and>
    (\<forall>p. r = Ok p \<longrightarrow> placed = Some p \<and> tw_files w' p = Some bs)"
proof -
  let ?T = "rq_total_bytes R"
  consider (bad) "w' = w" "\<exists>e. r = Err e"
    | (go) pd pf where "partial_dir_rel_path (rq_transfer_id R) = Some pd"
        "partial_file_rel_path (rq_transfer_id R) (rq_item_id R) = Some pf"
    using assms(4) by (auto simp: receive_file_def split: option.splits)
  then show ?thesis
  proof cases
    case bad
    then show ?thesis by (intro exI [of _ None]) auto
  next
    case go
    let ?S = "session_of R pf"
    have left: "leftover_of (tw_files w) pf = left" using assms(2) go(2) by simp
    obtain w1 r1 where cd: "lift_vfs (vfs_create_dir pd) w = (w1, r1)" by fastforce
    then have f1: "tw_files w1 = tw_files w"
      by (auto simp: lift_vfs_def vfs_create_dir_def dest: vfs_op_query_files split: prod.splits)
    obtain w2 r2 where inn: "receive_file_inner E ?S w1 = (w2, r2)" by fastforce
    obtain w3 r3 where cl: "cleanup_partial pf pd w2 = (w3, r3)" by fastforce
    have S: "rv_partial_file_rel ?S = pf" "rv_total_bytes ?S = rq_total_bytes R" "rv_content_hash ?S = rq_content_hash R"
      by (simp_all add: session_of_def)
    have "guarantees (\<lambda>v. tw_files v = tw_files w) (receive_file_inner E ?S)
        (\<lambda>p. landed_item content ?T pf (tw_files w) (Some p)) (\<lambda>v. \<exists>placed. landed_item content ?T pf (tw_files w) placed v)"
      using receive_file_inner_contract [of E ?S content "tw_files w"] assms(1,3) left unfolding S by blast
    note good = guarantees_Ok [OF this f1] and failed = guarantees_Err [OF this f1]
    show ?thesis
    proof (cases r1)
      case (Err e)
      then have "w' = w1 \<and> r = Err e" using assms(4) go cd by (simp add: receive_file_def)
      then show ?thesis using f1 by (intro exI [of _ None]) simp
    next
      case r1: (Ok u)
      show ?thesis
      proof (cases r2)
        case (Ok p)
        then have "w' = w2 \<and> r = Ok p" using assms(4) go cd r1 inn by (simp add: receive_file_def)
        moreover obtain bs where "landed bs pf (tw_files w) (Some p) w2" "vouched content ?T left bs"
          using good [OF inn [unfolded Ok]] left by (auto simp: landed_item_def)
        ultimately show ?thesis
          using go vouched_honest by (intro exI [of _ "Some p"] exI [of _ bs]) (auto simp: landed_def)
      next
        case (Err e)
        obtain placed bs where l: "landed bs pf (tw_files w) placed w2" "placed \<noteq> None \<longrightarrow> vouched content ?T left bs"
          using failed [OF inn [unfolded Err]] left by (auto simp: landed_item_def)
        have "w' = w3 \<and> (\<exists>e. r = Err e)"
          using assms(4) go cd r1 inn cl Err by (auto simp: receive_file_def split: result.splits if_splits)
        then show ?thesis
          using l cleanup_partial_effect(1) [OF cl] go vouched_honest by (intro exI [of _ placed] exI [of _ bs]) (auto simp: landed_def)
      qed
    qed
  qed
qed

definition sample_content :: "u8 list" where
  "sample_content = [10, 20, 30]"

definition sample_decoder :: bao_decoder where
  "sample_decoder hash off len payload =
     (if payload = take (unat len) (drop (unat off) sample_content) then Ok (payload, length payload)
      else Err Io_InvalidData)"

text \<open>A codec that knows one message: the header of the one piece of the item.\<close>

definition sample_header :: chunk_data_header where
  "sample_header = \<lparr>cd_transfer_id = sample_transfer_id, cd_item_id = sample_item_id, cd_chunk_index = ChunkIndex 0,
     cd_payload_len = 3, cd_last = True, cd_offset_in_chunk = 0\<rparr>"

definition sample_env :: receive_env where
  "sample_env = \<lparr>re_prost = unary_prost\<lparr>enc_chunk_request := \<lambda>_. [1], enc_item_complete := \<lambda>_. [2],
     dec_chunk_data := \<lambda>bs. if bs = [3] then Some (chunk_data_header_to_wire sample_header) else None\<rparr>, re_bao = sample_decoder, re_nfc = id\<rparr>"

definition sample_receive :: receive_request where
  "sample_receive =
     \<lparr>rq_root = RootId 0, rq_dest_rel_path = \<lparr>rel_path_value = [98]\<rparr>, rq_total_bytes = 3,
      rq_content_hash = ContentHash (replicate 32 7), rq_transfer_id = sample_transfer_id,
      rq_item_id = sample_item_id, rq_max_frame_size = 100000\<rparr>"

text \<open>A root with one file, and a peer that sends the piece, cut into three deliveries.\<close>

definition sample_world :: transfer_world where
  "sample_world =
     \<lparr>tw_files = [\<lparr>rel_path_value = [97]\<rparr> \<mapsto> [1]], tw_vfs_faults = [],
      tw_data_in = [Bytes [0, 0], Bytes [0, 2, 0x22, 3, 10], Bytes [20, 30]],
      tw_control_in = [], tw_data_out = [], tw_control_out = [], tw_data_finished = False, tw_send_faults = []\<rparr>"

lemma sample_decoder_sound: "decoder_sound sample_decoder hash sample_content"
  by (auto simp: decoder_sound_def sample_decoder_def split: if_splits)

lemma sample_staging:
  assumes "SLASH \<notin> set v"
  shows "partial_file_rel_path sample_transfer_id sample_item_id \<noteq> Some \<lparr>rel_path_value = v\<rparr>"
    "partial_dir_rel_path sample_transfer_id \<noteq> Some \<lparr>rel_path_value = v\<rparr>"
proof -
  have v: "rel_path_value p = s" if "rel_path_new s = Ok p" for p s
    using that by (auto simp: rel_path_new_def split: if_splits option.splits result.splits)
  show "partial_file_rel_path sample_transfer_id sample_item_id \<noteq> Some \<lparr>rel_path_value = v\<rparr>"
    "partial_dir_rel_path sample_transfer_id \<noteq> Some \<lparr>rel_path_value = v\<rparr>"
    using assms
    by (auto simp: partial_file_rel_path_def partial_dir_rel_path_def partial_root_rel_path_def rel_path_display_def
        dest!: v split: option.splits)
qed

text \<open>The session step by step.\<close>

lemma sample_frame: "read_frame 100000 [Bytes [0, 0], Bytes [0, 2, 0x22, 3, 10], Bytes [20, 30]]
   = ([Bytes [10], Bytes [20, 30]], Ok \<lparr>type_code = 0x22, frame_payload = [3]\<rparr>)"
  by (simp add: read_frame_def read_exact.simps u32_from_be_bytes_def next_frame_def feed_def frame_decoder_new_def)

lemma sample_rest: "read_exact 3 [Bytes [10], Bytes [20, 30]] = ([], Ok [10, 20, 30])"
  by code_simp

lemma sample_header_ok: "chunk_data_header_ok sample_header"
  using sample_ids_ok by (simp add: chunk_data_header_ok_def sample_header_def chunk_data_header_new_def byte_offset_def checked_mul_def)

lemma sample_head: "decode_chunk_data_header_frame (re_prost sample_env) \<lparr>type_code = 0x22, frame_payload = [3]\<rparr> = Ok sample_header"
  by (simp add: decode_chunk_data_header_frame_def decode_message_frame_def sample_env_def cd_wire.from_to [OF sample_header_ok])

lemma sample_clean: "sanitize_destination_path id ([98]) = Ok \<lparr>rel_path_value = [98]\<rparr>"
  by code_simp

lemma sample_start: "derive_resumption 0 3 (resumption_new i 3) = Ok (resumption_new i 3)"
  by (simp add: derive_resumption_def resumption_new_def div_ceil_def)

lemma sample_ask: "next_chunk_request (resumption_new i 3) 64 = Some (ChunkIndex 0, 1)" "\<not> is_item_complete (resumption_new i 3)"
  by (simp_all add: next_chunk_request_def resumption_new_def div_ceil_def is_item_complete_def first_requestable.simps
      count_requestable.simps is_chunk_requestable_def)

lemma sample_record: "\<exists>res. record_verified (resumption_new i 3) sample_header 3 = Ok res \<and> is_item_complete res"
  by (simp add: record_verified_def record_piece_def mark_verified_def chunk_size_def chunk_entry_def chunk_state_default_def
        resumption_new_def div_ceil_def is_item_complete_def set_chunk_def checked_add_def sample_header_def)

abbreviation (input) "sample_path \<equiv> \<lparr>rel_path_value = [98]\<rparr>"

lemma sample_place:
  assumes "tw_vfs_faults w = []" and "tw_files w pf = Some bs" and "tw_files w sample_path = None"
  shows "place_verified_file sample_env root pf sample_path w = (w\<lparr>tw_files := (tw_files w)(pf := None, sample_path \<mapsto> bs)\<rparr>, Ok sample_path)"
proof -
  have r: "resolve_collision (stat_of w) root sample_path = Ok sample_path"
    using assms by (simp add: resolve_collision_def stat_of_def)
  have "place_attempts root pf sample_path (Suc 31) w = (w\<lparr>tw_files := (tw_files w)(pf := None, sample_path \<mapsto> bs)\<rparr>, Ok sample_path)"
    using assms by (simp only: place_attempts.simps) (simp add: r vfs_op_def vfs_rename_no_replace_def)
  moreover have "(32 :: nat) = Suc 31" by simp
  ultimately show ?thesis
    unfolding place_verified_file_def using sample_clean by (simp only: sample_env_def receive_env.simps rel_path.simps result.simps)
qed

lemma sample_encodes: "\<exists>wire. encode_chunk_request_frame (re_prost sample_env) m 100000 = Ok wire" "\<exists>wire. encode_item_complete_frame (re_prost sample_env) c 100000 = Ok wire"
  by (simp_all add: encode_chunk_request_frame_def encode_item_complete_frame_def encode_message_frame_def sample_env_def encode_frame_def Let_def)

abbreviation (input) "sample_fresh \<equiv> resumption_new sample_item_id 3"

lemma sample_piece:
  assumes "tw_vfs_faults w = []" and "tw_files w pf = Some []" and "tw_data_in w = [Bytes [10], Bytes [20, 30]]"
    and "record_verified sample_fresh sample_header 3 = Ok res"
  shows "receive_piece sample_env (session_of sample_receive pf) sample_fresh \<lparr>type_code = 0x22, frame_payload = [3]\<rparr> w =
    (w\<lparr>tw_data_in := [], tw_files := (tw_files w)(pf \<mapsto> sample_content)\<rparr>, Ok res)"
proof -
  let ?S = "session_of sample_receive pf"
  have chk: "check_piece ?S sample_header = Ok ()"
    by (simp add: check_piece_def session_of_def sample_receive_def sample_header_def)
  have v: "bao_verify (re_bao sample_env) (rv_content_hash ?S) (piece_offset sample_header) (piece_len (rv_total_bytes ?S) sample_header) [10, 20, 30] = Ok [10, 20, 30]"
    by (simp add: bao_verify_def sample_env_def sample_decoder_def piece_offset_def piece_len_def session_of_def sample_receive_def
        sample_header_def sample_content_def saturating_sub_def)
  have "total_chunks sample_fresh = 1" by (simp add: resumption_new_def div_ceil_def)
  then have st: "store_piece sample_env ?S sample_fresh sample_header [10, 20, 30] v =
      (v\<lparr>tw_files := (tw_files v)(pf \<mapsto> sample_content)\<rparr>, Ok res)" if "tw_vfs_faults v = []" "tw_files v pf = Some []" for v
    using that assms(4) [unfolded numeral_3_eq_3]
    by (simp add: store_piece_def v) (simp add: then_op_def lift_vfs_def vfs_write_at_def vfs_sync_def vfs_op_def pure_op_def
        session_of_def sample_receive_def piece_offset_def sample_header_def patch_def sample_content_def)
  have "data_read_exact (unat (cd_payload_len sample_header)) w = (w\<lparr>tw_data_in := []\<rparr>, Ok [10, 20, 30])"
    by (simp add: data_read_exact_def assms(3) sample_rest sample_header_def)
  then show ?thesis
    using assms(1,2) by (simp add: receive_piece_def then_op_def pure_op_def sample_head chk st)
qed

lemma sample_loop:
  assumes "tw_vfs_faults w = []" and "tw_send_faults w = []" and "tw_files w pf = Some []"
    and "tw_data_in w = [Bytes [0, 0], Bytes [0, 2, 0x22, 3, 10], Bytes [20, 30]]"
  shows "\<exists>res wire. is_item_complete res \<and> receive_loop sample_env (session_of sample_receive pf) 0 sample_fresh w =
    (w\<lparr>tw_data_out := tw_data_out w @ wire, tw_data_in := [], tw_files := (tw_files w)(pf \<mapsto> sample_content)\<rparr>, Ok res)"
proof -
  let ?S = "session_of sample_receive pf"
  obtain res where res: "record_verified sample_fresh sample_header 3 = Ok res" "is_item_complete res"
    using sample_record by blast
  obtain wire where wire: "encode_chunk_request_frame (re_prost sample_env) \<lparr>cr_transfer_id = sample_transfer_id, cr_item_id = sample_item_id,
      cr_from_chunk = ChunkIndex 0, cr_count = 1\<rparr> 100000 = Ok wire" using sample_encodes(1) by blast
  have S: "rv_max_frame_size ?S = 100000" "rv_transfer_id ?S = sample_transfer_id" "rv_item_id ?S = sample_item_id"
    by (simp_all add: session_of_def sample_receive_def)
  have ask: "send_chunk_request sample_env ?S (ChunkIndex 0) 1 w = (w\<lparr>tw_data_out := tw_data_out w @ wire\<rparr>, Ok ())"
    by (simp add: send_chunk_request_def S wire then_op_def pure_op_def data_write_all_def send_op_def assms(2))
  have code: "classify_code 0x22 Data = Known Msg_ChunkData" by code_simp
  let ?w1 = "w\<lparr>tw_data_out := tw_data_out w @ wire\<rparr>" and ?w2 = "w\<lparr>tw_data_out := tw_data_out w @ wire, tw_data_in := [Bytes [10], Bytes [20, 30]]\<rparr>"
  have fr: "data_read_frame 100000 ?w1 = (?w2, Ok \<lparr>type_code = 0x22, frame_payload = [3]\<rparr>)"
    by (simp add: data_read_frame_def assms(4) sample_frame)
  have pc: "receive_piece sample_env ?S sample_fresh \<lparr>type_code = 0x22, frame_payload = [3]\<rparr> ?w2 =
      (?w2\<lparr>tw_data_in := [], tw_files := (tw_files w)(pf \<mapsto> sample_content)\<rparr>, Ok res)"
    using sample_piece [OF _ _ _ res(1), of ?w2 pf] assms(1,3) by simp
  have "receive_batch sample_env ?S 1 0 0 sample_fresh ?w1 =
      (?w2\<lparr>tw_data_in := [], tw_files := (tw_files w)(pf \<mapsto> sample_content)\<rparr>, Ok (res, 0))"
    by (subst receive_batch.simps) (simp add: S fr code pc res(2))
  then have "receive_loop sample_env ?S 0 sample_fresh w = receive_loop sample_env ?S 0 res (?w2\<lparr>tw_data_in := [], tw_files := (tw_files w)(pf \<mapsto> sample_content)\<rparr>)"
    by (subst receive_loop.simps) (simp add: sample_ask ask)
  also have "\<dots> = (w\<lparr>tw_data_out := tw_data_out w @ wire, tw_data_in := [], tw_files := (tw_files w)(pf \<mapsto> sample_content)\<rparr>, Ok res)"
    using res(2) by (subst receive_loop.simps) simp
  finally show ?thesis using res(2) by blast
qed

lemma sample_inner:
  assumes "tw_files sample_world pf = None" and "pf \<noteq> sample_path"
  shows "snd (receive_file_inner sample_env (session_of sample_receive pf) sample_world) = Ok sample_path"
proof -
  let ?S = "session_of sample_receive pf" and ?w1 = "sample_world\<lparr>tw_files := (tw_files sample_world)(pf \<mapsto> [])\<rparr>"
  have w: "tw_vfs_faults sample_world = []" "tw_send_faults sample_world = []" "tw_files sample_world sample_path = None"
    "tw_data_in sample_world = [Bytes [0, 0], Bytes [0, 2, 0x22, 3, 10], Bytes [20, 30]]"
    by (simp_all add: sample_world_def)
  have S: "rv_partial_file_rel ?S = pf" "rv_item_id ?S = sample_item_id" "rv_total_bytes ?S = 3" "rv_max_frame_size ?S = 100000"
    "rv_dest_rel_path ?S = sample_path"
    by (simp_all add: session_of_def sample_receive_def)
  have op: "lift_vfs (vfs_open_write pf) sample_world = (?w1, Ok ())"
    using assms(1) w by (simp add: lift_vfs_def vfs_open_write_def vfs_op_def)
  have start: "start_resumption ?S ?w1 = (?w1, Ok sample_fresh)"
    using w by (simp add: start_resumption_def S vfs_stat_def vfs_op_def sample_start)
  obtain res wire where res: "is_item_complete res" and lp: "receive_loop sample_env ?S 0 sample_fresh ?w1 =
      (?w1\<lparr>tw_data_out := tw_data_out ?w1 @ wire, tw_data_in := [], tw_files := (tw_files ?w1)(pf \<mapsto> sample_content)\<rparr>, Ok res)"
    using sample_loop [of ?w1 pf] w by auto
  obtain done_wire where dw: "encode_item_complete_frame (re_prost sample_env) \<lparr>ic_transfer_id = rv_transfer_id ?S, ic_item_id = rv_item_id ?S,
      ic_verified = True, ic_final_path = Some sample_path\<rparr> (rv_max_frame_size ?S) = Ok done_wire" unfolding S using sample_encodes(2) by blast
  let ?w2 = "?w1\<lparr>tw_data_out := tw_data_out ?w1 @ wire, tw_data_in := [], tw_files := (tw_files ?w1)(pf \<mapsto> sample_content)\<rparr>"
  have "place_verified_file sample_env (rv_root ?S) pf sample_path ?w2 = (?w2\<lparr>tw_files := (tw_files ?w2)(pf := None, sample_path \<mapsto> sample_content)\<rparr>, Ok sample_path)"
    by (rule sample_place) (use w assms(2) in simp_all)
  then have "snd (conclude sample_env ?S res ?w2) = Ok sample_path"
    using res w(2) by (simp only: conclude_def S send_item_complete_def dw if_False not_True_eq_False)
      (simp add: then_op_def data_finish_def control_write_all_def send_op_def pure_op_def dw [unfolded S])
  then show ?thesis
    using op start lp by (simp add: receive_file_inner_def S then_op_def)
qed

theorem receive_file_authentic_witness:
  "\<exists>w'. receive_file sample_env sample_receive sample_world = (w', Ok sample_path) \<and>
     tw_files w' sample_path = Some [10, 20, 30] \<and> tw_files w' \<lparr>rel_path_value = [97]\<rparr> = Some [1]"
proof -
  obtain pd pf where paths: "partial_dir_rel_path sample_transfer_id = Some pd" "partial_file_rel_path sample_transfer_id sample_item_id = Some pf"
    using partial_paths [of sample_item_id sample_transfer_id] sample_ids_ok by (auto simp: ids_ok_def)
  have other: "pf \<noteq> sample_path" "pf \<noteq> \<lparr>rel_path_value = [97]\<rparr>" "pd \<noteq> sample_path" "pd \<noteq> \<lparr>rel_path_value = [97]\<rparr>"
    using sample_staging paths by auto
  then have none: "tw_files sample_world pf = None" by (simp add: sample_world_def)
  obtain w' where run: "receive_file sample_env sample_receive sample_world = (w', Ok sample_path)"
    using sample_inner [OF none other(1)] paths
    by (cases "receive_file_inner sample_env (session_of sample_receive pf) sample_world")
      (simp add: receive_file_def sample_receive_def lift_vfs_def vfs_create_dir_def vfs_op_def sample_world_def)
  have "decoder_sound (re_bao sample_env) (rq_content_hash sample_receive) sample_content"
    using sample_decoder_sound by (simp add: sample_env_def)
  from receive_file_authentic [OF this, of "[]" sample_world w' "Ok sample_path"] run paths none other
  show ?thesis
    by (auto simp: leftover_of_def sample_receive_def sample_content_def sample_world_def split: if_splits)
qed

section \<open>What a leftover file is trusted with\<close>








end
