(* ===== verification/Hpke.thy ===== *)
theory Hpke
  imports Key_Store Framing
begin

text \<open>
  Hybrid public-key encryption in base mode (\<open>tradr-identity/src/hpke.rs\<close>): the labelled
  key derivation, the key schedule, setting up a sender and a receiver, and the two contexts that
  number their messages. The curve, HKDF and the AEAD are other crates'; the records \<open>p256\<close>
  and \<open>hpke_prims\<close> hold the functions the code calls, and \<open>hpke_ok\<close> states what their
  documentation promises. The results are that a context never encrypts two messages it hands out
  under one nonce, and that a receiver opens what a sender sealed, message by message.
\<close>

unbundle bit_operations_syntax

section \<open>Sixty-four bit integers in network order\<close>

definition u64_to_be_bytes :: "u64 \<Rightarrow> u8 list" where
  "u64_to_be_bytes x =
     [ucast (drop_bit 56 x), ucast (drop_bit 48 x), ucast (drop_bit 40 x), ucast (drop_bit 32 x),
      ucast (drop_bit 24 x), ucast (drop_bit 16 x), ucast (drop_bit 8 x), ucast x]"

definition u64_from_be_bytes :: "u8 list \<Rightarrow> u64" where
  "u64_from_be_bytes b =
     push_bit 56 (ucast (b ! 0)) OR push_bit 48 (ucast (b ! 1)) OR push_bit 40 (ucast (b ! 2)) OR
     push_bit 32 (ucast (b ! 3)) OR push_bit 24 (ucast (b ! 4)) OR push_bit 16 (ucast (b ! 5)) OR
     push_bit 8 (ucast (b ! 6)) OR ucast (b ! 7)"

lemma length_u64_to_be_bytes [simp]: "length (u64_to_be_bytes x) = 8"
  by (simp add: u64_to_be_bytes_def)

lemma u64_from_to_be_bytes [simp]: "u64_from_be_bytes (u64_to_be_bytes x) = x"
proof (rule bit_word_eqI)
  fix n assume n: "n < LENGTH(64)"
  have byte: "bit (push_bit k (ucast (ucast (drop_bit k x) :: u8)) :: u64) n \<longleftrightarrow> k \<le> n \<and> n < k + 8 \<and> bit x n" for k
    using n by (auto simp: bit_simps)
  have low: "bit (ucast (ucast x :: u8) :: u64) n \<longleftrightarrow> n < 8 \<and> bit x n"
    using n by (auto simp: bit_simps)
  have parts: "u64_from_be_bytes (u64_to_be_bytes x) =
      push_bit 56 (ucast (ucast (drop_bit 56 x) :: u8)) OR push_bit 48 (ucast (ucast (drop_bit 48 x) :: u8)) OR
      push_bit 40 (ucast (ucast (drop_bit 40 x) :: u8)) OR push_bit 32 (ucast (ucast (drop_bit 32 x) :: u8)) OR
      push_bit 24 (ucast (ucast (drop_bit 24 x) :: u8)) OR push_bit 16 (ucast (ucast (drop_bit 16 x) :: u8)) OR
      push_bit 8 (ucast (ucast (drop_bit 8 x) :: u8)) OR ucast (ucast x :: u8)"
    by (simp add: u64_from_be_bytes_def u64_to_be_bytes_def)
  show "bit (u64_from_be_bytes (u64_to_be_bytes x)) n = bit x n"
    unfolding parts by (simp only: bit_or_iff byte low) (use n in auto)
qed

lemma u64_to_be_bytes_inject [simp]: "u64_to_be_bytes x = u64_to_be_bytes y \<longleftrightarrow> x = y"
  by (metis u64_from_to_be_bytes)

section \<open>What the code calls\<close>

record hpke_prims =
  hkdf_extract :: "u8 list option \<Rightarrow> u8 list \<Rightarrow> u8 list" \<comment> \<open>salt, input key material\<close>
  hkdf_expand :: "u8 list \<Rightarrow> u8 list \<Rightarrow> nat \<Rightarrow> u8 list option" \<comment> \<open>key, info, length\<close>
  aead_encrypt :: "u8 list \<Rightarrow> u8 list \<Rightarrow> u8 list \<Rightarrow> u8 list \<Rightarrow> u8 list option" \<comment> \<open>key, nonce, associated data, message\<close>
  aead_decrypt :: "u8 list \<Rightarrow> u8 list \<Rightarrow> u8 list \<Rightarrow> u8 list \<Rightarrow> u8 list option"
  ecdh :: "u8 list \<Rightarrow> u8 list \<Rightarrow> u8 list" \<comment> \<open>scalar, point\<close>

abbreviation (input) "TAG_LEN \<equiv> (16 :: nat)"

text \<open>
  Key derivation yields as many bytes as asked for, decryption undoes encryption and a
  ciphertext is the message and a tag, the two ends of a key agreement compute the same secret,
  and the points of keys are uncompressed.
\<close>

definition hpke_ok :: "p256 \<Rightarrow> hpke_prims \<Rightarrow> bool" where
  "hpke_ok C P \<longleftrightarrow> p256_ok C \<and>
     (\<forall>s m. length (hkdf_extract P s m) = 32) \<and>
     (\<forall>k i n. length k = 32 \<and> n \<le> 255 * 32 \<longrightarrow> (\<exists>bs. hkdf_expand P k i n = Some bs \<and> length bs = n)) \<and>
     (\<forall>k n a m. length k = 32 \<and> length n = 12 \<longrightarrow>
        (\<exists>c. aead_encrypt P k n a m = Some c \<and> length c = length m + TAG_LEN \<and> aead_decrypt P k n a c = Some m)) \<and>
     (\<forall>x y. scalar_valid C x \<and> scalar_valid C y \<longrightarrow>
        length (ecdh P x (point_of C y)) = 32 \<and> ecdh P x (point_of C y) = ecdh P y (point_of C x)) \<and>
     (\<forall>x. scalar_valid C x \<longrightarrow> hd (point_of C x) = 4)"

section \<open>Contexts\<close>

datatype hpke_error =
    OpenFailed
  | SealFailed
  | InvalidPoint
  | InvalidScalar
  | Agreement key_store_error
  | InvalidSharedSecretLength nat
  | Hpke_Rng
  | Hpke_RngExhausted
  | KdfFailed
  | ExportLengthTooLarge
  | MessageLimitReached

text \<open>\<open>SenderContext\<close> and \<open>ReceiverContext\<close>, which have the same fields and the same helpers.\<close>

record hpke_context =
  hc_key :: "u8 list"
  hc_base_nonce :: "u8 list"
  hc_seq :: u64
  hc_exporter_secret :: "u8 list"
  hc_overflowed :: bool

definition compute_nonce :: "hpke_context \<Rightarrow> (u8 list, hpke_error) result" where
  "compute_nonce ctx =
     (if hc_overflowed ctx then Err MessageLimitReached
      else Ok (fold (\<lambda>(i, b) nonce. nonce[4 + i := nonce ! (4 + i) XOR b])
             (List.enumerate 0 (u64_to_be_bytes (hc_seq ctx))) (hc_base_nonce ctx)))"

definition increment_seq :: "hpke_context \<Rightarrow> hpke_context \<times> (unit, hpke_error) result" where
  "increment_seq ctx =
     (if hc_seq ctx = - 1 then (ctx\<lparr>hc_overflowed := True\<rparr>, Err MessageLimitReached)
      else (ctx\<lparr>hc_seq := hc_seq ctx + 1\<rparr>, Ok ()))"

definition hpke_seal ::
    "hpke_prims \<Rightarrow> hpke_context \<Rightarrow> u8 list \<Rightarrow> u8 list \<Rightarrow> hpke_context \<times> (u8 list, hpke_error) result" where
  "hpke_seal P ctx aad pt =
     (if hc_overflowed ctx then (ctx, Err MessageLimitReached)
      else case compute_nonce ctx of
        Err e \<Rightarrow> (ctx, Err e)
      | Ok nonce \<Rightarrow>
          (case aead_encrypt P (hc_key ctx) nonce aad pt of
             None \<Rightarrow> (ctx, Err SealFailed)
           | Some ct \<Rightarrow>
               (case increment_seq ctx of (ctx', Err e) \<Rightarrow> (ctx', Err e) | (ctx', Ok _) \<Rightarrow> (ctx', Ok ct))))"

definition hpke_open ::
    "hpke_prims \<Rightarrow> hpke_context \<Rightarrow> u8 list \<Rightarrow> u8 list \<Rightarrow> hpke_context \<times> (u8 list, hpke_error) result" where
  "hpke_open P ctx aad ct =
     (if hc_overflowed ctx then (ctx, Err MessageLimitReached)
      else case compute_nonce ctx of
        Err e \<Rightarrow> (ctx, Err e)
      | Ok nonce \<Rightarrow>
          (case aead_decrypt P (hc_key ctx) nonce aad ct of
             None \<Rightarrow> (ctx, Err OpenFailed)
           | Some pt \<Rightarrow>
               (case increment_seq ctx of (ctx', Err e) \<Rightarrow> (ctx', Err e) | (ctx', Ok _) \<Rightarrow> (ctx', Ok pt))))"

section \<open>Key derivation\<close>

definition KEM_SUITE_ID :: "u8 list" where
  "KEM_SUITE_ID = str_bytes (lit ''KEM'') @ [0x00, 0x10]"

definition HPKE_SUITE_ID :: "u8 list" where
  "HPKE_SUITE_ID = str_bytes (lit ''HPKE'') @ [0x00, 0x10, 0x00, 0x01, 0x00, 0x03]"

definition HPKE_VERSION_LABEL :: "u8 list" where
  "HPKE_VERSION_LABEL = str_bytes (lit ''HPKE-v1'')"

definition parse_uncompressed_point :: "p256 \<Rightarrow> u8 list \<Rightarrow> (u8 list, hpke_error) result" where
  "parse_uncompressed_point C bytes =
     (if bytes = [] \<or> hd bytes \<noteq> 0x04 then Err InvalidPoint
      else if point_valid C bytes then Ok bytes
      else Err InvalidPoint)"

definition labeled_extract :: "hpke_prims \<Rightarrow> u8 list \<Rightarrow> u8 list \<Rightarrow> u8 list \<Rightarrow> u8 list \<Rightarrow> u8 list" where
  "labeled_extract P suite_id salt label ikm =
     hkdf_extract P (if salt = [] then None else Some salt) (HPKE_VERSION_LABEL @ suite_id @ label @ ikm)"

definition labeled_expand ::
    "hpke_prims \<Rightarrow> u8 list \<Rightarrow> u8 list \<Rightarrow> u8 list \<Rightarrow> u8 list \<Rightarrow> nat \<Rightarrow> (u8 list, hpke_error) result" where
  "labeled_expand P suite_id prk label info len =
     (if len > 255 * 32 then Err ExportLengthTooLarge
      else if len > 65535 then Err ExportLengthTooLarge
      else case hkdf_expand P prk
                  (u16_to_be_bytes (of_nat len) @ HPKE_VERSION_LABEL @ suite_id @ label @ info) len of
        None \<Rightarrow> Err KdfFailed
      | Some okm \<Rightarrow> Ok okm)"

definition labeled_expand_32 ::
    "hpke_prims \<Rightarrow> u8 list \<Rightarrow> u8 list \<Rightarrow> u8 list \<Rightarrow> u8 list \<Rightarrow> (u8 list, hpke_error) result" where
  "labeled_expand_32 P suite_id prk label info =
     (case labeled_expand P suite_id prk label info 32 of
        Err e \<Rightarrow> Err e
      | Ok bytes \<Rightarrow> if length bytes \<noteq> 32 then Err KdfFailed else Ok bytes)"

definition labeled_expand_12 ::
    "hpke_prims \<Rightarrow> u8 list \<Rightarrow> u8 list \<Rightarrow> u8 list \<Rightarrow> u8 list \<Rightarrow> (u8 list, hpke_error) result" where
  "labeled_expand_12 P suite_id prk label info =
     (case labeled_expand P suite_id prk label info 12 of
        Err e \<Rightarrow> Err e
      | Ok bytes \<Rightarrow> if length bytes \<noteq> 12 then Err KdfFailed else Ok bytes)"

definition hpke_export ::
    "hpke_prims \<Rightarrow> hpke_context \<Rightarrow> u8 list \<Rightarrow> nat \<Rightarrow> (u8 list, hpke_error) result" where
  "hpke_export P ctx exporter_context len =
     labeled_expand P HPKE_SUITE_ID (hc_exporter_secret ctx) (str_bytes (lit ''sec'')) exporter_context len"

record key_schedule_material =
  ksm_key :: "u8 list"
  ksm_base_nonce :: "u8 list"
  ksm_exporter_secret :: "u8 list"

definition key_schedule :: "hpke_prims \<Rightarrow> u8 list \<Rightarrow> u8 list \<Rightarrow> (key_schedule_material, hpke_error) result" where
  "key_schedule P shared_secret info =
     (let psk_id_hash = labeled_extract P HPKE_SUITE_ID [] (str_bytes (lit ''psk_id_hash'')) [];
          info_hash = labeled_extract P HPKE_SUITE_ID [] (str_bytes (lit ''info_hash'')) info;
          key_schedule_context = 0x00 # psk_id_hash @ info_hash;
          secret = labeled_extract P HPKE_SUITE_ID shared_secret (str_bytes (lit ''secret'')) [] in
      case labeled_expand_32 P HPKE_SUITE_ID secret (str_bytes (lit ''key'')) key_schedule_context of
        Err e \<Rightarrow> Err e
      | Ok key \<Rightarrow>
      (case labeled_expand_12 P HPKE_SUITE_ID secret (str_bytes (lit ''base_nonce'')) key_schedule_context of
        Err e \<Rightarrow> Err e
      | Ok base_nonce \<Rightarrow>
      (case labeled_expand_32 P HPKE_SUITE_ID secret (str_bytes (lit ''exp'')) key_schedule_context of
        Err e \<Rightarrow> Err e
      | Ok exporter_secret \<Rightarrow>
          Ok \<lparr>ksm_key = key, ksm_base_nonce = base_nonce, ksm_exporter_secret = exporter_secret\<rparr>)))"

section \<open>Setting up\<close>

definition context_of :: "key_schedule_material \<Rightarrow> hpke_context" where
  "context_of m = \<lparr>hc_key = ksm_key m, hc_base_nonce = ksm_base_nonce m, hc_seq = 0,
     hc_exporter_secret = ksm_exporter_secret m, hc_overflowed = False\<rparr>"

definition setup_base_sender_with_ephemeral ::
    "p256 \<Rightarrow> hpke_prims \<Rightarrow> public_key_point \<Rightarrow> u8 list \<Rightarrow> u8 list \<Rightarrow> (u8 list \<times> hpke_context, hpke_error) result" where
  "setup_base_sender_with_ephemeral C P pk_r sk_e info =
     (case parse_uncompressed_point C (point_bytes pk_r) of
        Err e \<Rightarrow> Err e
      | Ok pk_r_parsed \<Rightarrow>
          if \<not> scalar_valid C sk_e then Err InvalidScalar
          else
            let enc = point_of C sk_e in
            if length enc \<noteq> 65 then Err InvalidPoint
            else
              let dh_bytes = ecdh P sk_e pk_r_parsed;
                  kem_context = enc @ point_bytes pk_r;
                  eae_prk = labeled_extract P KEM_SUITE_ID [] (str_bytes (lit ''eae_prk'')) dh_bytes in
              (case labeled_expand_32 P KEM_SUITE_ID eae_prk (str_bytes (lit ''shared_secret'')) kem_context of
                 Err e \<Rightarrow> Err e
               | Ok shared_secret \<Rightarrow>
                   (case key_schedule P shared_secret info of
                      Err e \<Rightarrow> Err e
                    | Ok material \<Rightarrow> Ok (enc, context_of material))))"

text \<open>\<open>left\<close> counts the draws that remain of \<open>SCALAR_DRAW_LIMIT\<close>.\<close>

fun draw_ephemeral ::
    "nat \<Rightarrow> p256 \<Rightarrow> hpke_prims \<Rightarrow> public_key_point \<Rightarrow> rng \<Rightarrow> u8 list \<Rightarrow> (u8 list \<times> hpke_context, hpke_error) result" where
  "draw_ephemeral 0 C P pk_r rng info = Err Hpke_RngExhausted"
| "draw_ephemeral (Suc left) C P pk_r [] info = Err Hpke_Rng"
| "draw_ephemeral (Suc left) C P pk_r (None # rng) info = Err Hpke_Rng"
| "draw_ephemeral (Suc left) C P pk_r (Some bytes # rng) info =
     (if scalar_valid C bytes then setup_base_sender_with_ephemeral C P pk_r bytes info
      else draw_ephemeral left C P pk_r rng info)"

definition setup_base_sender ::
    "p256 \<Rightarrow> hpke_prims \<Rightarrow> public_key_point \<Rightarrow> rng \<Rightarrow> u8 list \<Rightarrow> (u8 list \<times> hpke_context, hpke_error) result" where
  "setup_base_sender C P pk_r rng info = draw_ephemeral SCALAR_DRAW_LIMIT C P pk_r rng info"

definition setup_base_receiver ::
    "p256 \<Rightarrow> hpke_prims \<Rightarrow> u8 list \<Rightarrow> public_key_point \<Rightarrow> u8 list \<Rightarrow>
      (public_key_point \<Rightarrow> (u8 list, key_store_error) result) \<Rightarrow> (hpke_context, hpke_error) result" where
  "setup_base_receiver C P enc pk_r info agree =
     (if \<not> is_ok (parse_uncompressed_point C enc) then Err InvalidPoint
      else if \<not> is_ok (parse_uncompressed_point C (point_bytes pk_r)) then Err InvalidPoint
      else case public_key_point_from_bytes enc of
        Err _ \<Rightarrow> Err InvalidPoint
      | Ok enc_point \<Rightarrow>
          (case agree enc_point of
             Err e \<Rightarrow> Err (Agreement e)
           | Ok dh_bytes \<Rightarrow>
               if length dh_bytes \<noteq> 32 then Err (InvalidSharedSecretLength (length dh_bytes))
               else
                 let kem_context = enc @ point_bytes pk_r;
                     eae_prk = labeled_extract P KEM_SUITE_ID [] (str_bytes (lit ''eae_prk'')) dh_bytes in
                 (case labeled_expand_32 P KEM_SUITE_ID eae_prk (str_bytes (lit ''shared_secret'')) kem_context of
                    Err e \<Rightarrow> Err e
                  | Ok shared_secret \<Rightarrow>
                      (case key_schedule P shared_secret info of
                         Err e \<Rightarrow> Err e
                       | Ok material \<Rightarrow> Ok (context_of material)))))"

section \<open>Nonces\<close>

text \<open>The nonce of the message number \<open>s\<close>: the base nonce with its last eight bytes masked.\<close>

definition nonce_at :: "u8 list \<Rightarrow> u64 \<Rightarrow> u8 list" where
  "nonce_at base s = take 4 base @ map2 (XOR) (drop 4 base) (u64_to_be_bytes s)"

lemma compute_nonce_eq:
  assumes "length (hc_base_nonce ctx) = 12" and "\<not> hc_overflowed ctx"
  shows "compute_nonce ctx = Ok (nonce_at (hc_base_nonce ctx) (hc_seq ctx))"
proof -
  obtain b0 b1 b2 b3 b4 b5 b6 b7 b8 b9 b10 b11 where b: "hc_base_nonce ctx = [b0, b1, b2, b3, b4, b5, b6, b7, b8, b9, b10, b11]"
    using assms(1) by (auto simp: length_Suc_conv eval_nat_numeral)
  show ?thesis using assms(2) by (simp add: compute_nonce_def nonce_at_def b u64_to_be_bytes_def)
qed

lemma map2_xor_inject:
  fixes xs :: "'a::len word list"
  assumes "length xs = length ys" and "length ys = length zs" and "map2 (XOR) xs ys = map2 (XOR) xs zs"
  shows "ys = zs"
  using assms
proof (induction xs ys zs rule: list_induct3)
  case (Cons x xs y ys z zs)
  then have "x XOR (x XOR y) = x XOR (x XOR z)" by simp
  then have "y = z" by (simp add: xor.assoc [symmetric])
  with Cons show ?case by simp
qed simp

lemma nonce_at_inject: "length base = 12 \<Longrightarrow> nonce_at base s = nonce_at base t \<Longrightarrow> s = t"
  using map2_xor_inject [of "drop 4 base" "u64_to_be_bytes s" "u64_to_be_bytes t"] by (simp add: nonce_at_def)

lemma hpke_seal_Ok:
  assumes "length (hc_base_nonce ctx) = 12" and "hpke_seal P ctx aad pt = (ctx', Ok ct)"
  shows "\<not> hc_overflowed ctx" and "hc_seq ctx \<noteq> - 1" and "ctx' = ctx\<lparr>hc_seq := hc_seq ctx + 1\<rparr>"
    and "aead_encrypt P (hc_key ctx) (nonce_at (hc_base_nonce ctx) (hc_seq ctx)) aad pt = Some ct"
  using assms by (auto simp: hpke_seal_def increment_seq_def compute_nonce_eq split: if_splits option.splits)

lemma hpke_seal_Err:
  assumes "hpke_seal P ctx aad pt = (ctx', Err e)"
  shows "hc_seq ctx' = hc_seq ctx" and "hc_base_nonce ctx' = hc_base_nonce ctx" and "hc_key ctx' = hc_key ctx"
  using assms by (auto simp: hpke_seal_def increment_seq_def split: if_splits option.splits result.splits)

text \<open>
  A history of calls of \<open>seal\<close> on one context: for each call that handed a ciphertext out, the
  nonce the cipher was run with, the arguments and the ciphertext. The nonce is observed where it is
  used: \<open>reporting\<close> is the same cipher except that it answers with the nonce it was given.
\<close>

definition reporting :: "hpke_prims \<Rightarrow> hpke_prims" where
  "reporting P = P\<lparr>aead_encrypt := (\<lambda>key nonce aad pt. map_option (\<lambda>_. nonce) (aead_encrypt P key nonce aad pt))\<rparr>"

fun seal_history ::
    "hpke_prims \<Rightarrow> hpke_context \<Rightarrow> (u8 list \<times> u8 list) list \<Rightarrow> (u8 list \<times> u8 list \<times> u8 list \<times> u8 list) list" where
  "seal_history P ctx [] = []"
| "seal_history P ctx ((aad, pt) # calls) =
     (case hpke_seal P ctx aad pt of
        (ctx', Ok ct) \<Rightarrow>
          (case snd (hpke_seal (reporting P) ctx aad pt) of
             Ok nonce \<Rightarrow> (nonce, aad, pt, ct) # seal_history P ctx' calls
           | Err e \<Rightarrow> seal_history P ctx' calls)
      | (ctx', Err e) \<Rightarrow> seal_history P ctx' calls)"

text \<open>The ciphertexts that were handed out.\<close>

fun seal_outputs :: "hpke_prims \<Rightarrow> hpke_context \<Rightarrow> (u8 list \<times> u8 list) list \<Rightarrow> u8 list list" where
  "seal_outputs P ctx [] = []"
| "seal_outputs P ctx ((aad, pt) # calls) =
     (case hpke_seal P ctx aad pt of
        (ctx', Ok ct) \<Rightarrow> ct # seal_outputs P ctx' calls
      | (ctx', Err e) \<Rightarrow> seal_outputs P ctx' calls)"

lemma reported_nonce:
  assumes "length (hc_base_nonce ctx) = 12" and "hpke_seal P ctx aad pt = (ctx', Ok ct)"
  shows "snd (hpke_seal (reporting P) ctx aad pt) = Ok (nonce_at (hc_base_nonce ctx) (hc_seq ctx))"
  using hpke_seal_Ok [OF assms] assms(1)
  by (simp add: hpke_seal_def reporting_def increment_seq_def compute_nonce_eq)

lemma unat_Suc_word:
  fixes x :: "'a::len word"
  assumes "x \<noteq> - 1"
  shows "unat (x + 1) = unat x + 1"
proof -
  have "1 + x \<noteq> 0" using assms by (metis add_eq_0_iff)
  from unatSuc [OF this] show ?thesis by (simp add: add.commute)
qed

lemma seal_history_numbers:
  assumes "length (hc_base_nonce ctx) = 12" and "(n, aad, pt, ct) \<in> set (seal_history P ctx calls)"
  shows "\<exists>s. unat (hc_seq ctx) \<le> unat s \<and> n = nonce_at (hc_base_nonce ctx) s \<and> aead_encrypt P (hc_key ctx) n aad pt = Some ct"
  using assms
proof (induction calls arbitrary: ctx)
  case (Cons call calls)
  obtain a m where call: "call = (a, m)" by fastforce
  obtain ctx' r where s: "hpke_seal P ctx a m = (ctx', r)" by fastforce
  show ?case
  proof (cases r)
    case (Ok c)
    note ok = hpke_seal_Ok [OF Cons.prems(1) s [unfolded Ok]] and nonce = reported_nonce [OF Cons.prems(1) s [unfolded Ok]]
    have u: "unat (hc_seq ctx') = unat (hc_seq ctx) + 1" "hc_base_nonce ctx' = hc_base_nonce ctx" "hc_key ctx' = hc_key ctx"
      using ok(2,3) by (simp_all add: unat_Suc_word)
    have "(n, aad, pt, ct) = (nonce_at (hc_base_nonce ctx) (hc_seq ctx), a, m, c) \<or> (n, aad, pt, ct) \<in> set (seal_history P ctx' calls)"
      using Cons.prems(2) s Ok nonce by (simp add: call)
    then show ?thesis
      using Cons.IH [of ctx'] Cons.prems(1) u ok(4) by (auto intro: exI [of _ "hc_seq ctx"] dest: Suc_leD)
  next
    case (Err e)
    note err = hpke_seal_Err [OF s [unfolded Err]]
    show ?thesis using Cons.IH [of ctx'] Cons.prems s Err err by (simp add: call)
  qed
qed simp

lemma seal_history_distinct:
  assumes "length (hc_base_nonce ctx) = 12"
  shows "distinct (map fst (seal_history P ctx calls)) \<and> map (\<lambda>(n, aad, pt, ct). ct) (seal_history P ctx calls) = seal_outputs P ctx calls"
  using assms
proof (induction calls arbitrary: ctx)
  case (Cons call calls)
  obtain aad pt where call: "call = (aad, pt)" by fastforce
  obtain ctx' r where s: "hpke_seal P ctx aad pt = (ctx', r)" by fastforce
  show ?case
  proof (cases r)
    case (Ok c)
    note ok = hpke_seal_Ok [OF Cons.prems s [unfolded Ok]] and nonce = reported_nonce [OF Cons.prems s [unfolded Ok]]
    have u: "unat (hc_seq ctx') = unat (hc_seq ctx) + 1" "hc_base_nonce ctx' = hc_base_nonce ctx"
      using ok(2,3) by (simp_all add: unat_Suc_word)
    have "nonce_at (hc_base_nonce ctx) (hc_seq ctx) \<notin> fst ` set (seal_history P ctx' calls)"
    proof
      assume "nonce_at (hc_base_nonce ctx) (hc_seq ctx) \<in> fst ` set (seal_history P ctx' calls)"
      then obtain t where "unat (hc_seq ctx') \<le> unat t" "nonce_at (hc_base_nonce ctx) (hc_seq ctx) = nonce_at (hc_base_nonce ctx) t"
        using seal_history_numbers [of ctx'] Cons.prems u(2) by fastforce
      then show False using nonce_at_inject [OF Cons.prems] u(1) by fastforce
    qed
    then show ?thesis using Cons.IH [of ctx'] Cons.prems u(2) s Ok nonce by (simp add: call)
  next
    case (Err e)
    then show ?thesis using Cons.IH [of ctx'] Cons.prems s hpke_seal_Err [OF s [unfolded Err]] by (simp add: call)
  qed
qed simp

text \<open>
  Property C13. On one context no two ciphertexts are made under the same nonce, whatever is
  sealed, in whatever order, and however many calls fail in between: the nonces the cipher was run
  with for the ciphertexts handed out are all different, and each of these ciphertexts is the
  encryption, under its own nonce and the key of the context, of what the call was given. In
  particular the counter does not wrap.
\<close>

theorem nonces_never_repeat:
  assumes "length (hc_base_nonce ctx) = 12"
  shows "distinct (map fst (seal_history P ctx calls)) \<and>
    map (\<lambda>(nonce, aad, pt, ct). ct) (seal_history P ctx calls) = seal_outputs P ctx calls \<and>
    (\<forall>(nonce, aad, pt, ct) \<in> set (seal_history P ctx calls). aead_encrypt P (hc_key ctx) nonce aad pt = Some ct)"
  using seal_history_distinct [OF assms] seal_history_numbers [OF assms] by blast

section \<open>Sealing and opening\<close>

text \<open>A context as the key schedule makes it, with \<open>n\<close> messages behind it.\<close>

definition context_wf :: "hpke_context \<Rightarrow> bool" where
  "context_wf ctx \<longleftrightarrow> length (hc_key ctx) = 32 \<and> length (hc_base_nonce ctx) = 12 \<and> \<not> hc_overflowed ctx"

lemma seal_open:
  assumes "hpke_ok C P" and "context_wf ctx" and "hc_seq ctx \<noteq> - 1"
  shows "\<exists>ct. hpke_seal P ctx aad pt = (ctx\<lparr>hc_seq := hc_seq ctx + 1\<rparr>, Ok ct) \<and> length ct = length pt + TAG_LEN \<and>
    hpke_open P ctx aad ct = (ctx\<lparr>hc_seq := hc_seq ctx + 1\<rparr>, Ok pt) \<and> context_wf (ctx\<lparr>hc_seq := hc_seq ctx + 1\<rparr>)"
proof -
  let ?n = "nonce_at (hc_base_nonce ctx) (hc_seq ctx)"
  have "length ?n = 12" using assms(2) by (simp add: nonce_at_def context_wf_def)
  then obtain ct where "aead_encrypt P (hc_key ctx) ?n aad pt = Some ct" "length ct = length pt + TAG_LEN"
    "aead_decrypt P (hc_key ctx) ?n aad ct = Some pt"
    using assms(1,2) unfolding hpke_ok_def context_wf_def by blast
  then show ?thesis
    using assms(2,3)
    by (intro exI [of _ ct]) (simp add: hpke_seal_def hpke_open_def context_wf_def compute_nonce_eq increment_seq_def)
qed

lemma labeled_expand_ok:
  assumes "hpke_ok C P" and "length prk = 32"
  shows "\<exists>bs. labeled_expand_32 P suite prk label info = Ok bs \<and> length bs = 32"
    and "\<exists>bs. labeled_expand_12 P suite prk label info = Ok bs \<and> length bs = 12"
proof -
  have "\<exists>bs. hkdf_expand P prk i n = Some bs \<and> length bs = n" if "n \<le> 8160" for i n
    using assms that by (simp add: hpke_ok_def)
  from this [of 32] this [of 12]
  show "\<exists>bs. labeled_expand_32 P suite prk label info = Ok bs \<and> length bs = 32"
    "\<exists>bs. labeled_expand_12 P suite prk label info = Ok bs \<and> length bs = 12"
    unfolding labeled_expand_32_def labeled_expand_12_def labeled_expand_def
    by (fastforce split: option.split)+
qed

lemma key_schedule_ok:
  assumes "hpke_ok C P"
  shows "\<exists>m. key_schedule P shared info = Ok m \<and> length (ksm_key m) = 32 \<and> length (ksm_base_nonce m) = 12"
proof -
  have e: "length (labeled_extract P suite salt label ikm) = 32" for suite salt label ikm
    using assms by (simp add: hpke_ok_def labeled_extract_def)
  let ?s = "labeled_extract P HPKE_SUITE_ID shared (str_bytes (lit ''secret'')) []"
  let ?c = "0x00 # labeled_extract P HPKE_SUITE_ID [] (str_bytes (lit ''psk_id_hash'')) [] @
    labeled_extract P HPKE_SUITE_ID [] (str_bytes (lit ''info_hash'')) info"
  obtain k n x where "labeled_expand_32 P HPKE_SUITE_ID ?s (str_bytes (lit ''key'')) ?c = Ok k" "length k = 32"
    "labeled_expand_12 P HPKE_SUITE_ID ?s (str_bytes (lit ''base_nonce'')) ?c = Ok n" "length n = 12"
    "labeled_expand_32 P HPKE_SUITE_ID ?s (str_bytes (lit ''exp'')) ?c = Ok x"
    using labeled_expand_ok [OF assms e] by metis
  then show ?thesis by (simp add: key_schedule_def Let_def del: lit_simps)
qed

lemma setup_agrees:
  assumes ok: "hpke_ok C P" and sk: "scalar_valid C sk_e" and ak: "scalar_valid C ak"
    and pk: "pk_r = PublicKeyPoint (point_of C ak)" and agree: "\<And>p. agree p = Ok (ecdh P ak (point_bytes p))"
  shows "\<exists>ctx. setup_base_sender_with_ephemeral C P pk_r sk_e info = Ok (point_of C sk_e, ctx) \<and>
    setup_base_receiver C P (point_of C sk_e) pk_r info agree = Ok ctx \<and> context_wf ctx \<and> hc_seq ctx = 0 \<and>
    length (point_of C sk_e) = 65"
proof -
  have pt: "length (point_of C x) = 65 \<and> point_valid C (point_of C x) \<and> hd (point_of C x) = 4" if "scalar_valid C x" for x
    using ok that by (simp add: hpke_ok_def p256_ok_def)
  then have parse: "parse_uncompressed_point C (point_of C x) = Ok (point_of C x)" if "scalar_valid C x" for x
    using that by (fastforce simp: parse_uncompressed_point_def)
  have dh: "ecdh P ak (point_of C sk_e) = ecdh P sk_e (point_of C ak)" "length (ecdh P sk_e (point_of C ak)) = 32"
    using ok sk ak by (auto simp: hpke_ok_def)
  have "length (labeled_extract P suite salt label ikm) = 32" for suite salt label ikm
    using ok by (simp add: hpke_ok_def labeled_extract_def)
  then obtain ss where ss: "labeled_expand_32 P KEM_SUITE_ID
      (labeled_extract P KEM_SUITE_ID [] (str_bytes (lit ''eae_prk'')) (ecdh P sk_e (point_of C ak)))
      (str_bytes (lit ''shared_secret'')) (point_of C sk_e @ point_of C ak) = Ok ss"
    using labeled_expand_ok(1) [OF ok] by blast
  obtain m where m: "key_schedule P ss info = Ok m" "length (ksm_key m) = 32" "length (ksm_base_nonce m) = 12"
    using key_schedule_ok [OF ok] by blast
  have "setup_base_sender_with_ephemeral C P pk_r sk_e info = Ok (point_of C sk_e, context_of m)"
    using parse [OF ak] pt [OF sk] sk ss m(1)
    by (simp add: setup_base_sender_with_ephemeral_def pk Let_def del: lit_simps)
  moreover have "setup_base_receiver C P (point_of C sk_e) pk_r info agree = Ok (context_of m)"
    using parse [OF ak] parse [OF sk] pt [OF sk] ss m(1) dh
    by (simp add: setup_base_receiver_def pk Let_def agree public_key_point_from_bytes_def del: lit_simps)
  ultimately show ?thesis using m(2,3) pt [OF sk] by (auto simp: context_wf_def context_of_def)
qed

lemma setup_base_sender_draws:
  assumes "setup_base_sender C P pk_r rng info = Ok (enc, ctx)"
  shows "\<exists>sk. scalar_valid C sk \<and> setup_base_sender_with_ephemeral C P pk_r sk info = Ok (enc, ctx)"
proof -
  have "draw_ephemeral n C P pk_r rng info = Ok (enc, ctx) \<Longrightarrow>
      \<exists>sk. scalar_valid C sk \<and> setup_base_sender_with_ephemeral C P pk_r sk info = Ok (enc, ctx)" for n
    by (induction n C P pk_r rng info rule: draw_ephemeral.induct) (auto split: if_splits)
  then show ?thesis using assms by (simp add: setup_base_sender_def)
qed

lemma first_draw:
  "scalar_valid C sk \<Longrightarrow> setup_base_sender C P pk_r (Some sk # rng) info = setup_base_sender_with_ephemeral C P pk_r sk info"
  using draw_ephemeral.simps(4) [of 15 C P pk_r sk rng info] by (simp add: setup_base_sender_def)

text \<open>Sealing, and opening, a run of messages with their associated data.\<close>

fun seal_all :: "hpke_prims \<Rightarrow> hpke_context \<Rightarrow> (u8 list \<times> u8 list) list \<Rightarrow> (u8 list list, hpke_error) result" where
  "seal_all P ctx [] = Ok []"
| "seal_all P ctx ((aad, pt) # ms) =
     (case hpke_seal P ctx aad pt of
        (_, Err e) \<Rightarrow> Err e
      | (ctx', Ok ct) \<Rightarrow> (case seal_all P ctx' ms of Err e \<Rightarrow> Err e | Ok cts \<Rightarrow> Ok (ct # cts)))"

fun open_all :: "hpke_prims \<Rightarrow> hpke_context \<Rightarrow> (u8 list \<times> u8 list) list \<Rightarrow> (u8 list list, hpke_error) result" where
  "open_all P ctx [] = Ok []"
| "open_all P ctx ((aad, ct) # ms) =
     (case hpke_open P ctx aad ct of
        (_, Err e) \<Rightarrow> Err e
      | (ctx', Ok pt) \<Rightarrow> (case open_all P ctx' ms of Err e \<Rightarrow> Err e | Ok pts \<Rightarrow> Ok (pt # pts)))"

lemma seal_open_all:
  assumes "hpke_ok C P" and "context_wf ctx" and "unat (hc_seq ctx) + length ms < 2 ^ 64"
  shows "\<exists>cts. seal_all P ctx ms = Ok cts \<and> length cts = length ms \<and>
    open_all P ctx (zip (map fst ms) cts) = Ok (map snd ms)"
  using assms(2,3)
proof (induction ms arbitrary: ctx)
  case (Cons m ms)
  obtain aad pt where m: "m = (aad, pt)" by fastforce
  have "unat (hc_seq ctx) \<noteq> unat (- 1 :: u64)" using Cons.prems(2) by (simp add: unsigned_minus_1_eq_mask mask_eq_exp_minus_1)
  then have ne: "hc_seq ctx \<noteq> - 1" by metis
  let ?ctx = "ctx\<lparr>hc_seq := hc_seq ctx + 1\<rparr>"
  obtain ct where ct: "hpke_seal P ctx aad pt = (?ctx, Ok ct)" "hpke_open P ctx aad ct = (?ctx, Ok pt)" "context_wf ?ctx"
    using seal_open [OF assms(1) Cons.prems(1) ne] by blast
  moreover have "unat (hc_seq ?ctx) + length ms < 2 ^ 64" using Cons.prems(2) ne by (simp add: unat_Suc_word)
  ultimately obtain cts where "seal_all P ?ctx ms = Ok cts" "length cts = length ms"
    "open_all P ?ctx (zip (map fst ms) cts) = Ok (map snd ms)"
    using Cons.IH [of ?ctx] by blast
  then show ?case using ct by (intro exI [of _ "ct # cts"]) (simp add: m)
qed simp

text \<open>
  What a sender seals to a public key, the holder of that key opens. From the
  encapsulated key the receiver derives the sender's context, sealing never fails before the
  counter is used up, and every message opens to its plaintext, in order.
\<close>

theorem sealed_messages_open:
  assumes "hpke_ok C P" and "scalar_valid C ak" and "\<And>p. agree p = Ok (ecdh P ak (point_bytes p))"
    and "setup_base_sender C P (PublicKeyPoint (point_of C ak)) rng info = Ok (enc, ctx)"
    and "length ms < 2 ^ 64"
  shows "\<exists>ctx' cts. setup_base_receiver C P enc (PublicKeyPoint (point_of C ak)) info agree = Ok ctx' \<and>
    seal_all P ctx ms = Ok cts \<and> open_all P ctx' (zip (map fst ms) cts) = Ok (map snd ms)"
proof -
  obtain sk where sk: "scalar_valid C sk"
    "setup_base_sender_with_ephemeral C P (PublicKeyPoint (point_of C ak)) sk info = Ok (enc, ctx)"
    using setup_base_sender_draws [OF assms(4)] by blast
  obtain c where c: "setup_base_sender_with_ephemeral C P (PublicKeyPoint (point_of C ak)) sk info = Ok (point_of C sk, c)"
    "setup_base_receiver C P (point_of C sk) (PublicKeyPoint (point_of C ak)) info agree = Ok c"
    "context_wf c" "hc_seq c = 0"
    using setup_agrees [OF assms(1) sk(1) assms(2) refl assms(3)] by blast
  then have "enc = point_of C sk" "ctx = c" using sk(2) by simp_all
  then show ?thesis using seal_open_all [OF assms(1) c(3), of ms] c(2,4) assms(5) by auto
qed

text \<open>A curve and primitives on which the hypotheses hold, with no secrecy to speak of.\<close>

definition toy_prims :: hpke_prims where
  "toy_prims =
     \<lparr>hkdf_extract = (\<lambda>s m. replicate 32 1), hkdf_expand = (\<lambda>k i n. Some (replicate n 2)),
      aead_encrypt = (\<lambda>k n a m. Some (m @ replicate 16 7)),
      aead_decrypt = (\<lambda>k n a c. if length c < 16 then None else Some (take (length c - 16) c)),
      ecdh = (\<lambda>x p. map2 (XOR) x (take 32 (drop 1 p)))\<rparr>"

lemma toy_prims_ok: "hpke_ok toy_curve toy_prims"
proof -
  have "map2 (XOR) x y = map2 (XOR) y x" if "length x = length y" for x y :: "u8 list"
    using that by (induction x y rule: list_induct2) (simp_all add: xor.commute)
  then show ?thesis using toy_curve_ok by (simp add: hpke_ok_def toy_prims_def toy_curve_def)
qed

theorem sealed_messages_open_witness:
  "\<exists>enc ctx ctx' cts.
     setup_base_sender toy_curve toy_prims (PublicKeyPoint (point_of toy_curve (replicate 32 5))) [Some (replicate 32 9)] [1] = Ok (enc, ctx) \<and>
     setup_base_receiver toy_curve toy_prims enc (PublicKeyPoint (point_of toy_curve (replicate 32 5))) [1]
       (\<lambda>p. Ok (ecdh toy_prims (replicate 32 5) (point_bytes p))) = Ok ctx' \<and>
     seal_all toy_prims ctx [([0], [10, 20]), ([1], [])] = Ok cts \<and>
     open_all toy_prims ctx' (zip [[0], [1]] cts) = Ok [[10, 20], []]"
proof -
  let ?pk = "PublicKeyPoint (point_of toy_curve (replicate 32 5))"
  have valid: "scalar_valid toy_curve (replicate 32 n)" for n by (simp add: toy_curve_def)
  obtain ctx where s: "setup_base_sender toy_curve toy_prims ?pk [Some (replicate 32 9)] [1] = Ok (point_of toy_curve (replicate 32 9), ctx)"
    using setup_agrees [OF toy_prims_ok valid [of 9] valid [of 5] refl refl, of "[1]"] first_draw [OF valid [of 9]]
    by metis
  show ?thesis
    using sealed_messages_open [OF toy_prims_ok valid refl s, of "[([0], [10, 20]), ([1], [])]"] s by auto
qed

theorem nonces_never_repeat_witness:
  "let ctx = \<lparr>hc_key = replicate 32 0, hc_base_nonce = replicate 12 3, hc_seq = - 2, hc_exporter_secret = [], hc_overflowed = False\<rparr>;
       history = seal_history toy_prims ctx [([], [1]), ([], [2]), ([], [3])]
   in distinct (map fst history) \<and> map (\<lambda>(nonce, aad, pt, ct). ct) history = [1 # replicate 16 7]"
proof -
  let ?ctx = "\<lparr>hc_key = replicate 32 0, hc_base_nonce = replicate 12 3, hc_seq = - 2, hc_exporter_secret = [], hc_overflowed = False\<rparr>"
  have "length (hc_base_nonce ?ctx) = 12" by simp
  note run = nonces_never_repeat [OF this, of toy_prims "[([], [1]), ([], [2]), ([], [3])]"]
  have "seal_outputs toy_prims ?ctx [([], [1]), ([], [2]), ([], [3])] = [1 # replicate 16 7]"
    by (simp add: hpke_seal_def compute_nonce_def increment_seq_def toy_prims_def)
  then show ?thesis using run by (simp add: Let_def del: seal_history.simps seal_outputs.simps)
qed

end
