(* ===== verification/Envelope_Seal.thy ===== *)
theory Envelope_Seal
  imports Hello_Exchange Hpke Rel_Path
begin

text \<open>
  Deferred delivery, the sealing side (\<open>tradr-identity/src/envelope.rs\<close>): the outer header, the
  signed manifest, and the writer that cuts the items' bytes into sealed records of one mebibyte.
  BLAKE3, the JSON codec, the curve and the HPKE primitives are parameters, fields of
  \<open>envelope_env\<close>. Texts of error messages are left out.
\<close>

unbundle bit_operations_syntax

abbreviation (input) "OUTER_HEADER_LEN \<equiv> (106 :: nat)"
abbreviation (input) "CHUNK_SIZE \<equiv> (1048576 :: nat)"
abbreviation (input) "MAX_MANIFEST_RECORD \<equiv> (16777216 :: nat)"
abbreviation (input) "THIRTY_DAYS_SECS \<equiv> (2592000 :: i64)"
abbreviation (input) "THREE_HUNDRED_SECS \<equiv> (300 :: i64)"

section \<open>Data\<close>

record envelope_sender =
  es_identity :: public_identity
  es_key_binding :: key_binding
  es_attestation_token :: rstr

record envelope_item =
  ei_rel_path :: rel_path
  ei_size :: u64
  ei_content_hash :: content_hash

record outer_header =
  oh_version :: u8
  oh_recipient_device_id :: device_id
  oh_sender_device_id :: device_id
  oh_enc :: "u8 list"
  oh_total_len :: u64

datatype envelope_error =
    HeaderTooShort
  | UnsupportedVersion u8
  | TotalLengthMismatch u64 u64 \<comment> \<open>expected, actual\<close>
  | RecipientMismatch
  | SenderMismatch
  | Truncated
  | NoDataRecords
  | ItemSizeMismatch
  | ContentHashMismatch
  | Env_SignatureInvalid
  | Env_KeyBinding key_binding_refused
  | CreatedAtOutOfRange unix_time unix_time \<comment> \<open>created_at, now\<close>
  | UntrustedTier trust_tier
  | AttestationRefused rstr
  | Env_Hpke hpke_error
  | Env_KeyStore key_store_error
  | Env_Json
  | ManifestMalformed
  | TrailingBytes
  | AlreadyFailed

record key_binding_wire =
  kbw_agreement_pub :: rstr
  kbw_signature :: rstr
  kbw_not_after :: i64

record manifest_item_wire =
  miw_rel_path :: rstr
  miw_size :: u64
  miw_content_hash :: rstr

record manifest_wire =
  mw_transfer_id :: rstr
  mw_identity_pub :: rstr
  mw_agreement_pub :: rstr
  mw_key_binding :: key_binding_wire
  mw_attestation_token :: rstr
  mw_created_at :: i64
  mw_items :: "manifest_item_wire list"
  mw_signature :: rstr

record envelope_env =
  ee_curve :: p256
  ee_hpke :: hpke_prims
  ee_hash :: "u8 list \<Rightarrow> u8 list" \<comment> \<open>BLAKE3\<close>
  ee_to_json :: "manifest_wire \<Rightarrow> u8 list option"
  ee_from_json :: "u8 list \<Rightarrow> manifest_wire option"

section \<open>Hex\<close>

definition decode_hex_nibble :: "u8 \<Rightarrow> u8 option" where
  "decode_hex_nibble c =
     (if 48 \<le> c \<and> c \<le> 57 then Some (c - 48)
      else if 97 \<le> c \<and> c \<le> 102 then Some (c - 97 + 10)
      else if 65 \<le> c \<and> c \<le> 70 then Some (c - 65 + 10)
      else None)"

fun decode_hex_loop :: "u8 list \<Rightarrow> u8 list option" where
  "decode_hex_loop (h # l # rest) =
     (case (decode_hex_nibble h, decode_hex_nibble l) of
        (Some hi, Some lo) \<Rightarrow> map_option (\<lambda>out. (push_bit 4 hi OR lo) # out) (decode_hex_loop rest)
      | _ \<Rightarrow> None)"
| "decode_hex_loop _ = Some []"

definition decode_hex :: "rstr \<Rightarrow> u8 list option" where
  "decode_hex s = (if odd (length (str_bytes s)) then None else decode_hex_loop (str_bytes s))"

definition encode_hex :: "u8 list \<Rightarrow> rstr" where
  "encode_hex bytes = concat (map (\<lambda>b. [hex_digit (unat (drop_bit 4 b)), hex_digit (unat (b AND 0x0f))]) bytes)"

text \<open>\<open>transfer_id_to_bytes\<close> reads an identifier back out of its own text, hyphen by hyphen.\<close>

fun transfer_id_loop :: "u8 list \<Rightarrow> u8 list \<Rightarrow> u8 list" where
  "transfer_id_loop [] out = out"
| "transfer_id_loop (c # cs) out =
     (if length out \<ge> 16 then out
      else if c = 45 then transfer_id_loop cs out
      else (case cs of
          [] \<Rightarrow> out
        | d # rest \<Rightarrow>
            (case (decode_hex_nibble c, decode_hex_nibble d) of
               (Some hi, Some lo) \<Rightarrow> transfer_id_loop rest (out @ [push_bit 4 hi OR lo])
             | _ \<Rightarrow> out)))"

definition transfer_id_to_bytes :: "transfer_id \<Rightarrow> u8 list" where
  "transfer_id_to_bytes t =
     (let out = transfer_id_loop (str_bytes (transfer_id_display t)) [] in out @ replicate (16 - length out) 0)"

section \<open>What is bound to a record, and what is signed\<close>

definition make_aad :: "u64 \<Rightarrow> bool \<Rightarrow> u8 list" where
  "make_aad seq is_final = u64_to_be_bytes seq @ [if is_final then 1 else 0]"

definition make_hpke_info :: "device_id \<Rightarrow> device_id \<Rightarrow> u8 list" where
  "make_hpke_info recipient_id sender_id =
     str_bytes (lit ''tradr-deferred-v1'') @ device_id_bytes recipient_id @ device_id_bytes sender_id"

fun signature_items :: "(rstr \<times> u64 \<times> u8 list) list \<Rightarrow> (u8 list, envelope_error) result" where
  "signature_items [] = Ok []"
| "signature_items ((path, sz, hash) # items) =
     (if length (str_bytes path) > 4294967295 then Err ManifestMalformed
      else try_then (signature_items items) (\<lambda>rest.
        Ok (u32_to_be_bytes (of_nat (length (str_bytes path))) @ str_bytes path @ u64_to_be_bytes sz @ hash @ rest)))"

definition build_signature_payload ::
    "u8 list \<Rightarrow> device_id \<Rightarrow> device_id \<Rightarrow> i64 \<Rightarrow> u8 list \<Rightarrow> (rstr \<times> u64 \<times> u8 list) list \<Rightarrow> (u8 list, envelope_error) result" where
  "build_signature_payload enc recipient_device_id sender_device_id created_at_secs tid items =
     try_then (signature_items items) (\<lambda>rest.
       Ok (enc @ device_id_bytes recipient_device_id @ device_id_bytes sender_device_id @
           u64_to_be_bytes created_at_secs @ tid @ rest))"

section \<open>The writer\<close>

record envelope_writer =
  ew_ctx :: hpke_context
  ew_buf :: "u8 list"
  ew_declared :: u64
  ew_pushed :: u64
  ew_emitted :: u64
  ew_seq :: u64
  ew_sealed_final :: bool
  ew_total_len :: u64
  ew_failed :: bool

definition append_record :: "u8 list \<Rightarrow> u8 list \<Rightarrow> (u8 list, envelope_error) result" where
  "append_record out sealed =
     (if length sealed > 4294967295 then Err ItemSizeMismatch
      else Ok (out @ u32_to_be_bytes (of_nat (length sealed)) @ sealed))"

fun declared_size :: "u64 \<Rightarrow> u64 list \<Rightarrow> (u64, envelope_error) result" where
  "declared_size declared [] = Ok declared"
| "declared_size declared (s # sizes) =
     (case checked_add declared s of None \<Rightarrow> Err ItemSizeMismatch | Some d \<Rightarrow> declared_size d sizes)"

definition item_meta :: "envelope_item \<Rightarrow> rstr \<times> u64 \<times> u8 list" where
  "item_meta it = (rel_path_value (ei_rel_path it), ei_size it, content_hash_bytes (ei_content_hash it))"

definition manifest_of ::
    "envelope_sender \<Rightarrow> transfer_id \<Rightarrow> unix_time \<Rightarrow> envelope_item list \<Rightarrow> signature \<Rightarrow> manifest_wire" where
  "manifest_of sender tid created_at items manifest_sig =
     \<lparr>mw_transfer_id = transfer_id_display tid,
      mw_identity_pub = encode_hex (point_bytes (pi_identity_pub (es_identity sender))),
      mw_agreement_pub = encode_hex (point_bytes (pi_agreement_pub (es_identity sender))),
      mw_key_binding =
        \<lparr>kbw_agreement_pub = encode_hex (point_bytes (kb_agreement_pub (es_key_binding sender))),
         kbw_signature = encode_hex (signature_bytes (kb_signature (es_key_binding sender))),
         kbw_not_after = as_secs (kb_not_after (es_key_binding sender))\<rparr>,
      mw_attestation_token = es_attestation_token sender,
      mw_created_at = as_secs created_at,
      mw_items = map (\<lambda>it. \<lparr>miw_rel_path = rel_path_value (ei_rel_path it), miw_size = ei_size it,
          miw_content_hash = encode_hex (content_hash_bytes (ei_content_hash it))\<rparr>) items,
      mw_signature = encode_hex (signature_bytes manifest_sig)\<rparr>"

definition data_length :: "u64 \<Rightarrow> u64 option" where
  "data_length declared =
     (let overhead = 20 in
      if declared = 0 then Some overhead
      else case checked_mul (div_ceil declared (of_nat CHUNK_SIZE)) overhead of
        None \<Rightarrow> None
      | Some o' \<Rightarrow> checked_add o' declared)"

definition total_length :: "u64 \<Rightarrow> u64 \<Rightarrow> (u64, envelope_error) result" where
  "total_length manifest_len declared =
     (case data_length declared of
        None \<Rightarrow> Err ItemSizeMismatch
      | Some data_len \<Rightarrow>
          (case checked_add (of_nat OUTER_HEADER_LEN) 4 of
             None \<Rightarrow> Err ItemSizeMismatch
           | Some t \<Rightarrow>
               (case checked_add t manifest_len of
                  None \<Rightarrow> Err ItemSizeMismatch
                | Some t \<Rightarrow> ok_or ItemSizeMismatch (checked_add t data_len))))"

definition envelope_writer_new ::
    "envelope_env \<Rightarrow> public_identity \<Rightarrow> envelope_sender \<Rightarrow> software_key_store \<Rightarrow> rng \<Rightarrow> transfer_id \<Rightarrow> unix_time \<Rightarrow>
      envelope_item list \<Rightarrow> (envelope_writer \<times> u8 list, envelope_error) result" where
  "envelope_writer_new E recipient sender ks rng tid created_at items =
     try_then (declared_size 0 (map ei_size items)) (\<lambda>declared.
     let recipient_id = pi_device_id recipient; sender_id = pi_device_id (es_identity sender) in
     try_then (map_err Env_Hpke (setup_base_sender (ee_curve E) (ee_hpke E) (pi_agreement_pub recipient) rng
        (make_hpke_info recipient_id sender_id))) (\<lambda>(enc, ctx).
     try_then (build_signature_payload enc recipient_id sender_id (as_secs created_at) (transfer_id_to_bytes tid)
        (map item_meta items)) (\<lambda>sig_message.
     try_then (map_err Env_KeyStore (sign (ee_curve E) ks DeferredDelivery sig_message)) (\<lambda>manifest_sig.
     try_then (ok_or Env_Json (ee_to_json E (manifest_of sender tid created_at items manifest_sig))) (\<lambda>manifest_json.
     case hpke_seal (ee_hpke E) ctx (make_aad 0 False) manifest_json of
       (_, Err e) \<Rightarrow> Err (Env_Hpke e)
     | (ctx', Ok sealed_manifest) \<Rightarrow>
         if length sealed_manifest > MAX_MANIFEST_RECORD then Err ManifestMalformed
         else
           try_then (total_length (of_nat (length sealed_manifest)) declared) (\<lambda>total_len.
           try_then (append_record
              (1 # device_id_bytes recipient_id @ device_id_bytes sender_id @ enc @ u64_to_be_bytes total_len)
              sealed_manifest) (\<lambda>head.
           Ok (\<lparr>ew_ctx = ctx', ew_buf = [], ew_declared = declared, ew_pushed = 0, ew_emitted = 0, ew_seq = 1,
                ew_sealed_final = False, ew_total_len = total_len, ew_failed = False\<rparr>, head))))))))"

definition seal_data ::
    "hpke_prims \<Rightarrow> envelope_writer \<Rightarrow> u8 list \<Rightarrow> u8 list \<Rightarrow> (envelope_writer \<times> u8 list, envelope_error) result" where
  "seal_data P w chunk out =
     (let is_final = (ew_emitted w + of_nat (length chunk) = ew_declared w) in
      case hpke_seal P (ew_ctx w) (make_aad (ew_seq w) is_final) chunk of
        (_, Err e) \<Rightarrow> Err (Env_Hpke e)
      | (ctx, Ok sealed) \<Rightarrow>
          try_then (append_record out sealed) (\<lambda>out'.
          Ok (w\<lparr>ew_ctx := ctx, ew_emitted := ew_emitted w + of_nat (length chunk), ew_seq := ew_seq w + 1,
               ew_sealed_final := is_final\<rparr>, out')))"

function push_chunks ::
    "hpke_prims \<Rightarrow> envelope_writer \<Rightarrow> u8 list \<Rightarrow> u8 list \<Rightarrow> (envelope_writer \<times> u8 list \<times> u8 list, envelope_error) result" where
  "push_chunks P w rest out =
     (if length rest \<ge> CHUNK_SIZE then
        try_then (seal_data P w (take CHUNK_SIZE rest) out) (\<lambda>(w', out'). push_chunks P w' (drop CHUNK_SIZE rest) out')
      else Ok (w, rest, out))"
  by pat_completeness auto

termination
  by (relation "measure (\<lambda>(P, w, rest, out). length rest)") auto

declare push_chunks.simps [simp del]

definition push_inner ::
    "hpke_prims \<Rightarrow> envelope_writer \<Rightarrow> u8 list \<Rightarrow> (envelope_writer \<times> u8 list, envelope_error) result" where
  "push_inner P w bytes =
     (case checked_add (ew_pushed w) (of_nat (length bytes)) of
        None \<Rightarrow> Err ItemSizeMismatch
      | Some new_pushed \<Rightarrow>
          if \<not> new_pushed \<le> ew_declared w then Err ItemSizeMismatch
          else
            let w = w\<lparr>ew_pushed := new_pushed\<rparr>; tk = min (CHUNK_SIZE - length (ew_buf w)) (length bytes) in
            try_then
              (if ew_buf w \<noteq> [] then
                 (let filled = ew_buf w @ take tk bytes; rest = drop tk bytes in
                  if length filled = CHUNK_SIZE
                  then try_then (seal_data P (w\<lparr>ew_buf := []\<rparr>) filled []) (\<lambda>(w', out). Ok (w', rest, out))
                  else Ok (w\<lparr>ew_buf := filled\<rparr>, rest, []))
               else Ok (w, bytes, [])) (\<lambda>(w1, rest, out).
            try_then (push_chunks P w1 rest out) (\<lambda>(w2, rest', out').
            Ok (w2\<lparr>ew_buf := ew_buf w2 @ rest'\<rparr>, out'))))"

text \<open>After a failure only the flag of the writer can be observed.\<close>

definition writer_push ::
    "hpke_prims \<Rightarrow> envelope_writer \<Rightarrow> u8 list \<Rightarrow> envelope_writer \<times> (u8 list, envelope_error) result" where
  "writer_push P w bytes =
     (if ew_failed w then (w, Err AlreadyFailed)
      else case push_inner P w bytes of
        Err e \<Rightarrow> (w\<lparr>ew_failed := True\<rparr>, Err e)
      | Ok (w', out) \<Rightarrow> (w', Ok out))"

definition writer_finish :: "hpke_prims \<Rightarrow> envelope_writer \<Rightarrow> (u8 list, envelope_error) result" where
  "writer_finish P w =
     (if ew_failed w then Err AlreadyFailed
      else if ew_pushed w \<noteq> ew_declared w then Err ItemSizeMismatch
      else if \<not> ew_sealed_final w then
        try_then (seal_data P (w\<lparr>ew_buf := []\<rparr>) (ew_buf w) []) (\<lambda>(w', out). Ok out)
      else Ok [])"

fun push_all ::
    "hpke_prims \<Rightarrow> envelope_writer \<Rightarrow> u8 list list \<Rightarrow> u8 list \<Rightarrow> (envelope_writer \<times> u8 list, envelope_error) result" where
  "push_all P w [] out = Ok (w, out)"
| "push_all P w (bytes # rest) out =
     (case writer_push P w bytes of
        (_, Err e) \<Rightarrow> Err e
      | (w', Ok records) \<Rightarrow> push_all P w' rest (out @ records))"

definition seal_envelope ::
    "envelope_env \<Rightarrow> public_identity \<Rightarrow> envelope_sender \<Rightarrow> software_key_store \<Rightarrow> rng \<Rightarrow> transfer_id \<Rightarrow> unix_time \<Rightarrow>
      (envelope_item \<times> u8 list) list \<Rightarrow> (u8 list, envelope_error) result" where
  "seal_envelope E recipient sender ks rng tid created_at items =
     (if \<exists>(it, bytes) \<in> set items. length bytes \<ge> 2 ^ 64 \<or> of_nat (length bytes) \<noteq> ei_size it then Err ItemSizeMismatch
      else
        try_then (envelope_writer_new E recipient sender ks rng tid created_at (map fst items)) (\<lambda>(w, head).
        try_then (push_all (ee_hpke E) w (map snd items) head) (\<lambda>(w', out).
        try_then (writer_finish (ee_hpke E) w') (\<lambda>records. Ok (out @ records)))))"

section \<open>Texts and back\<close>

lemma hex_nibble_digit:
  assumes "d < 16"
  shows "decode_hex_nibble (of_nat (hex_digit d)) = Some (of_nat d)"
proof -
  have "d = 0 \<or> d = 1 \<or> d = 2 \<or> d = 3 \<or> d = 4 \<or> d = 5 \<or> d = 6 \<or> d = 7 \<or> d = 8 \<or> d = 9 \<or>
    d = 10 \<or> d = 11 \<or> d = 12 \<or> d = 13 \<or> d = 14 \<or> d = 15" using assms by presburger
  then show ?thesis by (elim disjE) (simp_all add: decode_hex_nibble_def hex_digit_def)
qed

lemma unat_high_nibble: "unat (drop_bit 4 (b :: u8)) < 16"
  using unat_less [of b] by (simp only: unat_drop_bit_eq) (simp add: drop_bit_eq_div less_mult_imp_div_less)

lemma unat_low_nibble: "unat ((b :: u8) AND 0x0f) < 16"
proof -
  have "b AND 0x0f \<le> 0x0f" by (rule word_and_le1)
  then show ?thesis by (simp add: word_le_nat_alt)
qed

lemma nibbles_join: "push_bit 4 (drop_bit 4 b) OR (b AND 0x0f) = (b :: u8)"
proof -
  have "push_bit 4 (drop_bit 4 b) OR take_bit 4 b = b" by (rule bit_word_eqI) (auto simp: bit_simps)
  moreover have "b AND 0x0f = take_bit 4 b" by (simp add: take_bit_eq_mask mask_numeral)
  ultimately show ?thesis by simp
qed

text \<open>The two characters of a byte, as the texts here and in \<open>uuid_display\<close> write them.\<close>

lemma hex2_nibbles: "hex2 b = [hex_digit (unat (drop_bit 4 b)), hex_digit (unat (b AND 0x0f))]"
proof -
  have "b AND 0x0f = take_bit 4 b" by (simp add: take_bit_eq_mask mask_numeral)
  then have "unat (b AND 0x0f) = unat b mod 16" by (simp only: unsigned_take_bit_eq) (simp add: take_bit_eq_mod)
  moreover have "unat (drop_bit 4 b) = unat b div 16" by (simp only: unat_drop_bit_eq) (simp add: drop_bit_eq_div)
  ultimately show ?thesis by (simp add: hex2_def)
qed

lemma str_bytes_hex2: "str_bytes (hex2 b @ s) = of_nat (hex_digit (unat (drop_bit 4 b))) #
    of_nat (hex_digit (unat (b AND 0x0f))) # str_bytes s"
  using hex_digit_byte(3) [OF unat_high_nibble [of b]] hex_digit_byte(3) [OF unat_low_nibble [of b]]
  by (simp add: hex2_nibbles)

lemma encode_hex_eq: "encode_hex bytes = concat (map hex2 bytes)"
proof -
  have "hex2 = (\<lambda>b. [hex_digit (unat (drop_bit 4 b)), hex_digit (unat (b AND 0x0f))])"
    by (rule ext) (rule hex2_nibbles)
  then show ?thesis by (simp only: encode_hex_def)
qed

lemma decode_hex_loop_hex2: "decode_hex_loop (str_bytes (hex2 b @ s)) = map_option ((#) b) (decode_hex_loop (str_bytes s))"
  using hex_nibble_digit [OF unat_high_nibble [of b]] hex_nibble_digit [OF unat_low_nibble [of b]]
  by (simp only: str_bytes_hex2 decode_hex_loop.simps) (simp add: nibbles_join)

lemma decode_encode_hex [simp]: "decode_hex (encode_hex bytes) = Some bytes"
proof -
  have "decode_hex_loop (str_bytes (concat (map hex2 bytes))) = Some bytes \<and> even (length (str_bytes (concat (map hex2 bytes))))"
  proof (induction bytes)
    case (Cons a bytes)
    then show ?case
      using decode_hex_loop_hex2 [of a "concat (map hex2 bytes)"] str_bytes_hex2 [of a "concat (map hex2 bytes)"]
      by (simp only: list.map concat.simps) simp
  qed simp
  then show ?thesis by (simp add: decode_hex_def encode_hex_eq)
qed

lemma transfer_id_loop_hex2:
  assumes "length out < 16"
  shows "transfer_id_loop (str_bytes (hex2 b @ s)) out = transfer_id_loop (str_bytes s) (out @ [b])"
proof -
  have "of_nat (hex_digit (unat (drop_bit 4 b))) \<noteq> (45 :: u8)"
    using hex_nibble_digit [OF unat_high_nibble [of b]] by (auto simp: decode_hex_nibble_def)
  then show ?thesis
    using assms hex_nibble_digit [OF unat_high_nibble [of b]] hex_nibble_digit [OF unat_low_nibble [of b]]
    by (simp only: str_bytes_hex2 transfer_id_loop.simps) (simp add: nibbles_join)
qed

lemma transfer_id_loop_hyphen:
  "length out < 16 \<Longrightarrow> transfer_id_loop (str_bytes ([45] @ s)) out = transfer_id_loop (str_bytes s) out"
  by simp

lemma transfer_id_to_bytes_eq:
  assumes "length (transfer_id_bytes t) = 16"
  shows "transfer_id_to_bytes t = transfer_id_bytes t"
proof -
  let ?b = "transfer_id_bytes t"
  have step: "transfer_id_loop (str_bytes (hex2 (?b ! n) @ s)) (take n ?b) = transfer_id_loop (str_bytes s) (take (n + 1) ?b)"
    if "n < 16" for n s
    using that assms transfer_id_loop_hex2 [of "take n ?b" "?b ! n" s] by (simp add: take_Suc_conv_app_nth)
  have hyphen: "transfer_id_loop (str_bytes ([45] @ s)) (take n ?b) = transfer_id_loop (str_bytes s) (take n ?b)"
    if "n < 16" for n s
    using that by (intro transfer_id_loop_hyphen) simp
  have last: "transfer_id_loop (str_bytes (hex2 (?b ! 15))) (take 15 ?b) = ?b"
    using step [of 15 "[]"] assms by simp
  have first: "transfer_id_loop (str_bytes (hex2 (?b ! 0) @ s)) [] = transfer_id_loop (str_bytes s) (take (Suc 0) ?b)"
    "transfer_id_loop (str_bytes (hex2 (?b ! Suc 0) @ s)) (take (Suc 0) ?b) = transfer_id_loop (str_bytes s) (take 2 ?b)" for s
    using step [of 0 s] step [of 1 s] by (simp_all del: str_bytes_simps add: numeral_2_eq_2)
  have "transfer_id_loop (str_bytes (transfer_id_display t)) [] = ?b"
    unfolding transfer_id_display_def uuid_display_def 
    by (simp add: first step hyphen last del: str_bytes_simps append.simps)
  then show ?thesis using assms by (simp add: transfer_id_to_bytes_def)
qed

section \<open>What the signature covers\<close>

text \<open>An entry of the manifest as the signature sees it: the bytes of the path, the size, the digest.\<close>

definition signed_item :: "rstr \<times> u64 \<times> u8 list \<Rightarrow> u8 list \<times> u64 \<times> u8 list" where
  "signed_item m = (case m of (path, sz, hash) \<Rightarrow> (str_bytes path, sz, hash))"

lemma signature_items_inject:
  assumes "signature_items xs = Ok p" and "signature_items ys = Ok p"
    and "\<forall>(_, _, h) \<in> set xs. length h = 32" and "\<forall>(_, _, h) \<in> set ys. length h = 32"
  shows "map signed_item xs = map signed_item ys"
  using assms
proof (induction xs arbitrary: ys p)
  case Nil
  then show ?case by (cases ys) (auto simp: u32_to_be_bytes_def split: if_splits)
next
  case (Cons x xs)
  obtain path sz h where x: "x = (path, sz, h)" by (cases x) auto
  obtain rest where p: "p = u32_to_be_bytes (of_nat (length (str_bytes path))) @ str_bytes path @ u64_to_be_bytes sz @ h @ rest"
    and rest: "signature_items xs = Ok rest" and len: "length (str_bytes path) < 2 ^ 32"
    using Cons.prems(1) by (auto simp: x split: if_splits)
  then have "ys \<noteq> []" using Cons.prems(2) by (auto simp: u32_to_be_bytes_def)
  then obtain path' sz' h' ys' where ys: "ys = (path', sz', h') # ys'" by (cases ys) auto
  obtain rest' where p': "p = u32_to_be_bytes (of_nat (length (str_bytes path'))) @ str_bytes path' @ u64_to_be_bytes sz' @ h' @ rest'"
    and rest': "signature_items ys' = Ok rest'" and len': "length (str_bytes path') < 2 ^ 32"
    using Cons.prems(2) by (auto simp: ys split: if_splits)
  have four: "length (u32_to_be_bytes n) = 4" for n by (simp add: u32_to_be_bytes_def)
  have "of_nat (length (str_bytes path)) = (of_nat (length (str_bytes path')) :: u32)"
    using p p' four by (metis append_eq_append_conv u32_from_to_be_bytes)
  then have l: "length (str_bytes path) = length (str_bytes path')"
    using len len' by (auto dest!: arg_cong [of _ _ unat] simp: unat_of_nat)
  have h: "length h = 32" "length h' = 32" using Cons.prems(3,4) by (simp_all add: x ys)
  have "str_bytes path @ u64_to_be_bytes sz @ h @ rest = str_bytes path' @ u64_to_be_bytes sz' @ h' @ rest'"
    using p p' four by (metis append_eq_append_conv)
  then have "str_bytes path = str_bytes path' \<and> u64_to_be_bytes sz = u64_to_be_bytes sz' \<and> h = h' \<and> rest = rest'"
    using l h by (metis append_eq_append_conv length_u64_to_be_bytes)
  moreover from this have "map signed_item xs = map signed_item ys'"
    using Cons.IH [OF rest] rest' Cons.prems(3,4) by (simp add: ys)
  moreover have "signed_item x = signed_item (path', sz', h')" using calculation(1) by (simp add: x signed_item_def)
  ultimately show ?case by (simp add: ys)
qed

text \<open>
  Property C14. The signature on a manifest covers everything the envelope says about itself: two
  envelopes whose signed bytes agree have the same encapsulated key, recipient, sender, time of
  creation and transfer, and the same list of items, each with its path, size and digest. No
  entry can be moved, split, merged or shortened under one signature.
\<close>

theorem signature_covers_manifest:
  assumes "build_signature_payload enc r s c t xs = Ok p" and "build_signature_payload enc' r' s' c' t' ys = Ok p"
    and "length enc = 65" and "length enc' = 65" and "device_id_valid r" and "device_id_valid r'"
    and "device_id_valid s" and "device_id_valid s'" and "length t = 16" and "length t' = 16"
    and "\<forall>(_, _, h) \<in> set xs. length h = 32" and "\<forall>(_, _, h) \<in> set ys. length h = 32"
  shows "enc = enc' \<and> r = r' \<and> s = s' \<and> c = c' \<and> t = t' \<and> map signed_item xs = map signed_item ys"
proof -
  obtain q q' where q: "signature_items xs = Ok q" "signature_items ys = Ok q'"
    and p: "enc @ device_id_bytes r @ device_id_bytes s @ u64_to_be_bytes c @ t @ q =
      enc' @ device_id_bytes r' @ device_id_bytes s' @ u64_to_be_bytes c' @ t' @ q'"
    using assms(1,2) by (auto simp: build_signature_payload_def)
  have ids: "length (device_id_bytes r) = 16" "length (device_id_bytes r') = 16"
    "length (device_id_bytes s) = 16" "length (device_id_bytes s') = 16"
    using assms(5-8) by (simp_all add: device_id_valid_def)
  have "enc = enc'" "device_id_bytes r = device_id_bytes r'" "device_id_bytes s = device_id_bytes s'" "c = c'" "t = t'" "q = q'"
    using p ids assms(3,4,9,10) by (auto simp: append_eq_append_conv)
  then show ?thesis using signature_items_inject [OF q(1) _ assms(11,12)] q(2) by (simp add: device_id.expand)
qed

theorem signature_covers_manifest_witness:
  "\<exists>p q. build_signature_payload (replicate 65 4) (DeviceId (replicate 16 1)) (DeviceId (replicate 16 2)) 5 (replicate 16 3)
       [(lit ''ab'', 1, replicate 32 0)] = Ok p \<and>
     build_signature_payload (replicate 65 4) (DeviceId (replicate 16 1)) (DeviceId (replicate 16 2)) 5 (replicate 16 3)
       [(lit ''ac'', 1, replicate 32 0)] = Ok q \<and> p \<noteq> q"
proof -
  let ?B = "\<lambda>items. build_signature_payload (replicate 65 4) (DeviceId (replicate 16 1)) (DeviceId (replicate 16 2)) 5 (replicate 16 3) items"
  let ?x = "[(lit ''ab'', 1, replicate 32 0)] :: (rstr \<times> u64 \<times> u8 list) list"
  let ?y = "[(lit ''ac'', 1, replicate 32 0)] :: (rstr \<times> u64 \<times> u8 list) list"
  obtain p q where pq: "?B ?x = Ok p" "?B ?y = Ok q" by (simp add: build_signature_payload_def)
  have "p \<noteq> q"
  proof
    assume "p = q"
    then have "map signed_item ?x = map signed_item ?y"
      using signature_covers_manifest [OF pq(1) pq(2) [folded \<open>p = q\<close>]] by (simp add: device_id_valid_def)
    then show False by (simp add: signed_item_def)
  qed
  with pq show ?thesis by blast
qed

section \<open>What the writer writes\<close>

text \<open>The records of a whole content, cut at once: one mebibyte each, the last one marked.\<close>

function data_records :: "hpke_prims \<Rightarrow> hpke_context \<Rightarrow> u64 \<Rightarrow> u8 list \<Rightarrow> (u8 list, envelope_error) result" where
  "data_records P ctx seq content =
     (case hpke_seal P ctx (make_aad seq (length content \<le> CHUNK_SIZE)) (take CHUNK_SIZE content) of
        (_, Err e) \<Rightarrow> Err (Env_Hpke e)
      | (ctx', Ok sealed) \<Rightarrow>
          try_then (append_record [] sealed) (\<lambda>record.
          if length content \<le> CHUNK_SIZE then Ok record
          else try_then (data_records P ctx' (seq + 1) (drop CHUNK_SIZE content)) (\<lambda>records. Ok (record @ records))))"
  by pat_completeness auto

termination
  by (relation "measure (\<lambda>(P, ctx, seq, content). length content)") auto

declare data_records.simps [simp del]

text \<open>What is still to be written when \<open>rest\<close> is buffered or to come.\<close>

definition pending :: "hpke_prims \<Rightarrow> envelope_writer \<Rightarrow> u8 list \<Rightarrow> (u8 list, envelope_error) result" where
  "pending P w rest = (if ew_sealed_final w then Ok [] else data_records P (ew_ctx w) (ew_seq w) rest)"

definition writer_at :: "envelope_writer \<Rightarrow> u8 list \<Rightarrow> bool" where
  "writer_at w rest \<longleftrightarrow> unat (ew_declared w) = unat (ew_emitted w) + length rest \<and> \<not> ew_failed w \<and>
     (if ew_sealed_final w then rest = [] else rest = [] \<longrightarrow> ew_declared w = 0)"

lemma append_record_out: "append_record out sealed = try_then (append_record [] sealed) (\<lambda>r. Ok (out @ r))"
  by (simp add: append_record_def)

lemma seal_data_step:
  assumes "writer_at w (chunk @ rest)" and "chunk = take CHUNK_SIZE (chunk @ rest)" and "\<not> ew_sealed_final w"
    and "rest \<noteq> [] \<Longrightarrow> length chunk = CHUNK_SIZE"
  shows "try_then (seal_data P w chunk out) (\<lambda>(w', out'). try_then (pending P w' rest) (\<lambda>x. Ok (out' @ x))) =
      try_then (pending P w (chunk @ rest)) (\<lambda>x. Ok (out @ x))"
    and "seal_data P w chunk out = Ok (w', out') \<Longrightarrow> writer_at w' rest \<and> ew_buf w' = ew_buf w \<and>
      ew_pushed w' = ew_pushed w \<and> ew_declared w' = ew_declared w \<and> unat (ew_emitted w') = unat (ew_emitted w) + length chunk \<and>
      (ew_sealed_final w' \<longleftrightarrow> rest = [])"
proof -
  let ?n = "length chunk"
  have D: "unat (ew_declared w) = unat (ew_emitted w) + ?n + length rest" using assms(1) by (simp add: writer_at_def)
  then have small: "unat (ew_emitted w) + ?n < 2 ^ 64" using unat_less [of "ew_declared w"] by simp
  then have u: "unat (of_nat ?n :: u64) = ?n" by (simp add: unat_of_nat)
  then have sum: "unat (ew_emitted w + of_nat ?n) = unat (ew_emitted w) + ?n"
    using small by (simp add: unat_word_ariths)
  have fin: "ew_emitted w + of_nat ?n = ew_declared w \<longleftrightarrow> rest = []"
    using D sum by (auto simp: word_unat_eq_iff)
  have le: "?n \<le> CHUNK_SIZE" using assms(2) by (metis length_take min.cobounded2)
  have last: "length (chunk @ rest) \<le> CHUNK_SIZE \<longleftrightarrow> rest = []" using le assms(4) by (cases "rest = []") auto
  have dr: "drop CHUNK_SIZE (chunk @ rest) = rest" using assms(4) le by (cases "rest = []") auto
  obtain ctx r where s: "hpke_seal P (ew_ctx w) (make_aad (ew_seq w) (rest = [])) chunk = (ctx, r)" by fastforce
  have tk: "take CHUNK_SIZE (chunk @ rest) = chunk" using assms(2) by (rule sym)
  have rec: "data_records P (ew_ctx w) (ew_seq w) (chunk @ rest) =
    (case r of Err e \<Rightarrow> Err (Env_Hpke e) | Ok sealed \<Rightarrow> try_then (append_record [] sealed) (\<lambda>record.
       if rest = [] then Ok record else try_then (data_records P ctx (ew_seq w + 1) rest) (\<lambda>records. Ok (record @ records))))"
    by (subst data_records.simps) (simp only: tk last dr s prod.case)
  show "try_then (seal_data P w chunk out) (\<lambda>(w', out'). try_then (pending P w' rest) (\<lambda>x. Ok (out' @ x))) =
      try_then (pending P w (chunk @ rest)) (\<lambda>x. Ok (out @ x))"
    using assms(3) s
    by (cases r) (auto simp: seal_data_def Let_def fin pending_def rec append_record_def try_then_assoc split: if_splits)
  assume "seal_data P w chunk out = Ok (w', out')"
  then show "writer_at w' rest \<and> ew_buf w' = ew_buf w \<and> ew_pushed w' = ew_pushed w \<and> ew_declared w' = ew_declared w \<and>
      unat (ew_emitted w') = unat (ew_emitted w) + ?n \<and> (ew_sealed_final w' \<longleftrightarrow> rest = [])"
    using s D sum assms(1) by (auto simp: seal_data_def Let_def fin writer_at_def split: result.splits)
qed

lemma push_chunks_spec:
  assumes "writer_at w (xs @ rest)" and "\<not> ew_sealed_final w \<or> xs = []"
  shows "try_then (push_chunks P w xs out) (\<lambda>(w', ys, out'). try_then (pending P w' (ys @ rest)) (\<lambda>x. Ok (out' @ x))) =
      try_then (pending P w (xs @ rest)) (\<lambda>x. Ok (out @ x))"
    and "push_chunks P w xs out = Ok (w', ys, out') \<Longrightarrow> writer_at w' (ys @ rest) \<and> ew_buf w' = ew_buf w \<and>
      ew_pushed w' = ew_pushed w \<and> ew_declared w' = ew_declared w \<and>
      unat (ew_emitted w') + length ys = unat (ew_emitted w) + length xs \<and> length ys < CHUNK_SIZE \<and>
      (ew_sealed_final w' \<longrightarrow> ys = [])"
proof -
  have "try_then (push_chunks P w xs out) (\<lambda>(w', ys, out'). try_then (pending P w' (ys @ rest)) (\<lambda>x. Ok (out' @ x))) =
      try_then (pending P w (xs @ rest)) (\<lambda>x. Ok (out @ x)) \<and>
    (\<forall>w' ys out'. push_chunks P w xs out = Ok (w', ys, out') \<longrightarrow> writer_at w' (ys @ rest) \<and> ew_buf w' = ew_buf w \<and>
      ew_pushed w' = ew_pushed w \<and> ew_declared w' = ew_declared w \<and>
      unat (ew_emitted w') + length ys = unat (ew_emitted w) + length xs \<and> length ys < CHUNK_SIZE \<and>
      (ew_sealed_final w' \<longrightarrow> ys = []))"
    using assms
  proof (induction P w xs out rule: push_chunks.induct)
    case (1 P w xs out)
    show ?case
    proof (cases "length xs \<ge> CHUNK_SIZE")
      case False
      then show ?thesis using "1.prems" by (subst (1 2) push_chunks.simps) auto
    next
      case True
      let ?c = "take CHUNK_SIZE xs" and ?r = "drop CHUNK_SIZE xs"
      have xs: "xs @ rest = ?c @ ?r @ rest" by (simp only: append_take_drop_id append_assoc [symmetric])
      have ns: "\<not> ew_sealed_final w" using "1.prems"(2) True by auto
      have at: "writer_at w (?c @ (?r @ rest))" using "1.prems"(1) xs by argo
      have p1: "?c = take CHUNK_SIZE (?c @ ?r @ rest)" and p2: "length ?c = CHUNK_SIZE" using True by simp_all
      note step = seal_data_step [OF at p1 ns p2, of P out, folded xs]
      have sd: "push_chunks P w xs out = try_then (seal_data P w ?c out) (\<lambda>(w', out'). push_chunks P w' ?r out')"
        using True by (subst push_chunks.simps) simp
      show ?thesis
      proof (cases "seal_data P w ?c out")
        case (Err e)
        then show ?thesis using step(1) sd by simp
      next
        case (Ok x)
        obtain w1 out1 where x: "x = (w1, out1)" by fastforce
        have w1: "writer_at w1 (?r @ rest)" "ew_buf w1 = ew_buf w" "ew_pushed w1 = ew_pushed w" "ew_declared w1 = ew_declared w"
          "unat (ew_emitted w1) = unat (ew_emitted w) + length ?c" "ew_sealed_final w1 \<longleftrightarrow> ?r @ rest = []"
          using step(2) [of w1 out1] True Ok x by auto
        have "\<not> ew_sealed_final w1 \<or> ?r = []" using w1(6) by auto
        note IH = "1.IH" [OF True Ok x [symmetric] w1(1) this]
        have "try_then (pending P w1 (?r @ rest)) (\<lambda>x. Ok (out1 @ x)) = try_then (pending P w (xs @ rest)) (\<lambda>x. Ok (out @ x))"
          using step(1) Ok x by simp
        then show ?thesis using IH sd Ok x w1(2-5) True by auto
      qed
    qed
  qed
  then show "try_then (push_chunks P w xs out) (\<lambda>(w', ys, out'). try_then (pending P w' (ys @ rest)) (\<lambda>x. Ok (out' @ x))) =
      try_then (pending P w (xs @ rest)) (\<lambda>x. Ok (out @ x))"
    and "push_chunks P w xs out = Ok (w', ys, out') \<Longrightarrow> writer_at w' (ys @ rest) \<and> ew_buf w' = ew_buf w \<and>
      ew_pushed w' = ew_pushed w \<and> ew_declared w' = ew_declared w \<and>
      unat (ew_emitted w') + length ys = unat (ew_emitted w) + length xs \<and> length ys < CHUNK_SIZE \<and>
      (ew_sealed_final w' \<longrightarrow> ys = [])"
    by blast+
qed

definition writer_inv :: "envelope_writer \<Rightarrow> u8 list \<Rightarrow> bool" where
  "writer_inv w rest \<longleftrightarrow> writer_at w (ew_buf w @ rest) \<and> length (ew_buf w) < CHUNK_SIZE \<and>
     unat (ew_pushed w) = unat (ew_emitted w) + length (ew_buf w)"

lemma pushed_fits:
  assumes "writer_inv w (bytes @ rest)"
  shows "checked_add (ew_pushed w) (of_nat (length bytes)) = Some (ew_pushed w + of_nat (length bytes))"
    and "ew_pushed w + of_nat (length bytes) \<le> ew_declared w"
    and "unat (ew_pushed w + of_nat (length bytes)) = unat (ew_pushed w) + length bytes"
proof -
  have "unat (ew_pushed w) + length bytes \<le> unat (ew_declared w)"
    using assms by (simp add: writer_inv_def writer_at_def)
  moreover have "unat (ew_declared w) < 2 ^ 64" using unat_less [of "ew_declared w"] by simp
  ultimately have small: "unat (ew_pushed w) + length bytes < 2 ^ 64" by simp
  then have "unat (of_nat (length bytes) :: u64) = length bytes" by (simp add: unat_of_nat)
  with small show sum: "unat (ew_pushed w + of_nat (length bytes)) = unat (ew_pushed w) + length bytes"
    and "checked_add (ew_pushed w) (of_nat (length bytes)) = Some (ew_pushed w + of_nat (length bytes))"
    by (simp_all add: unat_word_ariths checked_add_def)
  show "ew_pushed w + of_nat (length bytes) \<le> ew_declared w"
    using \<open>unat (ew_pushed w) + length bytes \<le> unat (ew_declared w)\<close> sum by (simp add: word_le_nat_alt)
qed

text \<open>Filling the buffered chunk first, then cutting the rest.\<close>

definition fill_buffer ::
    "hpke_prims \<Rightarrow> envelope_writer \<Rightarrow> u8 list \<Rightarrow> (envelope_writer \<times> u8 list \<times> u8 list, envelope_error) result" where
  "fill_buffer P w bytes =
     (if ew_buf w \<noteq> [] then
        (let tk = min (CHUNK_SIZE - length (ew_buf w)) (length bytes); filled = ew_buf w @ take tk bytes; rest = drop tk bytes in
         if length filled = CHUNK_SIZE
         then try_then (seal_data P (w\<lparr>ew_buf := []\<rparr>) filled []) (\<lambda>(w', out). Ok (w', rest, out))
         else Ok (w\<lparr>ew_buf := filled\<rparr>, rest, []))
      else Ok (w, bytes, []))"

lemma push_inner_eq:
  assumes "writer_inv w (bytes @ rest)"
  shows "push_inner P w bytes =
    try_then (fill_buffer P (w\<lparr>ew_pushed := ew_pushed w + of_nat (length bytes)\<rparr>) bytes) (\<lambda>(w1, rest, out).
    try_then (push_chunks P w1 rest out) (\<lambda>(w2, rest', out'). Ok (w2\<lparr>ew_buf := ew_buf w2 @ rest'\<rparr>, out')))"
  using pushed_fits [OF assms] by (simp add: push_inner_def fill_buffer_def Let_def)

lemma fill_buffer_spec:
  assumes "writer_at w (ew_buf w @ bytes @ rest)" and "length (ew_buf w) < CHUNK_SIZE"
  shows "try_then (fill_buffer P w bytes) (\<lambda>(w', ys, out). try_then (pending P w' (ew_buf w' @ ys @ rest)) (\<lambda>x. Ok (out @ x))) =
      pending P w (ew_buf w @ bytes @ rest)"
    and "fill_buffer P w bytes = Ok (w', ys, out) \<Longrightarrow> writer_at w' (ew_buf w' @ ys @ rest) \<and>
      length (ew_buf w') < CHUNK_SIZE \<and> ew_pushed w' = ew_pushed w \<and> ew_declared w' = ew_declared w \<and>
      unat (ew_emitted w') + length (ew_buf w') + length ys = unat (ew_emitted w) + length (ew_buf w) + length bytes \<and>
      (ys = [] \<or> ew_buf w' = [] \<and> \<not> ew_sealed_final w')"
proof -
  let ?tk = "min (CHUNK_SIZE - length (ew_buf w)) (length bytes)"
  let ?c = "ew_buf w @ take ?tk bytes" and ?r = "drop ?tk bytes"
  have whole: "ew_buf w @ bytes @ rest = ?c @ ?r @ rest"
    by (metis append.assoc append_take_drop_id)
  consider (none) "ew_buf w = []" | (some) "ew_buf w \<noteq> []" "length ?c \<noteq> CHUNK_SIZE" | (full) "ew_buf w \<noteq> []" "length ?c = CHUNK_SIZE"
    by blast
  then have "try_then (fill_buffer P w bytes) (\<lambda>(w', ys, out). try_then (pending P w' (ew_buf w' @ ys @ rest)) (\<lambda>x. Ok (out @ x))) =
      pending P w (ew_buf w @ bytes @ rest) \<and>
    (\<forall>w' ys out. fill_buffer P w bytes = Ok (w', ys, out) \<longrightarrow> writer_at w' (ew_buf w' @ ys @ rest) \<and>
      length (ew_buf w') < CHUNK_SIZE \<and> ew_pushed w' = ew_pushed w \<and> ew_declared w' = ew_declared w \<and>
      unat (ew_emitted w') + length (ew_buf w') + length ys = unat (ew_emitted w) + length (ew_buf w) + length bytes \<and>
      (ys = [] \<or> ew_buf w' = [] \<and> \<not> ew_sealed_final w'))"
  proof cases
    case none
    then show ?thesis using assms by (auto simp: fill_buffer_def writer_at_def try_then_id split: if_splits)
  next
    case some
    then have "?tk = length bytes" "length (ew_buf w @ bytes) < CHUNK_SIZE" using assms(2) by (auto simp: min_def split: if_splits)
    then show ?thesis
      using some assms(1) by (auto simp: fill_buffer_def Let_def writer_at_def pending_def try_then_id)
  next
    case full
    let ?w = "w\<lparr>ew_buf := []\<rparr>"
    have "writer_at ?w (ew_buf w @ bytes @ rest)" using assms(1) by (simp add: writer_at_def)
    then have at: "writer_at ?w (?c @ (?r @ rest))" by (simp only: whole)
    have ns: "\<not> ew_sealed_final ?w" using assms(1) full(1) by (auto simp: writer_at_def split: if_splits)
    have p1: "?c = take CHUNK_SIZE (?c @ ?r @ rest)" using full(2) by (metis append_eq_conv_conj)
    note step = seal_data_step [OF at p1 ns full(2), of P "[]", folded whole]
    have fb: "fill_buffer P w bytes = try_then (seal_data P ?w ?c []) (\<lambda>(w', out). Ok (w', ?r, out))"
      using full unfolding fill_buffer_def Let_def by (simp only: if_True if_False simp_thms)
    have len: "length ?c + length ?r = length (ew_buf w) + length bytes" by simp
    show ?thesis
    proof (cases "seal_data P ?w ?c []")
      case (Err e)
      then show ?thesis using step(1) fb by (simp add: try_then_id pending_def)
    next
      case (Ok x)
      obtain w1 out1 where x: "x = (w1, out1)" by fastforce
      note w1 = step(2) [OF Ok [unfolded x]]
      have "ew_buf w1 = []" using w1 by simp
      then show ?thesis using step(1) fb Ok x w1 len by (auto simp: pending_def try_then_id)
    qed
  qed
  then show "try_then (fill_buffer P w bytes) (\<lambda>(w', ys, out). try_then (pending P w' (ew_buf w' @ ys @ rest)) (\<lambda>x. Ok (out @ x))) =
      pending P w (ew_buf w @ bytes @ rest)"
    and "fill_buffer P w bytes = Ok (w', ys, out) \<Longrightarrow> writer_at w' (ew_buf w' @ ys @ rest) \<and>
      length (ew_buf w') < CHUNK_SIZE \<and> ew_pushed w' = ew_pushed w \<and> ew_declared w' = ew_declared w \<and>
      unat (ew_emitted w') + length (ew_buf w') + length ys = unat (ew_emitted w) + length (ew_buf w) + length bytes \<and>
      (ys = [] \<or> ew_buf w' = [] \<and> \<not> ew_sealed_final w')"
    by blast+
qed

lemma writer_push_spec:
  assumes "writer_inv w (bytes @ rest)"
  shows "case writer_push P w bytes of
      (w', Ok out) \<Rightarrow> writer_inv w' rest \<and>
        try_then (pending P w' (ew_buf w' @ rest)) (\<lambda>x. Ok (out @ x)) = pending P w (ew_buf w @ bytes @ rest)
    | (w', Err e) \<Rightarrow> pending P w (ew_buf w @ bytes @ rest) = Err e"
proof -
  let ?w = "w\<lparr>ew_pushed := ew_pushed w + of_nat (length bytes)\<rparr>"
  have nf: "\<not> ew_failed w" and at: "writer_at ?w (ew_buf ?w @ bytes @ rest)" and sm: "length (ew_buf ?w) < CHUNK_SIZE"
    using assms by (simp_all add: writer_inv_def writer_at_def)
  note eq = push_inner_eq [OF assms, of P] and fit = pushed_fits(3) [OF assms]
  note fill = fill_buffer_spec [OF at sm, of P]
  have pw: "pending P ?w xs = pending P w xs" for xs by (simp add: pending_def)
  show ?thesis
  proof (cases "fill_buffer P ?w bytes")
    case (Err e)
    then have "pending P w (ew_buf w @ bytes @ rest) = Err e" using fill(1) by (simp add: pw)
    then show ?thesis using Err eq nf by (simp add: writer_push_def)
  next
    case (Ok x)
    obtain w1 ys out1 where x: "x = (w1, ys, out1)" by (metis prod.exhaust)
    note w1 = fill(2) [OF Ok [unfolded x]]
    show ?thesis
    proof (cases "ys = []")
      case True
      have "push_chunks P w1 [] out1 = Ok (w1, [], out1)" by (subst push_chunks.simps) simp
      then have "writer_push P w bytes = (w1, Ok out1)" using eq Ok x True nf by (simp add: writer_push_def)
      moreover have "writer_inv w1 rest" using w1 True fit assms by (simp add: writer_inv_def)
      ultimately show ?thesis using fill(1) Ok x True by (simp add: pw)
    next
      case False
      then have b: "ew_buf w1 = []" "\<not> ew_sealed_final w1" and at2: "writer_at w1 (ys @ rest)" using w1 by auto
      note pc = push_chunks_spec [OF at2 disjI1 [OF b(2)], of P out1]
      have tot: "try_then (pending P w1 (ys @ rest)) (\<lambda>x. Ok (out1 @ x)) = pending P w (ew_buf w @ bytes @ rest)"
        using fill(1) Ok x b by (simp add: pw)
      show ?thesis
      proof (cases "push_chunks P w1 ys out1")
        case (Err e)
        then have "pending P w (ew_buf w @ bytes @ rest) = Err e" using pc(1) tot by simp
        then show ?thesis using Err eq Ok x nf by (simp add: writer_push_def)
      next
        case ok2: (Ok y)
        obtain w2 zs out2 where y: "y = (w2, zs, out2)" by (metis prod.exhaust)
        note w2 = pc(2) [OF ok2 [unfolded y]]
        have "writer_push P w bytes = (w2\<lparr>ew_buf := zs\<rparr>, Ok out2)" using eq Ok x nf ok2 y w2 b by (simp add: writer_push_def)
        moreover have "writer_inv (w2\<lparr>ew_buf := zs\<rparr>) rest"
          using w2 w1 b fit assms by (auto simp: writer_inv_def writer_at_def split: if_splits)
        moreover have "pending P (w2\<lparr>ew_buf := zs\<rparr>) xs = pending P w2 xs" for xs by (simp add: pending_def)
        ultimately show ?thesis using pc(1) tot ok2 y by simp
      qed
    qed
  qed
qed

lemma writer_finish_spec:
  assumes "writer_inv w []"
  shows "writer_finish P w = pending P w (ew_buf w)"
proof -
  have f: "\<not> ew_failed w" "ew_pushed w = ew_declared w" and at: "writer_at (w\<lparr>ew_buf := []\<rparr>) (ew_buf w @ [])"
    and sm: "length (ew_buf w) < CHUNK_SIZE"
    using assms by (auto simp: writer_inv_def writer_at_def word_unat_eq_iff)
  show ?thesis
  proof (cases "ew_sealed_final w")
    case True
    then show ?thesis using f by (simp add: writer_finish_def pending_def)
  next
    case False
    have p1: "ew_buf w = take CHUNK_SIZE (ew_buf w @ [])" using sm by simp
    have ns: "\<not> ew_sealed_final (w\<lparr>ew_buf := []\<rparr>)" using False by simp
    note step = seal_data_step [OF at p1 ns, of P "[]", simplified]
    have "try_then (seal_data P (w\<lparr>ew_buf := []\<rparr>) (ew_buf w) []) (\<lambda>(w', out). Ok out) = pending P w (ew_buf w)"
    proof (cases "seal_data P (w\<lparr>ew_buf := []\<rparr>) (ew_buf w) []")
      case (Ok x)
      obtain w' o' where x: "x = (w', o')" by fastforce
      then show ?thesis using step(1) step(2) [of w' o'] Ok by (simp add: pending_def try_then_id)
    qed (use step(1) in \<open>simp add: pending_def try_then_id\<close>)
    then show ?thesis using f False by (simp add: writer_finish_def)
  qed
qed

lemma writer_cuts:
  assumes "ew_buf w = []" and "ew_emitted w = 0" and "ew_pushed w = 0" and "\<not> ew_sealed_final w" and "\<not> ew_failed w"
    and "unat (ew_declared w) = length (concat slices)"
  shows "try_then (push_all P w slices out) (\<lambda>(w', out'). try_then (writer_finish P w') (\<lambda>records. Ok (out' @ records))) =
    try_then (data_records P (ew_ctx w) (ew_seq w) (concat slices)) (\<lambda>records. Ok (out @ records))"
proof -
  have run: "try_then (push_all P v slices out) (\<lambda>(w', out'). try_then (writer_finish P w') (\<lambda>records. Ok (out' @ records))) =
      try_then (pending P v (ew_buf v @ concat slices)) (\<lambda>records. Ok (out @ records))" if "writer_inv v (concat slices)" for v
    using that
  proof (induction slices arbitrary: v out)
    case Nil
    then show ?case using writer_finish_spec [of v P] by simp
  next
    case (Cons bytes slices)
    note spec = writer_push_spec [of v bytes "concat slices" P]
    obtain v' r where p: "writer_push P v bytes = (v', r)" by fastforce
    show ?case
    proof (cases r)
      case (Ok recs)
      have "try_then (pending P v' (ew_buf v' @ concat slices)) (\<lambda>x. Ok (recs @ x)) = pending P v (ew_buf v @ bytes @ concat slices)"
        "writer_inv v' (concat slices)"
        using spec p Ok Cons.prems by simp_all
      then show ?thesis using Cons.IH [of v' "out @ recs"] p Ok by (simp add: try_then_assoc flip: \<open>_ = pending P v _\<close>)
    next
      case (Err e)
      then show ?thesis using spec p Cons.prems by simp
    qed
  qed
  have "concat slices = [] \<longrightarrow> ew_declared w = 0" using assms(6) by (metis list.size(3) unat_eq_0)
  then have "writer_inv w (concat slices)"
    using assms by (simp add: writer_inv_def writer_at_def)
  from run [OF this] show ?thesis using assms(1,4) by (simp add: pending_def)
qed

text \<open>
  However the items' bytes are cut into calls of \<open>push\<close>, the writer emits exactly
  the records of cutting the whole content at once: full mebibytes in order, the last record and
  only the last marked final, one empty record for an empty content; and it fails exactly when
  cutting at once fails.
\<close>

theorem writer_slicing_irrelevant:
  assumes "ew_buf w = []" and "ew_emitted w = 0" and "ew_pushed w = 0" and "\<not> ew_sealed_final w" and "\<not> ew_failed w"
    and "unat (ew_declared w) = length (concat slices)"
  shows "try_then (push_all P w slices out) (\<lambda>(w', out'). try_then (writer_finish P w') (\<lambda>records. Ok (out' @ records))) =
    try_then (data_records P (ew_ctx w) (ew_seq w) (concat slices)) (\<lambda>records. Ok (out @ records))"
  using assms by (rule writer_cuts)

definition sample_writer :: envelope_writer where
  "sample_writer =
     \<lparr>ew_ctx = \<lparr>hc_key = replicate 32 0, hc_base_nonce = replicate 12 3, hc_seq = 1, hc_exporter_secret = [], hc_overflowed = False\<rparr>,
      ew_buf = [], ew_declared = 3, ew_pushed = 0, ew_emitted = 0, ew_seq = 1, ew_sealed_final = False,
      ew_total_len = 0, ew_failed = False\<rparr>"

theorem writer_slicing_irrelevant_witness:
  "try_then (push_all toy_prims sample_writer [[10], [], [20, 30]] [])
       (\<lambda>(w', out'). try_then (writer_finish toy_prims w') (\<lambda>records. Ok (out' @ records))) =
     Ok ([0, 0, 0, 19] @ [10, 20, 30] @ replicate 16 7)"
proof -
  let ?ctx = "ew_ctx sample_writer"
  have "hpke_seal toy_prims ?ctx aad pt = (?ctx\<lparr>hc_seq := 2\<rparr>, Ok (pt @ replicate 16 7))" for aad pt
    by (simp add: hpke_seal_def increment_seq_def compute_nonce_eq sample_writer_def toy_prims_def)
  then have "data_records toy_prims ?ctx 1 [10, 20, 30] = Ok ([0, 0, 0, 19] @ [10, 20, 30] @ replicate 16 7)"
    by (subst data_records.simps) (simp add: append_record_def u32_to_be_bytes_def)
  then show ?thesis
    using writer_slicing_irrelevant [of sample_writer "[[10], [], [20, 30]]" toy_prims "[]"] by (simp add: sample_writer_def)
qed

end
