(* ===== verification/Envelope_Open.thy ===== *)
theory Envelope_Open
  imports Envelope_Seal
begin

text \<open>
  Deferred delivery, the opening side (\<open>tradr-identity/src/envelope.rs\<close>): the reader that is fed
  an envelope in arbitrary slices, the checks of the manifest, and \<open>open_envelope\<close>. The
  reader's hasher is the list of bytes it has absorbed. The agreement of the key store and the
  verification of an attestation are the callbacks the code takes.
\<close>

section \<open>The outer header\<close>

definition parse_outer_header :: "u8 list \<Rightarrow> (outer_header, envelope_error) result" where
  "parse_outer_header bytes =
     (if length bytes < OUTER_HEADER_LEN then Err HeaderTooShort
      else
        let version = bytes ! 0 in
        if version \<noteq> 1 then Err (UnsupportedVersion version)
        else case device_id_from_bytes (take 16 (drop 1 bytes)) of
          Err _ \<Rightarrow> Err ManifestMalformed
        | Ok recipient_device_id \<Rightarrow>
            (case device_id_from_bytes (take 16 (drop 17 bytes)) of
               Err _ \<Rightarrow> Err ManifestMalformed
             | Ok sender_device_id \<Rightarrow>
                 Ok \<lparr>oh_version = version, oh_recipient_device_id = recipient_device_id,
                     oh_sender_device_id = sender_device_id, oh_enc = take 65 (drop 33 bytes),
                     oh_total_len = u64_from_be_bytes (take 8 (drop 98 bytes))\<rparr>))"

section \<open>The manifest\<close>

record opened_manifest =
  om_transfer_id :: transfer_id
  om_sender :: public_identity
  om_created_at :: unix_time
  om_tier :: trust_tier
  om_items :: "envelope_item list"

type_synonym attest_fn = "rstr \<Rightarrow> public_identity \<Rightarrow> unix_time \<Rightarrow> (trust_tier, rstr) result"

fun wire_hashes :: "manifest_item_wire list \<Rightarrow> ((rstr \<times> u64 \<times> u8 list) list, envelope_error) result" where
  "wire_hashes [] = Ok []"
| "wire_hashes (item # items) =
     try_then (ok_or ManifestMalformed (decode_hex (miw_content_hash item))) (\<lambda>hash.
     if length hash \<noteq> 32 then Err ManifestMalformed
     else try_then (wire_hashes items) (\<lambda>metas. Ok ((miw_rel_path item, miw_size item, hash) # metas)))"

fun wire_items :: "u64 \<Rightarrow> (rstr \<times> u64 \<times> u8 list) list \<Rightarrow> (envelope_item list, envelope_error) result" where
  "wire_items declared [] = Ok []"
| "wire_items declared ((path, sz, hash) # metas) =
     (case checked_add declared sz of
        None \<Rightarrow> Err ItemSizeMismatch
      | Some declared' \<Rightarrow>
          (case rel_path_new path of
             Err _ \<Rightarrow> Err ManifestMalformed
           | Ok rel_path \<Rightarrow>
               try_then (wire_items declared' metas) (\<lambda>items.
               Ok (\<lparr>ei_rel_path = rel_path, ei_size = sz, ei_content_hash = ContentHash hash\<rparr> # items))))"

definition parse_point :: "rstr \<Rightarrow> (public_key_point, envelope_error) result" where
  "parse_point s =
     try_then (ok_or ManifestMalformed (decode_hex s)) (\<lambda>bytes.
     map_err (\<lambda>_. ManifestMalformed) (public_key_point_from_bytes bytes))"

definition accepted_tier :: "(trust_tier, rstr) result \<Rightarrow> (trust_tier, envelope_error) result" where
  "accepted_tier r =
     (case r of
        Ok t \<Rightarrow> if t = SameAccount then Ok SameAccount else if t = Linked then Ok Linked else Err (UntrustedTier t)
      | Err e \<Rightarrow> Err (AttestationRefused e))"

text \<open>The additions on the clock wrap, as they do in a release build.\<close>

definition check_manifest ::
    "envelope_env \<Rightarrow> outer_header \<Rightarrow> u8 list \<Rightarrow> unix_time \<Rightarrow> attest_fn \<Rightarrow> (opened_manifest, envelope_error) result" where
  "check_manifest E header manifest_json now attest =
     try_then (ok_or ManifestMalformed (ee_from_json E manifest_json)) (\<lambda>manifest.
     try_then (parse_point (mw_identity_pub manifest)) (\<lambda>identity_pub.
     let derived_device_id = device_id_from_identity_digest (ee_hash E (point_bytes identity_pub)) in
     if derived_device_id \<noteq> oh_sender_device_id header then Err SenderMismatch
     else
     try_then (map_err (\<lambda>_. ManifestMalformed) (transfer_id_from_str (mw_transfer_id manifest))) (\<lambda>tid.
     try_then (wire_hashes (mw_items manifest)) (\<lambda>items_meta.
     try_then (build_signature_payload (oh_enc header) (oh_recipient_device_id header) (oh_sender_device_id header)
        (mw_created_at manifest) (transfer_id_to_bytes tid) items_meta) (\<lambda>sig_payload.
     try_then (ok_or Env_SignatureInvalid (decode_hex (mw_signature manifest))) (\<lambda>sig_bytes.
     try_then (map_err (\<lambda>_. Env_SignatureInvalid) (parse_verifying_key (ee_curve E) identity_pub)) (\<lambda>verifying_key.
     if \<not> signature_verifies (ee_curve E) verifying_key DeferredDelivery sig_payload (Signature sig_bytes)
     then Err Env_SignatureInvalid
     else
     try_then (parse_point (mw_agreement_pub manifest)) (\<lambda>agreement_pub.
     try_then (parse_point (kbw_agreement_pub (mw_key_binding manifest))) (\<lambda>kb_agreement.
     try_then (ok_or ManifestMalformed (decode_hex (kbw_signature (mw_key_binding manifest)))) (\<lambda>kb_sig_bytes.
     try_then (map_err Env_KeyBinding (verify_key_binding (ee_curve E) (ee_hash E) identity_pub
        \<lparr>kb_agreement_pub = kb_agreement, kb_signature = Signature kb_sig_bytes,
         kb_not_after = UnixTime (kbw_not_after (mw_key_binding manifest))\<rparr>
        agreement_pub (UnixTime (mw_created_at manifest)))) (\<lambda>_.
     let created_secs = mw_created_at manifest; now_secs = as_secs now in
     if sint created_secs < sint (now_secs - THIRTY_DAYS_SECS) \<or> sint created_secs > sint (now_secs + THREE_HUNDRED_SECS)
     then Err (CreatedAtOutOfRange (UnixTime created_secs) now)
     else
     let sender_identity = \<lparr>pi_identity_pub = identity_pub, pi_agreement_pub = agreement_pub, pi_device_id = derived_device_id\<rparr> in
     try_then (accepted_tier (attest (mw_attestation_token manifest) sender_identity (UnixTime created_secs))) (\<lambda>tier.
     try_then (wire_items 0 items_meta) (\<lambda>items.
     Ok \<lparr>om_transfer_id = tid, om_sender = sender_identity, om_created_at = UnixTime created_secs,
         om_tier = tier, om_items = items\<rparr>)))))))))))))"

section \<open>The reader\<close>

datatype reader_event =
    Ev_Manifest opened_manifest
  | Ev_ItemData nat "u8 list"
  | Ev_ItemVerified nat

datatype stage = Stage_Header | Stage_Len bool | Stage_Body bool nat | Stage_Done

record envelope_reader =
  er_buf :: "u8 list"
  er_stage :: stage
  er_header :: "outer_header option"
  er_ctx :: "hpke_context option"
  er_remaining :: u64
  er_seq :: u64
  er_manifest :: "opened_manifest option"
  er_current :: nat
  er_current_left :: u64
  er_hasher :: "u8 list"
  er_failed :: bool

text \<open>What \<open>EnvelopeReader::new\<close> is given, constant for the life of a reader.\<close>

record reader_env =
  op_env :: envelope_env
  op_recipient :: public_identity
  op_agree :: "public_key_point \<Rightarrow> (u8 list, key_store_error) result"
  op_now :: unix_time
  op_verify_attestation :: attest_fn

definition envelope_reader_new :: envelope_reader where
  "envelope_reader_new =
     \<lparr>er_buf = [], er_stage = Stage_Header, er_header = None, er_ctx = None, er_remaining = 0, er_seq = 1,
      er_manifest = None, er_current = 0, er_current_left = 0, er_hasher = [], er_failed = False\<rparr>"

definition read_header :: "reader_env \<Rightarrow> envelope_reader \<Rightarrow> u8 list \<Rightarrow> (envelope_reader, envelope_error) result" where
  "read_header Op r bytes =
     try_then (parse_outer_header bytes) (\<lambda>header.
     if oh_total_len header < of_nat OUTER_HEADER_LEN
     then Err (TotalLengthMismatch (oh_total_len header) (of_nat OUTER_HEADER_LEN))
     else if oh_recipient_device_id header \<noteq> pi_device_id (op_recipient Op) then Err RecipientMismatch
     else
       try_then (map_err Env_Hpke (setup_base_receiver (ee_curve (op_env Op)) (ee_hpke (op_env Op)) (oh_enc header)
          (pi_agreement_pub (op_recipient Op))
          (make_hpke_info (pi_device_id (op_recipient Op)) (oh_sender_device_id header)) (op_agree Op))) (\<lambda>ctx.
       Ok (r\<lparr>er_remaining := oh_total_len header - of_nat OUTER_HEADER_LEN, er_ctx := Some ctx,
            er_header := Some header, er_stage := Stage_Len True\<rparr>)))"

definition read_len :: "envelope_reader \<Rightarrow> u8 list \<Rightarrow> bool \<Rightarrow> (envelope_reader, envelope_error) result" where
  "read_len r bytes manifest =
     (if er_remaining r < 4 then Err Truncated
      else
        let remaining = er_remaining r - 4; len = unat (u32_from_be_bytes bytes) in
        if len > unat remaining then Err Truncated
        else if \<not> (if manifest then len \<le> MAX_MANIFEST_RECORD else TAG_LEN \<le> len \<and> len \<le> CHUNK_SIZE + TAG_LEN)
        then Err ManifestMalformed
        else Ok (r\<lparr>er_remaining := remaining, er_stage := Stage_Body manifest len\<rparr>))"

definition item_size :: "envelope_item list \<Rightarrow> nat \<Rightarrow> u64" where
  "item_size items i = (if i < length items then ei_size (items ! i) else 0)"

text \<open>
  The loop of \<open>distribute\<close> over the items of the manifest: current item, bytes it still
  expects, bytes hashed so far, plaintext left.
\<close>

function distribute_loop ::
    "(u8 list \<Rightarrow> u8 list) \<Rightarrow> envelope_item list \<Rightarrow> nat \<Rightarrow> u64 \<Rightarrow> u8 list \<Rightarrow> u8 list \<Rightarrow>
      (nat \<times> u64 \<times> u8 list \<times> reader_event list, envelope_error) result" where
  "distribute_loop hash items cur left hasher plaintext =
     (if cur \<ge> length items then
        (if plaintext = [] then Ok (cur, left, hasher, []) else Err ItemSizeMismatch)
      else if left = 0 then
        (if hash hasher \<noteq> content_hash_bytes (ei_content_hash (items ! cur)) then Err ContentHashMismatch
         else try_then (distribute_loop hash items (cur + 1) (item_size items (cur + 1)) [] plaintext)
                (\<lambda>(c, l, h, evs). Ok (c, l, h, Ev_ItemVerified cur # evs)))
      else if plaintext = [] then Ok (cur, left, hasher, [])
      else
        let tk = min (unat left) (length plaintext) in
        try_then (distribute_loop hash items cur (left - of_nat tk) (hasher @ take tk plaintext) (drop tk plaintext))
          (\<lambda>(c, l, h, evs). Ok (c, l, h, Ev_ItemData cur (take tk plaintext) # evs)))"
  by pat_completeness auto

termination
proof (relation "measure (\<lambda>(hash, items, cur, left, hasher, plaintext). (length items - cur) + length plaintext)", goal_cases)
  case (3 hash items cur left hasher plaintext tk)
  have "tk \<noteq> 0" "tk \<le> length plaintext" using 3(2-4) by (auto simp: min_def unat_gt_0)
  then have "length (drop tk plaintext) < length plaintext" by simp
  then show ?case using 3(1) by (simp del: length_drop)
qed auto

declare distribute_loop.simps [simp del]

definition distribute ::
    "reader_env \<Rightarrow> envelope_reader \<Rightarrow> u8 list \<Rightarrow> (envelope_reader \<times> reader_event list, envelope_error) result" where
  "distribute Op r plaintext =
     (case er_manifest r of
        None \<Rightarrow> Err Truncated
      | Some manifest \<Rightarrow>
          try_then (distribute_loop (ee_hash (op_env Op)) (om_items manifest) (er_current r) (er_current_left r)
             (er_hasher r) plaintext) (\<lambda>(c, l, h, evs).
          Ok (r\<lparr>er_current := c, er_current_left := l, er_hasher := h\<rparr>, evs)))"

definition read_manifest ::
    "reader_env \<Rightarrow> envelope_reader \<Rightarrow> u8 list \<Rightarrow> (envelope_reader \<times> reader_event list, envelope_error) result" where
  "read_manifest Op r record =
     (case (er_header r, er_ctx r) of
        (Some header, Some ctx) \<Rightarrow>
          (case hpke_open (ee_hpke (op_env Op)) ctx (make_aad 0 False) record of
             (_, Err e) \<Rightarrow> Err (Env_Hpke e)
           | (ctx', Ok manifest_json) \<Rightarrow>
               try_then (check_manifest (op_env Op) header manifest_json (op_now Op) (op_verify_attestation Op)) (\<lambda>manifest.
               if er_remaining r = 0 then Err NoDataRecords
               else
                 try_then (distribute Op
                   (r\<lparr>er_ctx := Some ctx', er_current_left := item_size (om_items manifest) 0,
                      er_manifest := Some manifest, er_stage := Stage_Len False\<rparr>) []) (\<lambda>(r', evs).
                 Ok (r', Ev_Manifest manifest # evs))))
      | _ \<Rightarrow> Err Truncated)"

definition read_data ::
    "reader_env \<Rightarrow> envelope_reader \<Rightarrow> u8 list \<Rightarrow> (envelope_reader \<times> reader_event list, envelope_error) result" where
  "read_data Op r record =
     (let is_final = (er_remaining r = 0) in
      case er_ctx r of
        None \<Rightarrow> Err Truncated
      | Some ctx \<Rightarrow>
          (case hpke_open (ee_hpke (op_env Op)) ctx (make_aad (er_seq r) is_final) record of
             (_, Err e) \<Rightarrow> Err (Env_Hpke e)
           | (ctx', Ok plaintext) \<Rightarrow>
               if \<not> is_final \<and> length plaintext \<noteq> CHUNK_SIZE then Err ItemSizeMismatch
               else
                 try_then (distribute Op (r\<lparr>er_ctx := Some ctx', er_seq := er_seq r + 1\<rparr>) plaintext) (\<lambda>(r', evs).
                 if is_final then
                   (let item_count = (case er_manifest r' of None \<Rightarrow> 0 | Some m \<Rightarrow> length (om_items m)) in
                    if er_current r' \<noteq> item_count then Err ItemSizeMismatch
                    else Ok (r'\<lparr>er_stage := Stage_Done\<rparr>, evs))
                 else Ok (r'\<lparr>er_stage := Stage_Len False\<rparr>, evs))))"

definition advance ::
    "reader_env \<Rightarrow> envelope_reader \<Rightarrow> u8 list \<Rightarrow> (envelope_reader \<times> reader_event list, envelope_error) result" where
  "advance Op r bytes =
     (case er_stage r of
        Stage_Header \<Rightarrow> try_then (read_header Op r bytes) (\<lambda>r'. Ok (r', []))
      | Stage_Len manifest \<Rightarrow> try_then (read_len r bytes manifest) (\<lambda>r'. Ok (r', []))
      | Stage_Body manifest len \<Rightarrow>
          (let r = r\<lparr>er_remaining := er_remaining r - of_nat len\<rparr> in
           if manifest then read_manifest Op r bytes else read_data Op r bytes)
      | Stage_Done \<Rightarrow> Err TrailingBytes)"

fun stage_need :: "stage \<Rightarrow> nat" where
  "stage_need Stage_Header = OUTER_HEADER_LEN"
| "stage_need (Stage_Len _) = 4"
| "stage_need (Stage_Body _ len) = len"
| "stage_need Stage_Done = 0"

fun is_body :: "stage \<Rightarrow> bool" where
  "is_body (Stage_Body _ _) = True"
| "is_body _ = False"

lemma distribute_fields:
  "distribute Op r pt = Ok (r', evs) \<Longrightarrow> er_buf r' = er_buf r \<and> er_stage r' = er_stage r \<and> er_ctx r' = er_ctx r \<and>
     er_seq r' = er_seq r \<and> er_remaining r' = er_remaining r \<and> er_header r' = er_header r \<and> er_manifest r' = er_manifest r \<and>
     er_failed r' = er_failed r"
  by (auto simp: distribute_def split: option.splits)

lemma read_manifest_Ok:
  assumes "read_manifest Op r record = Ok (r', evs)"
  shows "\<exists>header ctx ctx' json manifest evs'. er_header r = Some header \<and> er_ctx r = Some ctx \<and>
    hpke_open (ee_hpke (op_env Op)) ctx (make_aad 0 False) record = (ctx', Ok json) \<and>
    check_manifest (op_env Op) header json (op_now Op) (op_verify_attestation Op) = Ok manifest \<and> er_remaining r \<noteq> 0 \<and>
    distribute Op (r\<lparr>er_ctx := Some ctx', er_current_left := item_size (om_items manifest) 0,
      er_manifest := Some manifest, er_stage := Stage_Len False\<rparr>) [] = Ok (r', evs') \<and> evs = Ev_Manifest manifest # evs'"
proof -
  obtain header ctx where h: "er_header r = Some header" "er_ctx r = Some ctx"
    using assms by (auto simp: read_manifest_def split: option.splits)
  obtain ctx' q where o: "hpke_open (ee_hpke (op_env Op)) ctx (make_aad 0 False) record = (ctx', q)" by fastforce
  then obtain json where "q = Ok json" using assms h by (cases q) (simp_all add: read_manifest_def)
  then show ?thesis using assms h o by (simp add: read_manifest_def split: if_splits) fastforce
qed

lemma read_data_Ok:
  assumes "read_data Op r record = Ok (r', evs)"
  shows "\<exists>ctx ctx' plaintext r1. er_ctx r = Some ctx \<and>
    hpke_open (ee_hpke (op_env Op)) ctx (make_aad (er_seq r) (er_remaining r = 0)) record = (ctx', Ok plaintext) \<and>
    (er_remaining r \<noteq> 0 \<longrightarrow> length plaintext = CHUNK_SIZE) \<and>
    distribute Op (r\<lparr>er_ctx := Some ctx', er_seq := er_seq r + 1\<rparr>) plaintext = Ok (r1, evs) \<and>
    r' = r1\<lparr>er_stage := if er_remaining r = 0 then Stage_Done else Stage_Len False\<rparr> \<and>
    (er_remaining r = 0 \<longrightarrow> er_current r1 = (case er_manifest r1 of None \<Rightarrow> 0 | Some m \<Rightarrow> length (om_items m)))"
proof -
  obtain ctx where c: "er_ctx r = Some ctx" using assms by (auto simp: read_data_def Let_def split: option.splits)
  obtain ctx' q where o: "hpke_open (ee_hpke (op_env Op)) ctx (make_aad (er_seq r) (er_remaining r = 0)) record = (ctx', q)" by fastforce
  then obtain plaintext where "q = Ok plaintext" using assms c by (cases q) (simp_all add: read_data_def Let_def)
  then show ?thesis using assms c o by (simp add: read_data_def Let_def split: if_splits) fastforce+
qed

lemma read_manifest_stage:
  "read_manifest Op r bytes = Ok (r', evs) \<Longrightarrow>
     er_buf r' = er_buf r \<and> er_failed r' = er_failed r \<and> er_stage r' = Stage_Len False"
  by (drule read_manifest_Ok) (auto dest!: distribute_fields)

lemma read_data_stage:
  "read_data Op r bytes = Ok (r', evs) \<Longrightarrow>
     er_buf r' = er_buf r \<and> er_failed r' = er_failed r \<and> er_stage r' \<in> {Stage_Len False, Stage_Done}"
  by (drule read_data_Ok) (auto dest!: distribute_fields)

lemma advance_fields:
  assumes "advance Op r bytes = Ok (r', evs)"
  shows "er_buf r' = er_buf r \<and> er_failed r' = er_failed r \<and> (is_body (er_stage r) \<longrightarrow> \<not> is_body (er_stage r'))"
proof (cases "er_stage r")
  case (Stage_Body manifest len)
  then show ?thesis
    using assms by (auto simp: advance_def Let_def dest!: read_manifest_stage read_data_stage split: if_splits)
qed (use assms in \<open>auto simp: advance_def read_header_def read_len_def Let_def split: if_splits\<close>)

lemma advance_stage:
  assumes "advance Op r bytes = Ok (r', evs)"
  shows "er_buf r' = er_buf r" and "er_failed r' = er_failed r" and "is_body (er_stage r) \<Longrightarrow> \<not> is_body (er_stage r')"
  using advance_fields [OF assms] by blast+

function feed_inner ::
    "reader_env \<Rightarrow> envelope_reader \<Rightarrow> u8 list \<Rightarrow> (envelope_reader \<times> reader_event list, envelope_error) result" where
  "feed_inner Op r input =
     (if er_stage r = Stage_Done then (if input = [] then Ok (r, []) else Err TrailingBytes)
      else
        let need = stage_need (er_stage r); tk = min (need - length (er_buf r)) (length input);
            filled = er_buf r @ take tk input in
        if length filled < need then Ok (r\<lparr>er_buf := filled\<rparr>, [])
        else
          try_then (advance Op (r\<lparr>er_buf := []\<rparr>) filled) (\<lambda>(r', evs).
          try_then (feed_inner Op r' (drop tk input)) (\<lambda>(r'', evs'). Ok (r'', evs @ evs'))))"
  by pat_completeness auto

termination
proof (relation "measure (\<lambda>(Op, r, input). 2 * (length input + length (er_buf r)) + (if is_body (er_stage r) then 1 else 0))", goal_cases)
  case (2 Op r input need tk filled y r' evs)
  have f: "length filled = length (er_buf r) + tk" "tk \<le> length input" using 2(3,4) by simp_all
  have b: "er_buf r' = []" "is_body (er_stage r) \<Longrightarrow> \<not> is_body (er_stage r')"
    using advance_stage [of Op "r\<lparr>er_buf := []\<rparr>" filled r' evs] 2(6,7) by simp_all
  show ?case
  proof (cases "length (er_buf r) + tk = 0")
    case True
    then have "need = 0" using 2(5) f by simp
    then have "is_body (er_stage r)" using 2(1,2) by (cases "er_stage r") auto
    then show ?thesis using b True by simp
  next
    case False
    then have "2 * (length input - tk) + 1 < 2 * (length input + length (er_buf r))" using f(2) by arith
    then show ?thesis using b(1) by simp
  qed
qed simp

declare feed_inner.simps [simp del]

definition reader_feed ::
    "reader_env \<Rightarrow> envelope_reader \<Rightarrow> u8 list \<Rightarrow> envelope_reader \<times> (reader_event list, envelope_error) result" where
  "reader_feed Op r bytes =
     (if er_failed r then (r, Err AlreadyFailed)
      else case feed_inner Op r bytes of
        Err e \<Rightarrow> (r\<lparr>er_failed := True\<rparr>, Err e)
      | Ok (r', evs) \<Rightarrow> (r', Ok evs))"

definition reader_finish :: "envelope_reader \<Rightarrow> (opened_manifest, envelope_error) result" where
  "reader_finish r =
     (if er_failed r then Err AlreadyFailed
      else case (er_stage r, er_manifest r) of
        (Stage_Done, Some manifest) \<Rightarrow> Ok manifest
      | _ \<Rightarrow> Err Truncated)"

record opened_envelope =
  oe_manifest :: opened_manifest
  oe_contents :: "u8 list list"

fun collect_contents :: "reader_event list \<Rightarrow> u8 list list \<Rightarrow> (u8 list list, envelope_error) result" where
  "collect_contents [] contents = Ok contents"
| "collect_contents (Ev_Manifest m # evs) contents = collect_contents evs (replicate (length (om_items m)) [])"
| "collect_contents (Ev_ItemData i bytes # evs) contents =
     (if i < length contents then collect_contents evs (contents[i := contents ! i @ bytes]) else Err ItemSizeMismatch)"
| "collect_contents (Ev_ItemVerified i # evs) contents = collect_contents evs contents"

definition open_envelope :: "reader_env \<Rightarrow> u8 list \<Rightarrow> (opened_envelope, envelope_error) result" where
  "open_envelope Op bytes =
     try_then (parse_outer_header bytes) (\<lambda>header.
     if oh_total_len header \<noteq> of_nat (length bytes)
     then Err (TotalLengthMismatch (oh_total_len header) (of_nat (length bytes)))
     else
       case reader_feed Op envelope_reader_new bytes of
         (_, Err e) \<Rightarrow> Err e
       | (r, Ok evs) \<Rightarrow>
           try_then (collect_contents evs []) (\<lambda>contents.
           try_then (reader_finish r) (\<lambda>manifest. Ok \<lparr>oe_manifest = manifest, oe_contents = contents\<rparr>)))"

section \<open>Slices do not matter\<close>

text \<open>A reader between two calls: its buffer is shorter than the unit it waits for.\<close>

definition reader_waits :: "envelope_reader \<Rightarrow> bool" where
  "reader_waits r \<longleftrightarrow> (if er_stage r = Stage_Done then er_buf r = [] else length (er_buf r) < stage_need (er_stage r))"

lemma feed_inner_waits:
  "feed_inner Op r input = Ok (r', evs) \<Longrightarrow> er_stage r \<noteq> Stage_Done \<or> er_buf r = [] \<Longrightarrow> reader_waits r'"
proof (induction Op r input arbitrary: r' evs rule: feed_inner.induct)
  case (1 Op r input)
  let ?need = "stage_need (er_stage r)" and ?tk = "min (stage_need (er_stage r) - length (er_buf r)) (length input)"
  let ?f = "er_buf r @ take ?tk input"
  show ?case
  proof (cases "er_stage r = Stage_Done \<or> length ?f < ?need")
    case True
    then show ?thesis
      using "1.prems" by (subst (asm) feed_inner.simps) (auto simp: reader_waits_def Let_def split: if_splits)
  next
    case False
    then obtain r1 ev1 ev2 where a: "advance Op (r\<lparr>er_buf := []\<rparr>) ?f = Ok (r1, ev1)"
      and rest: "feed_inner Op r1 (drop ?tk input) = Ok (r', ev2)"
      using "1.prems"(1) by (subst (asm) feed_inner.simps) (auto simp: Let_def)
    have "er_buf r1 = []" using advance_stage(1) [OF a] by simp
    then show ?thesis using "1.IH" [OF _ refl refl refl _ a refl rest] False by simp
  qed
qed

lemma feed_inner_step:
  assumes "er_stage r \<noteq> Stage_Done" and "length (er_buf r) \<le> stage_need (er_stage r)"
    and "stage_need (er_stage r) \<le> length (er_buf r) + length input"
  shows "feed_inner Op r input =
    try_then (advance Op (r\<lparr>er_buf := []\<rparr>) (er_buf r @ take (stage_need (er_stage r) - length (er_buf r)) input)) (\<lambda>(r', evs).
    try_then (feed_inner Op r' (drop (stage_need (er_stage r) - length (er_buf r)) input)) (\<lambda>(r'', evs'). Ok (r'', evs @ evs')))"
proof -
  have "min (stage_need (er_stage r) - length (er_buf r)) (length input) = stage_need (er_stage r) - length (er_buf r)"
    using assms(3) by simp
  then show ?thesis using assms by (subst feed_inner.simps) (simp add: Let_def)
qed

lemma feed_inner_short:
  assumes "er_stage r \<noteq> Stage_Done" and "length (er_buf r) + length input < stage_need (er_stage r)"
  shows "feed_inner Op r input = Ok (r\<lparr>er_buf := er_buf r @ input\<rparr>, [])"
  using assms by (subst feed_inner.simps) (simp add: Let_def min_absorb2)

lemma feed_inner_append:
  assumes "length (er_buf r) \<le> stage_need (er_stage r)"
  shows "feed_inner Op r (xs @ ys) =
    try_then (feed_inner Op r xs) (\<lambda>(r', evs). try_then (feed_inner Op r' ys) (\<lambda>(r'', evs'). Ok (r'', evs @ evs')))"
  using assms
proof (induction Op r xs rule: feed_inner.induct)
  case (1 Op r xs)
  let ?n = "stage_need (er_stage r)" and ?b = "er_buf r"
  consider (over) "er_stage r = Stage_Done" | (short) "er_stage r \<noteq> Stage_Done" "length ?b + length xs < ?n"
    | (full) "er_stage r \<noteq> Stage_Done" "?n \<le> length ?b + length xs"
    by linarith
  then show ?case
  proof cases
    case over
    then show ?thesis by (cases "xs = []") (auto simp: feed_inner.simps [of Op r] try_then_id split_beta)
  next
    case short
    let ?r = "r\<lparr>er_buf := ?b @ xs\<rparr>"
    have xs: "feed_inner Op r xs = Ok (?r, [])" by (rule feed_inner_short [OF short])
    have "feed_inner Op r (xs @ ys) = feed_inner Op ?r ys"
    proof (cases "length ?b + length xs + length ys < ?n")
      case True
      then show ?thesis using feed_inner_short [of r "xs @ ys" Op] feed_inner_short [of ?r ys Op] short(1) by simp
    next
      case False
      then show ?thesis
        using feed_inner_step [of r "xs @ ys" Op] feed_inner_step [of ?r ys Op] short by simp
    qed
    then show ?thesis using xs by (simp add: try_then_id split_beta)
  next
    case full
    let ?k = "?n - length ?b"
    have tk: "min ?k (length xs) = ?k" "take ?k (xs @ ys) = take ?k xs" "drop ?k (xs @ ys) = drop ?k xs @ ys"
      using full(2) by simp_all
    have all: "feed_inner Op r (xs @ ys) = try_then (advance Op (r\<lparr>er_buf := []\<rparr>) (?b @ take ?k xs)) (\<lambda>(r', evs).
        try_then (feed_inner Op r' (drop ?k xs @ ys)) (\<lambda>(r'', evs'). Ok (r'', evs @ evs')))"
      using feed_inner_step [of r "xs @ ys" Op] full "1.prems" tk by simp
    have one: "feed_inner Op r xs = try_then (advance Op (r\<lparr>er_buf := []\<rparr>) (?b @ take ?k xs)) (\<lambda>(r', evs).
        try_then (feed_inner Op r' (drop ?k xs)) (\<lambda>(r'', evs'). Ok (r'', evs @ evs')))"
      by (rule feed_inner_step [OF full(1) "1.prems" full(2)])
    show ?thesis
    proof (cases "advance Op (r\<lparr>er_buf := []\<rparr>) (?b @ take ?k xs)")
      case (Ok x)
      obtain r1 ev1 where x: "x = (r1, ev1)" by fastforce
      have "er_buf r1 = []" using advance_stage(1) [OF Ok [unfolded x]] by simp
      then have b1: "length (er_buf r1) \<le> stage_need (er_stage r1)" by simp
      have nl: "\<not> length (?b @ take (min ?k (length xs)) xs) < ?n" using full by simp
      have ad: "advance Op (r\<lparr>er_buf := []\<rparr>) (?b @ take (min ?k (length xs)) xs) = Ok (r1, ev1)" using Ok x by (simp only: tk)
      have eq: "feed_inner Op r1 (drop ?k xs @ ys) = try_then (feed_inner Op r1 (drop ?k xs)) (\<lambda>(r', evs).
          try_then (feed_inner Op r' ys) (\<lambda>(r'', evs'). Ok (r'', evs @ evs')))"
        using "1.IH" [OF full(1) refl refl refl nl ad refl b1] by (simp only: tk)
      show ?thesis
        unfolding all one Ok x try_then.simps prod.case eq
        by (cases "feed_inner Op r1 (drop ?k xs)") (auto simp: try_then_assoc split_beta)
    qed (use all one in simp)
  qed
qed

fun feed_all ::
    "reader_env \<Rightarrow> envelope_reader \<Rightarrow> u8 list list \<Rightarrow> envelope_reader \<times> (reader_event list, envelope_error) result" where
  "feed_all Op r [] = (r, Ok [])"
| "feed_all Op r (bytes # slices) =
     (case reader_feed Op r bytes of
        (r', Err e) \<Rightarrow> (r', Err e)
      | (r', Ok evs) \<Rightarrow>
          (case feed_all Op r' slices of (r'', Err e) \<Rightarrow> (r'', Err e) | (r'', Ok evs') \<Rightarrow> (r'', Ok (evs @ evs'))))"

text \<open>What every unit keeps, feeding keeps; \<open>I\<close> speaks of the bytes consumed and not of the buffer.\<close>

lemma feed_inner_invariant:
  assumes "feed_inner Op r input = Ok (r', evs)" and "I r before past" and "length (er_buf r) \<le> stage_need (er_stage r)"
    and buf: "\<And>r evs past b. I r evs past \<Longrightarrow> I (r\<lparr>er_buf := b\<rparr>) evs past"
    and unit: "\<And>r u r1 ev evs past. I r evs past \<Longrightarrow> er_buf r = [] \<Longrightarrow> length u = stage_need (er_stage r) \<Longrightarrow>
      advance Op r u = Ok (r1, ev) \<Longrightarrow> I r1 (evs @ ev) (past @ u)"
  shows "\<exists>past'. I r' (before @ evs) past' \<and> past' @ er_buf r' = past @ er_buf r @ input"
  using assms(1-3) unit
proof (induction Op r input arbitrary: r' evs before past rule: feed_inner.induct)
  case (1 Op r input)
  let ?n = "stage_need (er_stage r)" and ?b = "er_buf r"
  let ?k = "?n - length ?b"
  consider (over) "er_stage r = Stage_Done" | (short) "er_stage r \<noteq> Stage_Done" "length ?b + length input < ?n"
    | (full) "er_stage r \<noteq> Stage_Done" "?n \<le> length ?b + length input"
    by linarith
  then show ?case
  proof cases
    case over
    then have "input = []" "r' = r" "evs = []" using "1.prems"(1) by (auto simp: feed_inner.simps [of Op r] split: if_splits)
    then show ?thesis using "1.prems"(2) by auto
  next
    case short
    then have "r' = r\<lparr>er_buf := ?b @ input\<rparr>" "evs = []" using "1.prems"(1) feed_inner_short [OF short, of Op] by simp_all
    then show ?thesis using buf [OF "1.prems"(2)] by auto
  next
    case full
    have tk: "min ?k (length input) = ?k" using full(2) by simp
    obtain r1 ev1 ev2 where a: "advance Op (r\<lparr>er_buf := []\<rparr>) (?b @ take ?k input) = Ok (r1, ev1)"
      and rest: "feed_inner Op r1 (drop ?k input) = Ok (r', ev2)" and evs: "evs = ev1 @ ev2"
      using "1.prems"(1) feed_inner_step [OF full(1) "1.prems"(3) full(2)] by auto
    have b1: "er_buf r1 = []" using advance_stage(1) [OF a] by simp
    have I1: "I r1 (before @ ev1) (past @ ?b @ take ?k input)"
      using "1.prems"(4) [OF buf [OF "1.prems"(2), of "[]"] _ _ a] full "1.prems"(3) by simp
    have nl: "\<not> length (?b @ take (min ?k (length input)) input) < ?n" using full by simp
    have ad: "advance Op (r\<lparr>er_buf := []\<rparr>) (?b @ take (min ?k (length input)) input) = Ok (r1, ev1)" using a by (simp only: tk)
    have rd: "feed_inner Op r1 (drop (min ?k (length input)) input) = Ok (r', ev2)" using rest by (simp only: tk)
    have "\<exists>past'. I r' ((before @ ev1) @ ev2) past' \<and> past' @ er_buf r' = (past @ ?b @ take ?k input) @ er_buf r1 @ drop ?k input"
      using "1.IH" [OF full(1) refl refl refl nl ad refl rd I1 _ "1.prems"(4)] b1 by (simp only: tk) simp
    then show ?thesis using b1 evs by simp
  qed
qed

lemma feed_inner_failed:
  assumes "feed_inner Op r input = Ok (r', evs)" and "length (er_buf r) \<le> stage_need (er_stage r)"
  shows "er_failed r' = er_failed r"
proof -
  have "\<exists>past'. er_failed r' = er_failed r \<and> past' @ er_buf r' = [] @ er_buf r @ input"
  proof (rule feed_inner_invariant [OF assms(1) _ assms(2), where I = "\<lambda>v _ _. er_failed v = er_failed r" and before = "[]"])
    show "er_failed v1 = er_failed r" if "er_failed v = er_failed r" "advance Op v u = Ok (v1, ev)" for v u v1 ev
      using advance_stage(2) [OF that(2)] that(1) by simp
  qed simp_all
  then show ?thesis by blast
qed

lemma waits_le: "reader_waits r \<Longrightarrow> length (er_buf r) \<le> stage_need (er_stage r)"
  by (auto simp: reader_waits_def split: if_splits)

lemma feed_all_run:
  assumes "reader_waits r" and "\<not> er_failed r"
  shows "case feed_all Op r slices of
      (r', Ok evs) \<Rightarrow> feed_inner Op r (concat slices) = Ok (r', evs) \<and> \<not> er_failed r'
    | (r', Err e) \<Rightarrow> feed_inner Op r (concat slices) = Err e \<and> er_failed r'"
  using assms
proof (induction slices arbitrary: r)
  case Nil
  have "feed_inner Op r [] = Ok (r, [])"
    using Nil.prems(1) feed_inner_short [of r "[]" Op]
    by (cases "er_stage r = Stage_Done") (auto simp: reader_waits_def feed_inner.simps [of Op r])
  then show ?case using Nil.prems by simp
next
  case (Cons bytes slices)
  note app = feed_inner_append [OF waits_le [OF Cons.prems(1)], of Op bytes "concat slices"]
  show ?case
  proof (cases "feed_inner Op r bytes")
    case (Err e)
    then show ?thesis using app Cons.prems(2) by (simp add: reader_feed_def)
  next
    case (Ok x)
    obtain r1 ev1 where x: "x = (r1, ev1)" by fastforce
    have w: "reader_waits r1"
      using feed_inner_waits [OF Ok [unfolded x]] Cons.prems(1) by (auto simp: reader_waits_def split: if_splits)
    have f: "\<not> er_failed r1" using feed_inner_failed [OF Ok [unfolded x] waits_le [OF Cons.prems(1)]] Cons.prems(2) by simp
    obtain r2 q where rest: "feed_all Op r1 slices = (r2, q)" by fastforce
    note IH = Cons.IH [OF w f]
    show ?thesis
      using app Ok x IH rest Cons.prems(2) by (cases q) (simp_all add: reader_feed_def)
  qed
qed

text \<open>
  Property C15. However an envelope is cut into the calls of \<open>feed\<close>, the reader produces the
  same events in the same order, ends in the same verdict and reports the same error as on the
  whole envelope at once.
\<close>

theorem reader_slicing_irrelevant:
  "snd (feed_all Op envelope_reader_new slices) = snd (reader_feed Op envelope_reader_new (concat slices)) \<and>
   reader_finish (fst (feed_all Op envelope_reader_new slices)) =
     reader_finish (fst (reader_feed Op envelope_reader_new (concat slices)))"
proof -
  have w: "reader_waits envelope_reader_new" "\<not> er_failed envelope_reader_new"
    by (simp_all add: reader_waits_def envelope_reader_new_def)
  obtain r q where f: "feed_all Op envelope_reader_new slices = (r, q)" by fastforce
  show ?thesis
    using feed_all_run [OF w, of Op slices] f w(2)
    by (cases q) (simp_all add: reader_feed_def reader_finish_def)
qed

section \<open>What the items receive\<close>

text \<open>The bytes the events deliver to the item \<open>i\<close>.\<close>

definition item_bytes :: "reader_event list \<Rightarrow> nat \<Rightarrow> u8 list" where
  "item_bytes evs i = concat (map (\<lambda>e. case e of Ev_ItemData j bytes \<Rightarrow> if j = i then bytes else [] | _ \<Rightarrow> []) evs)"

lemma item_bytes_simps [simp]:
  "item_bytes [] i = []"
  "item_bytes (evs @ evs') i = item_bytes evs i @ item_bytes evs' i"
  "item_bytes (Ev_ItemData j bytes # evs) i = (if j = i then bytes else []) @ item_bytes evs i"
  "item_bytes (Ev_ItemVerified j # evs) i = item_bytes evs i"
  "item_bytes (Ev_Manifest m # evs) i = item_bytes evs i"
  by (simp_all add: item_bytes_def)

text \<open>
  Where the reader stands among the items: those before the current one are complete and match
  their digests, the current one has the hashed bytes, later ones have none, and all bytes together
  are the plaintext.
\<close>

definition delivered ::
    "(u8 list \<Rightarrow> u8 list) \<Rightarrow> envelope_item list \<Rightarrow> reader_event list \<Rightarrow> nat \<Rightarrow> u64 \<Rightarrow> u8 list \<Rightarrow> u8 list \<Rightarrow> bool" where
  "delivered hash items evs cur left hasher plaintext \<longleftrightarrow>
     cur \<le> length items \<and>
     (\<forall>i < cur. length (item_bytes evs i) = unat (ei_size (items ! i)) \<and>
        hash (item_bytes evs i) = content_hash_bytes (ei_content_hash (items ! i))) \<and>
     item_bytes evs cur = hasher \<and>
     (if cur < length items then length hasher + unat left = unat (ei_size (items ! cur)) else hasher = []) \<and>
     (\<forall>i > cur. item_bytes evs i = []) \<and>
     concat (map (item_bytes evs) [0..<length items]) = plaintext"

lemma concat_item_bytes_append:
  assumes "cur < n" and "\<And>i. i < n \<Longrightarrow> i > cur \<Longrightarrow> f i = []"
  shows "concat (map (\<lambda>i. f i @ (if i = cur then x else [])) [0..<n]) = concat (map f [0..<n]) @ x"
proof -
  have "[0..<n] = [0..<cur] @ cur # [Suc cur..<n]" 
    using assms(1) by (metis le0 less_imp_add_positive upt_add_eq_append upt_conv_Cons less_imp_le)
  moreover have e1: "concat (map f [Suc cur..<n]) = []" using assms(2) by simp
  moreover have e2: "concat (map (\<lambda>i. f i @ (if i = cur then x else [])) [Suc cur..<n]) = []" using assms(2) by simp
  moreover have e3: "map (\<lambda>i. f i @ (if i = cur then x else [])) [0..<cur] = map f [0..<cur]" by simp
  ultimately show ?thesis
    by (simp only: map_append list.map concat_append concat.simps e1 e2 e3) simp
qed

lemma distribute_loop_delivers:
  assumes "distribute_loop hash items cur left hasher x = Ok (c, l, h, evs')"
    and "delivered hash items evs cur left hasher plaintext"
  shows "delivered hash items (evs @ evs') c l h (plaintext @ x)"
  using assms
proof (induction hash items cur left hasher x arbitrary: c l h evs evs' plaintext rule: distribute_loop.induct)
  case (1 hash items cur left hasher x)
  note D = "1.prems"(2) [unfolded delivered_def]
  consider (out) "cur \<ge> length items" | (verify) "cur < length items" "left = 0" | (wait) "cur < length items" "left \<noteq> 0" "x = []"
    | (take) "cur < length items" "left \<noteq> 0" "x \<noteq> []" by linarith
  then show ?case
  proof cases
    case out
    then show ?thesis using "1.prems" by (simp add: distribute_loop.simps [of hash items cur] split: if_splits)
  next
    case wait
    then show ?thesis using "1.prems" by (simp add: distribute_loop.simps [of hash items cur])
  next
    case verify
    obtain ev where ok: "hash hasher = content_hash_bytes (ei_content_hash (items ! cur))"
      and rest: "distribute_loop hash items (cur + 1) (item_size items (cur + 1)) [] x = Ok (c, l, h, ev)"
      and evs': "evs' = Ev_ItemVerified cur # ev"
      using "1.prems"(1) verify by (subst (asm) distribute_loop.simps) (auto split: if_splits)
    have "item_bytes (evs @ [Ev_ItemVerified cur]) = item_bytes evs" by (rule ext) simp
    then have "delivered hash items (evs @ [Ev_ItemVerified cur]) (cur + 1) (item_size items (cur + 1)) [] plaintext"
      unfolding delivered_def using D verify ok by (auto simp: item_size_def less_Suc_eq)
    from "1.IH"(1) [OF _ verify(2) _ rest this] verify ok show ?thesis by (simp add: evs')
  next
    case take
    let ?tk = "min (unat left) (length x)"
    obtain ev where rest: "distribute_loop hash items cur (left - of_nat ?tk) (hasher @ take ?tk x) (drop ?tk x) = Ok (c, l, h, ev)"
      and evs': "evs' = Ev_ItemData cur (take ?tk x) # ev"
      using "1.prems"(1) take by (subst (asm) distribute_loop.simps) (auto simp: Let_def)
    have sub: "unat (left - of_nat ?tk) = unat left - ?tk"
    proof -
      have "unat (of_nat ?tk :: u64) = ?tk" by (rule le_unat_uoi [of _ left]) simp
      then show ?thesis by (simp add: unat_sub word_le_nat_alt)
    qed
    have "delivered hash items (evs @ [Ev_ItemData cur (take ?tk x)]) cur (left - of_nat ?tk) (hasher @ take ?tk x) (plaintext @ take ?tk x)"
    proof -
      have "item_bytes (evs @ [Ev_ItemData cur (take ?tk x)]) = (\<lambda>i. item_bytes evs i @ (if i = cur then take ?tk x else []))"
        by (rule ext) simp
      moreover have "concat (map (\<lambda>i. item_bytes evs i @ (if i = cur then take ?tk x else [])) [0..<length items]) = plaintext @ take ?tk x"
        using concat_item_bytes_append [of cur "length items" "item_bytes evs" "take ?tk x"] D take(1) by simp
      ultimately show ?thesis unfolding delivered_def using D take(1) sub by auto
    qed
    from "1.IH"(2) [OF _ take(2,3) refl rest this] take show ?thesis by (simp add: evs')
  qed
qed

lemma distribute_Ok:
  "distribute Op r x = Ok (r', evs) \<Longrightarrow> \<exists>m c l h. er_manifest r = Some m \<and>
     distribute_loop (ee_hash (op_env Op)) (om_items m) (er_current r) (er_current_left r) (er_hasher r) x = Ok (c, l, h, evs) \<and>
     r' = r\<lparr>er_current := c, er_current_left := l, er_hasher := h\<rparr>"
  by (auto simp: distribute_def split: option.splits)

section \<open>The life of a reader\<close>

definition body_fits :: "stage \<Rightarrow> u64 \<Rightarrow> bool" where
  "body_fits st remaining = (case st of Stage_Body _ len \<Rightarrow> len \<le> unat remaining | _ \<Rightarrow> True)"

fun before_manifest :: "stage \<Rightarrow> bool" where
  "before_manifest (Stage_Len manifest) = manifest"
| "before_manifest (Stage_Body manifest _) = manifest"
| "before_manifest Stage_Header = True"
| "before_manifest Stage_Done = False"

text \<open>After \<open>past\<close> was consumed and \<open>evs\<close> were produced.\<close>

definition reader_run :: "reader_env \<Rightarrow> envelope_reader \<Rightarrow> reader_event list \<Rightarrow> u8 list \<Rightarrow> bool" where
  "reader_run Op r evs past \<longleftrightarrow>
     (if before_manifest (er_stage r) then evs = [] \<and> er_current r = 0 \<and> er_hasher r = [] else True) \<and>
     (if er_stage r = Stage_Header then past = []
      else \<exists>header. er_header r = Some header \<and> OUTER_HEADER_LEN \<le> length past \<and> parse_outer_header past = Ok header \<and>
        oh_recipient_device_id header = pi_device_id (op_recipient Op) \<and>
        unat (oh_total_len header) = length past + unat (er_remaining r) \<and> body_fits (er_stage r) (er_remaining r) \<and>
        (before_manifest (er_stage r) \<or> (\<exists>m json plaintext. er_manifest r = Some m \<and>
           check_manifest (op_env Op) header json (op_now Op) (op_verify_attestation Op) = Ok m \<and> (\<exists>evs'. evs = Ev_Manifest m # evs') \<and>
           delivered (ee_hash (op_env Op)) (om_items m) evs (er_current r) (er_current_left r) (er_hasher r) plaintext \<and>
           (er_stage r = Stage_Done \<longrightarrow> er_remaining r = 0 \<and> er_current r = length (om_items m)))))"

lemma parse_outer_header_append:
  assumes "OUTER_HEADER_LEN \<le> length past"
  shows "parse_outer_header (past @ u) = parse_outer_header past"
proof -
  have part: "take n (drop k (past @ u)) = take n (drop k past)" if "k + n \<le> 106" for k n
    using assms that by simp
  have "(past @ u) ! 0 = past ! 0" using assms by (intro nth_append_left) linarith
  then show ?thesis using assms unfolding parse_outer_header_def by (simp only: part) simp
qed

lemma body_step:
  fixes total_len remaining :: u64
  assumes "unat total_len = length past + unat remaining" and "len \<le> unat remaining" and "length u = len"
  shows "unat total_len = length (past @ u) + unat (remaining - of_nat len)"
proof -
  have "unat (of_nat len :: u64) = len" using assms(2) by (rule le_unat_uoi)
  then show ?thesis using assms by (simp add: unat_sub word_le_nat_alt)
qed

lemma reader_run_header:
  assumes "reader_run Op r evs past" and "er_stage r = Stage_Header" and "length u = 106" and "read_header Op r u = Ok r1"
  shows "reader_run Op r1 evs (past @ u)"
proof -
  obtain header ctx where h: "parse_outer_header u = Ok header" "\<not> oh_total_len header < of_nat OUTER_HEADER_LEN"
    "oh_recipient_device_id header = pi_device_id (op_recipient Op)"
    and r1: "r1 = r\<lparr>er_remaining := oh_total_len header - of_nat OUTER_HEADER_LEN, er_ctx := Some ctx,
            er_header := Some header, er_stage := Stage_Len True\<rparr>"
    using assms(4) by (auto simp: read_header_def split: if_splits)
  then have "unat (oh_total_len header) = 106 + unat (oh_total_len header - 106)"
    by (simp add: unat_sub word_le_nat_alt not_less)
  then show ?thesis using assms(1-3) h by (simp add: reader_run_def r1 body_fits_def)
qed

lemma reader_run_len:
  assumes "reader_run Op r evs past" and "er_stage r = Stage_Len b" and "length u = 4" and "read_len r u b = Ok r1"
  shows "reader_run Op r1 evs (past @ u)"
proof -
  let ?len = "unat (u32_from_be_bytes u)"
  have h: "\<not> er_remaining r < 4" "?len \<le> unat (er_remaining r - 4)"
    and r1: "r1 = r\<lparr>er_remaining := er_remaining r - 4, er_stage := Stage_Body b ?len\<rparr>"
    using assms(4) by (auto simp: read_len_def Let_def split: if_splits)
  have "unat (er_remaining r - 4) + 4 = unat (er_remaining r)" using h(1) by (simp add: unat_sub word_le_nat_alt not_less)
  then show ?thesis using assms(1-3) h(2) by (auto simp: reader_run_def r1 body_fits_def parse_outer_header_append)
qed

lemma reader_run_manifest:
  assumes "reader_run Op r evs past" and "er_stage r = Stage_Body True len" and "length u = len"
    and "read_manifest Op (r\<lparr>er_remaining := er_remaining r - of_nat len\<rparr>) u = Ok (r1, ev)"
  shows "reader_run Op r1 (evs @ ev) (past @ u)"
proof -
  obtain header where R: "er_header r = Some header" "106 \<le> length past" "parse_outer_header past = Ok header"
    "oh_recipient_device_id header = pi_device_id (op_recipient Op)" "unat (oh_total_len header) = length past + unat (er_remaining r)"
    "len \<le> unat (er_remaining r)" "evs = []" "er_current r = 0" "er_hasher r = []"
    using assms(1,2) by (auto simp: reader_run_def body_fits_def)
  let ?r = "r\<lparr>er_remaining := er_remaining r - of_nat len\<rparr>"
  obtain ctx' json m ev' where M: "check_manifest (op_env Op) header json (op_now Op) (op_verify_attestation Op) = Ok m"
    "distribute Op (?r\<lparr>er_ctx := Some ctx', er_current_left := item_size (om_items m) 0,
       er_manifest := Some m, er_stage := Stage_Len False\<rparr>) [] = Ok (r1, ev')" "ev = Ev_Manifest m # ev'"
    using read_manifest_Ok [OF assms(4)] R(1) by auto
  obtain c l h where D: "distribute_loop (ee_hash (op_env Op)) (om_items m) 0 (item_size (om_items m) 0) [] [] = Ok (c, l, h, ev')"
    and r1: "r1 = ?r\<lparr>er_ctx := Some ctx', er_current_left := item_size (om_items m) 0, er_manifest := Some m, er_stage := Stage_Len False,
       er_current := c, er_current_left := l, er_hasher := h\<rparr>"
    using distribute_Ok [OF M(2)] R(8,9) by auto
  have "delivered (ee_hash (op_env Op)) (om_items m) [Ev_Manifest m] 0 (item_size (om_items m) 0) [] []"
    by (simp add: delivered_def item_size_def)
  from distribute_loop_delivers [OF D this] show ?thesis
    using R M body_step [OF R(5,6) assms(3)] parse_outer_header_append [OF R(2), of u]
    by (auto simp: reader_run_def r1 body_fits_def)
qed

lemma reader_run_data:
  assumes "reader_run Op r evs past" and "er_stage r = Stage_Body False len" and "length u = len"
    and "read_data Op (r\<lparr>er_remaining := er_remaining r - of_nat len\<rparr>) u = Ok (r1, ev)"
  shows "reader_run Op r1 (evs @ ev) (past @ u)"
proof -
  obtain header m json plaintext evs' where R: "er_header r = Some header" "106 \<le> length past" "parse_outer_header past = Ok header"
    "oh_recipient_device_id header = pi_device_id (op_recipient Op)" "unat (oh_total_len header) = length past + unat (er_remaining r)"
    "len \<le> unat (er_remaining r)" "er_manifest r = Some m"
    "check_manifest (op_env Op) header json (op_now Op) (op_verify_attestation Op) = Ok m" "evs = Ev_Manifest m # evs'"
    "delivered (ee_hash (op_env Op)) (om_items m) evs (er_current r) (er_current_left r) (er_hasher r) plaintext"
    using assms(1,2) by (auto simp: reader_run_def body_fits_def)
  let ?rem = "er_remaining r - of_nat len"
  let ?r = "r\<lparr>er_remaining := ?rem\<rparr>"
  obtain ctx' x r2 where D: "distribute Op (?r\<lparr>er_ctx := Some ctx', er_seq := er_seq r + 1\<rparr>) x = Ok (r2, ev)"
    "r1 = r2\<lparr>er_stage := if ?rem = 0 then Stage_Done else Stage_Len False\<rparr>"
    "?rem = 0 \<longrightarrow> er_current r2 = (case er_manifest r2 of None \<Rightarrow> 0 | Some m \<Rightarrow> length (om_items m))"
    using read_data_Ok [OF assms(4)] by auto
  obtain c l h where L: "distribute_loop (ee_hash (op_env Op)) (om_items m) (er_current r) (er_current_left r) (er_hasher r) x = Ok (c, l, h, ev)"
    and r2: "r2 = ?r\<lparr>er_ctx := Some ctx', er_seq := er_seq r + 1, er_current := c, er_current_left := l, er_hasher := h\<rparr>"
    using distribute_Ok [OF D(1)] R(7) by auto
  note del = distribute_loop_delivers [OF L R(10)]
  show ?thesis
    using R(1-4,7-9) D(2,3) del body_step [OF R(5,6) assms(3)] parse_outer_header_append [OF R(2), of u]
    by (auto simp: reader_run_def r2 body_fits_def)
qed

lemma reader_run_advance:
  assumes "reader_run Op r evs past" and "length u = stage_need (er_stage r)" and "advance Op r u = Ok (r1, ev)"
  shows "reader_run Op r1 (evs @ ev) (past @ u)"
proof (cases "er_stage r")
  case Stage_Header
  then show ?thesis using reader_run_header [OF assms(1)] assms(2,3) by (auto simp: advance_def)
next
  case (Stage_Len b)
  then show ?thesis using reader_run_len [OF assms(1)] assms(2,3) by (auto simp: advance_def)
next
  case (Stage_Body b len)
  then show ?thesis
    using reader_run_manifest [OF assms(1), of len u] reader_run_data [OF assms(1), of len u] assms(2,3)
    by (cases b) (simp_all add: advance_def)
next
  case Stage_Done
  then show ?thesis using assms(3) by (simp add: advance_def)
qed

lemma reader_run_buf: "reader_run Op (v\<lparr>er_buf := b\<rparr>) e p = reader_run Op v e p"
  by (simp add: reader_run_def)

lemma reader_run_feed:
  assumes "feed_inner Op envelope_reader_new input = Ok (r, evs)"
  shows "\<exists>past. reader_run Op r evs past \<and> past @ er_buf r = input"
proof -
  have "\<exists>past. reader_run Op r ([] @ evs) past \<and> past @ er_buf r = [] @ er_buf envelope_reader_new @ input"
  proof (rule feed_inner_invariant [OF assms])
    show "reader_run Op envelope_reader_new [] []" by (simp add: reader_run_def envelope_reader_new_def)
    show "length (er_buf envelope_reader_new) \<le> stage_need (er_stage envelope_reader_new)" by (simp add: envelope_reader_new_def)
    show "reader_run Op (v\<lparr>er_buf := b\<rparr>) e p" if "reader_run Op v e p" for v e p b
      using that by (simp only: reader_run_buf)
    show "reader_run Op v1 (e @ ev) (p @ u)"
      if "reader_run Op v e p" "length u = stage_need (er_stage v)" "advance Op v u = Ok (v1, ev)" for v e p u v1 ev
      by (rule reader_run_advance [OF that])
  qed
  then show ?thesis by (simp add: envelope_reader_new_def)
qed

section \<open>Whose envelope it is\<close>

lemma wire_items_meta:
  "wire_items declared metas = Ok items \<Longrightarrow> map item_meta items = metas"
  by (induction declared metas arbitrary: items rule: wire_items.induct)
    (auto simp: item_meta_def rel_path_new_Ok_iff split: option.splits result.splits)

text \<open>What a manifest that passed the checks says of its sender.\<close>

definition manifest_authentic :: "reader_env \<Rightarrow> outer_header \<Rightarrow> opened_manifest \<Rightarrow> bool" where
  "manifest_authentic Op header m \<longleftrightarrow>
     (let E = op_env Op; sender = om_sender m; created = as_secs (om_created_at m); now = as_secs (op_now Op) in
      pi_device_id sender = oh_sender_device_id header \<and>
      pi_device_id sender = device_id_from_identity_digest (ee_hash E (point_bytes (pi_identity_pub sender))) \<and>
      (\<exists>p sig. build_signature_payload (oh_enc header) (oh_recipient_device_id header) (oh_sender_device_id header)
          created (transfer_id_to_bytes (om_transfer_id m)) (map item_meta (om_items m)) = Ok p \<and>
         signature_verifies (ee_curve E) (point_bytes (pi_identity_pub sender)) DeferredDelivery p sig) \<and>
      (\<exists>sig. signature_verifies (ee_curve E) (point_bytes (pi_identity_pub sender)) KeyBind
         (point_bytes (pi_agreement_pub sender)) sig) \<and>
      sint (now - THIRTY_DAYS_SECS) \<le> sint created \<and> sint created \<le> sint (now + THREE_HUNDRED_SECS) \<and>
      om_tier m \<in> {SameAccount, Linked} \<and>
      (\<exists>token. op_verify_attestation Op token sender (om_created_at m) = Ok (om_tier m)))"

lemma check_manifest_Ok:
  assumes "check_manifest (op_env Op) header json (op_now Op) (op_verify_attestation Op) = Ok m"
  shows "manifest_authentic Op header m"
  using assms
  by (auto simp: check_manifest_def manifest_authentic_def Let_def accepted_tier_def verify_key_binding_Ok parse_verifying_key_def
      wire_items_meta not_less split: if_splits result.splits)

text \<open>
  Property C4. When a reader that was fed an envelope in any slices hands its manifest out, the
  slices are exactly one envelope of the length its header announces, addressed to this device;
  the manifest was signed for this recipient, this sender, this encapsulated key and exactly these
  items by the identity key whose digest is the sender's device id, which also vouches for the
  agreement key; its date is within the window and the attestation gave one of the two tiers that
  may deliver; and the bytes delivered to each item have its declared size and its digest.
\<close>

theorem opened_envelope_authentic:
  assumes "feed_all Op envelope_reader_new slices = (r, Ok evs)" and "reader_finish r = Ok m"
  shows "\<exists>header. parse_outer_header (concat slices) = Ok header \<and>
    unat (oh_total_len header) = length (concat slices) \<and>
    oh_recipient_device_id header = pi_device_id (op_recipient Op) \<and>
    manifest_authentic Op header m \<and>
    (\<forall>i < length (om_items m). length (item_bytes evs i) = unat (ei_size (om_items m ! i)) \<and>
       ee_hash (op_env Op) (item_bytes evs i) = content_hash_bytes (ei_content_hash (om_items m ! i)))"
proof -
  have w: "reader_waits envelope_reader_new" "\<not> er_failed envelope_reader_new"
    by (simp_all add: reader_waits_def envelope_reader_new_def)
  have fed: "feed_inner Op envelope_reader_new (concat slices) = Ok (r, evs)"
    using feed_all_run [OF w, of Op slices] assms(1) by simp
  have last: "er_stage r = Stage_Done" "er_manifest r = Some m"
    using assms(2) by (auto simp: reader_finish_def split: if_splits stage.splits option.splits)
  then have "er_buf r = []" using feed_inner_waits [OF fed] by (simp add: reader_waits_def envelope_reader_new_def)
  then have "reader_run Op r evs (concat slices)" using reader_run_feed [OF fed] by auto
  then show ?thesis
    using last by (auto simp: reader_run_def delivered_def dest!: check_manifest_Ok)
qed

end
