(* ===== verification/Envelope_Trip.thy ===== *)
theory Envelope_Trip
  imports Envelope_Open
begin

text \<open>
  What \<open>seal_envelope\<close> makes, \<open>open_envelope\<close> of the recipient opens: the manifest on the wire
  passes the checks, each record is read where the writer cut it, and the items are handed their
  bytes back.
\<close>

section \<open>The manifest\<close>

lemma wire_hashes_of:
  assumes "\<And>it. it \<in> set items \<Longrightarrow> length (content_hash_bytes (ei_content_hash it)) = 32"
  shows "wire_hashes (map (\<lambda>it. \<lparr>miw_rel_path = rel_path_value (ei_rel_path it), miw_size = ei_size it,
      miw_content_hash = encode_hex (content_hash_bytes (ei_content_hash it))\<rparr>) items) = Ok (map item_meta items)"
  using assms by (induction items) (simp_all add: item_meta_def)

lemma wire_items_of:
  assumes "declared_size d (map ei_size items) = Ok all"
    and "\<And>it. it \<in> set items \<Longrightarrow> good_path (rel_path_value (ei_rel_path it))"
  shows "wire_items d (map item_meta items) = Ok items"
  using assms
proof (induction items arbitrary: d)
  case (Cons it items)
  have "rel_path_new (rel_path_value (ei_rel_path it)) = Ok (ei_rel_path it)"
    using Cons.prems(2) [of it] by (simp add: rel_path_new_Ok_iff)
  then show ?case using Cons.prems Cons.IH by (auto simp: item_meta_def split: option.splits)
qed simp

lemma parse_point_of: "length (point_bytes p) = PUBLIC_KEY_POINT_LEN \<Longrightarrow> parse_point (encode_hex (point_bytes p)) = Ok p"
  by (simp add: parse_point_def public_key_point_from_bytes_def)

lemma check_manifest_of:
  assumes C: "p256_ok (ee_curve E)" "key_store_ok (ee_curve E) ks"
    and json: "ee_from_json E bs = Some (manifest_of sender tid created items sig)"
    and sender: "public_identity (ee_curve E) (ee_hash E) ks = Ok (es_identity sender)"
      "es_key_binding sender = own_binding (ee_curve E) ks not_after" "sint (as_secs created) \<le> sint (as_secs not_after)"
    and tid: "uuid_v7 (transfer_id_bytes tid)"
    and items: "\<And>it. it \<in> set items \<Longrightarrow> length (content_hash_bytes (ei_content_hash it)) = 32"
      "\<And>it. it \<in> set items \<Longrightarrow> good_path (rel_path_value (ei_rel_path it))" "declared_size 0 (map ei_size items) = Ok all"
    and sig: "build_signature_payload (oh_enc header) (oh_recipient_device_id header) (oh_sender_device_id header)
        (as_secs created) (transfer_id_to_bytes tid) (map item_meta items) = Ok p"
      "sign (ee_curve E) ks DeferredDelivery p = Ok sig"
    and header: "oh_sender_device_id header = pi_device_id (es_identity sender)"
    and window: "sint (as_secs now - THIRTY_DAYS_SECS) \<le> sint (as_secs created)"
      "sint (as_secs created) \<le> sint (as_secs now + THREE_HUNDRED_SECS)"
    and tier: "attest (es_attestation_token sender) (es_identity sender) created = Ok tier" "tier \<in> {SameAccount, Linked}"
  shows "check_manifest E header bs now attest = Ok
    \<lparr>om_transfer_id = tid, om_sender = es_identity sender, om_created_at = created, om_tier = tier, om_items = items\<rparr>"
proof -
  let ?ip = "PublicKeyPoint (point_of (ee_curve E) (identity_key ks))" and ?ap = "PublicKeyPoint (point_of (ee_curve E) (agreement_key ks))"
  have i: "es_identity sender = \<lparr>pi_identity_pub = ?ip, pi_agreement_pub = ?ap,
      pi_device_id = device_id_from_identity_digest (ee_hash E (point_of (ee_curve E) (identity_key ks)))\<rparr>"
    using public_identity_Ok [OF C, of "ee_hash E"] sender(1) by simp
  have len: "length (point_of (ee_curve E) (identity_key ks)) = 65" "length (point_of (ee_curve E) (agreement_key ks)) = 65"
    and valid: "point_valid (ee_curve E) (point_of (ee_curve E) (identity_key ks))"
    using C by (auto simp: p256_ok_def key_store_ok_def)
  note pts = parse_point_of [of ?ip, simplified] parse_point_of [of ?ap, simplified]
  have own: "kb_agreement_pub (own_binding (ee_curve E) ks not_after) = ?ap" "kb_not_after (own_binding (ee_curve E) ks not_after) = not_after"
    by (simp_all add: own_binding_def)
  then have kb: "\<lparr>kb_agreement_pub = ?ap, kb_signature = kb_signature (own_binding (ee_curve E) ks not_after), kb_not_after = not_after\<rparr> =
      own_binding (ee_curve E) ks not_after"
    by (metis key_binding.surjective old.unit.exhaust)
  have "transfer_id_from_str (transfer_id_display tid) = Ok tid" using tid by (rule transfer_id_text.parse_disp)
  moreover have "accepted_tier (Ok tier) = Ok tier" using tier(2) by (auto simp: accepted_tier_def)
  ultimately show ?thesis
    using sig tier(1) window sign_verifies [OF C sig(2)] valid header wire_hashes_of [OF items(1)] wire_items_of [OF items(3,2)]
      own_binding_verifies [OF C sender(3), of "ee_hash E"]
    by (simp add: check_manifest_def json manifest_of_def i sender(2) pts len own kb parse_verifying_key_def Let_def not_less)
qed

section \<open>The items\<close>

fun item_event :: "nat \<Rightarrow> reader_event \<Rightarrow> bool" where
  "item_event n (Ev_Manifest _) = False"
| "item_event n (Ev_ItemData i _) = (i < n)"
| "item_event n (Ev_ItemVerified i) = (i < n)"

lemma collect_contents_items:
  assumes "list_all (item_event n) evs" and "length contents = n"
  shows "collect_contents evs contents = Ok (map (\<lambda>i. contents ! i @ item_bytes evs i) [0..<n])"
  using assms
proof (induction evs arbitrary: contents)
  case Nil
  then show ?case by (simp add: list_eq_iff_nth_eq)
next
  case (Cons e evs)
  then show ?case by (cases e) (auto simp: nth_list_update intro: map_cong)
qed

text \<open>The reader stands inside an envelope of these contents, with \<open>rest\<close> still to be opened.\<close>

definition items_at ::
    "envelope_item list \<Rightarrow> u8 list list \<Rightarrow> reader_event list \<Rightarrow> nat \<Rightarrow> u64 \<Rightarrow> u8 list \<Rightarrow> u8 list \<Rightarrow> bool" where
  "items_at items contents evs cur left hasher rest \<longleftrightarrow>
     cur \<le> length items \<and> list_all (item_event (length items)) evs \<and>
     (\<forall>i < length items. item_bytes evs i = (if i < cur then contents ! i else if i = cur then hasher else [])) \<and>
     hasher @ rest = concat (drop cur contents) \<and>
     (if cur < length items then length hasher + unat left = length (contents ! cur) else hasher = [])"

definition items_match :: "(u8 list \<Rightarrow> u8 list) \<Rightarrow> envelope_item list \<Rightarrow> u8 list list \<Rightarrow> bool" where
  "items_match hash items contents \<longleftrightarrow>
     list_all2 (\<lambda>it bytes. unat (ei_size it) = length bytes \<and> content_hash_bytes (ei_content_hash it) = hash bytes) items contents"

lemma items_match_nth:
  assumes "items_match hash items contents" and "i < length items"
  shows "unat (ei_size (items ! i)) = length (contents ! i)" "content_hash_bytes (ei_content_hash (items ! i)) = hash (contents ! i)"
    "drop i contents = contents ! i # drop (Suc i) contents"
  using assms by (auto simp: items_match_def list_all2_conv_all_nth Cons_nth_drop_Suc)

lemma distribute_loop_succeeds:
  assumes "items_match hash items contents" and "items_at items contents evs cur left hasher (x @ rest)"
  shows "\<exists>c l h evs'. distribute_loop hash items cur left hasher x = Ok (c, l, h, evs') \<and>
    items_at items contents (evs @ evs') c l h rest \<and> (rest = [] \<longrightarrow> c = length items)"
  using assms
proof (induction hash items cur left hasher x arbitrary: evs rule: distribute_loop.induct)
  case (1 hash items cur left hasher x)
  note A = "1.prems"(2) [unfolded items_at_def] and len = list_all2_lengthD [OF "1.prems"(1) [unfolded items_match_def]]
  show ?case
  proof (cases "cur < length items")
    case False
    then have "x = []" "rest = []" "hasher = []" "cur = length items" using A len by auto
    then show ?thesis using False "1.prems"(2) by (subst distribute_loop.simps) simp
  next
    case True
    note it = items_match_nth [OF "1.prems"(1) True]
    have split: "hasher @ x @ rest = contents ! cur @ concat (drop (Suc cur) contents)" using A it(3) by simp
    have left: "length hasher + unat left = length (contents ! cur)" using A True by simp
    consider (verify) "left = 0" | (wait) "left \<noteq> 0" "x = []" | (take) "left \<noteq> 0" "x \<noteq> []" by blast
    then show ?thesis
    proof cases
      case verify
      then have h: "hasher = contents ! cur" "x @ rest = concat (drop (Suc cur) contents)" using split left by simp_all
      have "items_at items contents (evs @ [Ev_ItemVerified cur]) (cur + 1) (item_size items (cur + 1)) [] (x @ rest)"
        using A h True it items_match_nth(1) [OF "1.prems"(1), of "cur + 1"] by (auto simp: items_at_def item_size_def less_Suc_eq)
      from "1.IH"(1) [OF _ verify _ "1.prems"(1) this] obtain c l h e where
        "distribute_loop hash items (cur + 1) (item_size items (cur + 1)) [] x = Ok (c, l, h, e)"
        "items_at items contents ((evs @ [Ev_ItemVerified cur]) @ e) c l h rest" "rest = [] \<longrightarrow> c = length items"
        using True it(2) h(1) by auto
      then show ?thesis using True verify it(2) h(1) by (subst distribute_loop.simps) simp
    next
      case wait
      have "rest \<noteq> []"
      proof
        assume "rest = []"
        then have "length hasher = length (contents ! cur @ concat (drop (Suc cur) contents))" using split wait(2) by (metis append_Nil2)
        then show False using left wait(1) by (simp add: unat_eq_zero)
      qed
      then show ?thesis using True wait "1.prems"(2) by (subst distribute_loop.simps) simp
    next
      case take
      let ?tk = "min (unat left) (length x)"
      have "unat (of_nat ?tk :: u64) = ?tk" by (rule le_unat_uoi [of _ left]) simp
      then have sub: "unat (left - of_nat ?tk) = unat left - ?tk" by (simp add: unat_sub word_le_nat_alt)
      have "items_at items contents (evs @ [Ev_ItemData cur (take ?tk x)]) cur (left - of_nat ?tk) (hasher @ take ?tk x) (drop ?tk x @ rest)"
        using A True sub left by (simp add: items_at_def) (metis append.assoc append_take_drop_id)
      from "1.IH"(2) [OF _ take refl "1.prems"(1) this] obtain c l h e where
        "distribute_loop hash items cur (left - of_nat ?tk) (hasher @ take ?tk x) (drop ?tk x) = Ok (c, l, h, e)"
        "items_at items contents ((evs @ [Ev_ItemData cur (take ?tk x)]) @ e) c l h rest" "rest = [] \<longrightarrow> c = length items"
        using True by auto
      then show ?thesis using True take by (subst distribute_loop.simps) (simp add: Let_def)
    qed
  qed
qed

section \<open>The records\<close>

lemma data_records_unfold:
  assumes "hpke_ok C P" and "context_wf ctx" and "data_records P ctx seq content = Ok records"
  shows "\<exists>sealed rest. let ctx' = ctx\<lparr>hc_seq := hc_seq ctx + 1\<rparr>; chunk = take CHUNK_SIZE content in
    records = u32_to_be_bytes (of_nat (length sealed)) @ sealed @ rest \<and> length sealed = length chunk + TAG_LEN \<and>
    hpke_open P ctx (make_aad seq (length content \<le> CHUNK_SIZE)) sealed = (ctx', Ok chunk) \<and> context_wf ctx' \<and>
    (if length content \<le> CHUNK_SIZE then rest = [] else data_records P ctx' (seq + 1) (drop CHUNK_SIZE content) = Ok rest)"
proof -
  let ?aad = "make_aad seq (length content \<le> CHUNK_SIZE)" and ?chunk = "take CHUNK_SIZE content"
  obtain ctx' q where s: "hpke_seal P ctx ?aad ?chunk = (ctx', q)" by fastforce
  then obtain sealed where q: "q = Ok sealed" using assms(3) by (subst (asm) data_records.simps) (cases q, simp_all)
  have ne: "hc_seq ctx \<noteq> - 1" using hpke_seal_Ok(2) [OF _ s [unfolded q]] assms(2) by (simp add: context_wf_def)
  obtain ct where ct: "hpke_seal P ctx ?aad ?chunk = (ctx\<lparr>hc_seq := hc_seq ctx + 1\<rparr>, Ok ct)" "length ct = length ?chunk + TAG_LEN"
    "hpke_open P ctx ?aad ct = (ctx\<lparr>hc_seq := hc_seq ctx + 1\<rparr>, Ok ?chunk)" "context_wf (ctx\<lparr>hc_seq := hc_seq ctx + 1\<rparr>)"
    using seal_open [OF assms(1,2) ne] by blast
  have unf: "data_records P ctx seq content = try_then (append_record [] ct) (\<lambda>record.
      if length content \<le> CHUNK_SIZE then Ok record
      else try_then (data_records P (ctx\<lparr>hc_seq := hc_seq ctx + 1\<rparr>) (seq + 1) (drop CHUNK_SIZE content)) (\<lambda>records. Ok (record @ records)))"
    by (subst data_records.simps) (simp only: ct(1) prod.case result.case)
  have "\<exists>rest. records = u32_to_be_bytes (of_nat (length ct)) @ ct @ rest \<and>
      (if length content \<le> CHUNK_SIZE then rest = []
       else data_records P (ctx\<lparr>hc_seq := hc_seq ctx + 1\<rparr>) (seq + 1) (drop CHUNK_SIZE content) = Ok rest)"
    using assms(3) [unfolded unf] by (auto simp: append_record_def split: if_splits)
  then show ?thesis unfolding Let_def using ct(2-4) by blast
qed

lemma data_records_length:
  assumes "hpke_ok C P" and "context_wf ctx" and "data_records P ctx seq content = Ok records"
  shows "length records = length content + 20 * (if content = [] then 1 else (length content + (CHUNK_SIZE - 1)) div CHUNK_SIZE)"
  using assms(2,3)
proof (induction "length content" arbitrary: ctx seq content records rule: less_induct)
  case less
  let ?n = "length content"
  obtain sealed rest where R: "records = u32_to_be_bytes (of_nat (length sealed)) @ sealed @ rest"
    "length sealed = min ?n CHUNK_SIZE + TAG_LEN" "context_wf (ctx\<lparr>hc_seq := hc_seq ctx + 1\<rparr>)"
    "if ?n \<le> CHUNK_SIZE then rest = []
     else data_records P (ctx\<lparr>hc_seq := hc_seq ctx + 1\<rparr>) (seq + 1) (drop CHUNK_SIZE content) = Ok rest"
    using data_records_unfold [OF assms(1) less.prems] by (auto simp: Let_def min.commute)
  show ?case
  proof (cases "?n \<le> CHUNK_SIZE")
    case True
    then have "(?n + (CHUNK_SIZE - 1)) div CHUNK_SIZE = 1" if "content \<noteq> []"
      using that by (intro div_nat_eqI) (auto simp: Suc_le_eq)
    then show ?thesis using R True by simp
  next
    case False
    then have "?n + (CHUNK_SIZE - 1) = (?n - CHUNK_SIZE + (CHUNK_SIZE - 1)) + CHUNK_SIZE" by simp
    then have "(?n + (CHUNK_SIZE - 1)) div CHUNK_SIZE = (?n - CHUNK_SIZE + (CHUNK_SIZE - 1)) div CHUNK_SIZE + 1"
      by (simp only: div_add_self2)
    then show ?thesis
      using False less.hyps [of "drop CHUNK_SIZE content" "ctx\<lparr>hc_seq := hc_seq ctx + 1\<rparr>" "seq + 1" rest] R by auto
  qed
qed

lemma feed_unit:
  assumes "er_stage r \<noteq> Stage_Done" and "er_buf r = []" and "length u = stage_need (er_stage r)" and "advance Op r u = Ok (r1, ev)"
  shows "feed_inner Op r (u @ rest) = try_then (feed_inner Op r1 rest) (\<lambda>(r'', evs'). Ok (r'', ev @ evs'))"
proof -
  have same: "r\<lparr>er_buf := []\<rparr> = r" using assms(2) by (cases r) simp
  show ?thesis using feed_inner_step [of r "u @ rest" Op] assms by (simp add: same)
qed

lemma records_read:
  assumes "hpke_ok C (ee_hpke (op_env Op))" and "items_match (ee_hash (op_env Op)) (om_items m) contents"
    and "context_wf ctx" and "data_records (ee_hpke (op_env Op)) ctx (er_seq r) content = Ok records"
    and "er_stage r = Stage_Len False" and "er_buf r = []" and "er_ctx r = Some ctx" and "er_manifest r = Some m"
    and "unat (er_remaining r) = length records"
    and "items_at (om_items m) contents evs (er_current r) (er_current_left r) (er_hasher r) content"
  shows "\<exists>r' evs'. feed_inner Op r records = Ok (r', evs') \<and> er_stage r' = Stage_Done \<and> er_manifest r' = Some m \<and>
    er_failed r' = er_failed r \<and> (\<exists>l h. items_at (om_items m) contents (evs @ evs') (length (om_items m)) l h [])"
  using assms(3-)
proof (induction "length content" arbitrary: ctx r content records evs rule: less_induct)
  case less
  let ?c = "ctx\<lparr>hc_seq := hc_seq ctx + 1\<rparr>" and ?chunk = "take CHUNK_SIZE content" and ?later = "drop CHUNK_SIZE content"
  note at = less.prems(3-6)
  obtain sealed rest where R: "records = u32_to_be_bytes (of_nat (length sealed)) @ sealed @ rest"
    "length sealed = length ?chunk + TAG_LEN"
    "hpke_open (ee_hpke (op_env Op)) ctx (make_aad (er_seq r) (length content \<le> CHUNK_SIZE)) sealed = (?c, Ok ?chunk)" "context_wf ?c"
    "if length content \<le> CHUNK_SIZE then rest = [] else data_records (ee_hpke (op_env Op)) ?c (er_seq r + 1) ?later = Ok rest"
    using data_records_unfold [OF assms(1) less.prems(1,2)] by (auto simp: Let_def)
  let ?len = "length sealed"
  have len: "16 \<le> ?len" "?len \<le> CHUNK_SIZE + 16" using R(2) by simp_all
  have u32: "unat (of_nat ?len :: u32) = ?len" using len(2) by (simp add: unat_of_nat)
  have rem: "unat (er_remaining r) = 4 + ?len + length rest" using less.prems(7) R(1) by simp
  have r4: "unat (er_remaining r - 4) = ?len + length rest"
    using rem by (simp add: unat_sub word_le_nat_alt)
  have rl: "unat (er_remaining r - 4 - of_nat ?len) = length rest"
  proof -
    have "unat (of_nat ?len :: u64) = ?len" by (rule le_unat_uoi [of _ "er_remaining r - 4"]) (simp add: r4)
    then show ?thesis using r4 by (simp add: unat_sub word_le_nat_alt)
  qed
  have last: "rest = [] \<longleftrightarrow> length content \<le> CHUNK_SIZE"
  proof (cases "length content \<le> CHUNK_SIZE")
    case False
    then have "data_records (ee_hpke (op_env Op)) ?c (er_seq r + 1) ?later = Ok rest" using R(5) by simp
    from data_records_length [OF assms(1) R(4) this] False show ?thesis by (auto simp del: length_drop)
  qed (use R(5) in simp)
  then have fin: "er_remaining r - 4 - of_nat ?len = 0 \<longleftrightarrow> length content \<le> CHUNK_SIZE"
    using rl by (metis length_0_conv unat_eq_zero)
  let ?body = "r\<lparr>er_remaining := er_remaining r - 4, er_stage := Stage_Body False ?len\<rparr>"
  have l4: "read_len r (u32_to_be_bytes (of_nat ?len)) False = Ok ?body"
    using rem r4 u32 len by (simp add: read_len_def Let_def word_less_nat_alt)
  have f1: "feed_inner Op r records = feed_inner Op ?body (sealed @ rest)"
    using feed_unit [of r "u32_to_be_bytes (of_nat ?len)" Op ?body "[]" "sealed @ rest"] at(1,2) l4
    by (simp add: R(1) advance_def try_then_id split_beta)
  have "content = ?chunk @ ?later" by simp
  then obtain c l h ev where D:
    "distribute_loop (ee_hash (op_env Op)) (om_items m) (er_current r) (er_current_left r) (er_hasher r) ?chunk = Ok (c, l, h, ev)"
    "items_at (om_items m) contents (evs @ ev) c l h ?later" "?later = [] \<longrightarrow> c = length (om_items m)"
    using distribute_loop_succeeds [OF assms(2), of evs "er_current r" "er_current_left r" "er_hasher r" ?chunk ?later] less.prems(8) by auto
  let ?next = "r\<lparr>er_remaining := er_remaining r - 4 - of_nat ?len, er_ctx := Some ?c, er_seq := er_seq r + 1, er_current := c,
      er_current_left := l, er_hasher := h, er_stage := if length content \<le> CHUNK_SIZE then Stage_Done else Stage_Len False\<rparr>"
  have ad: "advance Op ?body sealed = Ok (?next, ev)"
    using R(3) D fin at(3,4) by (auto simp: advance_def read_data_def Let_def distribute_def)
  have f2: "feed_inner Op ?body (sealed @ rest) = try_then (feed_inner Op ?next rest) (\<lambda>(r'', evs'). Ok (r'', ev @ evs'))"
    by (rule feed_unit [OF _ _ _ ad]) (simp_all add: at(2))
  show ?case
  proof (cases "length content \<le> CHUNK_SIZE")
    case True
    then have "feed_inner Op ?next rest = Ok (?next, [])" using R(5) by (subst feed_inner.simps) simp
    then show ?thesis using f1 f2 D True at(4) by auto
  next
    case False
    have "length ?later < length content" using False by simp
    from less.hyps [OF this, of ?c ?next rest "evs @ ev"] obtain r' ev' where
      "feed_inner Op ?next rest = Ok (r', ev')" "er_stage r' = Stage_Done" "er_manifest r' = Some m" "er_failed r' = er_failed r"
      "\<exists>l h. items_at (om_items m) contents ((evs @ ev) @ ev') (length (om_items m)) l h []"
      using R(4,5) False at(2,4) rl D(2) by auto
    then show ?thesis using f1 f2 by auto
  qed
qed

section \<open>The whole envelope\<close>

lemma parse_outer_header_of:
  assumes "device_id_valid rid" and "device_id_valid sid" and "length enc = 65"
  shows "parse_outer_header ((1 # device_id_bytes rid @ device_id_bytes sid @ enc @ u64_to_be_bytes t) @ rest) = Ok
    \<lparr>oh_version = 1, oh_recipient_device_id = rid, oh_sender_device_id = sid, oh_enc = enc, oh_total_len = t\<rparr>"
  using assms by (simp add: parse_outer_header_def device_id_from_bytes_def device_id_valid_def)

lemma unat_chunk_count: "unat (div_ceil n 1048576 :: u64) = (unat n + 1048575) div 1048576"
  by (simp add: unat_div_ceil)

lemma data_length_Some:
  "data_length n = Some d \<Longrightarrow> unat d = unat n + 20 * (if unat n = 0 then 1 else (unat n + (CHUNK_SIZE - 1)) div CHUNK_SIZE)"
  by (auto simp: data_length_def Let_def unat_chunk_count unat_eq_zero checked_add_Some checked_mul_Some
      split: if_splits option.splits)

lemma total_length_Ok:
  assumes "total_length (of_nat ml) declared = Ok t" and "ml < 2 ^ 64"
  shows "\<exists>d. data_length declared = Some d \<and> unat t = 110 + ml + unat d"
  using assms by (auto simp: total_length_def unat_of_nat checked_add_Some split: option.splits)

lemma declared_size_Ok: "declared_size d sizes = Ok t \<Longrightarrow> unat t = unat d + sum_list (map unat sizes)"
proof (induction d sizes rule: declared_size.induct)
  case (2 d s sizes)
  then obtain d' where "checked_add d s = Some d'" "declared_size d' sizes = Ok t" by (auto split: option.splits)
  then show ?case using "2.IH" by (simp add: checked_add_Some)
qed simp

lemma envelope_writer_new_Ok:
  assumes "envelope_writer_new E recipient sender ks rng tid created items = Ok (w, head)"
  shows "\<exists>declared enc ctx p sig json ctx' sealed t. declared_size 0 (map ei_size items) = Ok declared \<and>
    setup_base_sender (ee_curve E) (ee_hpke E) (pi_agreement_pub recipient) rng
      (make_hpke_info (pi_device_id recipient) (pi_device_id (es_identity sender))) = Ok (enc, ctx) \<and>
    build_signature_payload enc (pi_device_id recipient) (pi_device_id (es_identity sender)) (as_secs created)
      (transfer_id_to_bytes tid) (map item_meta items) = Ok p \<and>
    sign (ee_curve E) ks DeferredDelivery p = Ok sig \<and> ee_to_json E (manifest_of sender tid created items sig) = Some json \<and>
    hpke_seal (ee_hpke E) ctx (make_aad 0 False) json = (ctx', Ok sealed) \<and> length sealed \<le> MAX_MANIFEST_RECORD \<and>
    total_length (of_nat (length sealed)) declared = Ok t \<and>
    head = (1 # device_id_bytes (pi_device_id recipient) @ device_id_bytes (pi_device_id (es_identity sender)) @ enc @ u64_to_be_bytes t) @
      u32_to_be_bytes (of_nat (length sealed)) @ sealed \<and>
    w = \<lparr>ew_ctx = ctx', ew_buf = [], ew_declared = declared, ew_pushed = 0, ew_emitted = 0, ew_seq = 1,
         ew_sealed_final = False, ew_total_len = t, ew_failed = False\<rparr>"
proof -
  obtain declared enc ctx p sig json where N: "declared_size 0 (map ei_size items) = Ok declared"
    "setup_base_sender (ee_curve E) (ee_hpke E) (pi_agreement_pub recipient) rng
      (make_hpke_info (pi_device_id recipient) (pi_device_id (es_identity sender))) = Ok (enc, ctx)"
    "build_signature_payload enc (pi_device_id recipient) (pi_device_id (es_identity sender)) (as_secs created)
      (transfer_id_to_bytes tid) (map item_meta items) = Ok p"
    "sign (ee_curve E) ks DeferredDelivery p = Ok sig" "ee_to_json E (manifest_of sender tid created items sig) = Some json"
    using assms by (auto simp: envelope_writer_new_def Let_def)
  obtain ctx' q where s: "hpke_seal (ee_hpke E) ctx (make_aad 0 False) json = (ctx', q)" by fastforce
  obtain sealed where "q = Ok sealed" using assms N s by (cases q) (simp_all add: envelope_writer_new_def Let_def)
  then show ?thesis
    using assms N s by (auto simp: envelope_writer_new_def Let_def append_record_def split: if_splits)
qed

lemma items_at_start:
  assumes "items_match hash items contents"
  shows "items_at items contents [] 0 (item_size items 0) [] (concat contents)"
  using assms items_match_nth(1) [OF assms, of 0] by (auto simp: items_at_def item_size_def)

lemma items_at_end:
  assumes "items_match hash (om_items m) contents" and "items_at (om_items m) contents evs (length (om_items m)) l h []"
  shows "collect_contents (Ev_Manifest m # evs) [] = Ok contents"
proof -
  let ?n = "length (om_items m)"
  have "length contents = ?n" using assms(1) by (auto simp: items_match_def dest: list_all2_lengthD)
  then have "map (\<lambda>i. replicate ?n [] ! i @ item_bytes evs i) [0..<?n] = contents"
    using assms(2) by (intro nth_equalityI) (simp_all add: items_at_def)
  then show ?thesis using collect_contents_items [of ?n evs "replicate ?n []"] assms(2) by (simp add: items_at_def)
qed

abbreviation (input) header_bytes :: "device_id \<Rightarrow> device_id \<Rightarrow> u8 list \<Rightarrow> u64 \<Rightarrow> u8 list" where
  "header_bytes rid sid enc t \<equiv> 1 # device_id_bytes rid @ device_id_bytes sid @ enc @ u64_to_be_bytes t"

lemma envelope_read:
  assumes hpke: "hpke_ok (ee_curve (op_env Op)) (ee_hpke (op_env Op))" and match: "items_match (ee_hash (op_env Op)) (om_items m) contents"
    and ids: "device_id_valid (pi_device_id (op_recipient Op))" "device_id_valid sid" "length enc = 65"
    and established: "setup_base_receiver (ee_curve (op_env Op)) (ee_hpke (op_env Op)) enc (pi_agreement_pub (op_recipient Op))
        (make_hpke_info (pi_device_id (op_recipient Op)) sid) (op_agree Op) = Ok ctx"
    and manifest: "hpke_open (ee_hpke (op_env Op)) ctx (make_aad 0 False) sealed = (ctx', Ok json)" "length sealed \<le> MAX_MANIFEST_RECORD"
      "context_wf ctx'"
    and check: "check_manifest (op_env Op) \<lparr>oh_version = 1, oh_recipient_device_id = pi_device_id (op_recipient Op),
        oh_sender_device_id = sid, oh_enc = enc, oh_total_len = t\<rparr> json (op_now Op) (op_verify_attestation Op) = Ok m"
    and records: "data_records (ee_hpke (op_env Op)) ctx' 1 (concat contents) = Ok records"
    and t: "unat t = 110 + length sealed + length records"
  shows "\<exists>r evs. feed_inner Op envelope_reader_new (header_bytes (pi_device_id (op_recipient Op)) sid enc t @
      u32_to_be_bytes (of_nat (length sealed)) @ sealed @ records) = Ok (r, Ev_Manifest m # evs) \<and>
    er_stage r = Stage_Done \<and> er_manifest r = Some m \<and> \<not> er_failed r \<and> collect_contents (Ev_Manifest m # evs) [] = Ok contents"
proof -
  let ?h = "\<lparr>oh_version = 1, oh_recipient_device_id = pi_device_id (op_recipient Op), oh_sender_device_id = sid, oh_enc = enc, oh_total_len = t\<rparr>"
  let ?len = "length sealed" and ?H = "header_bytes (pi_device_id (op_recipient Op)) sid enc t"
  let ?r1 = "envelope_reader_new\<lparr>er_remaining := t - 106, er_ctx := Some ctx, er_header := Some ?h, er_stage := Stage_Len True\<rparr>"
  let ?r2 = "?r1\<lparr>er_remaining := t - 110, er_stage := Stage_Body True ?len\<rparr>"
  let ?r3 = "?r2\<lparr>er_remaining := t - 110 - of_nat ?len, er_ctx := Some ctx', er_current_left := item_size (om_items m) 0,
      er_manifest := Some m, er_stage := Stage_Len False\<rparr>"
  have new: "er_stage envelope_reader_new = Stage_Header" "er_buf envelope_reader_new = []" "er_seq envelope_reader_new = 1"
    "er_current envelope_reader_new = 0" "er_hasher envelope_reader_new = []" "\<not> er_failed envelope_reader_new"
    by (simp_all add: envelope_reader_new_def)
  have t1: "unat (t - 106) = 4 + ?len + length records" using t by (simp add: unat_sub word_le_nat_alt)
  have t2: "unat (t - 110) = ?len + length records" using t by (simp add: unat_sub word_le_nat_alt)
  have "unat (of_nat ?len :: u64) = ?len" by (rule le_unat_uoi [of _ "t - 110"]) (simp add: t2)
  then have t3: "unat (t - 110 - of_nat ?len) = length records" using t2 by (simp add: unat_sub word_le_nat_alt)
  have "0 < length records" using data_records_length [OF hpke manifest(3) records] by simp
  then have some: "t - 110 - of_nat ?len \<noteq> 0" using t3 by (metis less_numeral_extra(3) unat_0)
  have u32: "unat (of_nat ?len :: u32) = ?len" using manifest(2) by (simp add: unat_of_nat)
  have "read_header Op envelope_reader_new ?H = Ok ?r1"
    using parse_outer_header_of [OF ids, of t "[]"] established t by (simp add: read_header_def word_less_nat_alt)
  then have a1: "advance Op envelope_reader_new ?H = Ok (?r1, [])" by (simp add: advance_def new)
  have "read_len ?r1 (u32_to_be_bytes (of_nat ?len)) True = Ok ?r2"
    using t1 t2 u32 manifest(2) by (simp add: read_len_def Let_def word_less_nat_alt)
  then have a2: "advance Op ?r1 (u32_to_be_bytes (of_nat ?len)) = Ok (?r2, [])" by (simp add: advance_def)
  obtain c l h ev where D: "distribute_loop (ee_hash (op_env Op)) (om_items m) 0 (item_size (om_items m) 0) [] [] = Ok (c, l, h, ev)"
    "items_at (om_items m) contents ev c l h (concat contents)"
    using distribute_loop_succeeds [OF match, of "[]" 0 "item_size (om_items m) 0" "[]" "[]" "concat contents"] items_at_start [OF match] by auto
  let ?r4 = "?r3\<lparr>er_current := c, er_current_left := l, er_hasher := h\<rparr>"
  have a3: "advance Op ?r2 sealed = Ok (?r4, Ev_Manifest m # ev)"
    using manifest(1) check D(1) some new by (simp add: advance_def read_manifest_def Let_def distribute_def)
  obtain r evs' where R: "feed_inner Op ?r4 records = Ok (r, evs')" "er_stage r = Stage_Done" "er_manifest r = Some m" "\<not> er_failed r"
    "\<exists>l h. items_at (om_items m) contents (ev @ evs') (length (om_items m)) l h []"
    using records_read [OF hpke match manifest(3), of ?r4 "concat contents" records ev] records new t3 D(2) by auto
  have "feed_inner Op envelope_reader_new (?H @ u32_to_be_bytes (of_nat ?len) @ sealed @ records) = Ok (r, Ev_Manifest m # ev @ evs')"
  proof -
    have "feed_inner Op ?r2 (sealed @ records) = Ok (r, Ev_Manifest m # ev @ evs')"
      using feed_unit [OF _ _ _ a3, of records] new R(1) by simp
    then have "feed_inner Op ?r1 (u32_to_be_bytes (of_nat ?len) @ sealed @ records) = Ok (r, Ev_Manifest m # ev @ evs')"
      using feed_unit [OF _ _ _ a2, of "sealed @ records"] new by simp
    then show ?thesis
      using feed_unit [OF _ _ _ a1, of "u32_to_be_bytes (of_nat ?len) @ sealed @ records"] new ids by (simp add: device_id_valid_def)
  qed
  then show ?thesis using R items_at_end [OF match] by blast
qed

lemma items_match_of:
  assumes "\<And>it bytes. (it, bytes) \<in> set items \<Longrightarrow> unat (ei_size it) = length bytes \<and> ei_content_hash it = ContentHash (hash bytes)"
  shows "items_match hash (map fst items) (map snd items)"
    and "sum_list (map unat (map ei_size (map fst items))) = length (concat (map snd items))"
proof -
  have "items_match hash (map fst items) (map snd items) \<and>
      sum_list (map unat (map ei_size (map fst items))) = length (concat (map snd items))"
    using assms
  proof (induction items)
    case (Cons x items)
    obtain it bytes where x: "x = (it, bytes)" by fastforce
    have "unat (ei_size it) = length bytes \<and> ei_content_hash it = ContentHash (hash bytes)" by (rule Cons.prems) (simp add: x)
    moreover have "items_match hash (map fst items) (map snd items) \<and>
        sum_list (map unat (map ei_size (map fst items))) = length (concat (map snd items))"
      by (rule Cons.IH) (simp add: Cons.prems)
    ultimately show ?case by (simp add: items_match_def x)
  qed (simp add: items_match_def)
  then show "items_match hash (map fst items) (map snd items)"
    and "sum_list (map unat (map ei_size (map fst items))) = length (concat (map snd items))" by simp_all
qed

lemma public_identity_valid:
  assumes "p256_ok C" and "key_store_ok C ks" and "public_identity C hash ks = Ok i" and "\<And>x. length (hash x) = 32"
  shows "device_id_valid (pi_device_id i)" and "pi_agreement_pub i = PublicKeyPoint (point_of C (agreement_key ks))"
  using assms(3,4) public_identity_Ok [OF assms(1,2), of hash]
  by (auto simp: device_id_valid_def device_id_from_identity_digest_def)

lemma seal_then_read:
  assumes hpke: "hpke_ok (ee_curve E) (ee_hpke E)" and hash: "\<And>x. length (ee_hash E x) = 32"
    and json: "\<And>mw bs. ee_to_json E mw = Some bs \<Longrightarrow> ee_from_json E bs = Some mw"
    and ks: "key_store_ok (ee_curve E) ks" "public_identity (ee_curve E) (ee_hash E) ks = Ok (es_identity sender)"
      "es_key_binding sender = own_binding (ee_curve E) ks not_after" "sint (as_secs created) \<le> sint (as_secs not_after)"
    and kr: "key_store_ok (ee_curve E) kr" "public_identity (ee_curve E) (ee_hash E) kr = Ok recipient"
      "\<And>p. agree p = Ok (ecdh (ee_hpke E) (agreement_key kr) (point_bytes p))"
    and tid: "uuid_v7 (transfer_id_bytes tid)"
    and items: "\<And>it bytes. (it, bytes) \<in> set items \<Longrightarrow> good_path (rel_path_value (ei_rel_path it)) \<and> ei_content_hash it = ContentHash (ee_hash E bytes)"
    and window: "sint (as_secs now - THIRTY_DAYS_SECS) \<le> sint (as_secs created)" "sint (as_secs created) \<le> sint (as_secs now + THREE_HUNDRED_SECS)"
    and tier: "attest (es_attestation_token sender) (es_identity sender) created = Ok tier" "tier \<in> {SameAccount, Linked}"
    and seal: "seal_envelope E recipient sender ks rng tid created items = Ok bytes"
  shows "\<exists>header r evs. parse_outer_header bytes = Ok header \<and> oh_total_len header = of_nat (length bytes) \<and>
    feed_inner \<lparr>op_env = E, op_recipient = recipient, op_agree = agree, op_now = now, op_verify_attestation = attest\<rparr> envelope_reader_new bytes =
      Ok (r, Ev_Manifest \<lparr>om_transfer_id = tid, om_sender = es_identity sender, om_created_at = created, om_tier = tier, om_items = map fst items\<rparr> # evs) \<and>
    reader_finish r = Ok \<lparr>om_transfer_id = tid, om_sender = es_identity sender, om_created_at = created, om_tier = tier, om_items = map fst items\<rparr> \<and>
    collect_contents (Ev_Manifest \<lparr>om_transfer_id = tid, om_sender = es_identity sender, om_created_at = created, om_tier = tier, om_items = map fst items\<rparr> # evs) [] = Ok (map snd items)"
proof -
  let ?Op = "\<lparr>op_env = E, op_recipient = recipient, op_agree = agree, op_now = now, op_verify_attestation = attest\<rparr>"
  let ?m = "\<lparr>om_transfer_id = tid, om_sender = es_identity sender, om_created_at = created, om_tier = tier, om_items = map fst items\<rparr>"
  let ?sid = "pi_device_id (es_identity sender)" and ?rid = "pi_device_id recipient"
  have C: "p256_ok (ee_curve E)" using hpke by (simp add: hpke_ok_def)
  have sizes: "unat (ei_size it) = length bytes \<and> ei_content_hash it = ContentHash (ee_hash E bytes)" if "(it, bytes) \<in> set items" for it bytes
    using that items [OF that] seal by (force simp: seal_envelope_def unat_of_nat split: if_splits dest!: sym [of "of_nat _"])
  note match = items_match_of [OF sizes]
  obtain w head where new: "envelope_writer_new E recipient sender ks rng tid created (map fst items) = Ok (w, head)"
    and rest: "try_then (push_all (ee_hpke E) w (map snd items) head) (\<lambda>(w', out). try_then (writer_finish (ee_hpke E) w') (\<lambda>records. Ok (out @ records))) = Ok bytes"
    using seal by (auto simp: seal_envelope_def split: if_splits)
  obtain declared enc ctx p sig mj ctx' sealed t where N: "declared_size 0 (map ei_size (map fst items)) = Ok declared"
    "setup_base_sender (ee_curve E) (ee_hpke E) (pi_agreement_pub recipient) rng (make_hpke_info ?rid ?sid) = Ok (enc, ctx)"
    "build_signature_payload enc ?rid ?sid (as_secs created) (transfer_id_to_bytes tid) (map item_meta (map fst items)) = Ok p"
    "sign (ee_curve E) ks DeferredDelivery p = Ok sig" "ee_to_json E (manifest_of sender tid created (map fst items) sig) = Some mj"
    "hpke_seal (ee_hpke E) ctx (make_aad 0 False) mj = (ctx', Ok sealed)" "length sealed \<le> MAX_MANIFEST_RECORD"
    "total_length (of_nat (length sealed)) declared = Ok t"
    "head = header_bytes ?rid ?sid enc t @ u32_to_be_bytes (of_nat (length sealed)) @ sealed"
    "w = \<lparr>ew_ctx = ctx', ew_buf = [], ew_declared = declared, ew_pushed = 0, ew_emitted = 0, ew_seq = 1,
         ew_sealed_final = False, ew_total_len = t, ew_failed = False\<rparr>"
    using envelope_writer_new_Ok [OF new] by blast
  have dec: "unat declared = length (concat (map snd items))" using declared_size_Ok [OF N(1)] match(2) by simp
  obtain records where rec: "data_records (ee_hpke E) ctx' 1 (concat (map snd items)) = Ok records" "bytes = head @ records"
    using rest [unfolded writer_cuts [of w "map snd items" "ee_hpke E" head, unfolded N(10), simplified, OF dec, folded N(10)]]
    by (auto simp: N(10))
  note rid = public_identity_valid [OF C kr(1,2) hash] and sid = public_identity_valid(1) [OF C ks(1,2) hash]
  obtain sk where sk: "scalar_valid (ee_curve E) sk"
    "setup_base_sender_with_ephemeral (ee_curve E) (ee_hpke E) (pi_agreement_pub recipient) sk (make_hpke_info ?rid ?sid) = Ok (enc, ctx)"
    using setup_base_sender_draws [OF N(2)] by blast
  have ak: "scalar_valid (ee_curve E) (agreement_key kr)" using kr(1) by (simp add: key_store_ok_def)
  have est: "setup_base_receiver (ee_curve E) (ee_hpke E) enc (pi_agreement_pub recipient) (make_hpke_info ?rid ?sid) agree = Ok ctx"
    "context_wf ctx" "length enc = 65" "hc_seq ctx = 0"
    using setup_agrees [OF hpke sk(1) ak rid(2) kr(3), of "make_hpke_info ?rid ?sid"] sk(2) by auto
  have op: "hpke_open (ee_hpke E) ctx (make_aad 0 False) sealed = (ctx', Ok mj)" "context_wf ctx'"
    using seal_open [OF hpke est(2), of "make_aad 0 False" mj] est(4) N(6) by auto
  let ?h = "\<lparr>oh_version = 1, oh_recipient_device_id = ?rid, oh_sender_device_id = ?sid, oh_enc = enc, oh_total_len = t\<rparr>"
  have check: "check_manifest E ?h mj now attest = Ok ?m"
  proof (rule check_manifest_of [where ks = ks and sig = sig and p = p and not_after = not_after and all = declared])
    show "length (content_hash_bytes (ei_content_hash it)) = 32" "good_path (rel_path_value (ei_rel_path it))"
      if "it \<in> set (map fst items)" for it
      using that items hash by (force)+
  qed (use C ks json [OF N(5)] tid N(1,3,4) window tier in simp_all)
  have len: "unat t = 110 + length sealed + length records"
    using total_length_Ok [OF N(8)] N(7) data_length_Some data_records_length [OF hpke op(2) rec(1)] dec by fastforce
  obtain r evs where R: "feed_inner ?Op envelope_reader_new bytes = Ok (r, Ev_Manifest ?m # evs)" "er_stage r = Stage_Done"
    "er_manifest r = Some ?m" "\<not> er_failed r" "collect_contents (Ev_Manifest ?m # evs) [] = Ok (map snd items)"
    using envelope_read [of ?Op ?m "map snd items" ?sid enc ctx sealed ctx' mj t records]
      hpke match(1) rid(1) sid est(1,3) op N(7) check rec(1) len by (auto simp: rec(2) N(9))
  have "length bytes = unat t" using len est(3) rid(1) sid by (simp add: rec(2) N(9) device_id_valid_def)
  then have "t = of_nat (length bytes)" by simp
  moreover have "parse_outer_header bytes = Ok ?h"
    using parse_outer_header_of [OF rid(1) sid est(3), of t "u32_to_be_bytes (of_nat (length sealed)) @ sealed @ records"]
    by (simp add: rec(2) N(9))
  ultimately show ?thesis using R by (auto simp: reader_finish_def)
qed

text \<open>
  Property C5. What one device seals for another, the other opens: when sealing hands bytes out,
  \<open>open_envelope\<close> on the recipient's keys accepts them and returns the sender, the transfer, the
  date, the tier the attestation gave, the items and the bytes of each item. The curve, the AEAD
  and the JSON codec are any that satisfy their laws.
\<close>

theorem sealed_envelope_opens:
  assumes hpke: "hpke_ok (ee_curve E) (ee_hpke E)" and hash: "\<And>x. length (ee_hash E x) = 32"
    and json: "\<And>mw bs. ee_to_json E mw = Some bs \<Longrightarrow> ee_from_json E bs = Some mw"
    and ks: "key_store_ok (ee_curve E) ks" "public_identity (ee_curve E) (ee_hash E) ks = Ok (es_identity sender)"
      "es_key_binding sender = own_binding (ee_curve E) ks not_after" "sint (as_secs created) \<le> sint (as_secs not_after)"
    and kr: "key_store_ok (ee_curve E) kr" "public_identity (ee_curve E) (ee_hash E) kr = Ok recipient"
      "\<And>p. agree p = Ok (ecdh (ee_hpke E) (agreement_key kr) (point_bytes p))"
    and tid: "uuid_v7 (transfer_id_bytes tid)"
    and items: "\<And>it bytes. (it, bytes) \<in> set items \<Longrightarrow> good_path (rel_path_value (ei_rel_path it)) \<and> ei_content_hash it = ContentHash (ee_hash E bytes)"
    and window: "sint (as_secs now - THIRTY_DAYS_SECS) \<le> sint (as_secs created)" "sint (as_secs created) \<le> sint (as_secs now + THREE_HUNDRED_SECS)"
    and tier: "attest (es_attestation_token sender) (es_identity sender) created = Ok tier" "tier \<in> {SameAccount, Linked}"
    and seal: "seal_envelope E recipient sender ks rng tid created items = Ok bytes"
  shows "open_envelope \<lparr>op_env = E, op_recipient = recipient, op_agree = agree, op_now = now, op_verify_attestation = attest\<rparr> bytes = Ok
    \<lparr>oe_manifest = \<lparr>om_transfer_id = tid, om_sender = es_identity sender, om_created_at = created, om_tier = tier, om_items = map fst items\<rparr>,
     oe_contents = map snd items\<rparr>"
  using seal_then_read [where agree = agree and attest = attest, OF assms]
  by (auto simp: open_envelope_def reader_feed_def envelope_reader_new_def)

section \<open>One concrete envelope\<close>

definition sample_hash :: "u8 list \<Rightarrow> u8 list" where
  "sample_hash x = take 32 (x @ replicate 32 0)"

definition sample_peer :: "u8 \<Rightarrow> public_identity" where
  "sample_peer x = \<lparr>pi_identity_pub = PublicKeyPoint (4 # replicate 32 x @ replicate 32 x),
     pi_agreement_pub = PublicKeyPoint (4 # replicate 32 (x + 1) @ replicate 32 (x + 1)),
     pi_device_id = device_id_from_identity_digest (sample_hash (4 # replicate 32 x @ replicate 32 x))\<rparr>"

definition sample_envelope_sender :: envelope_sender where
  "sample_envelope_sender = \<lparr>es_identity = sample_peer 5, es_key_binding = own_binding toy_curve (toy_store 5) (UnixTime 200), es_attestation_token = []\<rparr>"

definition sample_tid :: transfer_id where
  "sample_tid = TransferId [0, 0, 0, 0, 0, 0, 0x70, 0, 0x80, 0, 0, 0, 0, 0, 0, 0]"

definition sample_items :: "(envelope_item \<times> u8 list) list" where
  "sample_items = [(\<lparr>ei_rel_path = \<lparr>rel_path_value = [97]\<rparr>, ei_size = 3, ei_content_hash = ContentHash (sample_hash [10, 20, 30])\<rparr>, [10, 20, 30])]"

definition sample_payload :: "(u8 list, envelope_error) result" where
  "sample_payload = build_signature_payload (point_of toy_curve (replicate 32 7)) (pi_device_id (sample_peer 9)) (pi_device_id (sample_peer 5))
     100 (transfer_id_to_bytes sample_tid) (map item_meta (map fst sample_items))"

definition sample_manifest_wire :: manifest_wire where
  "sample_manifest_wire = manifest_of sample_envelope_sender sample_tid (UnixTime 100) (map fst sample_items)
     (case sample_payload of Err _ \<Rightarrow> Signature []
      | Ok p \<Rightarrow> (case sign toy_curve (toy_store 5) DeferredDelivery p of Err _ \<Rightarrow> Signature [] | Ok sig \<Rightarrow> sig))"

definition sample_env :: envelope_env where
  "sample_env = \<lparr>ee_curve = toy_curve, ee_hpke = toy_prims, ee_hash = sample_hash,
     ee_to_json = (\<lambda>mw. if mw = sample_manifest_wire then Some [123, 125] else None),
     ee_from_json = (\<lambda>bs. if bs = [123, 125] then Some sample_manifest_wire else None)\<rparr>"

definition sample_reader_env :: reader_env where
  "sample_reader_env = \<lparr>op_env = sample_env, op_recipient = sample_peer 9,
     op_agree = (\<lambda>p. Ok (ecdh toy_prims (replicate 32 10) (point_bytes p))), op_now = UnixTime 150,
     op_verify_attestation = (\<lambda>_ _ _. Ok Linked)\<rparr>"

lemma sample_peer_ok: "public_identity toy_curve sample_hash (toy_store x) = Ok (sample_peer x)"
  unfolding public_identity_Ok [OF toy_curve_ok toy_store_ok]
  by (simp add: sample_peer_def toy_curve_def toy_store_def)

lemma sample_writer_new:
  "\<exists>ctx head. envelope_writer_new sample_env (sample_peer 9) sample_envelope_sender (toy_store 5) [Some (replicate 32 7)] sample_tid
      (UnixTime 100) (map fst sample_items) =
      Ok (\<lparr>ew_ctx = ctx, ew_buf = [], ew_declared = 3, ew_pushed = 0, ew_emitted = 0, ew_seq = 1,
           ew_sealed_final = False, ew_total_len = 151, ew_failed = False\<rparr>, head) \<and> context_wf ctx \<and> hc_seq ctx = 1"
proof -
  have valid: "scalar_valid toy_curve (replicate 32 n)" for n by (simp add: toy_curve_def)
  let ?info = "make_hpke_info (pi_device_id (sample_peer 9)) (pi_device_id (sample_peer 5))"
  have pk: "pi_agreement_pub (sample_peer 9) = PublicKeyPoint (point_of toy_curve (replicate 32 10))"
    by (simp add: sample_peer_def toy_curve_def)
  obtain ctx where s: "setup_base_sender toy_curve toy_prims (pi_agreement_pub (sample_peer 9)) [Some (replicate 32 7)] ?info =
      Ok (point_of toy_curve (replicate 32 7), ctx)" "context_wf ctx" "hc_seq ctx = 0"
    using setup_agrees [OF toy_prims_ok valid [of 7] valid [of 10] pk, of "\<lambda>p. Ok (ecdh toy_prims (replicate 32 10) (point_bytes p))" ?info]
      first_draw [OF valid [of 7], of toy_prims "pi_agreement_pub (sample_peer 9)" "[]" ?info] by auto
  obtain p where p: "sample_payload = Ok p"
    by (simp add: sample_payload_def build_signature_payload_def sample_items_def item_meta_def)
  obtain sig where sig: "sign toy_curve (toy_store 5) DeferredDelivery p = Ok sig" by (simp add: sign_def payload_def)
  have js: "ee_to_json sample_env (manifest_of sample_envelope_sender sample_tid (UnixTime 100) (map fst sample_items) sig) = Some [123, 125]"
    by (simp add: sample_env_def sample_manifest_wire_def p sig)
  obtain ct where ct: "hpke_seal toy_prims ctx (make_aad 0 False) [123, 125] = (ctx\<lparr>hc_seq := 1\<rparr>, Ok ct)" "length ct = 18"
    "context_wf (ctx\<lparr>hc_seq := 1\<rparr>)"
    using seal_open [OF toy_prims_ok s(2), of "make_aad 0 False" "[123, 125]"] s(3) by auto
  have size: "declared_size 0 (map ei_size (map fst sample_items)) = Ok 3" by (simp add: sample_items_def checked_add_def)
  have total: "total_length 18 3 = Ok 151" by (simp add: total_length_def data_length_def div_ceil_def checked_mul_def checked_add_def)
  have env: "ee_curve sample_env = toy_curve" "ee_hpke sample_env = toy_prims" "es_identity sample_envelope_sender = sample_peer 5"
    by (simp_all add: sample_env_def sample_envelope_sender_def)
  show ?thesis
    using s ct js sig p [unfolded sample_payload_def] size total
    by (simp add: envelope_writer_new_def env append_record_def Let_def)
qed

lemma sample_sealed:
  "\<exists>bytes. seal_envelope sample_env (sample_peer 9) sample_envelope_sender (toy_store 5) [Some (replicate 32 7)] sample_tid
     (UnixTime 100) sample_items = Ok bytes"
proof -
  obtain ctx head where new: "envelope_writer_new sample_env (sample_peer 9) sample_envelope_sender (toy_store 5) [Some (replicate 32 7)] sample_tid
      (UnixTime 100) (map fst sample_items) =
      Ok (\<lparr>ew_ctx = ctx, ew_buf = [], ew_declared = 3, ew_pushed = 0, ew_emitted = 0, ew_seq = 1,
           ew_sealed_final = False, ew_total_len = 151, ew_failed = False\<rparr>, head)" "context_wf ctx" "hc_seq ctx = 1"
    using sample_writer_new by blast
  let ?w = "\<lparr>ew_ctx = ctx, ew_buf = [], ew_declared = 3, ew_pushed = 0, ew_emitted = 0, ew_seq = 1,
           ew_sealed_final = False, ew_total_len = 151, ew_failed = False\<rparr>"
  obtain ct ctx' where ct: "hpke_seal toy_prims ctx (make_aad 1 True) [10, 20, 30] = (ctx', Ok ct)" "length ct = 19"
    using seal_open [OF toy_prims_ok new(2), of "make_aad 1 True" "[10, 20, 30]"] new(3) by auto
  have "data_records toy_prims ctx 1 [10, 20, 30] = Ok (u32_to_be_bytes 19 @ ct)"
    using ct by (subst data_records.simps) (simp add: append_record_def)
  then have "try_then (push_all toy_prims ?w (map snd sample_items) head)
      (\<lambda>(w', out). try_then (writer_finish toy_prims w') (\<lambda>records. Ok (out @ records))) = Ok (head @ u32_to_be_bytes 19 @ ct)"
    using writer_cuts [of ?w "map snd sample_items" toy_prims head] by (simp add: sample_items_def)
  moreover have "\<not> (\<exists>(it, bytes) \<in> set sample_items. length bytes \<ge> 2 ^ 64 \<or> of_nat (length bytes) \<noteq> ei_size it)"
    by (simp add: sample_items_def)
  moreover have "ee_hpke sample_env = toy_prims" by (simp add: sample_env_def)
  ultimately show ?thesis using new(1) unfolding seal_envelope_def by (simp only: if_False try_then.simps prod.case) blast
qed

lemma sample_setting:
  "hpke_ok (ee_curve sample_env) (ee_hpke sample_env)"
  "\<And>x. length (ee_hash sample_env x) = 32"
  "\<And>mw bs. ee_to_json sample_env mw = Some bs \<Longrightarrow> ee_from_json sample_env bs = Some mw"
  "key_store_ok (ee_curve sample_env) (toy_store x)"
  "public_identity (ee_curve sample_env) (ee_hash sample_env) (toy_store x) = Ok (sample_peer x)"
  "es_identity sample_envelope_sender = sample_peer 5"
  "es_key_binding sample_envelope_sender = own_binding (ee_curve sample_env) (toy_store 5) (UnixTime 200)"
  "ecdh (ee_hpke sample_env) (agreement_key (toy_store 9)) = ecdh toy_prims (replicate 32 10)"
  "uuid_v7 (transfer_id_bytes sample_tid)"
  "\<And>it bytes. (it, bytes) \<in> set sample_items \<Longrightarrow>
     good_path (rel_path_value (ei_rel_path it)) \<and> ei_content_hash it = ContentHash (ee_hash sample_env bytes)"
  using toy_prims_ok toy_store_ok sample_peer_ok
  by (auto simp: sample_env_def sample_hash_def sample_envelope_sender_def toy_store_def sample_tid_def uuid_v7_def
      sample_items_def good_path_def good_component_def is_control_def is_misleading_display_character_def split: if_splits)

lemma sample_read:
  assumes "seal_envelope sample_env (sample_peer 9) sample_envelope_sender (toy_store 5) [Some (replicate 32 7)] sample_tid
     (UnixTime 100) sample_items = Ok bytes"
  shows "\<exists>r evs m. feed_all sample_reader_env envelope_reader_new [bytes] = (r, Ok evs) \<and> reader_finish r = Ok m \<and> om_items m = map fst sample_items"
proof -
  have agree: "(\<lambda>p. Ok (ecdh toy_prims (replicate 32 10) (point_bytes p))) p =
      Ok (ecdh (ee_hpke sample_env) (agreement_key (toy_store 9)) (point_bytes p))" for p
    by (simp add: sample_setting(8))
  show ?thesis
    using seal_then_read [of sample_env "toy_store 5" sample_envelope_sender "UnixTime 200" "UnixTime 100" "toy_store 9" "sample_peer 9"
        "op_agree sample_reader_env" sample_tid sample_items "UnixTime 150" "\<lambda>_ _ _. Ok Linked" Linked "[Some (replicate 32 7)]" bytes]
      sample_setting assms
    by (auto simp: sample_reader_env_def reader_feed_def envelope_reader_new_def)
qed

theorem sealed_envelope_opens_witness:
  "\<exists>bytes m. seal_envelope sample_env (sample_peer 9) sample_envelope_sender (toy_store 5) [Some (replicate 32 7)] sample_tid
      (UnixTime 100) sample_items = Ok bytes \<and>
    open_envelope sample_reader_env bytes = Ok \<lparr>oe_manifest = m, oe_contents = [[10, 20, 30]]\<rparr> \<and>
    om_tier m = Linked \<and> om_sender m = sample_peer 5"
proof -
  obtain bytes where b: "seal_envelope sample_env (sample_peer 9) sample_envelope_sender (toy_store 5) [Some (replicate 32 7)] sample_tid
      (UnixTime 100) sample_items = Ok bytes"
    using sample_sealed by blast
  show ?thesis
    using sealed_envelope_opens [of sample_env "toy_store 5" sample_envelope_sender "UnixTime 200" "UnixTime 100" "toy_store 9" "sample_peer 9"
        "op_agree sample_reader_env" sample_tid sample_items "UnixTime 150" "\<lambda>_ _ _. Ok Linked" Linked "[Some (replicate 32 7)]" bytes]
      sample_setting b
    by (auto simp: sample_reader_env_def sample_items_def)
qed

theorem opened_envelope_authentic_witness:
  "\<exists>bytes r evs m header. feed_all sample_reader_env envelope_reader_new [bytes] = (r, Ok evs) \<and> reader_finish r = Ok m \<and>
    parse_outer_header bytes = Ok header \<and> manifest_authentic sample_reader_env header m \<and>
    length (om_items m) = 1 \<and> sample_hash (item_bytes evs 0) = sample_hash [10, 20, 30]"
proof -
  obtain bytes where b: "seal_envelope sample_env (sample_peer 9) sample_envelope_sender (toy_store 5) [Some (replicate 32 7)] sample_tid
      (UnixTime 100) sample_items = Ok bytes"
    using sample_sealed by blast
  obtain r evs m where r: "feed_all sample_reader_env envelope_reader_new [bytes] = (r, Ok evs)" "reader_finish r = Ok m"
    "om_items m = map fst sample_items"
    using sample_read [OF b] by blast
  show ?thesis
    using opened_envelope_authentic [OF r(1,2)] r
    by (fastforce simp: sample_items_def sample_reader_env_def sample_env_def)
qed

end
