(* ===== verification/Browse_Wire.thy ===== *)
theory Browse_Wire
  imports Data_Wire Deny_List Identity_Keys
begin

text \<open>
  The browse plane on the wire: the messages of \<open>tradr-core/src/browse.rs\<close>, their conversions
  and frames in \<open>tradr-proto/src/browse.rs\<close>, and \<open>ProtoBrowseCodec\<close>, which decodes one
  frame at the front of a buffer. The protobuf codec is a parameter, a pair of functions per
  message. The locale \<open>browse_message\<close> is the contract of a pair of conversions; every
  message is an interpretation, and the round trip of a frame is proved there once. Texts of
  codec errors are left out.
\<close>

section \<open>Messages\<close>

record dir_entry =
  de_name :: rstr
  de_kind :: entry_kind
  de_size_bytes :: u64
  de_modified :: unix_time

record list_dir =
  ld_share_id :: share_id
  ld_path :: rel_path
  ld_cursor :: rstr
  ld_limit :: u32
  ld_with_hash :: bool

record dir_listing =
  dl_entries :: "dir_entry list"
  dl_next_cursor :: rstr
  dl_total_estimate :: u64

record stat_request =
  st_share_id :: share_id
  st_path :: rel_path

record stat_result =
  sr_entry :: dir_entry

record read_file =
  rf_share_id :: share_id
  rf_path :: rel_path
  rf_offset :: u64
  rf_length :: u64

record read_file_begin =
  rb_total_size :: u64
  rb_content_hash :: content_hash
  rb_chunk_size :: u32

datatype write_mode = CreateNew | Overwrite | RenameIfExists

record write_file =
  wf_share_id :: share_id
  wf_path :: rel_path
  wf_size :: u64
  wf_content_hash :: content_hash
  wf_mode :: write_mode

record mkdir =
  mk_share_id :: share_id
  mk_path :: rel_path
  mk_parents :: bool

record delete_request =
  dr_share_id :: share_id
  dr_path :: rel_path
  dr_recursive :: bool

record rename_request =
  rn_share_id :: share_id
  rn_from :: rel_path
  rn_to :: rel_path

record ack =
  ack_request_id :: rstr

datatype refusal_reason = NoAccess | NotFound | AlreadyExists | WrongKind | NotAllowed | Failed

record refused =
  ref_request_id :: rstr
  ref_reason :: refusal_reason

datatype browse_domain_error =
    InvalidShareId share_id_error
  | InvalidRelPath rel_path_error
  | InvalidContentHash nat
  | InvalidWriteMode
  | InvalidFsChangeKind
  | CodecError
  | UnsupportedMessage

text \<open>\<open>Watch\<close> and \<open>FsEvent\<close> have no codec; their contents are never looked at.\<close>

datatype browse_message =
    BM_ListDir list_dir
  | BM_DirListing dir_listing
  | BM_Stat stat_request
  | BM_StatResult stat_result
  | BM_ReadFile read_file
  | BM_ReadFileBegin read_file_begin
  | BM_WriteFile write_file
  | BM_Mkdir mkdir
  | BM_Delete delete_request
  | BM_Rename rename_request
  | BM_Ack ack
  | BM_Refused refused
  | BM_Watch
  | BM_FsEvent

section \<open>Wire structs\<close>

record v1_list_dir =
  w_ld_share_id :: rstr
  w_ld_path :: rstr
  w_ld_cursor :: rstr
  w_ld_limit :: u32
  w_ld_with_hash :: bool

record v1_file_entry =
  w_fe_relative_path :: rstr
  w_fe_kind :: i32
  w_fe_size :: u64
  w_fe_mtime :: i64
  w_fe_mode :: u32
  w_fe_content_hash :: "u8 list"
  w_fe_mime :: rstr

record v1_dir_listing =
  w_dl_entries :: "v1_file_entry list"
  w_dl_next_cursor :: rstr
  w_dl_total_estimate :: u64

record v1_stat =
  w_st_share_id :: rstr
  w_st_path :: rstr

record v1_stat_result =
  w_sr_entry :: "v1_file_entry option"

record v1_read_file =
  w_rf_share_id :: rstr
  w_rf_path :: rstr
  w_rf_offset :: u64
  w_rf_length :: u64

record v1_read_file_begin =
  w_rb_total_size :: u64
  w_rb_content_hash :: "u8 list"
  w_rb_chunk_size :: u32

record v1_write_file =
  w_wf_share_id :: rstr
  w_wf_path :: rstr
  w_wf_size :: u64
  w_wf_content_hash :: "u8 list"
  w_wf_mode :: i32

record v1_mkdir =
  w_mk_share_id :: rstr
  w_mk_path :: rstr
  w_mk_parents :: bool

record v1_delete =
  w_dr_share_id :: rstr
  w_dr_path :: rstr
  w_dr_recursive :: bool

record v1_rename =
  w_rn_share_id :: rstr
  w_rn_from :: rstr
  w_rn_to :: rstr

record v1_ack =
  w_ack_request_id :: rstr

record v1_refused =
  w_ref_request_id :: rstr
  w_ref_reason :: i32

section \<open>Conversions\<close>

definition list_dir_from_wire :: "v1_list_dir \<Rightarrow> (list_dir, browse_domain_error) result" where
  "list_dir_from_wire msg =
     try_then (if w_ld_path msg = [] then Ok rel_path_root else map_err InvalidRelPath (rel_path_new (w_ld_path msg))) (\<lambda>path.
     try_then (map_err InvalidShareId (share_id_from_str (w_ld_share_id msg))) (\<lambda>share.
     Ok \<lparr>ld_share_id = share, ld_path = path, ld_cursor = w_ld_cursor msg, ld_limit = w_ld_limit msg,
         ld_with_hash = w_ld_with_hash msg\<rparr>))"

definition list_dir_to_wire :: "list_dir \<Rightarrow> v1_list_dir" where
  "list_dir_to_wire msg =
     \<lparr>w_ld_share_id = share_id_display (ld_share_id msg), w_ld_path = rel_path_display (ld_path msg),
      w_ld_cursor = ld_cursor msg, w_ld_limit = ld_limit msg, w_ld_with_hash = ld_with_hash msg\<rparr>"

definition file_entry_from_wire :: "v1_file_entry \<Rightarrow> (dir_entry, browse_domain_error) result" where
  "file_entry_from_wire msg =
     Ok \<lparr>de_name = w_fe_relative_path msg,
         de_kind = (if w_fe_kind msg = 1 then Kind_File else if w_fe_kind msg = 2 then Kind_Directory else Kind_File),
         de_size_bytes = w_fe_size msg, de_modified = UnixTime (w_fe_mtime msg)\<rparr>"

definition file_entry_to_wire :: "dir_entry \<Rightarrow> v1_file_entry" where
  "file_entry_to_wire entry =
     \<lparr>w_fe_relative_path = de_name entry, w_fe_kind = (case de_kind entry of Kind_File \<Rightarrow> 1 | Kind_Directory \<Rightarrow> 2),
      w_fe_size = de_size_bytes entry, w_fe_mtime = as_secs (de_modified entry), w_fe_mode = 0,
      w_fe_content_hash = [], w_fe_mime = []\<rparr>"

fun entries_from_wire :: "v1_file_entry list \<Rightarrow> dir_entry list" where
  "entries_from_wire [] = []"
| "entries_from_wire (e # es) =
     (case file_entry_from_wire e of Ok entry \<Rightarrow> entry # entries_from_wire es | Err _ \<Rightarrow> entries_from_wire es)"

definition dir_listing_from_wire :: "v1_dir_listing \<Rightarrow> (dir_listing, browse_domain_error) result" where
  "dir_listing_from_wire msg =
     Ok \<lparr>dl_entries = entries_from_wire (w_dl_entries msg), dl_next_cursor = w_dl_next_cursor msg,
         dl_total_estimate = w_dl_total_estimate msg\<rparr>"

definition dir_listing_to_wire :: "dir_listing \<Rightarrow> v1_dir_listing" where
  "dir_listing_to_wire msg =
     \<lparr>w_dl_entries = map file_entry_to_wire (dl_entries msg), w_dl_next_cursor = dl_next_cursor msg,
      w_dl_total_estimate = dl_total_estimate msg\<rparr>"

definition stat_from_wire :: "v1_stat \<Rightarrow> (stat_request, browse_domain_error) result" where
  "stat_from_wire msg =
     try_then (map_err InvalidShareId (share_id_from_str (w_st_share_id msg))) (\<lambda>share.
     try_then (map_err InvalidRelPath (rel_path_new (w_st_path msg))) (\<lambda>path.
     Ok \<lparr>st_share_id = share, st_path = path\<rparr>))"

definition stat_to_wire :: "stat_request \<Rightarrow> v1_stat" where
  "stat_to_wire msg = \<lparr>w_st_share_id = share_id_display (st_share_id msg), w_st_path = rel_path_display (st_path msg)\<rparr>"

definition stat_result_from_wire :: "v1_stat_result \<Rightarrow> (stat_result, browse_domain_error) result" where
  "stat_result_from_wire msg =
     (case w_sr_entry msg of
        None \<Rightarrow> Ok \<lparr>sr_entry = \<lparr>de_name = [], de_kind = Kind_File, de_size_bytes = 0, de_modified = UnixTime 0\<rparr>\<rparr>
      | Some e \<Rightarrow> try_then (file_entry_from_wire e) (\<lambda>entry. Ok \<lparr>sr_entry = entry\<rparr>))"

definition stat_result_to_wire :: "stat_result \<Rightarrow> v1_stat_result" where
  "stat_result_to_wire msg = \<lparr>w_sr_entry = Some (file_entry_to_wire (sr_entry msg))\<rparr>"

definition read_file_from_wire :: "v1_read_file \<Rightarrow> (read_file, browse_domain_error) result" where
  "read_file_from_wire msg =
     try_then (map_err InvalidShareId (share_id_from_str (w_rf_share_id msg))) (\<lambda>share.
     try_then (map_err InvalidRelPath (rel_path_new (w_rf_path msg))) (\<lambda>path.
     Ok \<lparr>rf_share_id = share, rf_path = path, rf_offset = w_rf_offset msg, rf_length = w_rf_length msg\<rparr>))"

definition read_file_to_wire :: "read_file \<Rightarrow> v1_read_file" where
  "read_file_to_wire msg =
     \<lparr>w_rf_share_id = share_id_display (rf_share_id msg), w_rf_path = rel_path_display (rf_path msg),
      w_rf_offset = rf_offset msg, w_rf_length = rf_length msg\<rparr>"

definition hash_from_wire :: "u8 list \<Rightarrow> (content_hash, browse_domain_error) result" where
  "hash_from_wire bytes =
     (if bytes = [] then Ok (ContentHash (replicate 32 0))
      else if length bytes = 32 then Ok (ContentHash bytes)
      else Err (InvalidContentHash (length bytes)))"

definition read_file_begin_from_wire :: "v1_read_file_begin \<Rightarrow> (read_file_begin, browse_domain_error) result" where
  "read_file_begin_from_wire msg =
     try_then (hash_from_wire (w_rb_content_hash msg)) (\<lambda>hash.
     Ok \<lparr>rb_total_size = w_rb_total_size msg, rb_content_hash = hash, rb_chunk_size = w_rb_chunk_size msg\<rparr>)"

definition read_file_begin_to_wire :: "read_file_begin \<Rightarrow> v1_read_file_begin" where
  "read_file_begin_to_wire msg =
     \<lparr>w_rb_total_size = rb_total_size msg, w_rb_content_hash = content_hash_bytes (rb_content_hash msg),
      w_rb_chunk_size = rb_chunk_size msg\<rparr>"

definition write_mode_from_i32 :: "i32 \<Rightarrow> (write_mode, browse_domain_error) result" where
  "write_mode_from_i32 n =
     (if n = 1 then Ok CreateNew else if n = 2 then Ok Overwrite else if n = 3 then Ok RenameIfExists
      else Err InvalidWriteMode)"

fun write_mode_to_i32 :: "write_mode \<Rightarrow> i32" where
  "write_mode_to_i32 CreateNew = 1"
| "write_mode_to_i32 Overwrite = 2"
| "write_mode_to_i32 RenameIfExists = 3"

definition write_file_from_wire :: "v1_write_file \<Rightarrow> (write_file, browse_domain_error) result" where
  "write_file_from_wire msg =
     try_then (write_mode_from_i32 (w_wf_mode msg)) (\<lambda>mode.
     try_then (hash_from_wire (w_wf_content_hash msg)) (\<lambda>hash.
     try_then (map_err InvalidShareId (share_id_from_str (w_wf_share_id msg))) (\<lambda>share.
     try_then (map_err InvalidRelPath (rel_path_new (w_wf_path msg))) (\<lambda>path.
     Ok \<lparr>wf_share_id = share, wf_path = path, wf_size = w_wf_size msg, wf_content_hash = hash, wf_mode = mode\<rparr>))))"

definition write_file_to_wire :: "write_file \<Rightarrow> v1_write_file" where
  "write_file_to_wire msg =
     \<lparr>w_wf_share_id = share_id_display (wf_share_id msg), w_wf_path = rel_path_display (wf_path msg),
      w_wf_size = wf_size msg, w_wf_content_hash = content_hash_bytes (wf_content_hash msg),
      w_wf_mode = write_mode_to_i32 (wf_mode msg)\<rparr>"

definition mkdir_from_wire :: "v1_mkdir \<Rightarrow> (mkdir, browse_domain_error) result" where
  "mkdir_from_wire msg =
     try_then (map_err InvalidShareId (share_id_from_str (w_mk_share_id msg))) (\<lambda>share.
     try_then (map_err InvalidRelPath (rel_path_new (w_mk_path msg))) (\<lambda>path.
     Ok \<lparr>mk_share_id = share, mk_path = path, mk_parents = w_mk_parents msg\<rparr>))"

definition mkdir_to_wire :: "mkdir \<Rightarrow> v1_mkdir" where
  "mkdir_to_wire msg =
     \<lparr>w_mk_share_id = share_id_display (mk_share_id msg), w_mk_path = rel_path_display (mk_path msg),
      w_mk_parents = mk_parents msg\<rparr>"

definition delete_from_wire :: "v1_delete \<Rightarrow> (delete_request, browse_domain_error) result" where
  "delete_from_wire msg =
     try_then (map_err InvalidShareId (share_id_from_str (w_dr_share_id msg))) (\<lambda>share.
     try_then (map_err InvalidRelPath (rel_path_new (w_dr_path msg))) (\<lambda>path.
     Ok \<lparr>dr_share_id = share, dr_path = path, dr_recursive = w_dr_recursive msg\<rparr>))"

definition delete_to_wire :: "delete_request \<Rightarrow> v1_delete" where
  "delete_to_wire msg =
     \<lparr>w_dr_share_id = share_id_display (dr_share_id msg), w_dr_path = rel_path_display (dr_path msg),
      w_dr_recursive = dr_recursive msg\<rparr>"

definition rename_from_wire :: "v1_rename \<Rightarrow> (rename_request, browse_domain_error) result" where
  "rename_from_wire msg =
     try_then (map_err InvalidShareId (share_id_from_str (w_rn_share_id msg))) (\<lambda>share.
     try_then (map_err InvalidRelPath (rel_path_new (w_rn_from msg))) (\<lambda>from.
     try_then (map_err InvalidRelPath (rel_path_new (w_rn_to msg))) (\<lambda>to.
     Ok \<lparr>rn_share_id = share, rn_from = from, rn_to = to\<rparr>)))"

definition rename_to_wire :: "rename_request \<Rightarrow> v1_rename" where
  "rename_to_wire msg =
     \<lparr>w_rn_share_id = share_id_display (rn_share_id msg), w_rn_from = rel_path_display (rn_from msg),
      w_rn_to = rel_path_display (rn_to msg)\<rparr>"

definition ack_from_wire :: "v1_ack \<Rightarrow> (ack, browse_domain_error) result" where
  "ack_from_wire msg = Ok \<lparr>ack_request_id = w_ack_request_id msg\<rparr>"

definition ack_to_wire :: "ack \<Rightarrow> v1_ack" where
  "ack_to_wire msg = \<lparr>w_ack_request_id = ack_request_id msg\<rparr>"

definition refused_from_wire :: "v1_refused \<Rightarrow> (refused, browse_domain_error) result" where
  "refused_from_wire msg =
     (let n = w_ref_reason msg in
      Ok \<lparr>ref_request_id = w_ref_request_id msg,
          ref_reason = (if n = 1 then NoAccess else if n = 2 then NotFound else if n = 3 then AlreadyExists
            else if n = 4 then WrongKind else if n = 5 then NotAllowed else Failed)\<rparr>)"

fun refusal_reason_to_i32 :: "refusal_reason \<Rightarrow> i32" where
  "refusal_reason_to_i32 NoAccess = 1"
| "refusal_reason_to_i32 NotFound = 2"
| "refusal_reason_to_i32 AlreadyExists = 3"
| "refusal_reason_to_i32 WrongKind = 4"
| "refusal_reason_to_i32 NotAllowed = 5"
| "refusal_reason_to_i32 Failed = 6"

definition refused_to_wire :: "refused \<Rightarrow> v1_refused" where
  "refused_to_wire msg = \<lparr>w_ref_request_id = ref_request_id msg, w_ref_reason = refusal_reason_to_i32 (ref_reason msg)\<rparr>"

section \<open>Framed messages\<close>

datatype browse_frame_error =
    BF_WrongMessageType u8 u8
  | BF_Framing frame_error
  | BF_Decode
  | BF_Wire browse_domain_error

text \<open>Every encoder of the file is the first of these at its conversion and type, every decoder the second.\<close>

definition encode_browse_frame ::
    "('w \<Rightarrow> u8 list) \<Rightarrow> ('a \<Rightarrow> 'w) \<Rightarrow> message_type \<Rightarrow> 'a \<Rightarrow> u32 \<Rightarrow> (u8 list, browse_frame_error) result" where
  "encode_browse_frame enc to_wire ty msg max_size =
     map_err BF_Framing (encode_frame (message_code ty) (enc (to_wire msg)) max_size)"

definition decode_browse_frame ::
    "(u8 list \<Rightarrow> 'w option) \<Rightarrow> ('w \<Rightarrow> ('a, browse_domain_error) result) \<Rightarrow> message_type \<Rightarrow> frame
      \<Rightarrow> ('a, browse_frame_error) result" where
  "decode_browse_frame dec from_wire ty frame =
     (let expected = message_code ty in
      if type_code frame \<noteq> expected then Err (BF_WrongMessageType expected (type_code frame))
      else try_then (ok_or BF_Decode (dec (frame_payload frame))) (\<lambda>wire. map_err BF_Wire (from_wire wire)))"

text \<open>The codec of \<open>prost\<close> for the messages of the plane.\<close>

record browse_prost =
  enc_list_dir :: "v1_list_dir \<Rightarrow> u8 list"
  dec_list_dir :: "u8 list \<Rightarrow> v1_list_dir option"
  enc_dir_listing :: "v1_dir_listing \<Rightarrow> u8 list"
  dec_dir_listing :: "u8 list \<Rightarrow> v1_dir_listing option"
  enc_stat :: "v1_stat \<Rightarrow> u8 list"
  dec_stat :: "u8 list \<Rightarrow> v1_stat option"
  enc_stat_result :: "v1_stat_result \<Rightarrow> u8 list"
  dec_stat_result :: "u8 list \<Rightarrow> v1_stat_result option"
  enc_read_file :: "v1_read_file \<Rightarrow> u8 list"
  dec_read_file :: "u8 list \<Rightarrow> v1_read_file option"
  enc_read_file_begin :: "v1_read_file_begin \<Rightarrow> u8 list"
  dec_read_file_begin :: "u8 list \<Rightarrow> v1_read_file_begin option"
  enc_write_file :: "v1_write_file \<Rightarrow> u8 list"
  dec_write_file :: "u8 list \<Rightarrow> v1_write_file option"
  enc_mkdir :: "v1_mkdir \<Rightarrow> u8 list"
  dec_mkdir :: "u8 list \<Rightarrow> v1_mkdir option"
  enc_delete :: "v1_delete \<Rightarrow> u8 list"
  dec_delete :: "u8 list \<Rightarrow> v1_delete option"
  enc_rename :: "v1_rename \<Rightarrow> u8 list"
  dec_rename :: "u8 list \<Rightarrow> v1_rename option"
  enc_ack :: "v1_ack \<Rightarrow> u8 list"
  dec_ack :: "u8 list \<Rightarrow> v1_ack option"
  enc_refused :: "v1_refused \<Rightarrow> u8 list"
  dec_refused :: "u8 list \<Rightarrow> v1_refused option"

definition encode_list_dir_frame where
  "encode_list_dir_frame P = encode_browse_frame (enc_list_dir P) list_dir_to_wire Msg_ListDir"

definition decode_list_dir_frame where
  "decode_list_dir_frame P = decode_browse_frame (dec_list_dir P) list_dir_from_wire Msg_ListDir"

definition encode_dir_listing_frame where
  "encode_dir_listing_frame P = encode_browse_frame (enc_dir_listing P) dir_listing_to_wire Msg_DirListing"

definition decode_dir_listing_frame where
  "decode_dir_listing_frame P = decode_browse_frame (dec_dir_listing P) dir_listing_from_wire Msg_DirListing"

definition encode_stat_frame where
  "encode_stat_frame P = encode_browse_frame (enc_stat P) stat_to_wire Msg_Stat"

definition decode_stat_frame where
  "decode_stat_frame P = decode_browse_frame (dec_stat P) stat_from_wire Msg_Stat"

definition encode_stat_result_frame where
  "encode_stat_result_frame P = encode_browse_frame (enc_stat_result P) stat_result_to_wire Msg_StatResult"

definition decode_stat_result_frame where
  "decode_stat_result_frame P = decode_browse_frame (dec_stat_result P) stat_result_from_wire Msg_StatResult"

definition encode_read_file_frame where
  "encode_read_file_frame P = encode_browse_frame (enc_read_file P) read_file_to_wire Msg_ReadFile"

definition decode_read_file_frame where
  "decode_read_file_frame P = decode_browse_frame (dec_read_file P) read_file_from_wire Msg_ReadFile"

definition encode_read_file_begin_frame where
  "encode_read_file_begin_frame P = encode_browse_frame (enc_read_file_begin P) read_file_begin_to_wire Msg_ReadFileBegin"

definition decode_read_file_begin_frame where
  "decode_read_file_begin_frame P = decode_browse_frame (dec_read_file_begin P) read_file_begin_from_wire Msg_ReadFileBegin"

definition encode_write_file_frame where
  "encode_write_file_frame P = encode_browse_frame (enc_write_file P) write_file_to_wire Msg_WriteFile"

definition decode_write_file_frame where
  "decode_write_file_frame P = decode_browse_frame (dec_write_file P) write_file_from_wire Msg_WriteFile"

definition encode_mkdir_frame where
  "encode_mkdir_frame P = encode_browse_frame (enc_mkdir P) mkdir_to_wire Msg_Mkdir"

definition decode_mkdir_frame where
  "decode_mkdir_frame P = decode_browse_frame (dec_mkdir P) mkdir_from_wire Msg_Mkdir"

definition encode_delete_frame where
  "encode_delete_frame P = encode_browse_frame (enc_delete P) delete_to_wire Msg_Delete"

definition decode_delete_frame where
  "decode_delete_frame P = decode_browse_frame (dec_delete P) delete_from_wire Msg_Delete"

definition encode_rename_frame where
  "encode_rename_frame P = encode_browse_frame (enc_rename P) rename_to_wire Msg_Rename"

definition decode_rename_frame where
  "decode_rename_frame P = decode_browse_frame (dec_rename P) rename_from_wire Msg_Rename"

definition encode_ack_frame where
  "encode_ack_frame P = encode_browse_frame (enc_ack P) ack_to_wire Msg_Ack"

definition decode_ack_frame where
  "decode_ack_frame P = decode_browse_frame (dec_ack P) ack_from_wire Msg_Ack"

definition encode_refused_frame where
  "encode_refused_frame P = encode_browse_frame (enc_refused P) refused_to_wire Msg_Refused"

definition decode_refused_frame where
  "decode_refused_frame P = decode_browse_frame (dec_refused P) refused_from_wire Msg_Refused"

fun frame_error_to_domain :: "browse_frame_error \<Rightarrow> browse_domain_error" where
  "frame_error_to_domain (BF_Wire e) = e"
| "frame_error_to_domain (BF_Framing e) = CodecError"
| "frame_error_to_domain BF_Decode = CodecError"
| "frame_error_to_domain (BF_WrongMessageType expected got) = CodecError"

definition read_message :: "('a \<Rightarrow> browse_message) \<Rightarrow> ('a, browse_frame_error) result \<Rightarrow> (browse_message, browse_domain_error) result" where
  "read_message ctor r = try_then (map_err frame_error_to_domain r) (\<lambda>m. Ok (ctor m))"

definition dispatch_frame :: "browse_prost \<Rightarrow> frame \<Rightarrow> (browse_message, browse_domain_error) result" where
  "dispatch_frame P frame =
     (let code = type_code frame in
      if code = 0x40 then read_message BM_ListDir (decode_list_dir_frame P frame)
      else if code = 0x41 then read_message BM_DirListing (decode_dir_listing_frame P frame)
      else if code = 0x42 then read_message BM_Stat (decode_stat_frame P frame)
      else if code = 0x43 then read_message BM_StatResult (decode_stat_result_frame P frame)
      else if code = 0x44 then read_message BM_ReadFile (decode_read_file_frame P frame)
      else if code = 0x45 then read_message BM_ReadFileBegin (decode_read_file_begin_frame P frame)
      else if code = 0x46 then read_message BM_WriteFile (decode_write_file_frame P frame)
      else if code = 0x47 then read_message BM_Mkdir (decode_mkdir_frame P frame)
      else if code = 0x48 then read_message BM_Delete (decode_delete_frame P frame)
      else if code = 0x49 then read_message BM_Rename (decode_rename_frame P frame)
      else if code = 0x4a then read_message BM_Ack (decode_ack_frame P frame)
      else if code = 0x4d then read_message BM_Refused (decode_refused_frame P frame)
      else Err UnsupportedMessage)"

text \<open>\<open>ProtoBrowseCodec\<close> for a codec made with \<open>max_frame_size\<close>; decoding ignores the limit it is passed.\<close>

definition codec_decode_frame ::
    "browse_prost \<Rightarrow> u32 \<Rightarrow> u8 list \<Rightarrow> ((browse_message \<times> nat) option, browse_domain_error) result" where
  "codec_decode_frame P max_frame_size buf =
     (if length buf < 4 then Ok None
      else
        let announced = unat (u32_from_be_bytes (take 4 buf)) in
        if announced = 0 then Err CodecError
        else if announced > unat max_frame_size then Err CodecError
        else
          let total_len = 4 + announced in
          if length buf < total_len then Ok None
          else case snd (next_frame (feed (take total_len buf) (frame_decoder_new max_frame_size))) of
            Err _ \<Rightarrow> Err CodecError
          | Ok None \<Rightarrow> Ok None
          | Ok (Some frame) \<Rightarrow> try_then (dispatch_frame P frame) (\<lambda>msg. Ok (Some (msg, total_len))))"

fun codec_encode_frame :: "browse_prost \<Rightarrow> browse_message \<Rightarrow> u32 \<Rightarrow> (u8 list, browse_domain_error) result" where
  "codec_encode_frame P (BM_ListDir m) limit = map_err frame_error_to_domain (encode_list_dir_frame P m limit)"
| "codec_encode_frame P (BM_DirListing m) limit = map_err frame_error_to_domain (encode_dir_listing_frame P m limit)"
| "codec_encode_frame P (BM_Stat m) limit = map_err frame_error_to_domain (encode_stat_frame P m limit)"
| "codec_encode_frame P (BM_StatResult m) limit = map_err frame_error_to_domain (encode_stat_result_frame P m limit)"
| "codec_encode_frame P (BM_ReadFile m) limit = map_err frame_error_to_domain (encode_read_file_frame P m limit)"
| "codec_encode_frame P (BM_ReadFileBegin m) limit = map_err frame_error_to_domain (encode_read_file_begin_frame P m limit)"
| "codec_encode_frame P (BM_WriteFile m) limit = map_err frame_error_to_domain (encode_write_file_frame P m limit)"
| "codec_encode_frame P (BM_Mkdir m) limit = map_err frame_error_to_domain (encode_mkdir_frame P m limit)"
| "codec_encode_frame P (BM_Delete m) limit = map_err frame_error_to_domain (encode_delete_frame P m limit)"
| "codec_encode_frame P (BM_Rename m) limit = map_err frame_error_to_domain (encode_rename_frame P m limit)"
| "codec_encode_frame P (BM_Ack m) limit = map_err frame_error_to_domain (encode_ack_frame P m limit)"
| "codec_encode_frame P (BM_Refused m) limit = map_err frame_error_to_domain (encode_refused_frame P m limit)"
| "codec_encode_frame P BM_Watch limit = Err UnsupportedMessage"
| "codec_encode_frame P BM_FsEvent limit = Err UnsupportedMessage"

section \<open>Round trips\<close>

locale browse_wire =
  fixes to_wire :: "'a \<Rightarrow> 'w"
    and from_wire :: "'w \<Rightarrow> ('a, browse_domain_error) result"
    and ok :: "'a \<Rightarrow> bool"
  assumes from_to: "ok x \<Longrightarrow> from_wire (to_wire x) = Ok x"
    and from_ok: "from_wire w = Ok x \<Longrightarrow> ok x"
begin

lemma decoded_ok: "decode_browse_frame dec from_wire ty f = Ok x \<Longrightarrow> ok x"
  by (auto simp: decode_browse_frame_def Let_def dest: from_ok split: if_splits)

lemma framed_roundtrip:
  assumes "ok x" and "dec (enc (to_wire x)) = Some (to_wire x)" and "encode_browse_frame enc to_wire ty x limit = Ok wire"
  shows "\<exists>f. wire = frame_wire f \<and> frame_fits limit f \<and> type_code f = message_code ty \<and>
    decode_browse_frame dec from_wire ty f = Ok x"
proof -
  let ?f = "\<lparr>type_code = message_code ty, frame_payload = enc (to_wire x)\<rparr>"
  have "encode_frame (type_code ?f) (frame_payload ?f) limit = Ok wire" using assms(3) by (simp add: encode_browse_frame_def)
  then have "wire = frame_wire ?f" "frame_fits limit ?f" by (simp_all only: encode_frame_Ok)
  then show ?thesis using assms(1,2) by (intro exI [of _ ?f]) (simp add: decode_browse_frame_def from_to)
qed

end

text \<open>The messages the constructors and decoders build.\<close>

definition share_id_ok :: "share_id \<Rightarrow> bool" where
  "share_id_ok t \<longleftrightarrow> uuid_v7 (share_id_bytes t)"

definition rel_path_ok :: "rel_path \<Rightarrow> bool" where
  "rel_path_ok p \<longleftrightarrow> good_path (rel_path_value p)"

definition hash_ok :: "content_hash \<Rightarrow> bool" where
  "hash_ok h \<longleftrightarrow> length (content_hash_bytes h) = 32"

fun browse_message_ok :: "browse_message \<Rightarrow> bool" where
  "browse_message_ok (BM_ListDir m) \<longleftrightarrow> share_id_ok (ld_share_id m) \<and> (ld_path m = rel_path_root \<or> rel_path_ok (ld_path m))"
| "browse_message_ok (BM_DirListing m) \<longleftrightarrow> True"
| "browse_message_ok (BM_Stat m) \<longleftrightarrow> share_id_ok (st_share_id m) \<and> rel_path_ok (st_path m)"
| "browse_message_ok (BM_StatResult m) \<longleftrightarrow> True"
| "browse_message_ok (BM_ReadFile m) \<longleftrightarrow> share_id_ok (rf_share_id m) \<and> rel_path_ok (rf_path m)"
| "browse_message_ok (BM_ReadFileBegin m) \<longleftrightarrow> hash_ok (rb_content_hash m)"
| "browse_message_ok (BM_WriteFile m) \<longleftrightarrow> share_id_ok (wf_share_id m) \<and> rel_path_ok (wf_path m) \<and> hash_ok (wf_content_hash m)"
| "browse_message_ok (BM_Mkdir m) \<longleftrightarrow> share_id_ok (mk_share_id m) \<and> rel_path_ok (mk_path m)"
| "browse_message_ok (BM_Delete m) \<longleftrightarrow> share_id_ok (dr_share_id m) \<and> rel_path_ok (dr_path m)"
| "browse_message_ok (BM_Rename m) \<longleftrightarrow> share_id_ok (rn_share_id m) \<and> rel_path_ok (rn_from m) \<and> rel_path_ok (rn_to m)"
| "browse_message_ok (BM_Ack m) \<longleftrightarrow> True"
| "browse_message_ok (BM_Refused m) \<longleftrightarrow> True"
| "browse_message_ok BM_Watch \<longleftrightarrow> False"
| "browse_message_ok BM_FsEvent \<longleftrightarrow> False"

lemma share_id_parsed [simp]:
  "share_id_ok t \<Longrightarrow> share_id_from_str (share_id_display t) = Ok t"
  "share_id_from_str s = Ok t \<Longrightarrow> share_id_ok t"
  using share_id_text.parse_disp share_id_text.disp_parse by (auto simp: share_id_ok_def)

lemma rel_path_parsed [simp]:
  "rel_path_ok p \<Longrightarrow> rel_path_new (rel_path_value p) = Ok p"
  "rel_path_new s = Ok p \<Longrightarrow> rel_path_ok p"
  by (auto simp: rel_path_ok_def rel_path_new_Ok_iff)

lemma rel_path_ok_nonempty: "rel_path_ok p \<Longrightarrow> rel_path_value p \<noteq> []"
  by (auto simp: rel_path_ok_def good_path_def good_component_def)

lemma hash_parsed [simp]:
  "hash_ok h \<Longrightarrow> hash_from_wire (content_hash_bytes h) = Ok h"
  "hash_from_wire bs = Ok h \<Longrightarrow> hash_ok h"
  by (auto simp: hash_ok_def hash_from_wire_def split: if_splits)

lemma write_mode_parsed [simp]: "write_mode_from_i32 (write_mode_to_i32 m) = Ok m"
  by (cases m) (simp_all add: write_mode_from_i32_def)

lemma file_entry_parsed [simp]: "file_entry_from_wire (file_entry_to_wire e) = Ok e"
  by (cases "de_kind e") (simp_all add: file_entry_from_wire_def file_entry_to_wire_def)

lemma entries_parsed [simp]: "entries_from_wire (map file_entry_to_wire es) = es"
  by (induction es) simp_all

interpretation list_dir_wire: browse_wire list_dir_to_wire list_dir_from_wire "\<lambda>m. browse_message_ok (BM_ListDir m)"
  by unfold_locales (auto simp: list_dir_to_wire_def list_dir_from_wire_def rel_path_display_def rel_path_root_def rel_path_ok_nonempty Let_def split: if_splits option.splits)

interpretation dir_listing_wire: browse_wire dir_listing_to_wire dir_listing_from_wire "\<lambda>m. browse_message_ok (BM_DirListing m)"
  by unfold_locales (auto simp: dir_listing_to_wire_def dir_listing_from_wire_def rel_path_display_def Let_def split: if_splits option.splits)

interpretation stat_wire: browse_wire stat_to_wire stat_from_wire "\<lambda>m. browse_message_ok (BM_Stat m)"
  by unfold_locales (auto simp: stat_to_wire_def stat_from_wire_def rel_path_display_def Let_def split: if_splits option.splits)

interpretation stat_result_wire: browse_wire stat_result_to_wire stat_result_from_wire "\<lambda>m. browse_message_ok (BM_StatResult m)"
  by unfold_locales (auto simp: stat_result_to_wire_def stat_result_from_wire_def rel_path_display_def Let_def split: if_splits option.splits)

interpretation read_file_wire: browse_wire read_file_to_wire read_file_from_wire "\<lambda>m. browse_message_ok (BM_ReadFile m)"
  by unfold_locales (auto simp: read_file_to_wire_def read_file_from_wire_def rel_path_display_def Let_def split: if_splits option.splits)

interpretation read_file_begin_wire: browse_wire read_file_begin_to_wire read_file_begin_from_wire "\<lambda>m. browse_message_ok (BM_ReadFileBegin m)"
  by unfold_locales (auto simp: read_file_begin_to_wire_def read_file_begin_from_wire_def rel_path_display_def Let_def split: if_splits option.splits)

interpretation write_file_wire: browse_wire write_file_to_wire write_file_from_wire "\<lambda>m. browse_message_ok (BM_WriteFile m)"
  by unfold_locales (auto simp: write_file_to_wire_def write_file_from_wire_def rel_path_display_def Let_def split: if_splits option.splits)

interpretation mkdir_wire: browse_wire mkdir_to_wire mkdir_from_wire "\<lambda>m. browse_message_ok (BM_Mkdir m)"
  by unfold_locales (auto simp: mkdir_to_wire_def mkdir_from_wire_def rel_path_display_def Let_def split: if_splits option.splits)

interpretation delete_wire: browse_wire delete_to_wire delete_from_wire "\<lambda>m. browse_message_ok (BM_Delete m)"
  by unfold_locales (auto simp: delete_to_wire_def delete_from_wire_def rel_path_display_def Let_def split: if_splits option.splits)

interpretation rename_wire: browse_wire rename_to_wire rename_from_wire "\<lambda>m. browse_message_ok (BM_Rename m)"
  by unfold_locales (auto simp: rename_to_wire_def rename_from_wire_def rel_path_display_def Let_def split: if_splits option.splits)

interpretation ack_wire: browse_wire ack_to_wire ack_from_wire "\<lambda>m. browse_message_ok (BM_Ack m)"
  by unfold_locales (auto simp: ack_to_wire_def ack_from_wire_def rel_path_display_def Let_def split: if_splits option.splits)

lemma refused_parsed [simp]: "refused_from_wire (refused_to_wire m) = Ok m"
  by (cases "ref_reason m") (simp_all add: refused_from_wire_def refused_to_wire_def)

interpretation refused_wire: browse_wire refused_to_wire refused_from_wire "\<lambda>m. browse_message_ok (BM_Refused m)"
  by unfold_locales simp_all

section \<open>The codec\<close>

definition browse_prost_ok :: "browse_prost \<Rightarrow> bool" where
  "browse_prost_ok P \<longleftrightarrow>
     (\<forall>w. dec_list_dir P (enc_list_dir P w) = Some w) \<and>
     (\<forall>w. dec_dir_listing P (enc_dir_listing P w) = Some w) \<and>
     (\<forall>w. dec_stat P (enc_stat P w) = Some w) \<and>
     (\<forall>w. dec_stat_result P (enc_stat_result P w) = Some w) \<and>
     (\<forall>w. dec_read_file P (enc_read_file P w) = Some w) \<and>
     (\<forall>w. dec_read_file_begin P (enc_read_file_begin P w) = Some w) \<and>
     (\<forall>w. dec_write_file P (enc_write_file P w) = Some w) \<and>
     (\<forall>w. dec_mkdir P (enc_mkdir P w) = Some w) \<and>
     (\<forall>w. dec_delete P (enc_delete P w) = Some w) \<and>
     (\<forall>w. dec_rename P (enc_rename P w) = Some w) \<and>
     (\<forall>w. dec_ack P (enc_ack P w) = Some w) \<and>
     (\<forall>w. dec_refused P (enc_refused P w) = Some w)"

text \<open>The decoder of a buffer whose first bytes are one frame, whatever follows.\<close>

lemma codec_decode_frame_wire:
  assumes "frame_fits limit f"
  shows "codec_decode_frame P limit (frame_wire f @ rest) = try_then (dispatch_frame P f) (\<lambda>msg. Ok (Some (msg, length (frame_wire f))))"
proof -
  let ?n = "length (frame_body f)" and ?d = "feed (frame_wire f) (frame_decoder_new limit)"
  have "unat (u32_from_be_bytes (len_code ?n)) = ?n" using assms unat_less [of limit] by (simp add: unat_of_nat)
  then have head: "unat (u32_from_be_bytes (take 4 (frame_wire f @ rest))) = ?n" by (simp add: prefix_wire_def)
  have len: "length (frame_wire f) = 4 + ?n" and pos: "?n \<noteq> 0" by (simp_all add: prefix_wire_def frame_body_def)
  have "next_frame ?d = (?d\<lparr>fd_buf := []\<rparr>, Ok (Some f))"
    using next_frame_whole [of ?d f "[]"] assms by (simp add: feed_def frame_decoder_new_def)
  then have nf: "snd (next_frame (feed (take (4 + ?n) (frame_wire f @ rest)) (frame_decoder_new limit))) = Ok (Some f)"
    using len by simp
  have "\<not> length (frame_wire f @ rest) < 4" "\<not> ?n > unat limit" "\<not> length (frame_wire f @ rest) < 4 + ?n"
    using assms len by simp_all
  then show ?thesis using head pos nf len by (simp add: codec_decode_frame_def Let_def del: length_append)
qed

lemma codec_decode_frame_Ok:
  assumes "codec_decode_frame P limit buf = Ok (Some (msg, n))"
  shows "\<exists>f rest. buf = frame_wire f @ rest \<and> frame_fits limit f \<and> n = length (frame_wire f) \<and> dispatch_frame P f = Ok msg"
proof -
  let ?n = "unat (u32_from_be_bytes (take 4 buf))"
  let ?d = "feed (take (4 + ?n) buf) (frame_decoder_new limit)"
  obtain d' q where d: "next_frame ?d = (d', q)" by fastforce
  have len: "4 + ?n \<le> length buf"
    and run: "(case q of Err _ \<Rightarrow> Err CodecError | Ok None \<Rightarrow> Ok None
      | Ok (Some frame) \<Rightarrow> try_then (dispatch_frame P frame) (\<lambda>msg. Ok (Some (msg, 4 + ?n)))) = Ok (Some (msg, n))"
    using assms d by (simp_all add: codec_decode_frame_def Let_def split: if_splits)
  obtain f where f: "next_frame ?d = (d', Ok (Some f))" "dispatch_frame P f = Ok msg" "n = 4 + ?n" "4 + ?n \<le> length buf"
    using run len d by (cases q) (auto split: option.splits)
  note y = next_frame_yields [OF f(1)]
  have fits: "frame_fits limit f" and cut: "take (4 + ?n) buf = frame_wire f @ fd_buf d'"
    using y(3,4) by (simp_all add: feed_def frame_decoder_new_def)
  have "unat (u32_from_be_bytes (len_code (length (frame_body f)))) = length (frame_body f)"
    using fits unat_less [of limit] by (simp add: unat_of_nat)
  moreover have "take 4 buf = len_code (length (frame_body f))"
  proof -
    have "take 4 buf = take 4 (take (4 + ?n) buf)" by simp
    also have "\<dots> = len_code (length (frame_body f))" unfolding cut by (simp add: prefix_wire_def)
    finally show ?thesis .
  qed
  ultimately have n: "?n = length (frame_body f)" by simp
  then have "length (frame_wire f) = 4 + ?n" by (simp add: prefix_wire_def)
  moreover have "length (take (4 + ?n) buf) = 4 + ?n" using f(4) by simp
  ultimately have "fd_buf d' = []" using cut by (metis add_cancel_left_right length_0_conv length_append)
  then have "buf = frame_wire f @ drop (4 + ?n) buf" using cut append_take_drop_id [of "4 + ?n" buf] by simp
  then show ?thesis using fits f(2,3) \<open>length (frame_wire f) = 4 + ?n\<close> by metis
qed

lemmas browse_frame_defs =
  encode_list_dir_frame_def decode_list_dir_frame_def encode_dir_listing_frame_def decode_dir_listing_frame_def encode_stat_frame_def decode_stat_frame_def
  encode_stat_result_frame_def decode_stat_result_frame_def encode_read_file_frame_def decode_read_file_frame_def encode_read_file_begin_frame_def decode_read_file_begin_frame_def
  encode_write_file_frame_def decode_write_file_frame_def encode_mkdir_frame_def decode_mkdir_frame_def encode_delete_frame_def decode_delete_frame_def
  encode_rename_frame_def decode_rename_frame_def encode_ack_frame_def decode_ack_frame_def encode_refused_frame_def decode_refused_frame_def

lemma dispatch_frame_ok:
  assumes "dispatch_frame P f = Ok msg"
  shows "browse_message_ok msg"
  using assms unfolding dispatch_frame_def read_message_def Let_def browse_frame_defs
  by (auto simp del: browse_message_ok.simps split: if_splits
      dest: list_dir_wire.decoded_ok dir_listing_wire.decoded_ok stat_wire.decoded_ok stat_result_wire.decoded_ok read_file_wire.decoded_ok read_file_begin_wire.decoded_ok write_file_wire.decoded_ok mkdir_wire.decoded_ok delete_wire.decoded_ok rename_wire.decoded_ok ack_wire.decoded_ok refused_wire.decoded_ok)

lemma dispatch_encoded:
  assumes "browse_prost_ok P" and "browse_message_ok msg" and "codec_encode_frame P msg limit = Ok wire"
  shows "\<exists>f. wire = frame_wire f \<and> frame_fits limit f \<and> dispatch_frame P f = Ok msg"
proof (cases msg)
  case (BM_ListDir m)
  have "dec_list_dir P (enc_list_dir P w) = Some w" for w using assms(1) by (simp add: browse_prost_ok_def)
  from list_dir_wire.framed_roundtrip [where enc = "enc_list_dir P" and dec = "dec_list_dir P" and ty = Msg_ListDir, OF _ this, of m limit wire]
  show ?thesis using assms(2,3) by (auto simp: BM_ListDir dispatch_frame_def read_message_def browse_frame_defs simp del: browse_message_ok.simps)
next
  case (BM_DirListing m)
  have "dec_dir_listing P (enc_dir_listing P w) = Some w" for w using assms(1) by (simp add: browse_prost_ok_def)
  from dir_listing_wire.framed_roundtrip [where enc = "enc_dir_listing P" and dec = "dec_dir_listing P" and ty = Msg_DirListing, OF _ this, of m limit wire]
  show ?thesis using assms(2,3) by (auto simp: BM_DirListing dispatch_frame_def read_message_def browse_frame_defs simp del: browse_message_ok.simps)
next
  case (BM_Stat m)
  have "dec_stat P (enc_stat P w) = Some w" for w using assms(1) by (simp add: browse_prost_ok_def)
  from stat_wire.framed_roundtrip [where enc = "enc_stat P" and dec = "dec_stat P" and ty = Msg_Stat, OF _ this, of m limit wire]
  show ?thesis using assms(2,3) by (auto simp: BM_Stat dispatch_frame_def read_message_def browse_frame_defs simp del: browse_message_ok.simps)
next
  case (BM_StatResult m)
  have "dec_stat_result P (enc_stat_result P w) = Some w" for w using assms(1) by (simp add: browse_prost_ok_def)
  from stat_result_wire.framed_roundtrip [where enc = "enc_stat_result P" and dec = "dec_stat_result P" and ty = Msg_StatResult, OF _ this, of m limit wire]
  show ?thesis using assms(2,3) by (auto simp: BM_StatResult dispatch_frame_def read_message_def browse_frame_defs simp del: browse_message_ok.simps)
next
  case (BM_ReadFile m)
  have "dec_read_file P (enc_read_file P w) = Some w" for w using assms(1) by (simp add: browse_prost_ok_def)
  from read_file_wire.framed_roundtrip [where enc = "enc_read_file P" and dec = "dec_read_file P" and ty = Msg_ReadFile, OF _ this, of m limit wire]
  show ?thesis using assms(2,3) by (auto simp: BM_ReadFile dispatch_frame_def read_message_def browse_frame_defs simp del: browse_message_ok.simps)
next
  case (BM_ReadFileBegin m)
  have "dec_read_file_begin P (enc_read_file_begin P w) = Some w" for w using assms(1) by (simp add: browse_prost_ok_def)
  from read_file_begin_wire.framed_roundtrip [where enc = "enc_read_file_begin P" and dec = "dec_read_file_begin P" and ty = Msg_ReadFileBegin, OF _ this, of m limit wire]
  show ?thesis using assms(2,3) by (auto simp: BM_ReadFileBegin dispatch_frame_def read_message_def browse_frame_defs simp del: browse_message_ok.simps)
next
  case (BM_WriteFile m)
  have "dec_write_file P (enc_write_file P w) = Some w" for w using assms(1) by (simp add: browse_prost_ok_def)
  from write_file_wire.framed_roundtrip [where enc = "enc_write_file P" and dec = "dec_write_file P" and ty = Msg_WriteFile, OF _ this, of m limit wire]
  show ?thesis using assms(2,3) by (auto simp: BM_WriteFile dispatch_frame_def read_message_def browse_frame_defs simp del: browse_message_ok.simps)
next
  case (BM_Mkdir m)
  have "dec_mkdir P (enc_mkdir P w) = Some w" for w using assms(1) by (simp add: browse_prost_ok_def)
  from mkdir_wire.framed_roundtrip [where enc = "enc_mkdir P" and dec = "dec_mkdir P" and ty = Msg_Mkdir, OF _ this, of m limit wire]
  show ?thesis using assms(2,3) by (auto simp: BM_Mkdir dispatch_frame_def read_message_def browse_frame_defs simp del: browse_message_ok.simps)
next
  case (BM_Delete m)
  have "dec_delete P (enc_delete P w) = Some w" for w using assms(1) by (simp add: browse_prost_ok_def)
  from delete_wire.framed_roundtrip [where enc = "enc_delete P" and dec = "dec_delete P" and ty = Msg_Delete, OF _ this, of m limit wire]
  show ?thesis using assms(2,3) by (auto simp: BM_Delete dispatch_frame_def read_message_def browse_frame_defs simp del: browse_message_ok.simps)
next
  case (BM_Rename m)
  have "dec_rename P (enc_rename P w) = Some w" for w using assms(1) by (simp add: browse_prost_ok_def)
  from rename_wire.framed_roundtrip [where enc = "enc_rename P" and dec = "dec_rename P" and ty = Msg_Rename, OF _ this, of m limit wire]
  show ?thesis using assms(2,3) by (auto simp: BM_Rename dispatch_frame_def read_message_def browse_frame_defs simp del: browse_message_ok.simps)
next
  case (BM_Ack m)
  have "dec_ack P (enc_ack P w) = Some w" for w using assms(1) by (simp add: browse_prost_ok_def)
  from ack_wire.framed_roundtrip [where enc = "enc_ack P" and dec = "dec_ack P" and ty = Msg_Ack, OF _ this, of m limit wire]
  show ?thesis using assms(2,3) by (auto simp: BM_Ack dispatch_frame_def read_message_def browse_frame_defs simp del: browse_message_ok.simps)
next
  case (BM_Refused m)
  have "dec_refused P (enc_refused P w) = Some w" for w using assms(1) by (simp add: browse_prost_ok_def)
  from refused_wire.framed_roundtrip [where enc = "enc_refused P" and dec = "dec_refused P" and ty = Msg_Refused, OF _ this, of m limit wire]
  show ?thesis using assms(2,3) by (auto simp: BM_Refused dispatch_frame_def read_message_def browse_frame_defs simp del: browse_message_ok.simps)
qed (use assms(2) in simp_all)

text \<open>
  Property C32. The browse messages survive the wire: a valid message that fits the limit is
  encoded to bytes that the codec, whatever follows them in the buffer, decodes to exactly that
  message, consuming exactly those bytes.
\<close>

theorem browse_messages_roundtrip:
  assumes "browse_prost_ok P" and "browse_message_ok msg" and "codec_encode_frame P msg limit = Ok bytes"
  shows "codec_decode_frame P limit (bytes @ rest) = Ok (Some (msg, length bytes))"
  using dispatch_encoded [OF assms] by (auto simp: codec_decode_frame_wire)

text \<open>
  Property C19. Whatever bytes a peer sends, a message the codec hands out is well formed: its
  share identifier is a version 7 UUID, its paths stay inside the share, a content hash has 32
  bytes; it took at least five bytes, no more than are there and no more than the limit allows
  beside the length, and the verdict does not depend on the bytes after it.
\<close>

theorem decoded_browse_message_valid:
  assumes "codec_decode_frame P limit buf = Ok (Some (msg, n))"
  shows "browse_message_ok msg \<and> 5 \<le> n \<and> n \<le> length buf \<and> n \<le> 4 + unat limit \<and>
    codec_decode_frame P limit (take n buf @ rest) = Ok (Some (msg, n))"
proof -
  obtain f later where f: "buf = frame_wire f @ later" "frame_fits limit f" "n = length (frame_wire f)" "dispatch_frame P f = Ok msg"
    using codec_decode_frame_Ok [OF assms] by blast
  have "n = 4 + length (frame_body f)" "1 \<le> length (frame_body f)" using f(3) by (simp_all add: prefix_wire_def frame_body_def)
  moreover have "take n buf = frame_wire f" using f(1,3) by simp
  ultimately show ?thesis
    using f dispatch_frame_ok [OF f(4)] codec_decode_frame_wire [OF f(2), of P rest] by auto
qed

section \<open>A codec to run the model with\<close>

definition put_entry :: "v1_file_entry \<Rightarrow> u8 list" where
  "put_entry w = put_nats (w_fe_relative_path w) @ put_nat (unat (w_fe_kind w)) @ put_nat (unat (w_fe_size w)) @ put_nat (unat (w_fe_mtime w)) @ put_nat (unat (w_fe_mode w)) @ put_nats (map unat (w_fe_content_hash w)) @ put_nats (w_fe_mime w)"

definition get_entry :: "u8 list \<Rightarrow> v1_file_entry \<times> u8 list" where
  "get_entry r = (case get_nats r of (x0, r) \<Rightarrow> case get_nat r of (x1, r) \<Rightarrow> case get_nat r of (x2, r) \<Rightarrow> case get_nat r of (x3, r) \<Rightarrow> case get_nat r of (x4, r) \<Rightarrow> case get_nats r of (x5, r) \<Rightarrow> case get_nats r of (x6, r) \<Rightarrow> (\<lparr>w_fe_relative_path = x0, w_fe_kind = of_nat x1, w_fe_size = of_nat x2, w_fe_mtime = of_nat x3, w_fe_mode = of_nat x4, w_fe_content_hash = map of_nat x5, w_fe_mime = x6\<rparr>, r))"

fun get_entries :: "nat \<Rightarrow> u8 list \<Rightarrow> v1_file_entry list \<times> u8 list" where
  "get_entries 0 r = ([], r)"
| "get_entries (Suc n) r = (case get_entry r of (e, r) \<Rightarrow> case get_entries n r of (es, r) \<Rightarrow> (e # es, r))"

lemma get_put_entry [simp]: "get_entry (put_entry w @ r) = (w, r)"
  by (simp add: get_entry_def put_entry_def)

lemma get_put_entries [simp]: "get_entries (length ws) (concat (map put_entry ws) @ r) = (ws, r)"
  by (induction ws) simp_all

definition unary_browse_prost :: browse_prost where
  "unary_browse_prost =
    \<lparr>enc_list_dir = (\<lambda>w. put_nats (w_ld_share_id w) @ put_nats (w_ld_path w) @ put_nats (w_ld_cursor w) @ put_nat (unat (w_ld_limit w)) @ put_nat (if w_ld_with_hash w then 1 else 0)),
     dec_list_dir = (\<lambda>r. case get_nats r of (x0, r) \<Rightarrow> case get_nats r of (x1, r) \<Rightarrow> case get_nats r of (x2, r) \<Rightarrow> case get_nat r of (x3, r) \<Rightarrow> case get_nat r of (x4, r) \<Rightarrow> Some \<lparr>w_ld_share_id = x0, w_ld_path = x1, w_ld_cursor = x2, w_ld_limit = of_nat x3, w_ld_with_hash = (x4 = 1)\<rparr>),
     enc_dir_listing = (\<lambda>w. put_nat (length (w_dl_entries w)) @ concat (map put_entry (w_dl_entries w)) @
        put_nats (w_dl_next_cursor w) @ put_nat (unat (w_dl_total_estimate w))),
     dec_dir_listing = (\<lambda>r. case get_nat r of (n, r) \<Rightarrow> case get_entries n r of (es, r) \<Rightarrow> case get_nats r of (c, r) \<Rightarrow>
        case get_nat r of (t, r) \<Rightarrow> Some \<lparr>w_dl_entries = es, w_dl_next_cursor = c, w_dl_total_estimate = of_nat t\<rparr>),
     enc_stat = (\<lambda>w. put_nats (w_st_share_id w) @ put_nats (w_st_path w)),
     dec_stat = (\<lambda>r. case get_nats r of (x0, r) \<Rightarrow> case get_nats r of (x1, r) \<Rightarrow> Some \<lparr>w_st_share_id = x0, w_st_path = x1\<rparr>),
     enc_stat_result = (\<lambda>w. case w_sr_entry w of None \<Rightarrow> put_nat 0 | Some e \<Rightarrow> put_nat 1 @ put_entry e @ []),
     dec_stat_result = (\<lambda>r. case get_nat r of (n, r) \<Rightarrow>
        Some \<lparr>w_sr_entry = (if n = 0 then None else Some (fst (get_entry r)))\<rparr>),
     enc_read_file = (\<lambda>w. put_nats (w_rf_share_id w) @ put_nats (w_rf_path w) @ put_nat (unat (w_rf_offset w)) @ put_nat (unat (w_rf_length w))),
     dec_read_file = (\<lambda>r. case get_nats r of (x0, r) \<Rightarrow> case get_nats r of (x1, r) \<Rightarrow> case get_nat r of (x2, r) \<Rightarrow> case get_nat r of (x3, r) \<Rightarrow> Some \<lparr>w_rf_share_id = x0, w_rf_path = x1, w_rf_offset = of_nat x2, w_rf_length = of_nat x3\<rparr>),
     enc_read_file_begin = (\<lambda>w. put_nat (unat (w_rb_total_size w)) @ put_nats (map unat (w_rb_content_hash w)) @ put_nat (unat (w_rb_chunk_size w))),
     dec_read_file_begin = (\<lambda>r. case get_nat r of (x0, r) \<Rightarrow> case get_nats r of (x1, r) \<Rightarrow> case get_nat r of (x2, r) \<Rightarrow> Some \<lparr>w_rb_total_size = of_nat x0, w_rb_content_hash = map of_nat x1, w_rb_chunk_size = of_nat x2\<rparr>),
     enc_write_file = (\<lambda>w. put_nats (w_wf_share_id w) @ put_nats (w_wf_path w) @ put_nat (unat (w_wf_size w)) @ put_nats (map unat (w_wf_content_hash w)) @ put_nat (unat (w_wf_mode w))),
     dec_write_file = (\<lambda>r. case get_nats r of (x0, r) \<Rightarrow> case get_nats r of (x1, r) \<Rightarrow> case get_nat r of (x2, r) \<Rightarrow> case get_nats r of (x3, r) \<Rightarrow> case get_nat r of (x4, r) \<Rightarrow> Some \<lparr>w_wf_share_id = x0, w_wf_path = x1, w_wf_size = of_nat x2, w_wf_content_hash = map of_nat x3, w_wf_mode = of_nat x4\<rparr>),
     enc_mkdir = (\<lambda>w. put_nats (w_mk_share_id w) @ put_nats (w_mk_path w) @ put_nat (if w_mk_parents w then 1 else 0)),
     dec_mkdir = (\<lambda>r. case get_nats r of (x0, r) \<Rightarrow> case get_nats r of (x1, r) \<Rightarrow> case get_nat r of (x2, r) \<Rightarrow> Some \<lparr>w_mk_share_id = x0, w_mk_path = x1, w_mk_parents = (x2 = 1)\<rparr>),
     enc_delete = (\<lambda>w. put_nats (w_dr_share_id w) @ put_nats (w_dr_path w) @ put_nat (if w_dr_recursive w then 1 else 0)),
     dec_delete = (\<lambda>r. case get_nats r of (x0, r) \<Rightarrow> case get_nats r of (x1, r) \<Rightarrow> case get_nat r of (x2, r) \<Rightarrow> Some \<lparr>w_dr_share_id = x0, w_dr_path = x1, w_dr_recursive = (x2 = 1)\<rparr>),
     enc_rename = (\<lambda>w. put_nats (w_rn_share_id w) @ put_nats (w_rn_from w) @ put_nats (w_rn_to w)),
     dec_rename = (\<lambda>r. case get_nats r of (x0, r) \<Rightarrow> case get_nats r of (x1, r) \<Rightarrow> case get_nats r of (x2, r) \<Rightarrow> Some \<lparr>w_rn_share_id = x0, w_rn_from = x1, w_rn_to = x2\<rparr>),
     enc_ack = (\<lambda>w. put_nats (w_ack_request_id w)),
     dec_ack = (\<lambda>r. case get_nats r of (x0, r) \<Rightarrow> Some \<lparr>w_ack_request_id = x0\<rparr>),
     enc_refused = (\<lambda>w. put_nats (w_ref_request_id w) @ put_nat (unat (w_ref_reason w))),
     dec_refused = (\<lambda>r. case get_nats r of (x0, r) \<Rightarrow> case get_nat r of (x1, r) \<Rightarrow> Some \<lparr>w_ref_request_id = x0, w_ref_reason = of_nat x1\<rparr>)\<rparr>"

lemma get_put_entry_end [simp]: "get_entry (put_entry w) = (w, [])"
  using get_put_entry [of w "[]"] by simp

lemma unary_browse_prost_ok: "browse_prost_ok unary_browse_prost"
  by (simp add: browse_prost_ok_def unary_browse_prost_def split: option.split)

definition sample_share_id :: share_id where
  "sample_share_id = ShareId [0, 0, 0, 0, 0, 0, 0x70, 0, 0x80, 0, 0, 0, 0, 0, 0, 0]"

definition sample_mkdir :: browse_message where
  "sample_mkdir = BM_Mkdir \<lparr>mk_share_id = sample_share_id, mk_path = \<lparr>rel_path_value = [97]\<rparr>, mk_parents = False\<rparr>"

lemma sample_mkdir_ok: "browse_message_ok sample_mkdir"
  by (simp add: sample_mkdir_def share_id_ok_def sample_share_id_def uuid_v7_def rel_path_ok_def good_path_def good_component_def
      is_control_def is_misleading_display_character_def)

lemma sample_mkdir_encoded: "\<exists>bytes. codec_encode_frame unary_browse_prost sample_mkdir 100000 = Ok bytes"
  by (simp add: sample_mkdir_def encode_mkdir_frame_def encode_browse_frame_def encode_frame_def Let_def
      unary_browse_prost_def mkdir_to_wire_def sample_share_id_def share_id_display_def uuid_display_def hex2_def hex_digit_def
      rel_path_display_def put_nats_def put_nat_def)

theorem browse_messages_roundtrip_witness:
  "\<exists>bytes. codec_encode_frame unary_browse_prost sample_mkdir 100000 = Ok bytes \<and>
     codec_decode_frame unary_browse_prost 100000 (bytes @ [1, 2, 3]) = Ok (Some (sample_mkdir, length bytes))"
  using sample_mkdir_encoded browse_messages_roundtrip [OF unary_browse_prost_ok sample_mkdir_ok] by blast

theorem decoded_browse_message_valid_witness:
  "\<exists>bytes. codec_decode_frame unary_browse_prost 100000 bytes = Ok (Some (sample_mkdir, length bytes)) \<and>
     browse_message_ok sample_mkdir \<and> 5 \<le> length bytes"
proof -
  obtain bytes where b: "codec_encode_frame unary_browse_prost sample_mkdir 100000 = Ok bytes" using sample_mkdir_encoded by blast
  have "codec_decode_frame unary_browse_prost 100000 bytes = Ok (Some (sample_mkdir, length bytes))"
    using dispatch_encoded [OF unary_browse_prost_ok sample_mkdir_ok b] codec_decode_frame_wire [of _ 100000 unary_browse_prost "[]"] by auto
  with decoded_browse_message_valid [OF this] show ?thesis by blast
qed

end
