(* ===== verification/Browse_Handler.thy ===== *)
theory Browse_Handler
  imports Browse_Wire Transfer_Session Hpke "HOL-Library.List_Lexorder" "HOL-Library.AList"
begin

text \<open>
  The serving side of the browse plane (\<open>handle_browse_stream\<close> of \<open>tradr-core/src/browse.rs\<close>)
  and the staging paths of uploads (\<open>tradr-app/src/upload_paths.rs\<close>). The \<open>Vfs\<close> and
  \<open>UploadPaths\<close> traits are records of functions on a state of their own, so the handler is
  defined for every implementation; a file handle is the path it was opened at. The streams are
  those of \<open>Transfer_Session\<close>. The codec is \<open>ProtoBrowseCodec\<close>. A recursive deletion may
  run forever on a file system whose directories never end, so its result is an option.
\<close>

unbundle bit_operations_syntax

section \<open>The interfaces of the handler\<close>

record metadata =
  md_kind :: entry_kind
  md_size_bytes :: u64
  md_modified :: unix_time

type_synonym ('w, 'a) fs_op = "'w \<Rightarrow> 'w \<times> ('a, vfs_error) result"

record 'w vfs =
  v_list :: "root_id \<Rightarrow> rel_path \<Rightarrow> ('w, dir_entry list) fs_op"
  v_stat :: "root_id \<Rightarrow> rel_path \<Rightarrow> ('w, metadata) fs_op"
  v_open_read :: "root_id \<Rightarrow> rel_path \<Rightarrow> ('w, unit) fs_op"
  v_read_at :: "rel_path \<Rightarrow> u64 \<Rightarrow> nat \<Rightarrow> ('w, u8 list) fs_op"
  v_create_dir :: "root_id \<Rightarrow> rel_path \<Rightarrow> ('w, unit) fs_op"
  v_open_write :: "root_id \<Rightarrow> rel_path \<Rightarrow> ('w, unit) fs_op"
  v_write_at :: "rel_path \<Rightarrow> u64 \<Rightarrow> u8 list \<Rightarrow> ('w, unit) fs_op"
  v_sync :: "rel_path \<Rightarrow> ('w, unit) fs_op"
  v_rename :: "root_id \<Rightarrow> rel_path \<Rightarrow> rel_path \<Rightarrow> ('w, unit) fs_op"
  v_rename_no_replace :: "root_id \<Rightarrow> rel_path \<Rightarrow> rel_path \<Rightarrow> ('w, unit) fs_op"
  v_remove :: "root_id \<Rightarrow> rel_path \<Rightarrow> ('w, unit) fs_op"

record 'w upload_paths =
  u_staging :: "('w, rel_path \<times> rel_path) fs_op"
  u_free_name :: "root_id \<Rightarrow> rel_path \<Rightarrow> ('w, rel_path) fs_op"

record 'w browse_context =
  bc_prost :: browse_prost
  bc_codec_max :: u32 \<comment> \<open>the bound the codec was made with\<close>
  bc_vfs :: "'w vfs"
  bc_root :: root_id
  bc_max_frame_size :: u32
  bc_uploads :: "'w upload_paths"

text \<open>\<open>bs_buf\<close> is the filled part of the stream buffer, \<open>buf[..pos]\<close>.\<close>

record 'w browse_state =
  bs_fs :: 'w
  bs_in :: "recv_event list"
  bs_buf :: "u8 list"
  bs_out :: "u8 list"
  bs_finished :: bool
  bs_send_faults :: "transport_error option list"

datatype browse_failure = BrowseRefused refusal_reason | BrowseStream transport_error

type_synonym ('w, 'a) browse_op = "'w browse_state \<Rightarrow> 'w browse_state \<times> ('a, browse_failure) result"

fun refusal_for :: "vfs_error \<Rightarrow> refusal_reason" where
  "refusal_for Vfs_NotFound = NotFound"
| "refusal_for Vfs_AlreadyExists = AlreadyExists"
| "refusal_for Vfs_OutsideRoot = NotAllowed"
| "refusal_for Vfs_DenyListed = NotAllowed"
| "refusal_for Vfs_UnsupportedEntry = NotAllowed"
| "refusal_for Vfs_ReadOnly = NotAllowed"
| "refusal_for Vfs_WrongKind = WrongKind"
| "refusal_for (Vfs_Io k) = Failed"
| "refusal_for Vfs_Panic = Failed"

section \<open>Steps\<close>

definition next_op :: "('w, 'a) browse_op \<Rightarrow> ('a \<Rightarrow> ('w, 'b) browse_op) \<Rightarrow> ('w, 'b) browse_op" where
  "next_op op f s = (case op s of (s', Err e) \<Rightarrow> (s', Err e) | (s', Ok x) \<Rightarrow> f x s')"

definition done_op :: "('a, browse_failure) result \<Rightarrow> ('w, 'a) browse_op" where
  "done_op r s = (s, r)"

text \<open>A call of the file system whose error the code looks at, and one it maps with \<open>refusal_for\<close>.\<close>

definition fs_result :: "('w, 'a) fs_op \<Rightarrow> ('w, ('a, vfs_error) result) browse_op" where
  "fs_result op s = (case op (bs_fs s) of (w, r) \<Rightarrow> (s\<lparr>bs_fs := w\<rparr>, Ok r))"

definition fs_call :: "('w, 'a) fs_op \<Rightarrow> ('w, 'a) browse_op" where
  "fs_call op s = (case op (bs_fs s) of (w, r) \<Rightarrow> (s\<lparr>bs_fs := w\<rparr>, map_err (\<lambda>e. BrowseRefused (refusal_for e)) r))"

definition out_op :: "('w browse_state \<Rightarrow> 'w browse_state) \<Rightarrow> ('w, unit) browse_op" where
  "out_op effect s =
     (case bs_send_faults s of
        [] \<Rightarrow> (effect s, Ok ())
      | None # fs \<Rightarrow> (effect (s\<lparr>bs_send_faults := fs\<rparr>), Ok ())
      | Some e # fs \<Rightarrow> (s\<lparr>bs_send_faults := fs\<rparr>, Err (BrowseStream e)))"

definition out_write_all :: "u8 list \<Rightarrow> ('w, unit) browse_op" where
  "out_write_all bytes = out_op (\<lambda>s. s\<lparr>bs_out := bs_out s @ bytes\<rparr>)"

definition out_finish :: "('w, unit) browse_op" where
  "out_finish = out_op (\<lambda>s. s\<lparr>bs_finished := True\<rparr>)"

definition in_read :: "nat \<Rightarrow> ('w, u8 list) browse_op" where
  "in_read n s = (case recv_read n (bs_in s) of (es, r) \<Rightarrow> (s\<lparr>bs_in := es\<rparr>, map_err BrowseStream r))"

definition send_message :: "'w browse_context \<Rightarrow> browse_message \<Rightarrow> ('w, unit) browse_op" where
  "send_message ctx msg =
     next_op (done_op (map_err (\<lambda>_. BrowseStream (Te_Io Io_InvalidData))
       (codec_encode_frame (bc_prost ctx) msg (bc_max_frame_size ctx)))) out_write_all"

definition send_ack :: "'w browse_context \<Rightarrow> ('w, unit) browse_op" where
  "send_ack ctx = send_message ctx (BM_Ack \<lparr>ack_request_id = []\<rparr>)"

section \<open>Listing\<close>

definition page_start :: "dir_entry list \<Rightarrow> rstr \<Rightarrow> nat" where
  "page_start ordered cursor =
     (if cursor = [] then 0
      else case position (\<lambda>e. de_name e = cursor) ordered of Some i \<Rightarrow> i + 1 | None \<Rightarrow> 0)"

definition list_page :: "dir_entry list \<Rightarrow> rstr \<Rightarrow> u32 \<Rightarrow> dir_listing" where
  "list_page entries cursor limit_field =
     (let ordered = sort_key (\<lambda>e. str_bytes (de_name e)) entries;
          start_idx = page_start ordered cursor;
          limit = (if limit_field = 0 then 500 else unat limit_field);
          has_more = start_idx + limit < length ordered;
          end_idx = min (start_idx + limit) (length ordered);
          page = take (end_idx - start_idx) (drop start_idx ordered);
          next_cursor = (if has_more then (if page = [] then [] else de_name (last page)) else [])
      in \<lparr>dl_entries = page, dl_next_cursor = next_cursor, dl_total_estimate = of_nat (length ordered)\<rparr>)"

definition handle_list_dir :: "'w browse_context \<Rightarrow> list_dir \<Rightarrow> ('w, unit) browse_op" where
  "handle_list_dir ctx req =
     next_op (fs_call (v_list (bc_vfs ctx) (bc_root ctx) (ld_path req))) (\<lambda>entries.
     send_message ctx (BM_DirListing (list_page entries (ld_cursor req) (ld_limit req))))"

definition handle_stat :: "'w browse_context \<Rightarrow> stat_request \<Rightarrow> ('w, unit) browse_op" where
  "handle_stat ctx req =
     next_op (fs_call (v_stat (bc_vfs ctx) (bc_root ctx) (st_path req))) (\<lambda>meta.
     send_message ctx (BM_StatResult \<lparr>sr_entry =
       \<lparr>de_name = last (split_on SLASH (rel_path_value (st_path req))), de_kind = md_kind meta,
        de_size_bytes = md_size_bytes meta, de_modified = md_modified meta\<rparr>\<rparr>))"

section \<open>Downloads\<close>

abbreviation (input) "READ_CHUNK \<equiv> (65536 :: nat)"

definition read_span :: "u64 \<Rightarrow> u64 \<Rightarrow> u64 \<Rightarrow> u64" where
  "read_span total_size offset length_field =
     (if length_field = 0 \<or> saturating_add offset length_field > total_size
      then saturating_sub total_size offset else length_field)"

lemma remaining_shrinks:
  fixes remaining :: u64
  assumes "remaining \<noteq> 0" and "n \<noteq> 0" and "n \<le> unat remaining"
  shows "unat (remaining - of_nat n) < unat remaining"
proof -
  have "unat (of_nat n :: u64) = n" using assms(3) by (rule le_unat_uoi)
  then have "unat (remaining - of_nat n) = unat remaining - n" using assms(3) by (simp add: unat_sub word_le_nat_alt)
  then show ?thesis using assms(1,2) by (simp add: unat_gt_0)
qed

text \<open>The read loop; a handle that yields more than it was asked for would panic in \<open>read_buf[..n]\<close>.\<close>

function send_range :: "'w browse_context \<Rightarrow> rel_path \<Rightarrow> u64 \<Rightarrow> u64 \<Rightarrow> ('w, unit) browse_op" where
  "send_range ctx path current_offset remaining s =
     (if remaining = 0 then (s, Ok ())
      else
        let to_read = min (unat remaining) READ_CHUNK in
        case v_read_at (bc_vfs ctx) path current_offset to_read (bs_fs s) of
          (w, Err _) \<Rightarrow> (s\<lparr>bs_fs := w\<rparr>, Err (BrowseStream (Te_Io (Io_Kind 0))))
        | (w, Ok bytes) \<Rightarrow>
            let n = min (length bytes) to_read in
            if n = 0 then (s\<lparr>bs_fs := w\<rparr>, Ok ())
            else (case out_write_all (take n bytes) (s\<lparr>bs_fs := w\<rparr>) of
                (s', Err e) \<Rightarrow> (s', Err e)
              | (s', Ok _) \<Rightarrow> send_range ctx path (current_offset + of_nat n) (remaining - of_nat n) s'))"
  by pat_completeness auto

termination
  by (relation "measure (\<lambda>(ctx, path, off, remaining, s). unat remaining)") (auto intro!: remaining_shrinks simp: min.coboundedI2)

declare send_range.simps [simp del]

definition handle_read_file :: "'w browse_context \<Rightarrow> read_file \<Rightarrow> ('w, unit) browse_op" where
  "handle_read_file ctx req =
     next_op (fs_call (v_stat (bc_vfs ctx) (bc_root ctx) (rf_path req))) (\<lambda>meta.
     if md_kind meta \<noteq> Kind_File then done_op (Err (BrowseRefused WrongKind))
     else
       next_op (fs_call (v_open_read (bc_vfs ctx) (bc_root ctx) (rf_path req))) (\<lambda>_.
       next_op (send_message ctx (BM_ReadFileBegin
          \<lparr>rb_total_size = md_size_bytes meta, rb_content_hash = ContentHash (replicate 32 0), rb_chunk_size = 65536\<rparr>)) (\<lambda>_.
       next_op (send_range ctx (rf_path req) (rf_offset req)
          (read_span (md_size_bytes meta) (rf_offset req) (rf_length req))) (\<lambda>_.
       out_finish))))"

section \<open>Uploads\<close>

record staged_upload =
  su_target_path :: rel_path
  su_requested_path :: rel_path
  su_mode :: write_mode
  su_staging_dir :: rel_path
  su_staging_file :: rel_path
  su_size :: u64

lemma recv_read_length: "recv_read n es = (es', Ok bytes) \<Longrightarrow> length bytes \<le> n"
  by (induction n es rule: recv_read.induct) (auto split: if_splits)

lemma in_read_length: "in_read n s = (s', Ok bytes) \<Longrightarrow> length bytes \<le> n"
  by (auto simp: in_read_def dest: recv_read_length split: prod.splits)

lemma written_advances:
  fixes full written :: u64
  assumes "written < full" and "k \<le> unat (full - written)"
  shows "unat (written + of_nat k) = unat written + k" and "unat (full - (written + of_nat k)) = unat (full - written) - k"
    and "written + of_nat k \<le> full"
proof -
  have d: "unat (full - written) = unat full - unat written" using assms(1) by (simp add: unat_sub word_less_nat_alt word_le_nat_alt)
  have k: "unat (of_nat k :: u64) = k" using assms(2) by (rule le_unat_uoi)
  have le: "unat written + k \<le> unat full" using assms d by (simp add: word_less_nat_alt)
  then have "unat written + k < 2 ^ 64" using unat_less [of full] by simp
  then show u: "unat (written + of_nat k) = unat written + k" using k by (simp add: unat_word_ariths)
  show l: "written + of_nat k \<le> full" using le u by (simp add: word_le_nat_alt)
  show "unat (full - (written + of_nat k)) = unat (full - written) - k" using l u d by (simp add: unat_sub)
qed

function write_loop :: "'w browse_context \<Rightarrow> rel_path \<Rightarrow> u64 \<Rightarrow> u64 \<Rightarrow> ('w, unit) browse_op" where
  "write_loop ctx file full written s =
     (if \<not> written < full then (s, Ok ())
      else
        let needed = min (unat (full - written)) READ_CHUNK in
        case in_read needed s of
          (s1, Err e) \<Rightarrow> (s1, Err e)
        | (s1, Ok bytes) \<Rightarrow>
            if bytes = [] then (s1, Err (BrowseStream Te_Closed))
            else (case fs_call (v_write_at (bc_vfs ctx) file written bytes) s1 of
                (s2, Err e) \<Rightarrow> (s2, Err e)
              | (s2, Ok _) \<Rightarrow> write_loop ctx file full (written + of_nat (length bytes)) s2))"
  by pat_completeness auto

termination
proof (relation "measure (\<lambda>(ctx, file, full, written, s). unat (full - written))", goal_cases)
  case 1
  show ?case by simp
next
  case (2 ctx p full written s needed s1 r bytes s2 r2 u)
  have "length bytes \<le> needed" using in_read_length [of needed s s1 bytes] 2(3,4) by simp
  then have "unat (full - (written + of_nat (length bytes))) = unat (full - written) - length bytes"
    using written_advances(2) [of written full] 2(1,2) by simp
  moreover have "0 < unat (full - written)" using 2(1) by (auto simp: unat_gt_0)
  ultimately show ?case using 2(5) by simp
qed

declare write_loop.simps [simp del]

text \<open>Placing under a free name; \<open>attempts\<close> counts those that remain after the one under way.\<close>

fun place_free :: "'w browse_context \<Rightarrow> rel_path \<Rightarrow> rel_path \<Rightarrow> rel_path \<Rightarrow> nat \<Rightarrow> ('w, unit) browse_op" where
  "place_free ctx staging_file requested target 0 s =
     (case fs_result (v_rename_no_replace (bc_vfs ctx) (bc_root ctx) staging_file target) s of
        (s1, Ok (Err e)) \<Rightarrow> (s1, Err (BrowseRefused (refusal_for e)))
      | (s1, _) \<Rightarrow> (s1, Ok ()))"
| "place_free ctx staging_file requested target (Suc attempts) s =
     (case fs_result (v_rename_no_replace (bc_vfs ctx) (bc_root ctx) staging_file target) s of
        (s1, Ok (Err e)) \<Rightarrow>
          if e = Vfs_AlreadyExists then
            (case fs_call (u_free_name (bc_uploads ctx) (bc_root ctx) requested) s1 of
               (s2, Err f) \<Rightarrow> (s2, Err f)
             | (s2, Ok target') \<Rightarrow> place_free ctx staging_file requested target' attempts s2)
          else (s1, Err (BrowseRefused (refusal_for e)))
      | (s1, _) \<Rightarrow> (s1, Ok ()))"

definition place_upload :: "'w browse_context \<Rightarrow> staged_upload \<Rightarrow> ('w, unit) browse_op" where
  "place_upload ctx staged =
     (case su_mode staged of
        CreateNew \<Rightarrow> fs_call (v_rename_no_replace (bc_vfs ctx) (bc_root ctx) (su_staging_file staged) (su_target_path staged))
      | Overwrite \<Rightarrow> fs_call (v_rename (bc_vfs ctx) (bc_root ctx) (su_staging_file staged) (su_target_path staged))
      | RenameIfExists \<Rightarrow>
          place_free ctx (su_staging_file staged) (su_requested_path staged) (su_target_path staged) (MAX_PLACEMENT_ATTEMPTS - 1))"

text \<open>The bytes of the upload that arrived with its frame.\<close>

definition write_buffered :: "'w browse_context \<Rightarrow> rel_path \<Rightarrow> u64 \<Rightarrow> ('w, u64) browse_op" where
  "write_buffered ctx file full s =
     (let from_buf = min (length (bs_buf s)) (unat full) in
      if from_buf = 0 then (s, Ok 0)
      else next_op (fs_call (v_write_at (bc_vfs ctx) file 0 (take from_buf (bs_buf s))))
        (\<lambda>_ s. (s\<lparr>bs_buf := drop from_buf (bs_buf s)\<rparr>, Ok (of_nat from_buf))) s)"

definition write_staged_content :: "'w browse_context \<Rightarrow> staged_upload \<Rightarrow> ('w, unit) browse_op" where
  "write_staged_content ctx staged =
     next_op (fs_call (v_open_write (bc_vfs ctx) (bc_root ctx) (su_staging_file staged))) (\<lambda>_.
     next_op (write_buffered ctx (su_staging_file staged) (su_size staged)) (\<lambda>written.
     next_op (write_loop ctx (su_staging_file staged) (su_size staged) written) (\<lambda>_.
     next_op (fs_call (v_sync (bc_vfs ctx) (su_staging_file staged))) (\<lambda>_.
     next_op (place_upload ctx staged) (\<lambda>_.
     next_op (fs_call (v_remove (bc_vfs ctx) (bc_root ctx) (su_staging_dir staged))) (\<lambda>_.
     send_ack ctx))))))"

definition remove_if_there :: "'w browse_context \<Rightarrow> rel_path \<Rightarrow> ('w, unit) browse_op" where
  "remove_if_there ctx p =
     next_op (fs_result (v_remove (bc_vfs ctx) (bc_root ctx) p)) (\<lambda>r.
     case r of
       Ok _ \<Rightarrow> done_op (Ok ())
     | Err e \<Rightarrow> if e = Vfs_NotFound then done_op (Ok ()) else done_op (Err (BrowseRefused (refusal_for e))))"

definition choose_target :: "'w browse_context \<Rightarrow> write_file \<Rightarrow> ('w, rel_path) browse_op" where
  "choose_target ctx req =
     (case wf_mode req of
        CreateNew \<Rightarrow>
          next_op (fs_result (v_stat (bc_vfs ctx) (bc_root ctx) (wf_path req))) (\<lambda>r.
          case r of
            Ok _ \<Rightarrow> done_op (Err (BrowseRefused AlreadyExists))
          | Err e \<Rightarrow> if e = Vfs_NotFound then done_op (Ok (wf_path req)) else done_op (Err (BrowseRefused (refusal_for e))))
      | Overwrite \<Rightarrow>
          next_op (fs_result (v_stat (bc_vfs ctx) (bc_root ctx) (wf_path req))) (\<lambda>r.
          case r of
            Ok meta \<Rightarrow> if md_kind meta = Kind_Directory then done_op (Err (BrowseRefused WrongKind)) else done_op (Ok (wf_path req))
          | Err e \<Rightarrow> if e = Vfs_NotFound then done_op (Ok (wf_path req)) else done_op (Err (BrowseRefused (refusal_for e))))
      | RenameIfExists \<Rightarrow> fs_call (u_free_name (bc_uploads ctx) (bc_root ctx) (wf_path req)))"

definition handle_write_file :: "'w browse_context \<Rightarrow> write_file \<Rightarrow> ('w, unit) browse_op" where
  "handle_write_file ctx req =
     next_op (choose_target ctx req) (\<lambda>target.
     next_op (fs_call (u_staging (bc_uploads ctx))) (\<lambda>(staging_dir, staging_file).
     next_op (fs_call (v_create_dir (bc_vfs ctx) (bc_root ctx) staging_dir)) (\<lambda>_ s.
     case write_staged_content ctx
         \<lparr>su_target_path = target, su_requested_path = wf_path req, su_mode = wf_mode req, su_staging_dir = staging_dir,
          su_staging_file = staging_file, su_size = wf_size req\<rparr> s of
       (s1, Ok _) \<Rightarrow> (s1, Ok ())
     | (s1, Err err) \<Rightarrow>
         next_op (remove_if_there ctx staging_file) (\<lambda>_.
         next_op (remove_if_there ctx staging_dir) (\<lambda>_.
         done_op (Err err))) s1)))"

section \<open>Directories, deletion and renaming\<close>

definition parent_is_dir :: "'w browse_context \<Rightarrow> rel_path \<Rightarrow> ('w, bool) browse_op" where
  "parent_is_dir ctx p =
     (case rfind SLASH (rel_path_value p) of
        None \<Rightarrow> done_op (Ok True)
      | Some idx \<Rightarrow>
          (let parent_str = take idx (rel_path_value p) in
           if parent_str = [] then done_op (Ok True)
           else case rel_path_new parent_str of
             Err _ \<Rightarrow> done_op (Err (BrowseRefused Failed))
           | Ok parent_path \<Rightarrow>
               next_op (fs_result (v_stat (bc_vfs ctx) (bc_root ctx) parent_path)) (\<lambda>r.
               case r of Ok meta \<Rightarrow> done_op (Ok (md_kind meta = Kind_Directory)) | Err _ \<Rightarrow> done_op (Ok False))))"

definition handle_mkdir :: "'w browse_context \<Rightarrow> mkdir \<Rightarrow> ('w, unit) browse_op" where
  "handle_mkdir ctx req =
     next_op (fs_result (v_stat (bc_vfs ctx) (bc_root ctx) (mk_path req))) (\<lambda>r.
     case r of
       Ok meta \<Rightarrow> if md_kind meta = Kind_Directory then send_ack ctx else done_op (Err (BrowseRefused AlreadyExists))
     | Err e \<Rightarrow>
         if e \<noteq> Vfs_NotFound then done_op (Err (BrowseRefused (refusal_for e)))
         else
           next_op (if mk_parents req then done_op (Ok True) else parent_is_dir ctx (mk_path req)) (\<lambda>is_dir.
           if \<not> is_dir then done_op (Err (BrowseRefused NotFound))
           else
             next_op (fs_call (v_create_dir (bc_vfs ctx) (bc_root ctx) (mk_path req))) (\<lambda>_. send_ack ctx)))"

text \<open>
  \<open>remove_dir_recursive\<close> with its call stack made a list: every error aborts the whole
  deletion, so what is left to do is a list of visits and removals, and of names that are no path.
\<close>

datatype removal = Visit_Dir rel_path | Remove_Path rel_path | Bad_Name

definition child_removal :: "rel_path \<Rightarrow> dir_entry \<Rightarrow> removal" where
  "child_removal path e =
     (let child_str = (if rel_path_value path = [] then de_name e else rel_path_value path @ [SLASH] @ de_name e) in
      case rel_path_new child_str of
        Err _ \<Rightarrow> Bad_Name
      | Ok child_rel \<Rightarrow> (case de_kind e of Kind_Directory \<Rightarrow> Visit_Dir child_rel | Kind_File \<Rightarrow> Remove_Path child_rel))"

partial_function (option) remove_all ::
    "'w vfs \<Rightarrow> root_id \<Rightarrow> removal list \<Rightarrow> 'w \<Rightarrow> ('w \<times> (unit, vfs_error) result) option" where
  "remove_all V root tasks w =
     (case tasks of
        [] \<Rightarrow> Some (w, Ok ())
      | Bad_Name # ts \<Rightarrow> Some (w, Err Vfs_OutsideRoot)
      | Remove_Path p # ts \<Rightarrow>
          (case v_remove V root p w of
             (w1, Err e) \<Rightarrow> Some (w1, Err e)
           | (w1, Ok _) \<Rightarrow> remove_all V root ts w1)
      | Visit_Dir p # ts \<Rightarrow>
          (case v_list V root p w of
             (w1, Err e) \<Rightarrow> Some (w1, Err e)
           | (w1, Ok entries) \<Rightarrow> remove_all V root (map (child_removal p) entries @ Remove_Path p # ts) w1))"

definition remove_dir_recursive :: "'w vfs \<Rightarrow> root_id \<Rightarrow> rel_path \<Rightarrow> 'w \<Rightarrow> ('w \<times> (unit, vfs_error) result) option" where
  "remove_dir_recursive V root path w = remove_all V root [Visit_Dir path] w"

definition delete_entry :: "'w browse_context \<Rightarrow> delete_request \<Rightarrow> metadata \<Rightarrow> 'w browse_state \<Rightarrow> ('w browse_state \<times> (unit, browse_failure) result) option" where
  "delete_entry ctx req meta s =
     (case md_kind meta of
        Kind_File \<Rightarrow> Some (fs_call (v_remove (bc_vfs ctx) (bc_root ctx) (dr_path req)) s)
      | Kind_Directory \<Rightarrow>
          (case fs_call (v_list (bc_vfs ctx) (bc_root ctx) (dr_path req)) s of
             (s1, Err e) \<Rightarrow> Some (s1, Err e)
           | (s1, Ok entries) \<Rightarrow>
               if entries = [] then Some (fs_call (v_remove (bc_vfs ctx) (bc_root ctx) (dr_path req)) s1)
               else if dr_recursive req then
                 (case remove_dir_recursive (bc_vfs ctx) (bc_root ctx) (dr_path req) (bs_fs s1) of
                    None \<Rightarrow> None
                  | Some (w, r) \<Rightarrow> Some (s1\<lparr>bs_fs := w\<rparr>, map_err (\<lambda>e. BrowseRefused (refusal_for e)) r))
               else Some (s1, Err (BrowseRefused WrongKind))))"

definition handle_delete :: "'w browse_context \<Rightarrow> delete_request \<Rightarrow> 'w browse_state \<Rightarrow> ('w browse_state \<times> (unit, browse_failure) result) option" where
  "handle_delete ctx req s =
     (case fs_call (v_stat (bc_vfs ctx) (bc_root ctx) (dr_path req)) s of
        (s1, Err e) \<Rightarrow> Some (s1, Err e)
      | (s1, Ok meta) \<Rightarrow>
          (case delete_entry ctx req meta s1 of
             None \<Rightarrow> None
           | Some (s2, Err e) \<Rightarrow> Some (s2, Err e)
           | Some (s2, Ok _) \<Rightarrow> Some (send_ack ctx s2)))"

definition handle_rename :: "'w browse_context \<Rightarrow> rename_request \<Rightarrow> ('w, unit) browse_op" where
  "handle_rename ctx req =
     (let from_str = rel_path_value (rn_from req); to_str = rel_path_value (rn_to req) in
      if to_str = from_str \<or> prefix (from_str @ [SLASH]) to_str then done_op (Err (BrowseRefused NotAllowed))
      else
        next_op (fs_result (v_stat (bc_vfs ctx) (bc_root ctx) (rn_to req))) (\<lambda>r.
        case r of
          Ok _ \<Rightarrow> done_op (Err (BrowseRefused AlreadyExists))
        | Err e \<Rightarrow>
            if e \<noteq> Vfs_NotFound then done_op (Err (BrowseRefused (refusal_for e)))
            else
              next_op (fs_call (v_rename_no_replace (bc_vfs ctx) (bc_root ctx) (rn_from req) (rn_to req))) (\<lambda>_.
              send_ack ctx)))"

section \<open>The stream\<close>

fun handle_message :: "'w browse_context \<Rightarrow> browse_message \<Rightarrow> 'w browse_state \<Rightarrow> ('w browse_state \<times> (unit, browse_failure) result) option" where
  "handle_message ctx (BM_ListDir req) s = Some (handle_list_dir ctx req s)"
| "handle_message ctx (BM_Stat req) s = Some (handle_stat ctx req s)"
| "handle_message ctx (BM_ReadFile req) s = Some (handle_read_file ctx req s)"
| "handle_message ctx (BM_WriteFile req) s = Some (handle_write_file ctx req s)"
| "handle_message ctx (BM_Mkdir req) s = Some (handle_mkdir ctx req s)"
| "handle_message ctx (BM_Delete req) s = handle_delete ctx req s"
| "handle_message ctx (BM_Rename req) s = Some (handle_rename ctx req s)"
| "handle_message ctx _ s = Some (s, Err (BrowseRefused Failed))"

text \<open>What the stream does with a failed request: a refusal is answered and ends the stream.\<close>

definition answer_failure :: "'w browse_context \<Rightarrow> browse_failure \<Rightarrow> 'w browse_state \<Rightarrow> 'w browse_state \<times> (unit, browse_failure) result" where
  "answer_failure ctx failure =
     (case failure of
        BrowseRefused reason \<Rightarrow>
          next_op (send_message ctx (BM_Refused \<lparr>ref_request_id = [], ref_reason = reason\<rparr>)) (\<lambda>_. out_finish)
      | BrowseStream e \<Rightarrow> done_op (Err (BrowseStream e)))"

text \<open>
  The two loops are one: with bytes in the buffer a frame is looked for, and when none is
  complete, or none are left, more are read. A full buffer makes the read return no bytes.
\<close>

definition read_more :: "'w browse_context \<Rightarrow> ('w, bool) browse_op" where
  "read_more ctx s =
     (case in_read (unat (bc_max_frame_size ctx) * 2 - length (bs_buf s)) s of
        (s1, Err e) \<Rightarrow> (s1, Err e)
      | (s1, Ok bytes) \<Rightarrow> (s1\<lparr>bs_buf := bs_buf s1 @ bytes\<rparr>, Ok (bytes \<noteq> [])))"

partial_function (option) browse_loop ::
    "'w browse_context \<Rightarrow> bool \<Rightarrow> 'w browse_state \<Rightarrow> ('w browse_state \<times> (unit, browse_failure) result) option" where
  "browse_loop ctx reading s =
     (if reading \<or> bs_buf s = [] then
        (case read_more ctx s of
           (s1, Err e) \<Rightarrow> Some (s1, Err e)
         | (s1, Ok got) \<Rightarrow> if got then browse_loop ctx False s1 else Some (s1, Ok ()))
      else
        (case codec_decode_frame (bc_prost ctx) (bc_codec_max ctx) (bs_buf s) of
           Err _ \<Rightarrow> Some (s, Err (BrowseStream Te_Closed))
         | Ok None \<Rightarrow> browse_loop ctx True s
         | Ok (Some (msg, consumed)) \<Rightarrow>
             (case handle_message ctx msg (s\<lparr>bs_buf := drop consumed (bs_buf s)\<rparr>) of
                None \<Rightarrow> None
              | Some (s1, Ok _) \<Rightarrow> browse_loop ctx False s1
              | Some (s1, Err failure) \<Rightarrow> Some (answer_failure ctx failure s1))))"

definition handle_browse_stream :: "'w browse_context \<Rightarrow> 'w browse_state \<Rightarrow> ('w browse_state \<times> (unit, browse_failure) result) option" where
  "handle_browse_stream ctx s = browse_loop ctx True (s\<lparr>bs_buf := []\<rparr>)"

section \<open>Staging paths of uploads\<close>

text \<open>\<open>generate_transfer_id\<close>: a version 7 identifier from the clock and ten random bytes.\<close>

definition generate_transfer_id :: "(u8 list, unit) result \<Rightarrow> unix_time \<Rightarrow> (transfer_id, unit) result" where
  "generate_transfer_id draw now =
     (let secs = sint (as_secs now) in
      if secs < 0 then Err ()
      else if secs * 1000 \<ge> 2 ^ 64 then Err ()
      else case draw of
        Err _ \<Rightarrow> Err ()
      | Ok r \<Rightarrow>
          map_err (\<lambda>_. ()) (transfer_id_from_str (uuid_display
            (drop 2 (u64_to_be_bytes (of_int (secs * 1000)))
             @ [0x70 OR (r ! 0 AND 0x0F), r ! 1, 0x80 OR (r ! 2 AND 0x3F)] @ take 7 (drop 3 r)))))"

text \<open>
  \<open>PartialUploadPaths::staging\<close>; the paths are unwrapped by the functions of \<open>Deny_List\<close>.
\<close>

definition partial_staging :: "(u8 list, unit) result \<Rightarrow> unix_time \<Rightarrow> (rel_path \<times> rel_path, vfs_error) result" where
  "partial_staging draw now =
     (case generate_transfer_id draw now of
        Err _ \<Rightarrow> Err (Vfs_Io (Io_Kind 0))
      | Ok transfer_id \<Rightarrow>
          (case item_id_new (lit ''upload'') of
             Err _ \<Rightarrow> Err (Vfs_Io Io_InvalidInput)
           | Ok item_id \<Rightarrow>
               (case (partial_dir_rel_path transfer_id, partial_file_rel_path transfer_id item_id) of
                  (Some dir, Some file) \<Rightarrow> Ok (dir, file)
                | _ \<Rightarrow> Err Vfs_Panic)))"

end
