(* ===== verification/Browse_Share.thy ===== *)
theory Browse_Share
  imports Browse_Handler
begin

text \<open>
  What the serving side of the browse plane does to a share. The pages of a listing add up to the
  listing. The locale \<open>share\<close> states what the documentation of the \<open>Vfs\<close> trait promises;
  inside it, the outcome of an upload, a download and a deletion is derived for every implementation
  that keeps the contract.
\<close>

section \<open>Pages of a listing\<close>

lemma position_key:
  assumes "distinct (map f xs)" and "k < length xs"
  shows "position (\<lambda>x. f x = f (xs ! k)) xs = Some k"
proof (cases "position (\<lambda>x. f x = f (xs ! k)) xs")
  case None
  then have "\<forall>x \<in> set xs. f x \<noteq> f (xs ! k)" by (simp add: position_None)
  then show ?thesis using assms(2) nth_mem by metis
next
  case (Some i)
  then have "i < length xs" and "f (xs ! i) = f (xs ! k)" using position_Some by fastforce+
  then have "i = k" using assms by (metis distinct_conv_nth length_map nth_map)
  then show ?thesis using Some by simp
qed

abbreviation (input) by_name :: "dir_entry list \<Rightarrow> dir_entry list" where
  "by_name entries \<equiv> sort_key (\<lambda>e. str_bytes (de_name e)) entries"

text \<open>What a reader gets that follows the cursors from the first page to the last.\<close>

fun all_pages :: "nat \<Rightarrow> dir_entry list \<Rightarrow> u32 \<Rightarrow> rstr \<Rightarrow> dir_entry list option" where
  "all_pages 0 entries limit cursor = None"
| "all_pages (Suc n) entries limit cursor =
     (let page = list_page entries cursor limit in
      if dl_next_cursor page = [] then Some (dl_entries page)
      else map_option (append (dl_entries page)) (all_pages n entries limit (dl_next_cursor page)))"

definition cursor_at :: "dir_entry list \<Rightarrow> nat \<Rightarrow> rstr" where
  "cursor_at ordered k = (if k = 0 then [] else de_name (ordered ! (k - 1)))"

lemma page_start_at:
  assumes "distinct (map de_name ordered)" and "\<forall>e \<in> set ordered. de_name e \<noteq> []" and "k \<le> length ordered"
  shows "page_start ordered (cursor_at ordered k) = k"
proof (cases k)
  case (Suc j)
  then have "j < length ordered" using assms(3) by simp
  then show ?thesis using assms(2) position_key [OF assms(1)] Suc by (simp add: page_start_def cursor_at_def)
qed (simp add: page_start_def cursor_at_def)

lemma list_page_at:
  fixes limit :: u32
  assumes "distinct (map de_name entries)" and "\<forall>e \<in> set entries. de_name e \<noteq> []" and "k \<le> length entries"
  defines "step \<equiv> if limit = 0 then 500 else unat limit"
  shows "dl_entries (list_page entries (cursor_at (by_name entries) k) limit) = take step (drop k (by_name entries))"
    and "dl_next_cursor (list_page entries (cursor_at (by_name entries) k) limit)
       = (if k + step < length entries then cursor_at (by_name entries) (k + step) else [])"
proof -
  let ?o = "by_name entries"
  have start: "page_start ?o (cursor_at ?o k) = k"
  proof (rule page_start_at)
    show "distinct (map de_name ?o)" using assms(1) by (simp add: distinct_map)
  qed (use assms in auto)
  have pos: "0 < step" by (simp add: step_def unat_gt_0)
  have cut: "take (min (k + step) (length entries) - k) (drop k ?o) = take step (drop k ?o)"
    by (simp add: min_def)
  have last: "last (take step (drop k ?o)) = ?o ! (k + step - 1)" if "k + step < length entries"
    using that pos by (simp add: last_conv_nth)
  have at: "cursor_at ?o (k + step) = de_name (?o ! (k + step - 1))" using pos by (simp add: cursor_at_def)
  show "dl_entries (list_page entries (cursor_at ?o k) limit) = take step (drop k ?o)"
    using cut by (simp add: list_page_def start Let_def flip: step_def)
  show "dl_next_cursor (list_page entries (cursor_at ?o k) limit)
      = (if k + step < length entries then cursor_at ?o (k + step) else [])"
    using cut last at pos by (auto simp: list_page_def start Let_def simp flip: step_def)
qed

lemma all_pages_from:
  assumes "distinct (map de_name entries)" and "\<forall>e \<in> set entries. de_name e \<noteq> []"
    and "k \<le> length entries" and "length entries - k < n"
  shows "all_pages n entries limit (cursor_at (by_name entries) k) = Some (drop k (by_name entries))"
  using assms(3,4)
proof (induction n arbitrary: k)
  case (Suc n)
  define step where "step = (if limit = 0 then 500 else unat limit)"
  have pos: "0 < step" by (simp add: step_def unat_gt_0)
  note page = list_page_at [OF assms(1,2) Suc.prems(1), of limit, folded step_def]
  show ?case
  proof (cases "k + step < length entries")
    case True
    then have "by_name entries ! (k + step - 1) \<in> set (by_name entries)" by (intro nth_mem) simp
    then have "cursor_at (by_name entries) (k + step) \<noteq> []" using assms(2) pos by (auto simp: cursor_at_def)
    moreover have "all_pages n entries limit (cursor_at (by_name entries) (k + step)) = Some (drop (k + step) (by_name entries))"
      using Suc.IH [of "k + step"] Suc.prems True pos by simp
    moreover have "take step (drop k (by_name entries)) @ drop (k + step) (by_name entries) = drop k (by_name entries)"
      by (metis append_take_drop_id drop_drop add.commute)
    ultimately show ?thesis using True by (simp add: page Let_def)
  qed (simp add: page Let_def)
qed simp

text \<open>
  Property C20. Paging loses nothing and repeats nothing. A reader that starts without a cursor and
  follows \<open>next_cursor\<close> until it is empty, over a directory that does not change meanwhile,
  gets every entry exactly once, in the order of the names, after at most one page more than there
  are entries, whatever limit it asks for, the default included.
\<close>

theorem listing_complete:
  assumes "distinct (map de_name entries)" and "\<forall>e \<in> set entries. de_name e \<noteq> []" and "length entries < n"
  shows "all_pages n entries limit [] = Some (sort_key (\<lambda>e. str_bytes (de_name e)) entries)"
  using all_pages_from [OF assms(1,2), of 0 n limit] assms(3) by (simp add: cursor_at_def)

definition sample_entries :: "dir_entry list" where
  "sample_entries = map (\<lambda>c. \<lparr>de_name = [c], de_kind = Kind_File, de_size_bytes = 0, de_modified = UnixTime 0\<rparr>) [98, 97, 99]"

theorem listing_complete_witness:
  "all_pages 4 sample_entries 2 [] = Some (sort_key (\<lambda>e. str_bytes (de_name e)) sample_entries)"
  by (rule listing_complete) (simp_all add: sample_entries_def)

section \<open>The contract of a share\<close>

text \<open>
  What the documentation of the \<open>Vfs\<close> trait promises, over the bytes of the files of one
  root. Asking changes nothing; opening for writing creates and never truncates; a write touches
  its own file only, also when it fails; a rename that fails does nothing and \<open>rename_no_replace\<close>
  spares what exists; removing touches only what it names.
\<close>

locale share =
  fixes ctx :: "'w browse_context" and files :: "'w \<Rightarrow> rel_path \<rightharpoonup> u8 list"
  assumes list_keeps: "v_list (bc_vfs ctx) (bc_root ctx) p w = (w', r1) \<Longrightarrow> files w' = files w"
    and stat_keeps: "v_stat (bc_vfs ctx) (bc_root ctx) p w = (w', r2) \<Longrightarrow> files w' = files w"
    and stat_size: "v_stat (bc_vfs ctx) (bc_root ctx) p w = (w', Ok meta) \<Longrightarrow> md_kind meta = Kind_File
        \<Longrightarrow> \<exists>f. files w p = Some f \<and> length f = unat (md_size_bytes meta)"
    and open_read_keeps: "v_open_read (bc_vfs ctx) (bc_root ctx) p w = (w', r3) \<Longrightarrow> files w' = files w"
    and read_keeps: "v_read_at (bc_vfs ctx) p off n w = (w', r4) \<Longrightarrow> files w' = files w"
    and read_prefix: "v_read_at (bc_vfs ctx) p off n w = (w', Ok bytes) \<Longrightarrow> files w p = Some f
        \<Longrightarrow> prefix bytes (take n (drop (unat off) f)) \<and> (bytes = [] \<longrightarrow> take n (drop (unat off) f) = [])"
    and create_dir_keeps: "v_create_dir (bc_vfs ctx) (bc_root ctx) p w = (w', r3) \<Longrightarrow> files w' = files w"
    and open_write_creates: "v_open_write (bc_vfs ctx) (bc_root ctx) p w = (w', Ok ())
        \<Longrightarrow> files w' = (files w)(p := Some (case files w p of None \<Rightarrow> [] | Some f \<Rightarrow> f))"
    and open_write_fails: "v_open_write (bc_vfs ctx) (bc_root ctx) p w = (w', Err e) \<Longrightarrow> files w' = files w"
    and write_frame: "v_write_at (bc_vfs ctx) p off bytes w = (w', r3) \<Longrightarrow> q \<noteq> p \<Longrightarrow> files w' q = files w q"
    and write_patches: "v_write_at (bc_vfs ctx) p off bytes w = (w', Ok ()) \<Longrightarrow> files w p = Some f
        \<Longrightarrow> files w' p = Some (patch (unat off) bytes f)"
    and sync_keeps: "v_sync (bc_vfs ctx) p w = (w', r3) \<Longrightarrow> files w' = files w"
    and rename_moves: "v_rename (bc_vfs ctx) (bc_root ctx) p q w = (w', Ok ()) \<Longrightarrow> files w p = Some f
        \<Longrightarrow> files w' = (files w)(p := None, q := Some f)"
    and rename_fails: "v_rename (bc_vfs ctx) (bc_root ctx) p q w = (w', Err e) \<Longrightarrow> files w' = files w"
    and rename_no_replace_moves: "v_rename_no_replace (bc_vfs ctx) (bc_root ctx) p q w = (w', Ok ()) \<Longrightarrow> files w p = Some f
        \<Longrightarrow> files w q = None \<and> files w' = (files w)(p := None, q := Some f)"
    and rename_no_replace_fails: "v_rename_no_replace (bc_vfs ctx) (bc_root ctx) p q w = (w', Err e) \<Longrightarrow> files w' = files w"
    and remove_frame: "v_remove (bc_vfs ctx) (bc_root ctx) p w = (w', r3) \<Longrightarrow> q \<noteq> p \<Longrightarrow> files w' q = files w q"
    and staging_keeps: "u_staging (bc_uploads ctx) w = (w', r5) \<Longrightarrow> files w' = files w"
    and free_name_keeps: "u_free_name (bc_uploads ctx) (bc_root ctx) p w = (w', r6) \<Longrightarrow> files w' = files w"
begin

lemmas fs_keeps = list_keeps stat_keeps open_read_keeps read_keeps create_dir_keeps sync_keeps staging_keeps free_name_keeps
  open_write_fails rename_fails rename_no_replace_fails

end

section \<open>Steps that leave the stream alone\<close>

lemma next_op_Ok:
  assumes "next_op op f s = (s', Ok y)"
  obtains s1 x where "op s = (s1, Ok x)" and "f x s1 = (s', Ok y)"
  using assms by (auto simp: next_op_def split: prod.splits result.splits)

lemma next_op_cases:
  assumes "next_op op f s = (s', r)"
  obtains (fails) e where "op s = (s', Err e)" and "r = Err e"
    | (goes) s1 x where "op s = (s1, Ok x)" and "f x s1 = (s', r)"
  using assms by (auto simp: next_op_def split: prod.splits result.splits)

lemma fs_call_cases:
  assumes "fs_call op s = (s', r)"
  obtains (fails) w e where "op (bs_fs s) = (w, Err e)" and "s' = s\<lparr>bs_fs := w\<rparr>" and "r = Err (BrowseRefused (refusal_for e))"
    | (goes) w x where "op (bs_fs s) = (w, Ok x)" and "s' = s\<lparr>bs_fs := w\<rparr>" and "r = Ok x"
proof -
  obtain w r0 where "op (bs_fs s) = (w, r0)" by fastforce
  then show ?thesis using assms that by (cases r0) (auto simp: fs_call_def)
qed

lemma fs_result_cases:
  assumes "fs_result op s = (s', r)"
  obtains w r0 where "op (bs_fs s) = (w, r0)" and "s' = s\<lparr>bs_fs := w\<rparr>" and "r = Ok r0"
  using assms by (auto simp: fs_result_def split: prod.splits)

lemma in_read_incoming:
  assumes "in_read n s = (s', Ok bytes)" and "bytes \<noteq> []"
  shows "incoming (bs_in s) = bytes @ incoming (bs_in s')" and "bs_fs s' = bs_fs s" and "bs_buf s' = bs_buf s"
  using assms recv_read_incoming by (fastforce simp: in_read_def split: prod.splits)+

lemma in_read_keeps: "in_read n s = (s', r) \<Longrightarrow> bs_fs s' = bs_fs s"
  by (auto simp: in_read_def split: prod.splits)

lemma out_keeps:
  "out_write_all bytes s = (s', r) \<Longrightarrow> bs_fs s' = bs_fs s \<and> bs_buf s' = bs_buf s \<and> bs_in s' = bs_in s"
  "out_finish s = (s', r) \<Longrightarrow> bs_fs s' = bs_fs s \<and> bs_buf s' = bs_buf s \<and> bs_in s' = bs_in s"
  by (auto simp: out_write_all_def out_finish_def out_op_def split: list.splits option.splits)

lemma send_message_keeps:
  "send_message ctx msg s = (s', r) \<Longrightarrow> bs_fs s' = bs_fs s \<and> bs_buf s' = bs_buf s \<and> bs_in s' = bs_in s"
  by (auto simp: send_message_def done_op_def elim!: next_op_cases dest: out_keeps)

lemma patch_append: "length f = n \<Longrightarrow> patch n bytes f = f @ bytes"
  by (auto simp: patch_def)

definition unchanged_but :: "rel_path set \<Rightarrow> (rel_path \<rightharpoonup> u8 list) \<Rightarrow> (rel_path \<rightharpoonup> u8 list) \<Rightarrow> bool" where
  "unchanged_but S f g \<longleftrightarrow> (\<forall>q. q \<notin> S \<longrightarrow> g q = f q)"

lemma unchanged_but_refl [simp]: "unchanged_but S f f"
  by (simp add: unchanged_but_def)

lemma unchanged_but_trans:
  "unchanged_but S f g \<Longrightarrow> unchanged_but S g h \<Longrightarrow> unchanged_but S f h"
  by (simp add: unchanged_but_def)

context share
begin

lemma write_loop_upload:
  assumes "write_loop ctx p full written s = (s', r)" and "files (bs_fs s) p = Some c"
    and "length c = unat written" and "written \<le> full"
  shows "unchanged_but {p} (files (bs_fs s)) (files (bs_fs s')) \<and> bs_buf s' = bs_buf s \<and>
    (r = Ok () \<longrightarrow> (\<exists>d. files (bs_fs s') p = Some (c @ d) \<and> length d = unat (full - written) \<and>
       incoming (bs_in s) = d @ incoming (bs_in s')))"
  using assms
proof (induction "unat (full - written)" arbitrary: written s c rule: less_induct)
  case less
  show ?case
  proof (cases "written < full")
    case False
    then have "full = written" using less.prems(4) by simp
    then show ?thesis using less.prems False by (auto simp: write_loop.simps)
  next
    case True
    define needed where "needed = min (unat (full - written)) READ_CHUNK"
    obtain s1 rd where rd: "in_read needed s = (s1, rd)" by fastforce
    show ?thesis
    proof (cases "\<exists>bytes. rd = Ok bytes \<and> bytes \<noteq> []")
      case False
      then have "bs_fs s' = bs_fs s" and "bs_buf s' = bs_buf s" and "r \<noteq> Ok ()"
        using less.prems(1) True rd in_read_keeps [OF rd]
        by (auto simp: write_loop.simps Let_def needed_def in_read_def split: result.splits prod.splits if_splits)
      then show ?thesis by simp
    next
      case got: True
      then obtain bytes where bytes: "in_read needed s = (s1, Ok bytes)" "bytes \<noteq> []" using rd by auto
      have len: "length bytes \<le> unat (full - written)" using in_read_length [OF bytes(1)] by (simp add: needed_def)
      obtain w wr where w: "v_write_at (bc_vfs ctx) p written bytes (bs_fs s1) = (w, wr)" by fastforce
      note in_read = in_read_incoming [OF bytes]
      have frame: "unchanged_but {p} (files (bs_fs s)) (files w)"
        using write_frame [OF w] in_read by (simp add: unchanged_but_def)
      show ?thesis
      proof (cases wr)
        case (Err e)
        then have "s' = s1\<lparr>bs_fs := w\<rparr>" and "r \<noteq> Ok ()"
          using less.prems(1) True bytes w by (auto simp: write_loop.simps [of ctx p full written s] Let_def needed_def fs_call_def)
        then show ?thesis using frame in_read by simp
      next
        case (Ok u)
        let ?next = "written + of_nat (length bytes)"
        have go: "write_loop ctx p full ?next (s1\<lparr>bs_fs := w\<rparr>) = (s', r)"
          using less.prems(1) True bytes w Ok by (simp add: write_loop.simps [of ctx p full written s] Let_def needed_def fs_call_def)
        note adv = written_advances [OF True len]
        have shorter: "unat (full - ?next) < unat (full - written)"
          using adv(2) len bytes(2) by (cases bytes) auto
        have c: "files w p = Some (c @ bytes)"
          using write_patches [of p written bytes "bs_fs s1" w c] w Ok less.prems(2,3) in_read by (simp add: patch_append)
        have "unchanged_but {p} (files w) (files (bs_fs s')) \<and> bs_buf s' = bs_buf s1 \<and>
            (r = Ok () \<longrightarrow> (\<exists>d. files (bs_fs s') p = Some ((c @ bytes) @ d) \<and> length d = unat (full - ?next) \<and>
               incoming (bs_in s1) = d @ incoming (bs_in s')))"
          using less.hyps [OF shorter go, of "c @ bytes"] c less.prems(3) adv(1,3) by simp
        then show ?thesis using frame in_read adv(2) len by (auto intro: unchanged_but_trans)
      qed
    qed
  qed
qed

lemma write_buffered_upload:
  assumes "write_buffered ctx p full s = (s', r)" and "files (bs_fs s) p = Some []"
  defines "k \<equiv> min (length (bs_buf s)) (unat full)"
  shows "unchanged_but {p} (files (bs_fs s)) (files (bs_fs s')) \<and>
    (\<forall>n. r = Ok n \<longrightarrow> unat n = k \<and> files (bs_fs s') p = Some (take k (bs_buf s)) \<and> bs_buf s' = drop k (bs_buf s) \<and> bs_in s' = bs_in s)"
proof (cases "k = 0")
  case True
  then have "s' = s" and "r = Ok 0" using assms(1) by (auto simp: write_buffered_def k_def)
  then show ?thesis using assms(2) True by auto
next
  case False
  obtain w wr where w: "v_write_at (bc_vfs ctx) p 0 (take k (bs_buf s)) (bs_fs s) = (w, wr)" by fastforce
  have k: "unat (of_nat k :: u64) = k" by (rule le_unat_uoi [of _ full]) (simp add: k_def)
  have frame: "unchanged_but {p} (files (bs_fs s)) (files w)" using write_frame [OF w] by (simp add: unchanged_but_def)
  have c: "files w p = Some (take k (bs_buf s))" if "wr = Ok u" for u
    using write_patches [of p 0 "take k (bs_buf s)" "bs_fs s" w "[]"] w that assms(2) by (simp add: patch_def)
  have unfold: "write_buffered ctx p full s
      = (case wr of Err e \<Rightarrow> (s\<lparr>bs_fs := w\<rparr>, Err (BrowseRefused (refusal_for e)))
         | Ok _ \<Rightarrow> (s\<lparr>bs_fs := w, bs_buf := drop k (bs_buf s)\<rparr>, Ok (of_nat k)))"
    unfolding write_buffered_def Let_def k_def [symmetric] using False w by (simp add: next_op_def fs_call_def split: result.splits)
  show ?thesis using assms(1) unfold frame c k by (cases wr) auto
qed

lemma place_free_upload:
  assumes "place_free ctx p requested target attempts s = (s', r)" and "files (bs_fs s) p = Some f"
  shows "bs_buf s' = bs_buf s \<and> bs_in s' = bs_in s \<and>
    (if r = Ok () then \<exists>t. files (bs_fs s) t = None \<and> files (bs_fs s') = (files (bs_fs s))(p := None, t := Some f)
     else files (bs_fs s') = files (bs_fs s))"
  using assms
proof (induction attempts arbitrary: target s)
  case 0
  obtain w wr where w: "v_rename_no_replace (bc_vfs ctx) (bc_root ctx) p target (bs_fs s) = (w, wr)" by fastforce
  then show ?case using 0 rename_no_replace_moves [of p target "bs_fs s" w f] rename_no_replace_fails [of p target "bs_fs s" w]
    by (cases wr) (auto simp: fs_result_def)
next
  case (Suc attempts)
  obtain w wr where w: "v_rename_no_replace (bc_vfs ctx) (bc_root ctx) p target (bs_fs s) = (w, wr)" by fastforce
  show ?case
  proof (cases "wr = Err Vfs_AlreadyExists")
    case True
    then have same: "files w = files (bs_fs s)" using w rename_no_replace_fails by auto
    obtain w2 r2 where w2: "u_free_name (bc_uploads ctx) (bc_root ctx) requested w = (w2, r2)" by fastforce
    have same2: "files w2 = files (bs_fs s)" using free_name_keeps [OF w2] same by simp
    show ?thesis
    proof (cases r2)
      case (Ok t)
      then have "place_free ctx p requested t attempts (s\<lparr>bs_fs := w2\<rparr>) = (s', r)"
        using Suc.prems(1) w w2 True by (simp add: fs_result_def fs_call_def)
      from Suc.IH [OF this] show ?thesis using Suc.prems(2) same2 by (auto split: if_splits)
    qed (use Suc.prems(1) w w2 True same2 in \<open>auto simp: fs_result_def fs_call_def\<close>)
  next
    case False
    then show ?thesis using Suc.prems w rename_no_replace_moves [of p target "bs_fs s" w f] rename_no_replace_fails [of p target "bs_fs s" w]
      by (cases wr) (auto simp: fs_result_def)
  qed
qed

lemma place_upload_places:
  assumes "place_upload ctx staged s = (s', r)" and "files (bs_fs s) (su_staging_file staged) = Some f"
  shows "bs_buf s' = bs_buf s \<and> bs_in s' = bs_in s \<and>
    (if r = Ok () then
       \<exists>t. (su_mode staged \<noteq> Overwrite \<longrightarrow> files (bs_fs s) t = None) \<and> (su_mode staged \<noteq> RenameIfExists \<longrightarrow> t = su_target_path staged) \<and>
         files (bs_fs s') = (files (bs_fs s))(su_staging_file staged := None, t := Some f)
     else files (bs_fs s') = files (bs_fs s))"
proof (cases "su_mode staged")
  case RenameIfExists
  then show ?thesis using assms place_free_upload by (simp add: place_upload_def split: if_splits)
next
  case CreateNew
  then show ?thesis using assms
    by (auto simp: place_upload_def elim!: fs_call_cases dest: rename_no_replace_moves rename_no_replace_fails)
next
  case Overwrite
  then show ?thesis using assms
    by (auto simp: place_upload_def elim!: fs_call_cases dest: rename_moves rename_fails)
qed

lemma open_write_fresh:
  assumes "fs_call (v_open_write (bc_vfs ctx) (bc_root ctx) p) s = (s1, r)" and "files (bs_fs s) p = None"
  shows "bs_buf s1 = bs_buf s" and "bs_in s1 = bs_in s" and "unchanged_but {p} (files (bs_fs s)) (files (bs_fs s1))"
    and "r = Ok () \<Longrightarrow> files (bs_fs s1) p = Some []"
  using assms by (auto elim!: fs_call_cases dest!: open_write_creates dest: open_write_fails simp: unchanged_but_def)

lemma staged_bytes:
  assumes opened: "fs_call (v_open_write (bc_vfs ctx) (bc_root ctx) p) s = (s1, Ok ())" and fresh: "files (bs_fs s) p = None"
    and buffered: "write_buffered ctx p full s1 = (s2, Ok n)" and looped: "write_loop ctx p full n s2 = (s3, Ok ())"
  defines "content \<equiv> take (unat full) (bs_buf s @ incoming (bs_in s))"
  shows "files (bs_fs s3) p = Some content" and "length content = unat full"
    and "bs_buf s3 @ incoming (bs_in s3) = drop (unat full) (bs_buf s @ incoming (bs_in s))"
    and "unchanged_but {p} (files (bs_fs s)) (files (bs_fs s3))"
proof -
  note o = open_write_fresh [OF opened fresh]
  define k where "k = min (length (bs_buf s)) (unat full)"
  have b: "unchanged_but {p} (files (bs_fs s1)) (files (bs_fs s2))" "unat n = k" "bs_in s2 = bs_in s"
    "files (bs_fs s2) p = Some (take k (bs_buf s))" "bs_buf s2 = drop k (bs_buf s)"
    using write_buffered_upload [OF buffered] o by (auto simp: k_def)
  have n: "n \<le> full" using b(2) by (simp add: word_le_nat_alt k_def)
  have "unat (full - n) = unat full - k" using n b(2) by (simp add: unat_sub)
  then obtain d where d: "files (bs_fs s3) p = Some (take k (bs_buf s) @ d)" "length d = unat full - k"
      "incoming (bs_in s) = d @ incoming (bs_in s3)" "bs_buf s3 = drop k (bs_buf s)"
      "unchanged_but {p} (files (bs_fs s2)) (files (bs_fs s3))"
    using write_loop_upload [OF looped b(4)] b n by (auto simp: k_def)
  have content: "take k (bs_buf s) @ d = content" and rest: "drop k (bs_buf s) @ incoming (bs_in s3) = drop (unat full) (bs_buf s @ incoming (bs_in s))"
    using d(2,3) by (auto simp: content_def k_def min_def)
  show "files (bs_fs s3) p = Some content" using d(1) content by simp
  show "length content = unat full" using content d(2) by (auto simp: k_def)
  show "bs_buf s3 @ incoming (bs_in s3) = drop (unat full) (bs_buf s @ incoming (bs_in s))" using rest d(4) by simp
  show "unchanged_but {p} (files (bs_fs s)) (files (bs_fs s3))" using o(3) b(1) d(5) unchanged_but_trans by blast
qed

end

text \<open>The upload arrived: its bytes are at one path, which was free unless it was to be overwritten.\<close>

definition placed :: "write_mode \<Rightarrow> rel_path \<Rightarrow> rel_path set \<Rightarrow> u8 list \<Rightarrow> (rel_path \<rightharpoonup> u8 list) \<Rightarrow> (rel_path \<rightharpoonup> u8 list) \<Rightarrow> bool" where
  "placed mode wanted S content f g \<longleftrightarrow>
     (\<exists>t. (mode \<noteq> Overwrite \<longrightarrow> f t = None) \<and> (mode \<noteq> RenameIfExists \<longrightarrow> t = wanted) \<and> unchanged_but S (f(t := Some content)) g)"

lemma unchanged_but_mono: "unchanged_but S f g \<Longrightarrow> S \<subseteq> T \<Longrightarrow> unchanged_but T f g"
  by (auto simp: unchanged_but_def)

lemma placed_trans:
  "placed mode wanted S content f g \<Longrightarrow> unchanged_but S g h \<Longrightarrow> placed mode wanted S content f h"
  unfolding placed_def using unchanged_but_trans by blast

context share
begin

lemma place_upload_placed:
  assumes place: "place_upload ctx staged s3 = (s4, Ok ())" and content: "files (bs_fs s3) (su_staging_file staged) = Some content"
    and frame: "unchanged_but {su_staging_file staged} F (files (bs_fs s3))"
  shows "placed (su_mode staged) (su_target_path staged) {su_staging_dir staged, su_staging_file staged} content F (files (bs_fs s4))"
proof -
  let ?p = "su_staging_file staged"
  obtain t where t: "su_mode staged \<noteq> Overwrite \<longrightarrow> files (bs_fs s3) t = None" "su_mode staged \<noteq> RenameIfExists \<longrightarrow> t = su_target_path staged"
      "files (bs_fs s4) = (files (bs_fs s3))(?p := None, t := Some content)"
    using place_upload_places [OF place content] by auto
  have "F t = None" if "su_mode staged \<noteq> Overwrite"
    using t(1) that content frame by (cases "t = ?p") (auto simp: unchanged_but_def)
  moreover have "unchanged_but {su_staging_dir staged, ?p} (F(t := Some content)) (files (bs_fs s4))"
    using t(3) frame by (auto simp: unchanged_but_def)
  ultimately show ?thesis unfolding placed_def using t(2) by blast
qed

lemma fs_call_frame:
  assumes "fs_call (v_remove (bc_vfs ctx) (bc_root ctx) p) s = (s', r)" and "p \<in> S"
  shows "unchanged_but S (files (bs_fs s)) (files (bs_fs s'))" and "bs_buf s' = bs_buf s" and "bs_in s' = bs_in s"
  using assms by (auto elim!: fs_call_cases simp: unchanged_but_def) (metis remove_frame)+

lemma fill_cases:
  assumes run: "next_op (fs_call (v_open_write (bc_vfs ctx) (bc_root ctx) p)) (\<lambda>_.
      next_op (write_buffered ctx p full) (\<lambda>written.
      next_op (write_loop ctx p full written) (\<lambda>_.
      next_op (fs_call (v_sync (bc_vfs ctx) p)) (\<lambda>_. finish)))) s = (s', r)"
    and fresh: "files (bs_fs s) p = None"
  obtains (fails) "r \<noteq> Ok ()" and "unchanged_but {p} (files (bs_fs s)) (files (bs_fs s'))"
    | (goes) s4 where "finish s4 = (s', r)" and "files (bs_fs s4) p = Some (take (unat full) (bs_buf s @ incoming (bs_in s)))"
        and "length (take (unat full) (bs_buf s @ incoming (bs_in s))) = unat full"
        and "bs_buf s4 @ incoming (bs_in s4) = drop (unat full) (bs_buf s @ incoming (bs_in s))"
        and "unchanged_but {p} (files (bs_fs s)) (files (bs_fs s4))"
  using run
proof (cases rule: next_op_cases)
  case (fails e)
  then show ?thesis using open_write_fresh [OF _ fresh] that(1) by blast
next
  case opened: (goes s1 u)
  note o = open_write_fresh [OF opened(1) fresh]
  have o1: "files (bs_fs s1) p = Some []" using o(4) by simp
  from opened(2) show ?thesis
  proof (cases rule: next_op_cases)
    case (fails e)
    then show ?thesis using write_buffered_upload [OF _ o1] o(3) unchanged_but_trans that(1) by blast
  next
    case buffered: (goes s2 n)
    note b = write_buffered_upload [OF buffered(1) o1]
    from buffered(2) show ?thesis
    proof (cases rule: next_op_cases)
      case (fails e)
      have "n \<le> full" using b by (simp add: word_le_nat_alt)
      then have "unchanged_but {p} (files (bs_fs s2)) (files (bs_fs s'))"
        using write_loop_upload [OF fails(1), of "take (min (length (bs_buf s1)) (unat full)) (bs_buf s1)"] b by simp
      then show ?thesis using fails b o(3) unchanged_but_trans that(1) by blast
    next
      case looped: (goes s3 v)
      have "fs_call (v_open_write (bc_vfs ctx) (bc_root ctx) p) s = (s1, Ok ())" using opened(1) by simp
      note bytes = staged_bytes [OF this fresh buffered(1)] looped(1)
      from looped(2) show ?thesis
      proof (cases rule: next_op_cases)
        case (fails e)
        then have "files (bs_fs s') = files (bs_fs s3)" by (auto elim!: fs_call_cases dest: sync_keeps)
        then show ?thesis using fails bytes(4) looped(1) that(1) by auto
      next
        case (goes s4 x)
        then have "files (bs_fs s4) = files (bs_fs s3)" "bs_buf s4 = bs_buf s3" "bs_in s4 = bs_in s3"
          by (auto elim!: fs_call_cases dest: sync_keeps)
        then show ?thesis using goes(2) bytes(1-4) looped(1) that(2) [of s4] by auto
      qed
    qed
  qed
qed

lemma write_staged_outcome:
  assumes run: "write_staged_content ctx staged s = (s', r)" and fresh: "files (bs_fs s) (su_staging_file staged) = None"
  defines "F \<equiv> files (bs_fs s)" and "S \<equiv> {su_staging_dir staged, su_staging_file staged}"
    and "content \<equiv> take (unat (su_size staged)) (bs_buf s @ incoming (bs_in s))"
  shows "(r \<noteq> Ok () \<and> unchanged_but S F (files (bs_fs s'))) \<or>
      (length content = unat (su_size staged) \<and> placed (su_mode staged) (su_target_path staged) S content F (files (bs_fs s')) \<and>
       (r = Ok () \<longrightarrow> bs_buf s' @ incoming (bs_in s') = drop (unat (su_size staged)) (bs_buf s @ incoming (bs_in s))))"
  using run [unfolded write_staged_content_def] fresh
proof (cases rule: fill_cases)
  case fails
  then show ?thesis using unchanged_but_mono by (fastforce simp: F_def S_def)
next
  case filled: (goes s4)
  have frame: "unchanged_but {su_staging_file staged} F (files (bs_fs s4))" using filled(5) by (simp add: F_def)
  from filled(1) show ?thesis
  proof (cases rule: next_op_cases)
    case (fails e)
    then show ?thesis using place_upload_places [OF fails(1) filled(2)] frame unchanged_but_mono by (fastforce simp: S_def)
  next
    case (goes s5 x)
    have place: "place_upload ctx staged s4 = (s5, Ok ())" using goes(1) by simp
    have placed: "placed (su_mode staged) (su_target_path staged) S content F (files (bs_fs s5))"
      using place_upload_placed [OF place filled(2) frame] by (simp add: S_def content_def)
    have same: "bs_buf s5 = bs_buf s4" "bs_in s5 = bs_in s4" using place_upload_places [OF place filled(2)] by auto
    have "unchanged_but S (files (bs_fs s5)) (files (bs_fs s')) \<and> (r = Ok () \<longrightarrow> bs_buf s' = bs_buf s5 \<and> bs_in s' = bs_in s5)"
      using goes(2)
    proof (cases rule: next_op_cases)
      case (fails e)
      then show ?thesis using fs_call_frame(1) [OF fails(1), of S] by (simp add: S_def)
    next
      case removed: (goes s6 y)
      show ?thesis
        using fs_call_frame [OF removed(1), of S] send_message_keeps [OF removed(2) [unfolded send_ack_def]] by (simp add: S_def)
    qed
    then show ?thesis using placed_trans [OF placed] filled(3,4) same by (auto simp: content_def)
  qed
qed

lemma choose_target_keeps:
  assumes "choose_target ctx req s = (s', r)"
  shows "files (bs_fs s') = files (bs_fs s)" and "bs_buf s' = bs_buf s" and "bs_in s' = bs_in s"
    and "r = Ok target \<Longrightarrow> wf_mode req \<noteq> RenameIfExists \<Longrightarrow> target = wf_path req"
  using assms
  by (auto simp: choose_target_def done_op_def elim!: next_op_cases fs_call_cases fs_result_cases
      dest!: stat_keeps free_name_keeps split: write_mode.splits result.splits if_splits)

lemma remove_if_there_frame:
  assumes "remove_if_there ctx p s = (s', r)" and "p \<in> S"
  shows "unchanged_but S (files (bs_fs s)) (files (bs_fs s'))"
proof -
  obtain w r0 where w: "v_remove (bc_vfs ctx) (bc_root ctx) p (bs_fs s) = (w, r0)" by fastforce
  then have "bs_fs s' = w"
    using assms(1) by (auto simp: remove_if_there_def done_op_def next_op_def fs_result_def split: result.splits if_splits)
  then show ?thesis using remove_frame [OF w] assms(2) unfolding unchanged_but_def by metis
qed

lemma cleanup_frame:
  assumes "next_op (remove_if_there ctx p) (\<lambda>_. next_op (remove_if_there ctx d) (\<lambda>_. done_op (Err err))) s = (s', r)"
  shows "unchanged_but {d, p} (files (bs_fs s)) (files (bs_fs s'))" and "r \<noteq> Ok ()"
  using assms by (auto simp: done_op_def elim!: next_op_cases dest!: remove_if_there_frame [where S = "{d, p}"] intro: unchanged_but_trans)

end

text \<open>The staging paths the upload will use.\<close>

definition staging_of :: "'w browse_context \<Rightarrow> write_file \<Rightarrow> 'w browse_state \<Rightarrow> rel_path set" where
  "staging_of ctx req s =
     (case choose_target ctx req s of
        (s1, Ok _) \<Rightarrow> (case u_staging (bc_uploads ctx) (bs_fs s1) of (_, Ok (d, p)) \<Rightarrow> {d, p} | _ \<Rightarrow> {})
      | _ \<Rightarrow> {})"

context share
begin

lemma upload_outcome:
  assumes run: "handle_write_file ctx req s = (s', r)" and fresh: "\<forall>p \<in> staging_of ctx req s. files (bs_fs s) p = None"
  defines "F \<equiv> files (bs_fs s)" and "S \<equiv> staging_of ctx req s"
    and "content \<equiv> take (unat (wf_size req)) (bs_buf s @ incoming (bs_in s))"
  shows "(r \<noteq> Ok () \<and> unchanged_but S F (files (bs_fs s'))) \<or>
      (length content = unat (wf_size req) \<and> placed (wf_mode req) (wf_path req) S content F (files (bs_fs s')) \<and>
       (r = Ok () \<longrightarrow> bs_buf s' @ incoming (bs_in s') = drop (unat (wf_size req)) (bs_buf s @ incoming (bs_in s))))"
  using run unfolding handle_write_file_def
proof (cases rule: next_op_cases)
  case (fails e)
  then show ?thesis using choose_target_keeps [OF fails(1)] by (simp add: F_def)
next
  case chosen: (goes s1 target)
  note c = choose_target_keeps [OF chosen(1)]
  from chosen(2) show ?thesis
  proof (cases rule: next_op_cases)
    case (fails e)
    then have "files (bs_fs s') = files (bs_fs s1)" by (auto elim!: fs_call_cases dest: staging_keeps)
    then show ?thesis using fails c by (simp add: F_def)
  next
    case staged: (goes s2 dp)
    obtain d p where dp: "dp = (d, p)" by fastforce
    obtain w where u: "u_staging (bc_uploads ctx) (bs_fs s1) = (w, Ok (d, p))" and s2: "s2 = s1\<lparr>bs_fs := w\<rparr>"
      using staged(1) dp by (auto elim!: fs_call_cases)
    have S: "S = {d, p}" using chosen(1) u by (simp add: S_def staging_of_def)
    have f2: "files (bs_fs s2) = F" and in2: "bs_buf s2 = bs_buf s" "bs_in s2 = bs_in s"
      using staging_keeps [OF u] c s2 by (simp_all add: F_def)
    from staged(2) show ?thesis unfolding dp prod.case
    proof (cases rule: next_op_cases)
      case (fails e)
      then have "files (bs_fs s') = F" using f2 by (auto elim!: fs_call_cases dest: create_dir_keeps)
      then show ?thesis using fails by simp
    next
      case made: (goes s3 x)
      define staged_up where "staged_up = \<lparr>su_target_path = target, su_requested_path = wf_path req, su_mode = wf_mode req, su_staging_dir = d,
          su_staging_file = p, su_size = wf_size req\<rparr>"
      have f3: "files (bs_fs s3) = F" and in3: "bs_buf s3 = bs_buf s" "bs_in s3 = bs_in s"
        using made(1) f2 in2 by (auto elim!: fs_call_cases dest: create_dir_keeps)
      have free: "files (bs_fs s3) (su_staging_file staged_up) = None"
        using fresh f3 S by (simp add: S_def F_def staged_up_def)
      obtain s4 r4 where w: "write_staged_content ctx staged_up s3 = (s4, r4)" by fastforce
      have target: "placed (wf_mode req) target S content F g \<Longrightarrow> placed (wf_mode req) (wf_path req) S content F g" for g
        using c(4) by (auto simp: placed_def)
      note outcome = write_staged_outcome [OF w free]
      have sel: "su_mode staged_up = wf_mode req" "su_target_path staged_up = target" "su_size staged_up = wf_size req"
          "{su_staging_dir staged_up, su_staging_file staged_up} = S" by (simp_all add: staged_up_def S)
      have out: "(r4 \<noteq> Ok () \<and> unchanged_but S F (files (bs_fs s4))) \<or>
          (length content = unat (wf_size req) \<and> placed (wf_mode req) (wf_path req) S content F (files (bs_fs s4)) \<and>
           (r4 = Ok () \<longrightarrow> bs_buf s4 @ incoming (bs_in s4) = drop (unat (wf_size req)) (bs_buf s @ incoming (bs_in s))))"
        using outcome target unfolding sel f3 in3 content_def by blast
      show ?thesis
      proof (cases r4)
        case (Ok y)
        then show ?thesis using made(2) w out by (simp add: staged_up_def)
      next
        case (Err err)
        then have clean: "next_op (remove_if_there ctx p) (\<lambda>_. next_op (remove_if_there ctx d) (\<lambda>_. done_op (Err err))) s4 = (s', r)"
          using made(2) w by (simp add: staged_up_def)
        show ?thesis
          using cleanup_frame [OF clean] out unchanged_but_trans placed_trans unfolding S by blast
      qed
    qed
  qed
qed

lemma send_range_sends:
  assumes "send_range ctx p off remaining s = (s', Ok ())" and "files (bs_fs s) p = Some f" and "length f < 2 ^ 64"
  shows "files (bs_fs s') = files (bs_fs s) \<and> bs_out s' = bs_out s @ take (unat remaining) (drop (unat off) f)"
  using assms
proof (induction "unat remaining" arbitrary: off remaining s rule: less_induct)
  case less
  show ?case
  proof (cases "remaining = 0")
    case False
    define to_read where "to_read = min (unat remaining) READ_CHUNK"
    obtain w rd where rd: "v_read_at (bc_vfs ctx) p off to_read (bs_fs s) = (w, rd)" by fastforce
    have unfold: "send_range ctx p off remaining s =
        (case rd of
           Err _ \<Rightarrow> (s\<lparr>bs_fs := w\<rparr>, Err (BrowseStream (Te_Io (Io_Kind 0))))
         | Ok bytes \<Rightarrow>
             let n = min (length bytes) to_read in
             if n = 0 then (s\<lparr>bs_fs := w\<rparr>, Ok ())
             else (case out_write_all (take n bytes) (s\<lparr>bs_fs := w\<rparr>) of
                 (s', Err e) \<Rightarrow> (s', Err e)
               | (s', Ok _) \<Rightarrow> send_range ctx p (off + of_nat n) (remaining - of_nat n) s'))"
      using False rd by (subst send_range.simps) (simp add: to_read_def [symmetric] split: result.splits)
    then obtain bytes where bytes: "rd = Ok bytes" using less.prems(1) by (cases rd) auto
    have got: "prefix bytes (take to_read (drop (unat off) f))" "bytes = [] \<longrightarrow> take to_read (drop (unat off) f) = []"
      using read_prefix [of p off to_read "bs_fs s" w bytes f] rd bytes less.prems(2) by auto
    have keep: "files w = files (bs_fs s)" using rd by (rule read_keeps)
    have len: "length bytes \<le> to_read" "length bytes \<le> length f - unat off"
      using prefix_length_le [OF got(1)] by auto
    have bytes_take: "bytes = take (length bytes) (drop (unat off) f)"
      using got(1) len(1) by (metis min.absorb1 prefix_def append_eq_conv_conj take_take)
    have pos: "0 < to_read" using False by (simp add: to_read_def unat_gt_0)
    show ?thesis
    proof (cases "bytes = []")
      case True
      then have "drop (unat off) f = []" using got(2) pos by auto
      then show ?thesis using less.prems(1) unfold bytes True keep by auto
    next
      case False
      let ?n = "length bytes"
      obtain t where t: "out_write_all bytes (s\<lparr>bs_fs := w\<rparr>) = (t, Ok ())"
          and go: "send_range ctx p (off + of_nat ?n) (remaining - of_nat ?n) t = (s', Ok ())"
        using less.prems(1) unfold bytes False len(1)
        by (auto simp: min_absorb1 Let_def split: prod.splits result.splits)
      have fs: "bs_fs t = w" and out: "bs_out t = bs_out s @ bytes"
        using t by (auto simp: out_write_all_def out_op_def split: list.splits option.splits)
      have rem: "?n \<le> unat remaining" using len(1) by (simp add: to_read_def)
      have off: "unat (off + of_nat ?n) = unat off + ?n"
        using len(2) False less.prems(3) by (cases bytes) (auto simp: unat_word_ariths unat_of_nat)
      have n: "unat (of_nat ?n :: u64) = ?n" using rem by (rule le_unat_uoi)
      have left: "unat (remaining - of_nat ?n) = unat remaining - ?n" using rem n by (simp add: unat_sub word_le_nat_alt)
      have shorter: "unat (remaining - of_nat ?n) < unat remaining" using left rem False by (cases bytes) auto
      have sent: "bytes @ take (unat remaining - ?n) (drop (unat off + ?n) f) = take (unat remaining) (drop (unat off) f)"
        using bytes_take rem take_add [of ?n "unat remaining - ?n" "drop (unat off) f"] by (simp add: add.commute)
      show ?thesis
        using less.hyps [OF shorter go] less.prems(2,3) fs keep out off left sent by simp
    qed
  qed (use less.prems(1) in \<open>simp add: send_range.simps\<close>)
qed

lemma read_span_bytes:
  assumes "length f = unat total_size"
  shows "take (unat (read_span total_size off len)) (drop (unat off) f) = (if len = 0 then drop (unat off) f else take (unat len) (drop (unat off) f))"
proof (cases "len = 0 \<or> saturating_add off len > total_size")
  case True
  have sub: "take (unat (saturating_sub total_size off)) (drop (unat off) f) = drop (unat off) f"
    using assms by (simp add: rust_arith)
  have "length f - unat off \<le> unat len" if "len \<noteq> 0"
    using True that assms by (auto simp: word_less_nat_alt rust_arith)
  then show ?thesis using True sub by (auto simp: read_span_def)
qed (simp add: read_span_def)

lemma download_outcome:
  assumes run: "handle_read_file ctx req s = (s', Ok ())"
  shows "\<exists>f begin_frame. files (bs_fs s) (rf_path req) = Some f \<and>
      codec_encode_frame (bc_prost ctx) (BM_ReadFileBegin
        \<lparr>rb_total_size = of_nat (length f), rb_content_hash = ContentHash (replicate 32 0), rb_chunk_size = 65536\<rparr>) (bc_max_frame_size ctx)
        = Ok begin_frame \<and>
      bs_out s' = bs_out s @ begin_frame @
        (if rf_length req = 0 then drop (unat (rf_offset req)) f else take (unat (rf_length req)) (drop (unat (rf_offset req)) f)) \<and>
      bs_finished s' \<and> files (bs_fs s') = files (bs_fs s)"
proof -
  obtain s1 meta where st: "fs_call (v_stat (bc_vfs ctx) (bc_root ctx) (rf_path req)) s = (s1, Ok meta)"
    and kind: "md_kind meta = Kind_File"
    and cont: "next_op (fs_call (v_open_read (bc_vfs ctx) (bc_root ctx) (rf_path req))) (\<lambda>_.
       next_op (send_message ctx (BM_ReadFileBegin
          \<lparr>rb_total_size = md_size_bytes meta, rb_content_hash = ContentHash (replicate 32 0), rb_chunk_size = 65536\<rparr>)) (\<lambda>_.
       next_op (send_range ctx (rf_path req) (rf_offset req)
          (read_span (md_size_bytes meta) (rf_offset req) (rf_length req))) (\<lambda>_.
       out_finish))) s1 = (s', Ok ())"
    using run by (auto simp: handle_read_file_def done_op_def elim!: next_op_Ok split: if_splits)
  from st obtain w where w: "v_stat (bc_vfs ctx) (bc_root ctx) (rf_path req) (bs_fs s) = (w, Ok meta)" and s1: "s1 = s\<lparr>bs_fs := w\<rparr>"
    by (auto elim!: fs_call_cases)
  from stat_size [OF w kind] obtain f where f: "files (bs_fs s) (rf_path req) = Some f" and size: "length f = unat (md_size_bytes meta)"
    by blast
  from cont obtain s2 s3 s4 where s2: "fs_call (v_open_read (bc_vfs ctx) (bc_root ctx) (rf_path req)) s1 = (s2, Ok ())"
    and s3: "send_message ctx (BM_ReadFileBegin
          \<lparr>rb_total_size = md_size_bytes meta, rb_content_hash = ContentHash (replicate 32 0), rb_chunk_size = 65536\<rparr>) s2 = (s3, Ok ())"
    and s4: "send_range ctx (rf_path req) (rf_offset req) (read_span (md_size_bytes meta) (rf_offset req) (rf_length req)) s3 = (s4, Ok ())"
    and s5: "out_finish s4 = (s', Ok ())" by (auto elim!: next_op_Ok)
  have f2: "files (bs_fs s2) = files (bs_fs s)" and o2: "bs_out s2 = bs_out s"
    using s2 s1 stat_keeps [OF w] by (auto elim!: fs_call_cases dest: open_read_keeps)
  obtain fr where fr: "codec_encode_frame (bc_prost ctx) (BM_ReadFileBegin
          \<lparr>rb_total_size = md_size_bytes meta, rb_content_hash = ContentHash (replicate 32 0), rb_chunk_size = 65536\<rparr>) (bc_max_frame_size ctx) = Ok fr"
    and o3: "bs_out s3 = bs_out s @ fr" and f3: "files (bs_fs s3) = files (bs_fs s)"
    using s3 o2 f2 by (auto simp: send_message_def done_op_def out_write_all_def out_op_def elim!: next_op_Ok split: list.splits option.splits)
  have "length f < 2 ^ 64" using size unat_less [of "md_size_bytes meta"] by simp
  from send_range_sends [OF s4 _ this] f f3 o3 read_span_bytes [OF size]
  have s4': "files (bs_fs s4) = files (bs_fs s)" "bs_out s4 = bs_out s @ fr @
      (if rf_length req = 0 then drop (unat (rf_offset req)) f else take (unat (rf_length req)) (drop (unat (rf_offset req)) f))" by simp_all
  have "bs_out s' = bs_out s4" "bs_finished s'" "bs_fs s' = bs_fs s4"
    using s5 by (auto simp: out_finish_def out_op_def split: list.splits option.splits)
  then show ?thesis using f fr s4' size by simp
qed

end

section \<open>Deletion stays inside\<close>

text \<open>
  A path is inside another when its text continues it and, resolved component by component from any
  place, with \<open>..\<close> going up, it leads to what the other leads to or below.
\<close>

definition within :: "rel_path \<Rightarrow> rel_path \<Rightarrow> bool" where
  "within dir q \<longleftrightarrow>
     (q = dir \<or> rel_path_value dir = [] \<or> prefix (rel_path_value dir @ [SLASH]) (rel_path_value q)) \<and>
     (\<forall>place. prefix (walk place (split_on SLASH (rel_path_value dir))) (walk place (split_on SLASH (rel_path_value q))))"

lemma within_self [simp]: "within dir dir"
  by (simp add: within_def)

fun removal_within :: "rel_path \<Rightarrow> removal \<Rightarrow> bool" where
  "removal_within dir (Visit_Dir p) \<longleftrightarrow> within dir p"
| "removal_within dir (Remove_Path p) \<longleftrightarrow> within dir p"
| "removal_within dir Bad_Name \<longleftrightarrow> True"

lemma split_on_join: "split_on x (a @ x # b) = split_on x a @ split_on x b"
  by (induction a) (auto split: list.split)

lemma child_removal_within:
  assumes "within dir p"
  shows "removal_within dir (child_removal p e)"
proof -
  have "within dir child" if child: "rel_path_new (if rel_path_value p = [] then de_name e else rel_path_value p @ [SLASH] @ de_name e) = Ok child" for child
  proof -
    let ?s = "if rel_path_value p = [] then de_name e else rel_path_value p @ [SLASH] @ de_name e"
    have v: "rel_path_value child = ?s" and good: "\<forall>c \<in> set (split_on SLASH ?s). good_component c"
      using child by (simp_all only: rel_path_new_Ok_iff good_path_def) simp_all
    have "prefix (walk place (split_on SLASH (rel_path_value p))) (walk place (split_on SLASH (rel_path_value child)))" for place
    proof (cases "rel_path_value p = []")
      case True
      then show ?thesis using good by (simp add: v walk_good)
    next
      case False
      then have "split_on SLASH ?s = split_on SLASH (rel_path_value p) @ split_on SLASH (de_name e)" by (simp add: split_on_join)
      then show ?thesis using good False by (simp add: v walk_good)
    qed
    then have "\<forall>place. prefix (walk place (split_on SLASH (rel_path_value dir))) (walk place (split_on SLASH (rel_path_value child)))"
      using assms prefix_order.trans unfolding within_def by blast
    moreover have "child = dir \<or> rel_path_value dir = [] \<or> prefix (rel_path_value dir @ [SLASH]) (rel_path_value child)"
      using assms v by (auto simp: within_def prefix_def split: if_splits)
    ultimately show ?thesis by (simp add: within_def)
  qed
  then show ?thesis by (auto simp: child_removal_def Let_def split: result.split entry_kind.split)
qed

context share
begin

lemma remove_frame_within:
  assumes "v_remove (bc_vfs ctx) (bc_root ctx) p w = (w', r)" and "within dir p"
  shows "unchanged_but {q. within dir q} (files w) (files w')"
  using remove_frame [OF assms(1)] assms(2) unfolding unchanged_but_def by (metis mem_Collect_eq)

lemma remove_all_within:
  assumes "remove_all V root tasks w = Some y"
  shows "V = bc_vfs ctx \<longrightarrow> root = bc_root ctx \<longrightarrow> (\<forall>t \<in> set tasks. removal_within dir t)
    \<longrightarrow> unchanged_but {q. within dir q} (files w) (files (fst y))" (is "?P V root tasks w y")
proof (rule remove_all.raw_induct [where P = ?P, OF _ assms], intro impI)
  fix rec V root tasks w y
  assume IH: "\<And>V root tasks w y. rec V root tasks w = Some y \<Longrightarrow> ?P V root tasks w y" and V: "V = bc_vfs ctx" "root = bc_root ctx"
    and tasks: "\<forall>t \<in> set tasks. removal_within dir t"
    and step: "(case tasks of
        [] \<Rightarrow> Some (w, Ok ())
      | Visit_Dir p # ts \<Rightarrow>
          (case v_list V root p w of
             (w1, Ok entries) \<Rightarrow> rec V root (map (child_removal p) entries @ Remove_Path p # ts) w1
           | (w1, Err e) \<Rightarrow> Some (w1, Err e))
      | Remove_Path p # ts \<Rightarrow>
          (case v_remove V root p w of
             (w1, Ok _) \<Rightarrow> rec V root ts w1
           | (w1, Err e) \<Rightarrow> Some (w1, Err e))
      | Bad_Name # ts \<Rightarrow> Some (w, Err Vfs_OutsideRoot)) = Some y"
  show "unchanged_but {q. within dir q} (files w) (files (fst y))"
  proof (cases tasks)
    case Nil
    then show ?thesis using step by auto
  next
    case (Cons t ts)
    show ?thesis
    proof (cases t)
      case (Visit_Dir p)
      obtain w1 r1 where l: "v_list V root p w = (w1, r1)" by fastforce
      have same: "files w1 = files w" using list_keeps l V by simp
      have "\<forall>t \<in> set (map (child_removal p) entries @ Remove_Path p # ts). removal_within dir t" for entries
        using tasks Cons Visit_Dir child_removal_within by auto
      then show ?thesis using step Cons Visit_Dir l same V IH by (cases r1) fastforce+
    next
      case (Remove_Path p)
      obtain w1 r1 where l: "v_remove V root p w = (w1, r1)" by fastforce
      have frame: "unchanged_but {q. within dir q} (files w) (files w1)"
        using remove_frame_within [of p w w1] l V tasks Cons Remove_Path by auto
      show ?thesis
      proof (cases r1)
        case (Ok u)
        then have "rec V root ts w1 = Some y" using step Cons Remove_Path l by simp
        from IH [OF this] show ?thesis using V tasks Cons frame unchanged_but_trans by auto
      qed (use step Cons Remove_Path l frame in auto)
    qed (use step Cons in auto)
  qed
qed

lemma delete_within:
  assumes "handle_delete ctx req s = Some (s', r)"
  shows "unchanged_but {q. within (dr_path req) q} (files (bs_fs s)) (files (bs_fs s'))"
proof -
  obtain s1 r1 where st: "fs_call (v_stat (bc_vfs ctx) (bc_root ctx) (dr_path req)) s = (s1, r1)" by fastforce
  have f1: "files (bs_fs s1) = files (bs_fs s)" using st by (auto elim!: fs_call_cases dest: stat_keeps)
  have self: "within (dr_path req) (dr_path req)" by simp
  have removes: "unchanged_but {q. within (dr_path req) q} (files (bs_fs t)) (files (bs_fs t'))"
    if "fs_call (v_remove (bc_vfs ctx) (bc_root ctx) (dr_path req)) t = (t', x)" for t t' x
    using that by (auto elim!: fs_call_cases dest: remove_frame_within [OF _ self])
  have entry: "unchanged_but {q. within (dr_path req) q} (files (bs_fs s1)) (files (bs_fs s2))"
    if d: "delete_entry ctx req meta s1 = Some (s2, x)" for meta s2 x
  proof (cases "md_kind meta")
    case Kind_File
    then show ?thesis using d removes by (simp add: delete_entry_def)
  next
    case Kind_Directory
    obtain t lr where l: "fs_call (v_list (bc_vfs ctx) (bc_root ctx) (dr_path req)) s1 = (t, lr)" by fastforce
    have ft: "files (bs_fs t) = files (bs_fs s1)" using l by (auto elim!: fs_call_cases dest: list_keeps)
    have rec: "unchanged_but {q. within (dr_path req) q} (files (bs_fs t)) (files w)"
      if "remove_dir_recursive (bc_vfs ctx) (bc_root ctx) (dr_path req) (bs_fs t) = Some (w, y)" for w y
      using remove_all_within [OF that [unfolded remove_dir_recursive_def], of "dr_path req"] self by simp
    show ?thesis
      using d Kind_Directory l ft removes [of t s2 x] rec
      by (auto simp: delete_entry_def split: result.splits option.splits if_splits)
  qed
  show ?thesis
    using assms st f1 entry send_message_keeps
    by (fastforce simp: handle_delete_def send_ack_def split: result.splits option.splits)
qed

end

end
