(* ===== verification/Browse_Stream.thy ===== *)
theory Browse_Stream
  imports Browse_Share
begin

text \<open>
  A browse stream is served to its end. No request makes the input longer, every frame takes its
  bytes from it, and a recursive deletion returns on every file system whose directories nest
  finitely, so \<open>handle_browse_stream\<close> returns.
\<close>

section \<open>The input never grows\<close>

named_theorems input_shrinks \<open>steps after which no more input is left than before\<close>

definition input_left :: "'w browse_state \<Rightarrow> nat" where
  "input_left s = length (bs_buf s) + stream_size (bs_in s)"

definition frugal :: "('w, 'a) browse_op \<Rightarrow> bool" where
  "frugal op \<longleftrightarrow> (\<forall>s. input_left (fst (op s)) \<le> input_left s)"

lemma frugalD: "frugal op \<Longrightarrow> op s = (s', r) \<Longrightarrow> input_left s' \<le> input_left s"
  unfolding frugal_def by (metis fst_conv)

lemma frugal_next_op [input_shrinks]:
  assumes "frugal op" and "\<And>x. frugal (f x)"
  shows "frugal (next_op op f)"
  using assms unfolding frugal_def next_op_def
  by (auto split: prod.split result.split) (metis fst_conv order_trans)+

lemma frugal_recover [input_shrinks]:
  assumes "frugal op" and "\<And>e. frugal (g e)"
  shows "frugal (\<lambda>s. case op s of (s1, Ok x) \<Rightarrow> (s1, Ok ()) | (s1, Err e) \<Rightarrow> g e s1)"
  using assms unfolding frugal_def
  by (auto split: prod.split result.split) (metis fst_conv order_trans)+

lemma input_left_fs [simp]: "input_left (s\<lparr>bs_fs := w\<rparr>) = input_left s"
  by (simp add: input_left_def)

lemma frugal_done_op [input_shrinks]: "frugal (done_op r)"
  by (simp add: frugal_def done_op_def)

lemma frugal_fs_call [input_shrinks]: "frugal (fs_call op)"
  by (simp add: frugal_def fs_call_def input_left_def split: prod.splits)

lemma frugal_fs_result [input_shrinks]: "frugal (fs_result op)"
  by (simp add: frugal_def fs_result_def input_left_def split: prod.splits)

lemma frugal_out [input_shrinks]: "frugal (out_write_all bytes)" "frugal out_finish"
  by (auto simp: frugal_def out_write_all_def out_finish_def out_op_def input_left_def split: list.splits option.splits)

lemma frugal_send_message [input_shrinks]: "frugal (send_message ctx msg)"
  unfolding send_message_def by (intro input_shrinks)

lemma frugal_send_ack [input_shrinks]: "frugal (send_ack ctx)"
  unfolding send_ack_def by (intro input_shrinks)

lemma frugal_in_read [input_shrinks]: "frugal (in_read n)"
  by (auto simp: frugal_def in_read_def input_left_def dest: recv_read_size split: prod.splits)

lemma frugal_send_range [input_shrinks]: "frugal (send_range ctx p off remaining)"
  unfolding frugal_def
proof
  fix s
  show "input_left (fst (send_range ctx p off remaining s)) \<le> input_left s"
  proof (induction ctx p off remaining s rule: send_range.induct)
    case (1 ctx p off remaining s)
    show ?case
      by (subst send_range.simps)
        (use 1 in \<open>fastforce simp: Let_def input_left_def dest: out_keeps split: prod.splits result.splits\<close>)
  qed
qed

lemma frugal_write_loop [input_shrinks]: "frugal (write_loop ctx p full written)"
  unfolding frugal_def
proof
  fix s
  show "input_left (fst (write_loop ctx p full written s)) \<le> input_left s"
  proof (induction ctx p full written s rule: write_loop.induct)
    case (1 ctx p full written s)
    have step: "input_left s2 \<le> input_left s"
      if "in_read n s = (s1, r1)" "fs_call op s1 = (s2, r2)" for n s1 r1 op s2 and r2 :: "(unit, browse_failure) result"
      using frugalD [OF frugal_in_read that(1)] frugalD [OF frugal_fs_call that(2)] by simp
    have read: "in_read n s = (s1, r1) \<Longrightarrow> input_left s1 \<le> input_left s" for n s1 r1
      using frugalD [OF frugal_in_read] .
    show ?case
      by (subst write_loop.simps)
        (use 1 step read in \<open>fastforce simp: Let_def dest: order_trans split: prod.splits result.splits\<close>)
  qed
qed

lemma frugal_place_free [input_shrinks]: "frugal (place_free ctx p requested target attempts)"
  unfolding frugal_def
proof
  fix s
  show "input_left (fst (place_free ctx p requested target attempts s)) \<le> input_left s"
  proof (induction attempts arbitrary: target s)
    case 0
    show ?case by (auto simp: fs_result_def split: prod.split result.split)
  next
    case (Suc attempts)
    have "input_left (fst (place_free ctx p requested t attempts (s\<lparr>bs_fs := w\<rparr>))) \<le> input_left s" for t w
      using Suc [of t "s\<lparr>bs_fs := w\<rparr>"] by simp
    then show ?case by (auto simp: fs_result_def fs_call_def split: prod.split result.split)
  qed
qed

lemma frugal_place_upload [input_shrinks]: "frugal (place_upload ctx staged)"
  unfolding place_upload_def by (cases "su_mode staged") (simp_all add: input_shrinks)

lemma frugal_write_buffered [input_shrinks]: "frugal (write_buffered ctx p full)"
  by (auto simp: frugal_def write_buffered_def next_op_def fs_call_def input_left_def Let_def split: prod.splits result.splits)

lemma frugal_write_staged [input_shrinks]: "frugal (write_staged_content ctx staged)"
  unfolding write_staged_content_def by (intro input_shrinks)

lemma frugal_remove_if_there [input_shrinks]: "frugal (remove_if_there ctx p)"
  unfolding remove_if_there_def by (intro input_shrinks) (auto intro: input_shrinks split: result.split)

lemma frugal_choose_target [input_shrinks]: "frugal (choose_target ctx req)"
  unfolding choose_target_def
  by (cases "wf_mode req") (auto intro!: input_shrinks split: result.split)

lemma frugal_handle_write_file [input_shrinks]: "frugal (handle_write_file ctx req)"
  unfolding handle_write_file_def by (auto intro!: input_shrinks split: prod.split)

lemma frugal_handlers [input_shrinks]:
  "frugal (handle_list_dir ctx m1)" "frugal (handle_stat ctx m2)" "frugal (handle_read_file ctx m3)"
  "frugal (handle_mkdir ctx m4)" "frugal (handle_rename ctx m5)"
  unfolding handle_list_dir_def handle_stat_def handle_read_file_def handle_mkdir_def parent_is_dir_def handle_rename_def Let_def
  by (auto intro!: input_shrinks split: result.split option.split)

lemma frugal_delete:
  assumes "handle_delete ctx req s = Some (s', r)"
  shows "input_left s' \<le> input_left s"
  using assms frugalD [OF frugal_send_ack [of ctx]]
  by (fastforce simp: handle_delete_def delete_entry_def fs_call_def input_left_def split: prod.splits result.splits option.splits entry_kind.splits if_splits)

lemma handle_message_input:
  assumes "handle_message ctx msg s = Some (s', r)"
  shows "input_left s' \<le> input_left s"
  using assms frugal_delete
  by (cases "(ctx, msg, s)" rule: handle_message.cases)
    (auto dest: frugalD [OF frugal_handlers(1)] frugalD [OF frugal_handlers(2)] frugalD [OF frugal_handlers(3)]
      frugalD [OF frugal_handlers(4)] frugalD [OF frugal_handlers(5)] frugalD [OF frugal_handle_write_file])

section \<open>A deletion returns\<close>

text \<open>
  Directories nest finitely: a directory has a higher rank than the directories it lists, and
  neither listing nor removing raises a rank.
\<close>

locale finite_nesting =
  fixes ctx :: "'w browse_context" and rank :: "'w \<Rightarrow> rel_path \<Rightarrow> nat"
  assumes list_descends: "v_list (bc_vfs ctx) (bc_root ctx) p w = (w', Ok es) \<Longrightarrow> e \<in> set es
      \<Longrightarrow> child_removal p e = Visit_Dir c \<Longrightarrow> rank w' c < rank w p"
    and list_rank: "v_list (bc_vfs ctx) (bc_root ctx) p w = (w', r) \<Longrightarrow> rank w' q \<le> rank w q"
    and remove_rank: "v_remove (bc_vfs ctx) (bc_root ctx) p w = (w', r2) \<Longrightarrow> rank w' q \<le> rank w q"
begin

abbreviation (input) "run \<equiv> remove_all (bc_vfs ctx) (bc_root ctx)"

definition lower :: "'w \<Rightarrow> 'w \<Rightarrow> bool" where
  "lower w' w \<longleftrightarrow> (\<forall>q. rank w' q \<le> rank w q)"

lemma lower_trans: "lower a b \<Longrightarrow> lower b c \<Longrightarrow> lower a c"
  unfolding lower_def using le_trans by blast

definition returns_below :: "removal list \<Rightarrow> 'w \<Rightarrow> bool" where
  "returns_below ts w \<longleftrightarrow> (\<forall>w'. lower w' w \<longrightarrow> run ts w' \<noteq> None)"

lemma returns_below_lower: "returns_below ts w \<Longrightarrow> lower w' w \<Longrightarrow> returns_below ts w'"
  unfolding returns_below_def using lower_trans by blast

lemma returns_remove: "returns_below ts w \<Longrightarrow> returns_below (Remove_Path p # ts) w"
  unfolding returns_below_def
proof (intro allI impI)
  fix w'
  assume ts: "\<forall>w'. lower w' w \<longrightarrow> run ts w' \<noteq> None" and w': "lower w' w"
  obtain w1 r1 where r: "v_remove (bc_vfs ctx) (bc_root ctx) p w' = (w1, r1)" by fastforce
  then have "lower w1 w'" using remove_rank by (auto simp: lower_def)
  then have "run ts w1 \<noteq> None" using ts w' lower_trans by blast
  then show "run (Remove_Path p # ts) w' \<noteq> None"
    using r by (subst remove_all.simps) (auto split: result.split)
qed

lemma returns_tasks:
  assumes visit: "\<And>c ts w. rank w c < n \<Longrightarrow> returns_below ts w \<Longrightarrow> run (Visit_Dir c # ts) w \<noteq> None"
    and tasks: "\<forall>c. Visit_Dir c \<in> set cs \<longrightarrow> rank w c < n" and ts: "returns_below ts w"
  shows "returns_below (cs @ ts) w"
  using tasks
proof (induction cs)
  case (Cons t cs)
  then have IH: "returns_below (cs @ ts) w" by simp
  show ?case
  proof (cases t)
    case (Visit_Dir c)
    then have "rank w c < n" using Cons.prems by simp
    then have "run (Visit_Dir c # cs @ ts) w' \<noteq> None" if "lower w' w" for w'
      using that visit returns_below_lower [OF IH that] unfolding lower_def by (meson le_less_trans)
    then show ?thesis using Visit_Dir by (simp add: returns_below_def)
  next
    case (Remove_Path p)
    then show ?thesis using returns_remove [OF IH] by simp
  next
    case Bad_Name
    then show ?thesis by (simp add: returns_below_def remove_all.simps)
  qed
qed (simp add: ts)

lemma returns_visit: "rank w p < n \<Longrightarrow> returns_below ts w \<Longrightarrow> run (Visit_Dir p # ts) w \<noteq> None"
proof (induction n arbitrary: p ts w)
  case (Suc n)
  obtain w1 r1 where l: "v_list (bc_vfs ctx) (bc_root ctx) p w = (w1, r1)" by fastforce
  have low: "lower w1 w" using list_rank [OF l] by (simp add: lower_def)
  show ?case
  proof (cases r1)
    case (Ok es)
    have "\<forall>c. Visit_Dir c \<in> set (map (child_removal p) es) \<longrightarrow> rank w1 c < n"
    proof (intro allI impI)
      fix c
      assume "Visit_Dir c \<in> set (map (child_removal p) es)"
      then obtain e where "e \<in> set es" and "child_removal p e = Visit_Dir c" by force
      then have "rank w1 c < rank w p" using list_descends [of p w w1 es] l Ok by simp
      then show "rank w1 c < n" using Suc.prems(1) by simp
    qed
    then have "returns_below (map (child_removal p) es @ Remove_Path p # ts) w1"
      using returns_tasks [OF Suc.IH] returns_remove returns_below_lower [OF Suc.prems(2) low] by blast
    then have "run (map (child_removal p) es @ Remove_Path p # ts) w1 \<noteq> None" by (simp add: returns_below_def lower_def)
    then show ?thesis using l Ok by (subst remove_all.simps) simp
  qed (subst remove_all.simps, use l in simp)
qed simp

lemma delete_returns: "handle_delete ctx req s \<noteq> None"
proof -
  have "remove_dir_recursive (bc_vfs ctx) (bc_root ctx) p w \<noteq> None" for p w
    unfolding remove_dir_recursive_def
    by (rule returns_visit [OF lessI]) (simp add: returns_below_def remove_all.simps)
  then have "delete_entry ctx req meta t \<noteq> None" for meta t
    by (auto simp: delete_entry_def simp del: not_None_eq split: entry_kind.split prod.split result.split option.split)
  then show ?thesis by (auto simp: handle_delete_def simp del: not_None_eq split: prod.split result.split option.split)
qed

end

section \<open>The stream ends\<close>

lemma decode_consumes:
  assumes "codec_decode_frame P limit buf = Ok (Some (msg, consumed))"
  shows "0 < consumed" and "consumed \<le> length buf"
  using assms by (auto simp: codec_decode_frame_def Let_def split: if_splits result.splits option.splits)

lemma read_more_input:
  assumes "read_more ctx s = (s', Ok True)"
  shows "input_left s' = input_left s" and "stream_size (bs_in s') < stream_size (bs_in s)"
  using assms recv_read_size by (fastforce simp: read_more_def in_read_def input_left_def split: prod.splits result.splits)+

context finite_nesting
begin

lemma handle_message_returns: "handle_message ctx msg s \<noteq> None"
  using delete_returns by (cases "(ctx, msg, s)" rule: handle_message.cases) auto

definition loop_order :: "((bool \<times> 'w browse_state) \<times> (bool \<times> 'w browse_state)) set" where
  "loop_order = measures [\<lambda>x. input_left (snd x), \<lambda>x. stream_size (bs_in (snd x)), \<lambda>x. if fst x then 0 else 1]"

lemma loop_order_wf: "wf loop_order"
  by (simp add: loop_order_def)

lemma browse_loop_returns: "browse_loop ctx (fst x) (snd x) \<noteq> None"
proof (induction x rule: wf_induct_rule [OF loop_order_wf])
  case (1 x)
  obtain reading s where x: "x = (reading, s)" by fastforce
  have later: "browse_loop ctx r t \<noteq> None" if "((r, t), (reading, s)) \<in> loop_order" for r t
    using 1 [of "(r, t)"] that x by simp
  show ?case
  proof (cases "reading \<or> bs_buf s = []")
    case True
    obtain s1 r1 where r: "read_more ctx s = (s1, r1)" by fastforce
    have "browse_loop ctx False s1 \<noteq> None" if "r1 = Ok True"
      using read_more_input [of ctx s s1] r that by (intro later) (simp add: loop_order_def)
    then show ?thesis using x True r by (subst browse_loop.simps) (auto split: result.split)
  next
    case False
    show ?thesis
    proof (cases "codec_decode_frame (bc_prost ctx) (bc_codec_max ctx) (bs_buf s)")
      case (Err e)
      then show ?thesis using x False by (subst browse_loop.simps) simp
    next
      case (Ok m)
      show ?thesis
      proof (cases m)
        case None
        have "browse_loop ctx True s \<noteq> None" using False by (intro later) (simp add: loop_order_def)
        then show ?thesis using x False Ok None by (subst browse_loop.simps) simp
      next
        case (Some mc)
        obtain msg consumed where mc: "mc = (msg, consumed)" by fastforce
        let ?s = "s\<lparr>bs_buf := drop consumed (bs_buf s)\<rparr>"
        obtain s1 r1 where h: "handle_message ctx msg ?s = Some (s1, r1)" using handle_message_returns by fastforce
        have "input_left ?s < input_left s"
          using decode_consumes Ok Some mc by (fastforce simp: input_left_def)
        then have "browse_loop ctx False s1 \<noteq> None"
          using handle_message_input [OF h] by (intro later) (simp add: loop_order_def)
        then show ?thesis using x False Ok Some mc h by (subst browse_loop.simps) (auto split: result.split)
      qed
    qed
  qed
qed

lemma browse_stream_returns: "handle_browse_stream ctx s \<noteq> None"
  using browse_loop_returns [of "(True, s\<lparr>bs_buf := []\<rparr>)"] by (simp add: handle_browse_stream_def)

end

end
