(* ===== verification/Browse_Tree.thy ===== *)
theory Browse_Tree
  imports Browse_Stream
begin

text \<open>
  A file tree in memory with the uploads of \<open>PartialUploadPaths\<close>, as an implementation of the
  \<open>Vfs\<close> trait: it keeps the contract of a share and its directories nest finitely. Every call
  may fail instead of doing its work. The properties of the browse plane are stated for every
  file system with that contract and applied to this one.
\<close>

section \<open>The tree\<close>

record tree_world =
  tr_files :: "(rel_path \<times> u8 list) list"
  tr_dirs :: "rel_path list"
  tr_faults :: "vfs_error option list"
  tr_now :: unix_time
  tr_draws :: "(u8 list, unit) result list"

definition tree_op :: "(tree_world, 'a) fs_op \<Rightarrow> (tree_world, 'a) fs_op" where
  "tree_op f w =
     (case tr_faults w of
        [] \<Rightarrow> f w
      | None # fs \<Rightarrow> f (w\<lparr>tr_faults := fs\<rparr>)
      | Some e # fs \<Rightarrow> (w\<lparr>tr_faults := fs\<rparr>, Err e))"

definition inside :: "rel_path \<Rightarrow> rel_path \<Rightarrow> bool" where
  "inside at p \<longleftrightarrow> (if rel_path_value at = [] then rel_path_value p \<noteq> [] else prefix (rel_path_value at @ [SLASH]) (rel_path_value p))"

definition child_name :: "rel_path \<Rightarrow> rel_path \<Rightarrow> rstr option" where
  "child_name at p =
     (let name = (if rel_path_value at = [] then rel_path_value p else drop (length (rel_path_value at) + 1) (rel_path_value p)) in
      if inside at p \<and> name \<noteq> [] \<and> SLASH \<notin> set name then Some name else None)"

definition dir_entries :: "rel_path \<Rightarrow> tree_world \<Rightarrow> dir_entry list" where
  "dir_entries at w =
     List.map_filter (\<lambda>d. map_option (\<lambda>n. \<lparr>de_name = n, de_kind = Kind_Directory, de_size_bytes = 0, de_modified = UnixTime 0\<rparr>) (child_name at d)) (tr_dirs w)
     @ List.map_filter (\<lambda>(p, f). map_option (\<lambda>n. \<lparr>de_name = n, de_kind = Kind_File, de_size_bytes = of_nat (length f), de_modified = UnixTime 0\<rparr>) (child_name at p)) (tr_files w)"

definition tree_list :: "root_id \<Rightarrow> rel_path \<Rightarrow> (tree_world, dir_entry list) fs_op" where
  "tree_list root at = tree_op (\<lambda>w.
     (w, if at = rel_path_root \<or> at \<in> set (tr_dirs w) then Ok (dir_entries at w)
         else if map_of (tr_files w) at \<noteq> None then Err Vfs_WrongKind else Err Vfs_NotFound))"

definition tree_stat :: "root_id \<Rightarrow> rel_path \<Rightarrow> (tree_world, metadata) fs_op" where
  "tree_stat root at = tree_op (\<lambda>w.
     (w, case map_of (tr_files w) at of
           Some f \<Rightarrow> if length f < 2 ^ 64 then Ok \<lparr>md_kind = Kind_File, md_size_bytes = of_nat (length f), md_modified = UnixTime 0\<rparr> else Err (Vfs_Io (Io_Kind 0))
         | None \<Rightarrow>
             if at = rel_path_root \<or> at \<in> set (tr_dirs w)
             then Ok \<lparr>md_kind = Kind_Directory, md_size_bytes = 0, md_modified = UnixTime 0\<rparr> else Err Vfs_NotFound))"

definition tree_open_read :: "root_id \<Rightarrow> rel_path \<Rightarrow> (tree_world, unit) fs_op" where
  "tree_open_read root at = tree_op (\<lambda>w. (w, if map_of (tr_files w) at = None then Err Vfs_NotFound else Ok ()))"

definition tree_read_at :: "rel_path \<Rightarrow> u64 \<Rightarrow> nat \<Rightarrow> (tree_world, u8 list) fs_op" where
  "tree_read_at p off n = tree_op (\<lambda>w.
     (w, case map_of (tr_files w) p of None \<Rightarrow> Err Vfs_NotFound | Some f \<Rightarrow> Ok (take n (drop (unat off) f))))"

definition tree_create_dir :: "root_id \<Rightarrow> rel_path \<Rightarrow> (tree_world, unit) fs_op" where
  "tree_create_dir root at = tree_op (\<lambda>w.
     if map_of (tr_files w) at \<noteq> None then (w, Err Vfs_AlreadyExists) else (w\<lparr>tr_dirs := at # tr_dirs w\<rparr>, Ok ()))"

definition tree_open_write :: "root_id \<Rightarrow> rel_path \<Rightarrow> (tree_world, unit) fs_op" where
  "tree_open_write root at = tree_op (\<lambda>w.
     case map_of (tr_files w) at of
       Some _ \<Rightarrow> (w, Ok ())
     | None \<Rightarrow> if at \<in> set (tr_dirs w) then (w, Err Vfs_WrongKind) else (w\<lparr>tr_files := AList.update at [] (tr_files w)\<rparr>, Ok ()))"

definition tree_write_at :: "rel_path \<Rightarrow> u64 \<Rightarrow> u8 list \<Rightarrow> (tree_world, unit) fs_op" where
  "tree_write_at p off bytes = tree_op (\<lambda>w.
     case map_of (tr_files w) p of
       None \<Rightarrow> (w, Err Vfs_NotFound)
     | Some f \<Rightarrow> (w\<lparr>tr_files := AList.update p (patch (unat off) bytes f) (tr_files w)\<rparr>, Ok ()))"

definition tree_rename :: "bool \<Rightarrow> root_id \<Rightarrow> rel_path \<Rightarrow> rel_path \<Rightarrow> (tree_world, unit) fs_op" where
  "tree_rename replace root p q = tree_op (\<lambda>w.
     case map_of (tr_files w) p of
       None \<Rightarrow> (w, Err (if p \<in> set (tr_dirs w) then Vfs_UnsupportedEntry else Vfs_NotFound))
     | Some f \<Rightarrow>
         if q \<in> set (tr_dirs w) then (w, Err (if replace then Vfs_WrongKind else Vfs_AlreadyExists))
         else if \<not> replace \<and> map_of (tr_files w) q \<noteq> None then (w, Err Vfs_AlreadyExists)
         else (w\<lparr>tr_files := AList.update q f (AList.delete p (tr_files w))\<rparr>, Ok ()))"

definition tree_remove :: "root_id \<Rightarrow> rel_path \<Rightarrow> (tree_world, unit) fs_op" where
  "tree_remove root p = tree_op (\<lambda>w.
     if map_of (tr_files w) p \<noteq> None then (w\<lparr>tr_files := AList.delete p (tr_files w)\<rparr>, Ok ())
     else if p \<in> set (tr_dirs w) then
       (if dir_entries p w = [] then (w\<lparr>tr_dirs := removeAll p (tr_dirs w)\<rparr>, Ok ()) else (w, Err Vfs_WrongKind))
     else (w, Err Vfs_NotFound))"

definition tree_vfs :: "tree_world vfs" where
  "tree_vfs = \<lparr>v_list = tree_list, v_stat = tree_stat, v_open_read = tree_open_read, v_read_at = tree_read_at,
     v_create_dir = tree_create_dir, v_open_write = tree_open_write, v_write_at = tree_write_at,
     v_sync = \<lambda>p. tree_op (\<lambda>w. (w, Ok ())), v_rename = tree_rename True, v_rename_no_replace = tree_rename False,
     v_remove = tree_remove\<rparr>"

definition tree_staging :: "(tree_world, rel_path \<times> rel_path) fs_op" where
  "tree_staging w =
     (case tr_draws w of
        [] \<Rightarrow> (w, Err (Vfs_Io (Io_Kind 0)))
      | d # ds \<Rightarrow> (w\<lparr>tr_draws := ds\<rparr>, partial_staging d (tr_now w)))"

definition tree_free_name :: "root_id \<Rightarrow> rel_path \<Rightarrow> (tree_world, rel_path) fs_op" where
  "tree_free_name root wanted = tree_op (\<lambda>w. (w, resolve_collision
     (\<lambda>_ q. if map_of (tr_files w) q \<noteq> None \<or> q \<in> set (tr_dirs w) then Ok () else Err Vfs_NotFound) root wanted))"

definition tree_context :: "browse_prost \<Rightarrow> root_id \<Rightarrow> u32 \<Rightarrow> tree_world browse_context" where
  "tree_context P root limit = \<lparr>bc_prost = P, bc_codec_max = limit, bc_vfs = tree_vfs, bc_root = root, bc_max_frame_size = limit,
     bc_uploads = \<lparr>u_staging = tree_staging, u_free_name = tree_free_name\<rparr>\<rparr>"

lemmas tree_defs = tree_context_def tree_vfs_def tree_staging_def tree_free_name_def tree_list_def tree_stat_def tree_open_read_def
  tree_read_at_def tree_create_dir_def tree_open_write_def tree_write_at_def tree_rename_def tree_remove_def tree_op_def

abbreviation (input) tree_map :: "tree_world \<Rightarrow> rel_path \<rightharpoonup> u8 list" where
  "tree_map w \<equiv> map_of (tr_files w)"

interpretation tree_share: share "tree_context P root limit" tree_map for P root limit
proof
  show "v_stat (bc_vfs (tree_context P root limit)) (bc_root (tree_context P root limit)) p w = (w', Ok meta) \<Longrightarrow> md_kind meta = Kind_File
      \<Longrightarrow> \<exists>f. tree_map w p = Some f \<and> length f = unat (md_size_bytes meta)" for p w w' meta
    by (auto simp: tree_defs unat_of_nat split: list.splits option.splits if_splits)
qed (auto simp: tree_defs delete_conv update_conv split: list.splits option.splits if_splits)

definition tree_rank :: "tree_world \<Rightarrow> rel_path \<Rightarrow> nat" where
  "tree_rank w p = length (filter (inside p) (tr_dirs w))"

lemma inside_self: "\<not> inside p p"
  by (auto simp: inside_def prefix_def)

lemma inside_trans: "inside p q \<Longrightarrow> inside q r \<Longrightarrow> inside p r"
  by (auto simp: inside_def prefix_def split: if_splits)

lemma tree_rank_child:
  assumes "c \<in> set (tr_dirs w)" and "inside p c"
  shows "tree_rank w c < tree_rank w p"
proof -
  have "filter (inside c) (tr_dirs w) = filter (inside c) (filter (inside p) (tr_dirs w))"
    using inside_trans [OF assms(2)] by (simp add: filter_filter) (metis (no_types, lifting) filter_cong)
  moreover have "length (filter (inside c) (filter (inside p) (tr_dirs w))) < length (filter (inside p) (tr_dirs w))"
    using assms inside_self [of c] by (intro length_filter_less [of c]) auto
  ultimately show ?thesis by (simp add: tree_rank_def)
qed

lemma child_name_Some:
  assumes "child_name p d = Some n"
  shows "inside p d" and "rel_path_value d = (if rel_path_value p = [] then n else rel_path_value p @ [SLASH] @ n)"
  using assms by (auto simp: child_name_def inside_def prefix_def Let_def split: if_splits)

lemma child_removal_dir:
  assumes "e \<in> set (dir_entries p w)" and "child_removal p e = Visit_Dir c"
  shows "c \<in> set (tr_dirs w)" and "inside p c"
proof -
  have kind: "de_kind e = Kind_Directory"
    and c: "rel_path_value c = (if rel_path_value p = [] then de_name e else rel_path_value p @ [SLASH] @ de_name e)"
    using assms(2) by (auto simp: child_removal_def rel_path_new_def Let_def split: result.splits entry_kind.splits if_splits option.splits)
  obtain d where d: "d \<in> set (tr_dirs w)" "child_name p d = Some (de_name e)"
    using assms(1) kind by (auto simp: dir_entries_def List.map_filter_def split: if_splits)
  have "c = d" using c child_name_Some(2) [OF d(2)] by (cases c, cases d) simp
  then show "c \<in> set (tr_dirs w)" and "inside p c" using d child_name_Some(1) [OF d(2)] by simp_all
qed

interpretation tree_nesting: finite_nesting "tree_context P root limit" tree_rank for P root limit
proof
  fix p w w' es e c
  assume l: "v_list (bc_vfs (tree_context P root limit)) (bc_root (tree_context P root limit)) p w = (w', Ok es)" and e: "e \<in> set es"
    and c: "child_removal p e = Visit_Dir c"
  have "es = dir_entries p w" and "tr_dirs w' = tr_dirs w"
    using l by (auto simp: tree_defs dir_entries_def split: list.splits option.splits if_splits)
  then show "tree_rank w' c < tree_rank w p"
    using tree_rank_child child_removal_dir [of e p w c] e c by (simp add: tree_rank_def)
next
  fix p w w' r q
  assume "v_list (bc_vfs (tree_context P root limit)) (bc_root (tree_context P root limit)) p w = (w', r)"
  then show "tree_rank w' q \<le> tree_rank w q"
    by (auto simp: tree_defs tree_rank_def split: list.splits option.splits if_splits)
next
  fix p w w' r q
  assume "v_remove (bc_vfs (tree_context P root limit)) (bc_root (tree_context P root limit)) p w = (w', r)"
  then have "tr_dirs w' = tr_dirs w \<or> tr_dirs w' = removeAll p (tr_dirs w)"
    by (auto simp: tree_defs split: list.splits option.splits if_splits)
  moreover have "filter (inside q) (removeAll p (tr_dirs w)) = removeAll p (filter (inside q) (tr_dirs w))"
    by (simp add: removeAll_filter_not_eq conj_commute)
  ultimately show "tree_rank w' q \<le> tree_rank w q"
    by (auto simp: tree_rank_def)
qed

section \<open>Properties of the browse plane\<close>

text \<open>
  Property C6. An upload is all or nothing and never destroys what it was not told to overwrite.
  On every file system with the contract of a share, and with staging paths that are not in use, a
  \<open>WriteFile\<close> either fails and leaves every file outside its staging paths as it was, or has
  received exactly the announced number of bytes, first those that came with its frame and then
  those of the stream, and they are the content of one path, every other file being as before. That
  path is the requested one, except for \<open>RenameIfExists\<close>, and it was free, except for
  \<open>Overwrite\<close>. A success is always the second case, and then the bytes after the upload are
  still there for the next request. Whatever fails, at whatever step, is covered: when the failure
  comes after the file was placed, the file stays.
\<close>

theorem upload_all_or_nothing:
  assumes "share ctx bytes_at" and "handle_write_file ctx req s = (s', r)"
    and "\<forall>p \<in> staging_of ctx req s. bytes_at (bs_fs s) p = None"
  shows "let old = bytes_at (bs_fs s); new = bytes_at (bs_fs s'); staging = staging_of ctx req s;
             input = bs_buf s @ incoming (bs_in s); content = take (unat (wf_size req)) input
         in (r \<noteq> Ok () \<and> unchanged_but staging old new) \<or>
            (length content = unat (wf_size req) \<and> placed (wf_mode req) (wf_path req) staging content old new \<and>
             (r = Ok () \<longrightarrow> bs_buf s' @ incoming (bs_in s') = drop (unat (wf_size req)) input))"
  unfolding Let_def by (rule share.upload_outcome [OF assms])

text \<open>
  Property C18. A download is exact. When a \<open>ReadFile\<close> succeeds, the stream carries the begin
  frame with the size of the file and then exactly the bytes of the requested range, cut off at the
  end of the file and read to the end when the length is zero, whatever short reads the file system
  returns; the stream is finished and no file has changed.
\<close>

theorem download_exact:
  assumes "share ctx bytes_at" and "handle_read_file ctx req s = (s', Ok ())"
  shows "\<exists>f begin_frame. bytes_at (bs_fs s) (rf_path req) = Some f \<and>
      codec_encode_frame (bc_prost ctx) (BM_ReadFileBegin
        \<lparr>rb_total_size = of_nat (length f), rb_content_hash = ContentHash (replicate 32 0), rb_chunk_size = 65536\<rparr>) (bc_max_frame_size ctx)
        = Ok begin_frame \<and>
      bs_out s' = bs_out s @ begin_frame @
        (if rf_length req = 0 then drop (unat (rf_offset req)) f else take (unat (rf_length req)) (drop (unat (rf_offset req)) f)) \<and>
      bs_finished s' \<and> bytes_at (bs_fs s') = bytes_at (bs_fs s)"
  using share.download_outcome [OF assms] .

text \<open>
  Property C17. A deletion stays inside what it names. Whatever the outcome of a \<open>Delete\<close>,
  recursive or not, complete or aborted, no file outside the named entry has changed, for every
  listing the file system may return, with names of its choosing. Outside is meant twice: a path
  that may have changed continues the text of the named one, and, resolved component by component
  with \<open>..\<close> going up, still leads to the named entry or below it.
\<close>

theorem deletion_confined:
  assumes "share ctx bytes_at" and "handle_delete ctx req s = Some (s', r)"
  shows "unchanged_but {q. within (dr_path req) q} (bytes_at (bs_fs s)) (bytes_at (bs_fs s'))"
  using share.delete_within [OF assms] .

text \<open>
  Property C16. A browse stream is served to its end. On a file system whose directories nest
  finitely, \<open>handle_browse_stream\<close> returns for every input, however it is cut into reads, with
  every mixture of requests, uploads and recursive deletions.
\<close>

theorem browse_stream_ends:
  assumes "finite_nesting ctx rank"
  shows "\<exists>outcome. handle_browse_stream ctx s = Some outcome"
  using finite_nesting.browse_stream_returns [OF assms] by auto

section \<open>Uses\<close>

definition sample_tree :: tree_world where
  "sample_tree = \<lparr>tr_files = [(\<lparr>rel_path_value = [97]\<rparr>, [7, 8, 9, 10]), (\<lparr>rel_path_value = [98, 47, 99]\<rparr>, [1])], tr_dirs = [\<lparr>rel_path_value = [98]\<rparr>], tr_faults = [],
     tr_now = UnixTime 1, tr_draws = [Ok (replicate 10 0)]\<rparr>"

definition sample_context :: "tree_world browse_context" where
  "sample_context = tree_context unary_browse_prost (RootId 1) 100000"

definition sample_browse_state :: "tree_world browse_state" where
  "sample_browse_state = \<lparr>bs_fs = sample_tree, bs_in = [Bytes [2], Bytes [3, 4]], bs_buf = [1], bs_out = [], bs_finished = False, bs_send_faults = []\<rparr>"

definition sample_upload :: write_file where
  "sample_upload = \<lparr>wf_share_id = sample_share_id, wf_path = \<lparr>rel_path_value = [97]\<rparr>, wf_size = 3,
     wf_content_hash = ContentHash (replicate 32 0), wf_mode = Overwrite\<rparr>"

definition sample_transfer :: transfer_id where
  "sample_transfer = TransferId [0, 0, 0, 0, 3, 0xe8, 0x70, 0, 0x80, 0, 0, 0, 0, 0, 0, 0]"

definition sample_staging_dir :: rel_path where
  "sample_staging_dir = \<lparr>rel_path_value = join_with SLASH [lit ''.tradr-partial'', transfer_id_display sample_transfer]\<rparr>"

definition sample_staging_file :: rel_path where
  "sample_staging_file = \<lparr>rel_path_value = join_with SLASH [lit ''.tradr-partial'', transfer_id_display sample_transfer, lit ''upload'']\<rparr>"

lemma sample_transfer_drawn: "generate_transfer_id (Ok (replicate 10 0)) (UnixTime 1) = Ok sample_transfer"
  unfolding sample_transfer_def by code_simp

lemma sample_item:
  obtains i where "item_id_new (lit ''upload'') = Ok i" and "item_id_valid i" and "item_id_display i = lit ''upload''"
proof -
  have "item_id_new (lit ''upload'') = Ok \<lparr>item_id_bytes = map of_nat (lit ''upload'') @ replicate 58 0, item_id_len = 6\<rparr>"
    by code_simp
  then show ?thesis using that item_id_new_Ok(1) by (metis item_id_valid_def)
qed

lemma sample_paths_drawn: "partial_staging (Ok (replicate 10 0)) (UnixTime 1) = Ok (sample_staging_dir, sample_staging_file)"
proof -
  obtain i where i: "item_id_new (lit ''upload'') = Ok i" "item_id_valid i" "item_id_display i = lit ''upload''" by (rule sample_item)
  show ?thesis
    unfolding partial_staging_def sample_transfer_drawn result.case i(1) partial_paths(1,2) [OF i(2)] prod.case option.case
    by (simp only: sample_staging_dir_def sample_staging_file_def i(3))
qed

lemma sample_staging_distinct:
  "sample_staging_dir \<noteq> \<lparr>rel_path_value = [97]\<rparr>" "sample_staging_file \<noteq> \<lparr>rel_path_value = [97]\<rparr>" "sample_staging_dir \<noteq> sample_staging_file"
  "sample_staging_file \<noteq> \<lparr>rel_path_value = [98]\<rparr>" "\<not> inside sample_staging_dir \<lparr>rel_path_value = [97]\<rparr>"
  "\<not> inside sample_staging_dir \<lparr>rel_path_value = [98]\<rparr>" "\<not> inside sample_staging_dir \<lparr>rel_path_value = [98, 47, 99]\<rparr>"
  "sample_staging_file \<noteq> \<lparr>rel_path_value = [98, 47, 99]\<rparr>" "\<not> inside sample_staging_dir sample_staging_dir" "sample_staging_dir \<noteq> \<lparr>rel_path_value = [98, 47, 99]\<rparr>"
  by (auto simp: sample_staging_dir_def sample_staging_file_def inside_def inside_self)

lemmas sample_defs = sample_context_def sample_upload_def sample_browse_state_def sample_tree_def

lemma sample_staging_of: "staging_of sample_context sample_upload sample_browse_state = {sample_staging_dir, sample_staging_file}"
  by (simp add: sample_defs staging_of_def choose_target_def next_op_def done_op_def fs_result_def tree_defs sample_paths_drawn)

lemma sample_ack: "\<exists>bytes. codec_encode_frame unary_browse_prost (BM_Ack \<lparr>ack_request_id = []\<rparr>) 100000 = Ok bytes"
  by (simp add: encode_ack_frame_def encode_browse_frame_def encode_frame_def Let_def unary_browse_prost_def ack_to_wire_def put_nats_def put_nat_def)

abbreviation (input) "sample_written \<equiv> fst (handle_write_file sample_context sample_upload sample_browse_state)"

lemma sample_upload_run: "snd (handle_write_file sample_context sample_upload sample_browse_state) = Ok ()"
proof -
  obtain bytes where ack: "codec_encode_frame unary_browse_prost (BM_Ack \<lparr>ack_request_id = []\<rparr>) 100000 = Ok bytes"
    using sample_ack by blast
  show ?thesis
    by (simp add: sample_defs handle_write_file_def choose_target_def next_op_def done_op_def fs_result_def fs_call_def tree_defs
        sample_paths_drawn write_staged_content_def sample_staging_distinct sample_staging_distinct(1-4,8,10) [symmetric] write_buffered_def Let_def
        write_loop.simps in_read_def patch_def place_upload_def send_ack_def send_message_def ack out_write_all_def out_op_def
        dir_entries_def child_name_def List.map_filter_def del: codec_encode_frame.simps)
qed

theorem upload_all_or_nothing_witness:
  "snd (handle_write_file sample_context sample_upload sample_browse_state) = Ok () \<and>
   placed Overwrite \<lparr>rel_path_value = [97]\<rparr> {sample_staging_dir, sample_staging_file} [1, 2, 3] (tree_map sample_tree) (tree_map (bs_fs sample_written)) \<and>
   bs_buf sample_written @ incoming (bs_in sample_written) = [4]"
proof -
  have run: "handle_write_file sample_context sample_upload sample_browse_state = (sample_written, Ok ())"
    using sample_upload_run by (metis prod.collapse)
  have fresh: "\<forall>p \<in> staging_of sample_context sample_upload sample_browse_state. tree_map (bs_fs sample_browse_state) p = None"
    unfolding sample_staging_of by (simp add: sample_browse_state_def sample_tree_def sample_staging_distinct)
  have sample: "share sample_context tree_map"
    unfolding sample_context_def by (rule tree_share.share_axioms)
  show ?thesis
    using upload_all_or_nothing [OF sample run fresh] sample_upload_run
    unfolding Let_def sample_staging_of by (simp add: sample_upload_def sample_browse_state_def)
qed

definition sample_read :: read_file where
  "sample_read = \<lparr>rf_share_id = sample_share_id, rf_path = \<lparr>rel_path_value = [97]\<rparr>, rf_offset = 1, rf_length = 2\<rparr>"

lemma sample_begin: "\<exists>bytes. codec_encode_frame unary_browse_prost (BM_ReadFileBegin
    \<lparr>rb_total_size = 4, rb_content_hash = ContentHash (replicate 32 0), rb_chunk_size = 65536\<rparr>) 100000 = Ok bytes"
  by (simp add: encode_read_file_begin_frame_def encode_browse_frame_def encode_frame_def Let_def unary_browse_prost_def
      read_file_begin_to_wire_def put_nats_def put_nat_def)

lemma sample_read_run: "snd (handle_read_file sample_context sample_read sample_browse_state) = Ok ()"
proof -
  obtain bytes where begin_frame: "codec_encode_frame unary_browse_prost (BM_ReadFileBegin
      \<lparr>rb_total_size = 4, rb_content_hash = ContentHash (replicate 32 0), rb_chunk_size = 65536\<rparr>) 100000 = Ok bytes"
    using sample_begin by blast
  show ?thesis
    by (simp add: sample_defs sample_read_def handle_read_file_def next_op_def done_op_def fs_call_def tree_defs
        send_range.simps read_span_def saturating_add_def Let_def send_message_def begin_frame out_write_all_def out_finish_def out_op_def
        del: codec_encode_frame.simps replicate.simps)
qed

theorem download_exact_witness:
  "\<exists>begin_frame. bs_out (fst (handle_read_file sample_context sample_read sample_browse_state)) = begin_frame @ [8, 9]"
proof -
  have run: "handle_read_file sample_context sample_read sample_browse_state
      = (fst (handle_read_file sample_context sample_read sample_browse_state), Ok ())"
    using sample_read_run by (metis prod.collapse)
  have sample: "share sample_context tree_map"
    unfolding sample_context_def by (rule tree_share.share_axioms)
  show ?thesis
    using download_exact [OF sample run] by (auto simp: sample_read_def sample_browse_state_def sample_tree_def)
qed

definition sample_delete :: delete_request where
  "sample_delete = \<lparr>dr_share_id = sample_share_id, dr_path = \<lparr>rel_path_value = [98]\<rparr>, dr_recursive = True\<rparr>"

theorem deletion_confined_witness:
  "\<exists>s' r. handle_delete sample_context sample_delete sample_browse_state = Some (s', r) \<and>
     tree_map (bs_fs s') \<lparr>rel_path_value = [97]\<rparr> = Some [7, 8, 9, 10]"
proof -
  have sample: "share sample_context tree_map"
    unfolding sample_context_def by (rule tree_share.share_axioms)
  obtain s' r where run: "handle_delete sample_context sample_delete sample_browse_state = Some (s', r)"
    using tree_nesting.delete_returns unfolding sample_context_def by fastforce
  from deletion_confined [OF sample run] run show ?thesis
    by (auto simp: unchanged_but_def within_def sample_delete_def sample_browse_state_def sample_tree_def)
qed

theorem browse_stream_ends_witness: "\<exists>outcome. handle_browse_stream sample_context sample_browse_state = Some outcome"
proof -
  have "finite_nesting sample_context tree_rank"
    unfolding sample_context_def by (rule tree_nesting.finite_nesting_axioms)
  from browse_stream_ends [OF this] show ?thesis .
qed

end
