(* ===== verification/Spec2Isabelle.thy ===== *)
theory Spec2Isabelle
  imports Handshake Message_Type Multiplexer Record_Link Broadcast_Key Receive_Integrity Envelope_Trip Browse_Tree
begin

text \<open>
  \<^bold>\<open>A verification of the core of tradr\<close>

  tradr moves files between the devices of one person and of people who linked their accounts. Two
  devices find each other, open a channel, prove who they are, and then exchange offers, files and
  listings; a device that is away receives sealed envelopes. The Rust crates under
  \<open>src/crates\<close> are layered: \<open>tradr-core\<close> has the vocabulary and the state
  machines without I/O, \<open>tradr-identity\<close> keys, attestation, links and envelopes,
  \<open>tradr-proto\<close> the wire, \<open>tradr-transport\<close> the channels, \<open>tradr-vfs\<close> and
  \<open>tradr-secrets\<close> storage, and \<open>tradr-app\<close> puts them together.

  \<^bold>\<open>How the model is made\<close>

  Each function of the source is one definition with the name the source gives it, its early
  returns and its order of checks. A struct is a record, an enum a datatype, a \<open>Result\<close> the
  type \<open>result\<close> of \<open>Tradr_Prelude\<close>, an integer a word of its width. \<open>checked_add\<close>,
  \<open>saturating_sub\<close> and the like are written out and plain additions wrap, as in a release
  build; where a debug build would panic instead, the text says so. A \<open>str\<close> is a list of
  code points with its UTF-8 bytes (\<open>Rust_Str\<close>), a \<open>BTreeMap\<close> a sorted association
  list (\<open>Rust_BTreeMap\<close>). Code that has state or I/O takes a world and returns the next one:
  a directory with the faults it is going to report, the bytes a peer is going to send, the answers
  of a fetch. What is
  not under \<open>src\<close> is a parameter: BLAKE3, P-256, HKDF and the AEAD, RSA, the protobuf and
  JSON codecs, the \<open>bao\<close> decoder, Unicode normalisation, the random source. The laws a
  theorem needs of them are its hypotheses (\<open>p256_ok\<close>, \<open>hpke_ok\<close>, \<open>prost_ok\<close>,
  a codec that decodes what it encoded), each with an instance on which a witness runs.

  \<^bold>\<open>The theories\<close>

  \<^item> \<open>Tradr_Prelude\<close>, \<open>Rust_Str\<close>, \<open>Rust_BTreeMap\<close>: integers, results, strings, maps.
  \<^item> \<open>Identifiers\<close> (\<open>device_id.rs\<close>, \<open>item_id.rs\<close>, \<open>share_id.rs\<close>, \<open>transfer_id.rs\<close>, the
    identifiers of \<open>link.rs\<close>): parsing and printing; the locale \<open>text_id\<close> is the contract of an
    identifier with a text, and every identifier is an interpretation.
  \<^item> \<open>Rel_Path\<close> (\<open>rel_path.rs\<close>): a path a peer names stays below the place it is resolved in.
  \<^item> \<open>Chunk_Resumption\<close> (\<open>resumption.rs\<close>, \<open>chunk_index.rs\<close>): which bytes of an item are verified; merging
    of ranges refines sets of bytes, and an item is complete exactly when every byte is.
  \<^item> \<open>Transfer_Control\<close> (\<open>control.rs\<close>, \<open>data.rs\<close>, \<open>trust_tier.rs\<close>): offers and answers; the locale
    \<open>wire_enum\<close> is the contract of an enum with numbers.
  \<^item> \<open>Peer_Discovery\<close> (\<open>discovery.rs\<close>, \<open>transport.rs\<close>): the list of peers as a grouping of observations.
  \<^item> \<open>Identity_Keys\<close>, \<open>Key_Store\<close>, \<open>Secret_Store\<close> (\<open>key_store.rs\<close>, \<open>clock.rs\<close>, \<open>software_key_store.rs\<close>,
    \<open>storage_ladder.rs\<close>, \<open>tradr-secrets/src/file.rs\<close>): signing domains, the keys and where they are kept,
    with every fault of the file system.
  \<^item> \<open>Attestation\<close> (\<open>id_token.rs\<close>, \<open>jwks.rs\<close>, \<open>jwks_cache.rs\<close>, \<open>verify.rs\<close>, \<open>attestation.rs\<close>): from a token to
    a trust tier.
  \<^item> \<open>Hello_Exchange\<close>, \<open>Hello_Wire\<close> (\<open>hello.rs\<close> of \<open>tradr-core\<close>, \<open>tradr-identity\<close> and \<open>tradr-proto\<close>,
    \<open>key_binding.rs\<close>): the state machine that makes a session, and its two messages on the wire.
  \<^item> \<open>Linking\<close>, \<open>Link_Registry\<close> (\<open>link.rs\<close>, \<open>fingerprint.rs\<close>): linking two accounts and keeping the links.
  \<^item> \<open>Peer_Trust\<close>, \<open>Handshake\<close> (\<open>tradr-app\<close>: \<open>peer_trust.rs\<close>, \<open>browse_access.rs\<close>, \<open>handshake.rs\<close>, the verifiers
    of \<open>sign_in.rs\<close>): the handshake over a connection, from the bytes of the stream through the verification of
    the peer's token to the session and the record of the device met. This is where the frames, the exchange,
    attestation and the links come together: a session rests on what all of them proved.
  \<^item> \<open>Broadcast_Key\<close> (\<open>broadcast.rs\<close>, \<open>broadcast_key.rs\<close>, \<open>broadcast_exchange.rs\<close>): the key all devices of an
    account settle on.
  \<^item> \<open>Framing\<close>, \<open>Message_Type\<close>, \<open>Data_Wire\<close>, \<open>Mux_Frame\<close> (\<open>tradr-proto\<close>): frames, type bytes, the messages
    of the data plane; the locale \<open>wire_message\<close> holds the framed round trip once.
  \<^item> \<open>Multiplexer\<close>, \<open>Record_Link\<close> (\<open>tradr-transport\<close>): streams over one link and records over bytes.
  \<^item> \<open>Deny_List\<close>, \<open>Sanitization\<close> (\<open>tradr-vfs/src/sanitization.rs\<close>, \<open>vfs.rs\<close>): which paths are refused and what
    becomes of the path a sender names.
  \<^item> \<open>Transfer_Session\<close>, \<open>Receive_Integrity\<close> (\<open>tradr-app/src/transfer.rs\<close>, \<open>tradr-integrity\<close>): receiving a
    file, and what that does to the files of the receive root; \<open>guarantees\<close> is the contract of an operation
    and its rules compose contracts as the code composes operations.
  \<^item> \<open>Hpke\<close>, \<open>Envelope_Seal\<close>, \<open>Envelope_Open\<close>, \<open>Envelope_Trip\<close> (\<open>hpke.rs\<close>, \<open>envelope.rs\<close>): deferred delivery.
    The writer refines cutting the whole content at once, the reader does not depend on how it is fed, what
    it hands out is authentic, and what was sealed opens.
  \<^item> \<open>Browse_Wire\<close>, \<open>Browse_Handler\<close>, \<open>Browse_Share\<close>, \<open>Browse_Stream\<close>, \<open>Browse_Tree\<close> (\<open>browse.rs\<close> of
    \<open>tradr-core\<close> and \<open>tradr-proto\<close>, \<open>upload_paths.rs\<close>): the messages of the browse plane and the
    handler that serves them. The \<open>Vfs\<close> trait is a record of functions, the locale \<open>share\<close> its documented
    contract, \<open>finite_nesting\<close> what a recursive deletion needs to return; a file tree in memory is an
    interpretation of both.

  \<^bold>\<open>Bounds and fuel\<close>

  Loops are recursive functions with a termination proof. The loops the code itself limits
  recurse on the number of tries left: the draws of a key (16), the placement of a file (32), the frames a
  session skips (16). The search for a free name counts up to the largest \<open>i32\<close>, where the code
  would panic. The receive loop of a session recurses on the events of its stream, which are finitely
  many, and no definition needs fuel beyond that. Two loops of the browse handler may run forever on a
  file system whose directories never end, so they are \<open>partial_function\<close>s whose \<open>None\<close> is not
  returning; \<open>browse_stream_ends\<close> shows that they return.

  \<^bold>\<open>Not modelled\<close>

  The operating system and the network: QUIC, TLS, Noise and Bluetooth channels, mDNS, the three
  file systems behind the \<open>Vfs\<close> trait, the secret service, HTTP and OIDC; these are calls into
  libraries whose code is not here. The Tauri plugin, the command line and the brokr client
  are glue around them. The control, link and invite messages on the wire have the
  shape of the data-plane messages; the requesting side of the browse plane is glue around its
  codec. Texts of errors, \<open>Debug\<close> and \<open>Display\<close> of errors, and zeroing of secrets have no
  counterpart.
\<close>

end
